(* ===== verification/RT_Prelude.thy ===== *)
theory RT_Prelude
  imports Main "HOL-Library.Word" "HOL-Library.Sublist" "HOL-Library.Monad_Syntax"
begin

text \<open>
  Shared ground of the development: the machine types of the program (bytes, 64-bit words,
  global pointers, byte-string keys), the two C library calls the tree code uses on buffers
  (\<open>memcmp\<close>, \<open>memcpy\<close>), the faults an operation can end in, the generic loop
  \<open>run\<close> that iterates a step function until it returns, with its total-correctness
  rule, and the generic lemmas on prefixes and lexicographic order of byte strings.
\<close>

section \<open>Machine types\<close>

type_synonym byte = "8 word"
type_synonym u64 = "64 word"
type_synonym Gptr = "64 word"
type_synonym bytes = "8 word list"

named_theorems rt_simps \<open>unfolding equations of the tree operations\<close>

text \<open>
  An operation that does not return a value ends in a fault: a failed \<open>assert\<close>
  (which also stands for the dereference of an unmapped pointer: the code asserts that
  \<open>toLocal\<close> is not null before every dereference), or an access outside of an array.
\<close>

datatype fault = AssertFail | OutOfBounds

section \<open>Loops\<close>

text \<open>
  Every loop of the program is a step function: from the local variables and the shared
  memory, one trip of the loop, which either goes on with new locals or returns. \<open>run\<close>
  iterates it; a loop that never returns has the value \<open>None\<close>.
\<close>

datatype ('l, 'r) outcome = Next 'l | Ret 'r

type_synonym ('l, 'm, 'r) stepper = "'l \<Rightarrow> 'm \<Rightarrow> ('l, 'r) outcome \<times> 'm"

partial_function (option) run ::
  "('l, 'm, 'r) stepper \<Rightarrow> 'l \<Rightarrow> 'm \<Rightarrow> ('r \<times> 'm) option" where
  "run step l m =
     (case step l m of
        (Next l', m') \<Rightarrow> run step l' m'
      | (Ret r, m') \<Rightarrow> Some (r, m'))"

declare run.simps [code]

lemma run_Next: "step l m = (Next l', m') \<Longrightarrow> run step l m = run step l' m'"
  by (simp add: run.simps [of step l m])

lemma run_Ret: "step l m = (Ret r, m') \<Longrightarrow> run step l m = Some (r, m')"
  by (simp add: run.simps [of step l m])

text \<open>
  Total correctness of a loop: an invariant, a measure that every trip which goes on
  decreases, and a postcondition that holds whenever a trip returns.
\<close>

lemma run_total:
  assumes "I l m"
    and go: "\<And>l m l' m'. I l m \<Longrightarrow> step l m = (Next l', m') \<Longrightarrow>
               I l' m' \<and> (f l' m' :: nat) < f l m"
    and ret: "\<And>l m r m'. I l m \<Longrightarrow> step l m = (Ret r, m') \<Longrightarrow> Q r m'"
  shows "\<exists>r m'. run step l m = Some (r, m') \<and> Q r m'"
  using assms(1)
proof (induction "f l m" arbitrary: l m rule: less_induct)
  case less
  show ?case
  proof (cases "step l m")
    case (Pair oc m')
    show ?thesis
    proof (cases oc)
      case (Next l')
      with Pair have st: "step l m = (Next l', m')" by simp
      from go [OF less.prems st] less.hyps [of l' m'] show ?thesis
        by (simp add: run_Next [of step, OF st])
    next
      case (Ret r)
      with Pair have st: "step l m = (Ret r, m')" by simp
      from ret [OF less.prems st] show ?thesis by (simp add: run_Ret [of step, OF st])
    qed
  qed
qed

section \<open>Buffers: memcmp and memcpy\<close>

text \<open>
  \<open>memcmp(a, b, n)\<close> compares the first \<open>n\<close> bytes as unsigned chars; only the sign of its
  result is specified. Both buffers hold at least \<open>n\<close> bytes wherever the code calls it.
\<close>

fun memcmp :: "bytes \<Rightarrow> bytes \<Rightarrow> nat \<Rightarrow> int" where
  "memcmp (x # xs) (y # ys) (Suc n) =
     (if x < y then - 1 else if y < x then 1 else memcmp xs ys n)"
| "memcmp _ _ _ = 0"

text \<open>\<open>memcpy(dst, src, n)\<close> where \<open>n\<close> is the size of the whole source string.\<close>

definition memcpy :: "bytes \<Rightarrow> bytes \<Rightarrow> bytes" where
  "memcpy dst src = src @ drop (length src) dst"

lemma length_memcpy: "length src \<le> length dst \<Longrightarrow> length (memcpy dst src) = length dst"
  by (simp add: memcpy_def)

lemma take_memcpy: "n \<le> length src \<Longrightarrow> take n (memcpy dst src) = take n src"
  by (simp add: memcpy_def)

lemma memcmp_take [simp]: "memcmp (take n xs) ys n = memcmp xs ys n"
  by (induction xs ys n rule: memcmp.induct) auto

lemma memcmp_take2 [simp]: "memcmp xs (take n ys) n = memcmp xs ys n"
  by (induction xs ys n rule: memcmp.induct) auto

lemma memcmp_eq_0:
  "n \<le> length xs \<Longrightarrow> n \<le> length ys \<Longrightarrow> memcmp xs ys n = 0 \<longleftrightarrow> take n xs = take n ys"
  by (induction xs ys n rule: memcmp.induct) (auto split: if_splits)

section \<open>Prefixes and lexicographic order of byte strings\<close>

text \<open>The order of \<open>std::string\<close> keys: unsigned bytes, a proper prefix comes first.\<close>

fun lex_less :: "bytes \<Rightarrow> bytes \<Rightarrow> bool" where
  "lex_less _ [] = False"
| "lex_less [] (_ # _) = True"
| "lex_less (x # xs) (y # ys) = (x < y \<or> x = y \<and> lex_less xs ys)"

lemma lex_less_irrefl [simp]: "\<not> lex_less xs xs"
  by (induction xs) auto

lemma lex_less_trans: "lex_less xs ys \<Longrightarrow> lex_less ys zs \<Longrightarrow> lex_less xs zs"
proof (induction xs ys arbitrary: zs rule: lex_less.induct)
  case (1 xs)
  then show ?case by simp
next
  case (2 y ys)
  then show ?case by (cases zs) auto
next
  case (3 x xs y ys)
  then show ?case by (cases zs) auto
qed

lemma lex_less_Nil: "lex_less [] ys \<longleftrightarrow> ys \<noteq> []"
  by (cases ys) auto

lemma lex_less_linear: "lex_less xs ys \<or> xs = ys \<or> lex_less ys xs"
  by (induction xs ys rule: lex_less.induct) (auto simp: lex_less_Nil)

lemma lex_less_asym: "lex_less xs ys \<Longrightarrow> \<not> lex_less ys xs"
  using lex_less_trans lex_less_irrefl by blast

lemma lex_less_append [simp]: "lex_less (p @ xs) (p @ ys) = lex_less xs ys"
  by (induction p) auto

lemma lex_less_extend [simp]: "lex_less p (p @ x # xs)"
  by (induction p) auto

text \<open>\<open>memcmp\<close> decides the order where the common length holds a difference.\<close>

lemma memcmp_neg_lex:
  "memcmp xs ys n < 0 \<Longrightarrow> lex_less (take n xs @ us) (take n ys @ vs)"
  by (induction xs ys n rule: memcmp.induct) (auto split: if_splits)

lemma memcmp_pos_lex:
  "0 < memcmp xs ys n \<Longrightarrow> lex_less (take n ys @ vs) (take n xs @ us)"
  by (induction xs ys n rule: memcmp.induct) (auto split: if_splits)

text \<open>Two extensions of one string that go on with different bytes.\<close>

lemma prefix_fork:
  assumes "prefix (p @ [c]) k" and "prefix (p @ [d]) k"
  shows "c = d"
  using assms by (auto simp: prefix_def)

lemma prefix_nth: "prefix (p @ [c]) k \<Longrightarrow> k ! length p = c"
  by (auto simp: prefix_def)

lemma prefix_snoc_nth: "prefix p k \<Longrightarrow> length p < length k \<Longrightarrow> prefix (p @ [k ! length p]) k"
  by (auto simp: prefix_def nth_append neq_Nil_conv)

lemma prefix_take_iff: "prefix xs ys \<longleftrightarrow> take (length xs) ys = xs"
  by (metis append_eq_conv_conj prefix_def take_is_prefix)

lemma prefix_of_take: "prefix p k \<Longrightarrow> length p \<le> s \<Longrightarrow> prefix p (take s k)"
  by (simp add: prefix_take_iff min_def)

lemma prefix_length_eq: "prefix p k \<Longrightarrow> length k \<le> length p \<Longrightarrow> p = k"
  by (auto simp: prefix_def)

section \<open>Searching an index range\<close>

lemma find_upt_Some:
  "find P [a..<b] = Some i \<Longrightarrow> a \<le> i \<and> i < b \<and> P i \<and> (\<forall>k. a \<le> k \<longrightarrow> k < i \<longrightarrow> \<not> P k)"
proof (induction "b - a" arbitrary: a)
  case (Suc d)
  then have ab: "a < b" by simp
  show ?case
  proof (cases "P a")
    case True
    with Suc.prems ab show ?thesis by (auto simp: upt_conv_Cons)
  next
    case False
    with Suc.prems ab have "find P [Suc a..<b] = Some i" by (simp add: upt_conv_Cons)
    with Suc.hyps(1) [of "Suc a"] Suc.hyps(2) False show ?thesis
      by (metis Suc_diff_Suc Suc_leD Suc_leI ab diff_Suc_Suc le_neq_implies_less nat.inject)
  qed
qed simp

end
