(* ===== verification/RT_Common.thy ===== *)
theory RT_Common
  imports RT_Prelude
begin

text \<open>
  The pointer types of \<open>src/include/radixtree/common.h\<close> and
  \<open>src/include/radixtree/tagindex.h\<close>: \<open>TagGptr\<close>, a 128-bit cell made of a global pointer
  (whose lowest bit can carry a mark) and a 64-bit version tag, and \<open>TagIndex\<close>, a 64-bit
  cell made of a 32-bit tag and a 32-bit index.
\<close>

unbundle bit_operations_syntax

section \<open>TagGptr\<close>

record TagGptr =
  tg_gptr :: u64
  tg_tag :: u64

definition TagGptr_default :: TagGptr where
  "TagGptr_default = \<lparr>tg_gptr = 0, tg_tag = 0\<rparr>"

definition TagGptr_of :: "u64 \<Rightarrow> TagGptr" where
  "TagGptr_of p = \<lparr>tg_gptr = p, tg_tag = 0\<rparr>"

definition mk_TagGptr :: "Gptr \<Rightarrow> u64 \<Rightarrow> TagGptr" where
  "mk_TagGptr p t = \<lparr>tg_gptr = p, tg_tag = t\<rparr>"

definition gptr_mask :: "Gptr \<Rightarrow> Gptr" where
  "gptr_mask p = p AND NOT 1"

definition mk_TagGptr_mark :: "byte \<Rightarrow> Gptr \<Rightarrow> u64 \<Rightarrow> TagGptr" where
  "mk_TagGptr_mark m p t = \<lparr>tg_gptr = gptr_mask p OR ucast (m AND 1), tg_tag = t\<rparr>"

definition tg_mark :: "TagGptr \<Rightarrow> byte" where
  "tg_mark t = ucast (tg_gptr t AND 1)"

definition tg_masked :: "TagGptr \<Rightarrow> Gptr" where
  "tg_masked t = gptr_mask (tg_gptr t)"

definition tg_nomark :: "TagGptr \<Rightarrow> Gptr" where
  "tg_nomark t = tg_gptr t"

text \<open>\<open>GlobalPtr::IsValid\<close>, as the header documents it: the pointer is not null.\<close>

definition gptr_valid :: "Gptr \<Rightarrow> bool" where
  "gptr_valid p \<longleftrightarrow> p \<noteq> 0"

definition IsValid :: "TagGptr \<Rightarrow> bool" where
  "IsValid t \<longleftrightarrow> gptr_valid (tg_gptr t)"

definition TagGptr_eq :: "TagGptr \<Rightarrow> TagGptr \<Rightarrow> bool" where
  "TagGptr_eq a b \<longleftrightarrow>
     tg_masked a = tg_masked b \<and> tg_mark a = tg_mark b \<and> tg_tag a = tg_tag b"

lemmas TagGptr_defs =
  TagGptr_default_def TagGptr_of_def mk_TagGptr_def mk_TagGptr_mark_def
  tg_masked_def tg_mark_def tg_nomark_def IsValid_def gptr_valid_def

lemma mask_split: "p = gptr_mask p OR (p AND 1)" for p :: Gptr
  unfolding gptr_mask_def by (rule bit_word_eqI) (auto simp: bit_simps)

lemma mark_bit_inj:
  fixes a b :: Gptr
  assumes "(ucast (a AND 1) :: byte) = ucast (b AND 1)"
  shows "a AND 1 = b AND 1"
proof -
  have "bit (ucast (a AND 1) :: byte) 0 = bit (ucast (b AND 1) :: byte) 0"
    using assms by simp
  then have "bit a 0 = bit b 0" by (simp add: bit_simps)
  then show ?thesis by (intro bit_word_eqI) (auto simp: bit_simps)
qed

text \<open>
  \<open>operator==\<close> compares pointer, mark and tag, which is equality of the two words: no two
  different 128-bit cells are taken for each other.
\<close>

lemma TagGptr_eq_iff [simp]: "TagGptr_eq a b \<longleftrightarrow> a = b"
proof
  assume eq: "TagGptr_eq a b"
  then have "tg_gptr a AND 1 = tg_gptr b AND 1"
    by (intro mark_bit_inj) (simp add: TagGptr_eq_def tg_mark_def)
  moreover have "gptr_mask (tg_gptr a) = gptr_mask (tg_gptr b)"
    using eq by (simp add: TagGptr_eq_def tg_masked_def)
  ultimately have "tg_gptr a = tg_gptr b" by (metis mask_split)
  with eq show "a = b" by (simp add: TagGptr_eq_def)
qed (simp add: TagGptr_eq_def)

lemma tg_masked_mark [simp]: "tg_masked (mk_TagGptr_mark m p t) = gptr_mask p"
  unfolding TagGptr_defs gptr_mask_def by (rule bit_word_eqI) (auto simp: bit_simps)

lemma tg_mark_mark [simp]: "tg_mark (mk_TagGptr_mark m p t) = m AND 1"
  unfolding TagGptr_defs gptr_mask_def by (rule bit_word_eqI) (auto simp: bit_simps)

lemma tg_tag_mark [simp]: "tg_tag (mk_TagGptr_mark m p t) = t"
  by (simp add: mk_TagGptr_mark_def)

lemma mk_TagGptr_sel [simp]:
  "tg_gptr (mk_TagGptr p t) = p" "tg_tag (mk_TagGptr p t) = t"
  by (simp_all add: mk_TagGptr_def)

lemma TagGptr_default_sel [simp]:
  "tg_gptr TagGptr_default = 0" "tg_tag TagGptr_default = 0"
  by (simp_all add: TagGptr_default_def)

lemma IsValid_simps [simp]:
  "\<not> IsValid TagGptr_default" "IsValid (mk_TagGptr p t) \<longleftrightarrow> p \<noteq> 0"
  by (simp_all add: IsValid_def gptr_valid_def)

lemma gptr_mask_even: "\<not> bit p 0 \<Longrightarrow> gptr_mask p = p"
  unfolding gptr_mask_def by (rule bit_word_eqI) (auto simp: bit_simps intro: gr0I)

section \<open>TagIndex\<close>

record TagIndex =
  ti_tag :: "32 word"
  ti_index :: "32 word"

definition TagIndex_of :: "32 word \<Rightarrow> TagIndex" where
  "TagIndex_of i = \<lparr>ti_tag = 0, ti_index = i\<rparr>"

definition TagIndex_incr :: "32 word \<Rightarrow> TagIndex \<Rightarrow> TagIndex" where
  "TagIndex_incr i t = t\<lparr>ti_index := ti_index t + i\<rparr>"

definition TagIndex_add :: "TagIndex \<Rightarrow> 32 word \<Rightarrow> TagIndex" where
  "TagIndex_add t i = t\<lparr>ti_index := ti_index t + i\<rparr>"

definition TagIndex_sub :: "TagIndex \<Rightarrow> TagIndex \<Rightarrow> TagIndex" where
  "TagIndex_sub t u = t\<lparr>ti_index := ti_index t - ti_index u\<rparr>"

text \<open>The union's \<open>i64\<close> view, little endian: the tag is the low half.\<close>

definition TagIndex_i64 :: "TagIndex \<Rightarrow> u64" where
  "TagIndex_i64 t = push_bit 32 (ucast (ti_index t)) OR ucast (ti_tag t)"

definition TagIndex_from_i64 :: "u64 \<Rightarrow> TagIndex" where
  "TagIndex_from_i64 w = \<lparr>ti_tag = ucast w, ti_index = ucast (drop_bit 32 w)\<rparr>"

text \<open>\<open>atomic_compare_and_swap\<close> and \<open>atomic_fetch_and_add\<close> on a 64-bit cell.\<close>

definition TagIndex_cas :: "u64 \<Rightarrow> TagIndex \<Rightarrow> TagIndex \<Rightarrow> TagIndex \<times> u64" where
  "TagIndex_cas cell old new =
     (TagIndex_from_i64 cell, if cell = TagIndex_i64 old then TagIndex_i64 new else cell)"

definition TagIndex_fetch_add :: "u64 \<Rightarrow> 32 word \<Rightarrow> 32 word \<times> u64" where
  "TagIndex_fetch_add cell i =
     (let t = TagIndex_from_i64 cell in (ti_index t, TagIndex_i64 (TagIndex_incr i t)))"

lemma TagIndex_roundtrip [simp]: "TagIndex_from_i64 (TagIndex_i64 t) = t"
proof -
  have "(ucast (TagIndex_i64 t) :: 32 word) = ti_tag t"
    unfolding TagIndex_i64_def by (rule bit_word_eqI) (auto simp: bit_simps)
  moreover have "(ucast (drop_bit 32 (TagIndex_i64 t)) :: 32 word) = ti_index t"
    unfolding TagIndex_i64_def
    by (rule bit_word_eqI) (auto simp: bit_simps dest: bit_imp_le_length)
  ultimately show ?thesis by (simp add: TagIndex_from_i64_def)
qed

lemma TagIndex_i64_inj [simp]: "TagIndex_i64 a = TagIndex_i64 b \<longleftrightarrow> a = b"
  by (metis TagIndex_roundtrip)

lemma TagIndex_cas_spec:
  "TagIndex_cas (TagIndex_i64 c) old new =
     (c, TagIndex_i64 (if c = old then new else c))"
  by (simp add: TagIndex_cas_def)

lemma TagIndex_fetch_add_spec:
  "TagIndex_fetch_add (TagIndex_i64 c) i = (ti_index c, TagIndex_i64 (TagIndex_incr i c))"
  by (simp add: TagIndex_fetch_add_def)

end
