(* ===== verification/RT_Heap.thy ===== *)
theory RT_Heap
  imports RT_Common
begin

text \<open>
  The memory the radix tree lives in: \<open>struct RadixTree::Node\<close> of
  \<open>src/src/radix_tree.cc\<close>, the fabric-attached memory as a store of nodes, the atomic
  accesses of the tree (\<open>cas64\<close>, \<open>casTagGptr\<close>, \<open>loadTagGptr\<close>), and the NVMM library,
  which is not part of the repository: its heap and its \<open>fam_memcmp\<close> are a parameter
  \<open>nvmm\<close> of the model, and \<open>nvmm_ok\<close> is what the code relies on.
\<close>

section \<open>Nodes\<close>

definition MAX_KEY_LEN :: nat where
  "MAX_KEY_LEN = 128"

record Node =
  node_key :: bytes
  prefix_size :: nat
  child :: "byte \<Rightarrow> Gptr"
  node_value :: TagGptr

text \<open>\<open>sizeof(Node)\<close>: 128 bytes of key, a \<open>size_t\<close>, 256 pointers, the 16-byte aligned value.\<close>

definition NODE_SIZE :: nat where
  "NODE_SIZE = 2208"

definition zero_node :: Node where
  "zero_node = \<lparr>node_key = replicate MAX_KEY_LEN 0, prefix_size = 0, child = (\<lambda>_. 0),
                node_value = TagGptr_default\<rparr>"

text \<open>The part of the key buffer that names the node.\<close>

definition pfx :: "Node \<Rightarrow> bytes" where
  "pfx n = take (prefix_size n) (node_key n)"

type_synonym nodes = "Gptr \<rightharpoonup> Node"

section \<open>NVMM\<close>

text \<open>
  The operations of an \<open>nvmm::Heap\<close> over its opaque state, the byte comparison
  \<open>fam_memcmp\<close>, and two observers that only statements use: the memory the program owns
  and what a freshly allocated block holds.
\<close>

record 'h nvmm =
  nv_alloc :: "nat \<Rightarrow> 'h \<Rightarrow> Gptr \<times> 'h"
  nv_free :: "Gptr \<Rightarrow> 'h \<Rightarrow> 'h"
  nv_size :: "'h \<Rightarrow> nat"
  nv_resize :: "nat \<Rightarrow> 'h \<Rightarrow> bool \<times> 'h"
  nv_memcmp :: "bytes \<Rightarrow> bytes \<Rightarrow> nat \<Rightarrow> int"
  nv_offline_free :: "'h \<Rightarrow> 'h"
  nv_live :: "'h \<Rightarrow> Gptr set"
  nv_raw :: "Gptr \<Rightarrow> 'h \<Rightarrow> Node"

text \<open>
  The contract. \<open>Alloc\<close> returns null (and takes nothing) or a block the program did not own,
  aligned, never null; \<open>Free\<close> gives one block back; \<open>Resize\<close> moves nothing; \<open>OfflineFree\<close>
  works on blocks that were given back before;
  \<open>fam_memcmp\<close> has the sign of \<open>memcmp\<close>; a fresh block is zero filled, which the
  code needs because \<open>put\<close> never writes the child array of a new leaf nor the value of a
  new intermediate node.
\<close>

definition nvmm_alloc_ok :: "'h nvmm \<Rightarrow> bool" where
  "nvmm_alloc_ok nv \<longleftrightarrow>
     (\<forall>sz h p h'. nv_alloc nv sz h = (p, h') \<longrightarrow>
        (if p = 0 then nv_live nv h' = nv_live nv h
         else p \<notin> nv_live nv h \<and> \<not> bit p 0 \<and> nv_live nv h' = insert p (nv_live nv h)))"

definition nvmm_free_ok :: "'h nvmm \<Rightarrow> bool" where
  "nvmm_free_ok nv \<longleftrightarrow> (\<forall>p h. nv_live nv (nv_free nv p h) = nv_live nv h - {p})"

definition nvmm_resize_ok :: "'h nvmm \<Rightarrow> bool" where
  "nvmm_resize_ok nv \<longleftrightarrow> (\<forall>sz h. nv_live nv (snd (nv_resize nv sz h)) = nv_live nv h)"

definition nvmm_offline_ok :: "'h nvmm \<Rightarrow> bool" where
  "nvmm_offline_ok nv \<longleftrightarrow> (\<forall>h. nv_live nv (nv_offline_free nv h) = nv_live nv h)"

definition nvmm_zero_ok :: "'h nvmm \<Rightarrow> bool" where
  "nvmm_zero_ok nv \<longleftrightarrow>
     (\<forall>sz h p h'. nv_alloc nv sz h = (p, h') \<longrightarrow> p \<noteq> 0 \<longrightarrow> nv_raw nv p h' = zero_node)"

definition nvmm_memcmp_ok :: "'h nvmm \<Rightarrow> bool" where
  "nvmm_memcmp_ok nv \<longleftrightarrow> (\<forall>a b n. sgn (nv_memcmp nv a b n) = sgn (memcmp a b n))"

definition nvmm_ok :: "'h nvmm \<Rightarrow> bool" where
  "nvmm_ok nv \<longleftrightarrow> nvmm_alloc_ok nv \<and> nvmm_free_ok nv \<and> nvmm_resize_ok nv \<and>
     nvmm_zero_ok nv \<and> nvmm_memcmp_ok nv \<and> nvmm_offline_ok nv"

text \<open>The heap can serve \<open>k\<close> more nodes: what an insertion needs in order not to abort.\<close>

fun nvmm_serves :: "'h nvmm \<Rightarrow> nat \<Rightarrow> 'h \<Rightarrow> bool" where
  "nvmm_serves nv 0 h = True"
| "nvmm_serves nv (Suc k) h =
     (let (p, h') = nv_alloc nv NODE_SIZE h in p \<noteq> 0 \<and> nvmm_serves nv k h')"

section \<open>The fabric-attached memory\<close>

record 'h fam =
  fam_nodes :: nodes
  fam_heap :: 'h

definition store_node :: "Gptr \<Rightarrow> Node \<Rightarrow> 'h fam \<Rightarrow> 'h fam" where
  "store_node p n m = m\<lparr>fam_nodes := (fam_nodes m)(p \<mapsto> n)\<rparr>"

text \<open>\<open>heap->Free(ptr)\<close> under the code's guard \<open>if (ptr)\<close>.\<close>

definition free_node :: "'h nvmm \<Rightarrow> Gptr \<Rightarrow> 'h fam \<Rightarrow> 'h fam" where
  "free_node nv p m =
     (if p = 0 then m
      else m\<lparr>fam_nodes := (fam_nodes m)(p := None), fam_heap := nv_free nv p (fam_heap m)\<rparr>)"

text \<open>
  \<open>cas64(p, old, new)\<close> on a child slot \<open>p = &n->child[c]\<close>: the value seen, and the store
  when it is the expected one.
\<close>

definition cas64 :: "Gptr \<times> byte \<Rightarrow> Gptr \<Rightarrow> Gptr \<Rightarrow> 'h fam \<Rightarrow> fault + Gptr \<times> 'h fam" where
  "cas64 = (\<lambda>(a, c) old new m.
     (case fam_nodes m a of
        None \<Rightarrow> Inl AssertFail
      | Some n \<Rightarrow>
          Inr (child n c,
               if child n c = old
               then store_node a (n\<lparr>child := (child n)(c := new)\<rparr>) m else m)))"

text \<open>\<open>casTagGptr(&n->value, old, new)\<close> and \<open>loadTagGptr\<close> on the value cell of node \<open>a\<close>.\<close>

definition casTagGptr ::
  "Gptr \<Rightarrow> TagGptr \<Rightarrow> TagGptr \<Rightarrow> 'h fam \<Rightarrow> fault + TagGptr \<times> 'h fam" where
  "casTagGptr a old new m =
     (case fam_nodes m a of
        None \<Rightarrow> Inl AssertFail
      | Some n \<Rightarrow>
          Inr (node_value n,
               if node_value n = old then store_node a (n\<lparr>node_value := new\<rparr>) m else m))"

definition loadTagGptr :: "Gptr \<Rightarrow> 'h fam \<Rightarrow> fault + TagGptr" where
  "loadTagGptr a m =
     (case fam_nodes m a of None \<Rightarrow> Inl AssertFail | Some n \<Rightarrow> Inr (node_value n))"

section \<open>Allocation of a node\<close>

text \<open>
  The loop \<open>while (ptr == 0 && (cnt--) > 0) ptr = heap->Alloc(sizeof(Node))\<close>, then one
  \<open>Resize\<close> to twice the size and a last attempt, with the asserts of the code.
\<close>

definition alloc_retry_cnt :: nat where
  "alloc_retry_cnt = 1000"

fun alloc_retry :: "'h nvmm \<Rightarrow> nat \<Rightarrow> nat \<Rightarrow> Gptr \<Rightarrow> 'h \<Rightarrow> Gptr \<times> 'h" where
  "alloc_retry nv sz 0 p h = (p, h)"
| "alloc_retry nv sz (Suc cnt) p h =
     (if p = 0 then (let (p', h') = nv_alloc nv sz h in alloc_retry nv sz cnt p' h')
      else (p, h))"

definition resize_alloc :: "'h nvmm \<Rightarrow> nat \<Rightarrow> 'h \<Rightarrow> (fault + Gptr) \<times> 'h" where
  "resize_alloc nv sz h =
     (let (ok, h1) = nv_resize nv (2 * nv_size nv h) h
      in if \<not> ok then (Inl AssertFail, h1)
         else (let (p, h2) = nv_alloc nv sz h1
               in if gptr_valid p then (Inr p, h2) else (Inl AssertFail, h2)))"

definition alloc_node :: "'h nvmm \<Rightarrow> 'h \<Rightarrow> (fault + Gptr) \<times> 'h" where
  "alloc_node nv h =
     (let (p, h1) = alloc_retry nv NODE_SIZE alloc_retry_cnt 0 h
      in if gptr_valid p then (Inr p, h1) else resize_alloc nv NODE_SIZE h1)"

section \<open>Lemmas on the memory and on allocation\<close>

lemma store_node_sel [simp]:
  "fam_nodes (store_node p n m) = (fam_nodes m)(p \<mapsto> n)"
  "fam_heap (store_node p n m) = fam_heap m"
  by (simp_all add: store_node_def)

lemma free_node_null [simp]: "free_node nv 0 m = m"
  by (simp add: free_node_def)

lemma nvmm_okD:
  assumes "nvmm_ok nv"
  shows "nvmm_alloc_ok nv" "nvmm_free_ok nv" "nvmm_resize_ok nv" "nvmm_zero_ok nv"
    "nvmm_memcmp_ok nv" "nvmm_offline_ok nv"
  using assms by (simp_all add: nvmm_ok_def)

lemma sgn_int_eq_iff:
  fixes a b :: int
  assumes "sgn a = sgn b"
  shows "a = 0 \<longleftrightarrow> b = 0" "a < 0 \<longleftrightarrow> b < 0" "0 < a \<longleftrightarrow> 0 < b"
  using assms by (auto simp: sgn_if split: if_splits)

lemma nv_memcmp_iff:
  assumes "nvmm_ok nv"
  shows "nv_memcmp nv a b n = 0 \<longleftrightarrow> memcmp a b n = 0"
    "nv_memcmp nv a b n < 0 \<longleftrightarrow> memcmp a b n < 0"
    "0 < nv_memcmp nv a b n \<longleftrightarrow> 0 < memcmp a b n"
  using nvmm_okD(5) [OF assms] sgn_int_eq_iff [of "nv_memcmp nv a b n" "memcmp a b n"]
  by (simp_all add: nvmm_memcmp_ok_def)

text \<open>What a successful and what a failed allocation do to the memory the program owns.\<close>

definition fresh_block :: "'h nvmm \<Rightarrow> 'h \<Rightarrow> Gptr \<Rightarrow> 'h \<Rightarrow> bool" where
  "fresh_block nv h p h' \<longleftrightarrow> p \<noteq> 0 \<and> p \<notin> nv_live nv h \<and> \<not> bit p 0 \<and>
     nv_live nv h' = insert p (nv_live nv h) \<and> nv_raw nv p h' = zero_node"

lemma nv_alloc_cases:
  assumes "nvmm_ok nv" "nv_alloc nv sz h = (p, h')"
  shows "(p = 0 \<and> nv_live nv h' = nv_live nv h) \<or> fresh_block nv h p h'"
  using nvmm_okD(1) [OF assms(1), unfolded nvmm_alloc_ok_def, rule_format, OF assms(2)]
    nvmm_okD(4) [OF assms(1), unfolded nvmm_zero_ok_def, rule_format, OF assms(2)]
  by (simp add: fresh_block_def split: if_splits)

lemma fresh_block_live_cong:
  "nv_live nv h = nv_live nv h0 \<Longrightarrow> fresh_block nv h p h' = fresh_block nv h0 p h'"
  by (simp add: fresh_block_def)

lemma alloc_retry_cases:
  assumes "nvmm_ok nv" "alloc_retry nv sz cnt 0 h = (p, h')"
  shows "(p = 0 \<and> nv_live nv h' = nv_live nv h) \<or> fresh_block nv h p h'"
  using assms(2)
proof (induction cnt arbitrary: h)
  case 0
  then show ?case by simp
next
  case (Suc cnt)
  obtain q h1 where q: "nv_alloc nv sz h = (q, h1)" by fastforce
  show ?case
  proof (cases "q = 0")
    case True
    with Suc.prems q have "alloc_retry nv sz cnt 0 h1 = (p, h')" by simp
    from Suc.IH [OF this] nv_alloc_cases [OF assms(1) q] True
    show ?thesis by (auto simp: fresh_block_def)
  next
    case False
    with Suc.prems q have "p = q" "h' = h1" by (cases cnt; simp)+
    with nv_alloc_cases [OF assms(1) q] show ?thesis by simp
  qed
qed

lemma resize_alloc_cases:
  assumes "nvmm_ok nv" "resize_alloc nv sz h = (r, h')"
  shows "(r = Inl AssertFail \<and> nv_live nv h' = nv_live nv h) \<or>
         (\<exists>p. r = Inr p \<and> fresh_block nv h p h')"
proof -
  obtain ok h1 where rs: "nv_resize nv (2 * nv_size nv h) h = (ok, h1)" by fastforce
  have live: "nv_live nv h1 = nv_live nv h"
    using nvmm_okD(3) [OF assms(1)] rs unfolding nvmm_resize_ok_def by (metis snd_conv)
  obtain p h2 where al: "nv_alloc nv sz h1 = (p, h2)" by fastforce
  from nv_alloc_cases [OF assms(1) al] assms(2) rs al live show ?thesis
    by (auto simp: resize_alloc_def gptr_valid_def fresh_block_def split: if_splits)
qed

lemma alloc_node_cases:
  assumes "nvmm_ok nv" "alloc_node nv h = (r, h')"
  obtains (abort) "r = Inl AssertFail" "nv_live nv h' = nv_live nv h"
  | (block) p where "r = Inr p" "fresh_block nv h p h'"
proof -
  obtain p h1 where rt: "alloc_retry nv NODE_SIZE alloc_retry_cnt 0 h = (p, h1)" by fastforce
  note c = alloc_retry_cases [OF assms(1) rt]
  show thesis
  proof (cases "p = 0")
    case True
    with assms(2) rt have "resize_alloc nv NODE_SIZE h1 = (r, h')"
      by (simp add: alloc_node_def gptr_valid_def)
    from resize_alloc_cases [OF assms(1) this] c True that show thesis
      by (auto simp: fresh_block_def)
  next
    case False
    with assms(2) rt c that show thesis
      by (auto simp: alloc_node_def gptr_valid_def)
  qed
qed

lemma alloc_retry_hit:
  "nv_alloc nv sz h = (p, h') \<Longrightarrow> p \<noteq> 0 \<Longrightarrow> alloc_retry nv sz (Suc cnt) 0 h = (p, h')"
  by (cases cnt) simp_all

lemma alloc_node_hit:
  assumes "nv_alloc nv NODE_SIZE h = (p, h')" "p \<noteq> 0"
  shows "alloc_node nv h = (Inr p, h')"
proof -
  obtain cnt where "alloc_retry_cnt = Suc cnt"
    using not0_implies_Suc [of alloc_retry_cnt] by (auto simp: alloc_retry_cnt_def)
  then have "alloc_retry nv NODE_SIZE alloc_retry_cnt 0 h = (p, h')"
    using alloc_retry_hit [OF assms, of cnt] by simp
  with assms(2) show ?thesis unfolding alloc_node_def by (simp add: gptr_valid_def)
qed

lemma nvmm_serves_alloc:
  assumes "nvmm_serves nv (Suc k) h"
  obtains p h' where "alloc_node nv h = (Inr p, h')" "nvmm_serves nv k h'"
  using assms alloc_node_hit [of nv h] by (auto simp: split: prod.splits)

section \<open>A concrete heap\<close>

text \<open>
  An instance of the parameter: a bump allocator over 64-byte lines that remembers what is
  live. The contract holds of it, so it can be met.
\<close>

record bump_heap =
  bump_next :: nat
  bump_live :: "Gptr list"

definition bump_alloc :: "nat \<Rightarrow> bump_heap \<Rightarrow> Gptr \<times> bump_heap" where
  "bump_alloc sz h =
     (let p = of_nat (64 * (bump_next h + 1))
      in if p = 0 \<or> bit p 0 \<or> p \<in> set (bump_live h) then (0, h)
         else (p, h\<lparr>bump_next := bump_next h + 1, bump_live := p # bump_live h\<rparr>))"

definition bump_nvmm :: "bump_heap nvmm" where
  "bump_nvmm =
     \<lparr>nv_alloc = bump_alloc,
      nv_free = (\<lambda>p h. h\<lparr>bump_live := filter (\<lambda>q. q \<noteq> p) (bump_live h)\<rparr>),
      nv_size = (\<lambda>h. 64 * bump_next h), nv_resize = (\<lambda>sz h. (True, h)), nv_memcmp = memcmp,
      nv_offline_free = (\<lambda>h. h),
      nv_live = (\<lambda>h. set (bump_live h)), nv_raw = (\<lambda>p h. zero_node)\<rparr>"

definition bump_fam :: "bump_heap fam" where
  "bump_fam = \<lparr>fam_nodes = Map.empty, fam_heap = \<lparr>bump_next = 0, bump_live = []\<rparr>\<rparr>"

lemma bump_nvmm_ok: "nvmm_ok bump_nvmm"
  by (auto simp: nvmm_ok_def nvmm_alloc_ok_def nvmm_free_ok_def nvmm_resize_ok_def
      nvmm_zero_ok_def nvmm_memcmp_ok_def nvmm_offline_ok_def bump_nvmm_def bump_alloc_def Let_def split: if_splits)

end
