(* ===== verification/RT_Tree.thy ===== *)
theory RT_Tree
  imports RT_Heap
begin

text \<open>
  The operations of \<open>class RadixTree\<close> (\<open>src/src/radix_tree.cc\<close>,
  \<open>src/include/radixtree/radix_tree.h\<close>) except the range scan: the constructor,
  \<open>put\<close>, \<open>get\<close>, \<open>destroy\<close>, the variants \<open>putC\<close>, \<open>getC\<close>, \<open>destroyC\<close> for the
  DRAM cache, \<open>list\<close> and \<open>structure\<close>. A loop is a step function: one step is the code
  between two accesses to shared memory, so the same definition serves a caller that is alone
  (\<open>run\<close> iterates it) and callers that interleave.
\<close>

datatype UpdateFlags = FIND_OR_CREATE | UPDATE

text \<open>\<open>assert(key_size > 0 && key_size <= MAX_KEY_LEN)\<close>\<close>

definition key_ok :: "bytes \<Rightarrow> bool" where
  "key_ok key \<longleftrightarrow> 0 < length key \<and> length key \<le> MAX_KEY_LEN"

section \<open>Constructor\<close>

definition RadixTree_create :: "'h nvmm \<Rightarrow> Gptr \<Rightarrow> 'h fam \<Rightarrow> (fault + Gptr) \<times> 'h fam" where
  "RadixTree_create nv root m =
     (if root \<noteq> 0 then (Inr root, m)
      else
        (let (p, h1) = nv_alloc nv NODE_SIZE (fam_heap m);
             (r, h2) = (if gptr_valid p then (Inr p, h1) else resize_alloc nv NODE_SIZE h1)
         in case r of
              Inl f \<Rightarrow> (Inl f, m\<lparr>fam_heap := h2\<rparr>)
            | Inr rt \<Rightarrow>
                (Inr rt,
                 store_node rt
                   ((nv_raw nv rt h2)\<lparr>prefix_size := 0, child := (\<lambda>_. 0),
                                      node_value := TagGptr_default\<rparr>)
                   (m\<lparr>fam_heap := h2\<rparr>))))"

section \<open>Get\<close>

text \<open>One trip of the loop of \<open>get\<close>; the local variable is \<open>q\<close>.\<close>

definition get_step :: "'h nvmm \<Rightarrow> bytes \<Rightarrow> (Gptr, 'h fam, fault + TagGptr) stepper" where
  "get_step nv key q m =
     (if q = 0 then (Ret (Inr TagGptr_default), m)
      else case fam_nodes m q of
        None \<Rightarrow> (Ret (Inl AssertFail), m)
      | Some n \<Rightarrow>
          if nv_memcmp nv key (node_key n) (min (prefix_size n) (length key)) \<noteq> 0
          then (Ret (Inr TagGptr_default), m)
          else if prefix_size n = length key then (Ret (loadTagGptr q m), m)
          else if length key < prefix_size n then (Ret (Inr TagGptr_default), m)
          else (Next (child n (key ! prefix_size n)), m))"

definition get :: "'h nvmm \<Rightarrow> Gptr \<Rightarrow> bytes \<Rightarrow> 'h fam \<Rightarrow> ((fault + TagGptr) \<times> 'h fam) option" where
  "get nv root key m =
     (if key_ok key then run (get_step nv key) root m else Some (Inl AssertFail, m))"

text \<open>
  \<open>getC(key)\<close> also returns the node, and indexes \<open>key[min(prefix_size, key_size)]\<close> without
  \<open>get\<close>'s guard: past the end of the key when the node's prefix is longer than the key.
\<close>

definition getC_step ::
  "'h nvmm \<Rightarrow> bytes \<Rightarrow> (Gptr, 'h fam, fault + Gptr \<times> TagGptr) stepper" where
  "getC_step nv key q m =
     (if q = 0 then (Ret (Inr (0, TagGptr_default)), m)
      else case fam_nodes m q of
        None \<Rightarrow> (Ret (Inl AssertFail), m)
      | Some n \<Rightarrow>
          if nv_memcmp nv key (node_key n) (min (prefix_size n) (length key)) \<noteq> 0
          then (Ret (Inr (0, TagGptr_default)), m)
          else if prefix_size n = length key
          then (Ret (map_sum id (\<lambda>tq. (q, tq)) (loadTagGptr q m)), m)
          else (let i = min (prefix_size n) (length key)
                in if i < length key then (Next (child n (key ! i)), m)
                   else (Ret (Inl OutOfBounds), m)))"

definition getC ::
  "'h nvmm \<Rightarrow> Gptr \<Rightarrow> bytes \<Rightarrow> 'h fam \<Rightarrow> ((fault + Gptr \<times> TagGptr) \<times> 'h fam) option" where
  "getC nv root key m =
     (if key_ok key then run (getC_step nv key) root m else Some (Inl AssertFail, m))"

text \<open>\<open>getC(key_ptr)\<close>: the shortcut through a cached node pointer.\<close>

definition getC_ptr :: "Gptr \<Rightarrow> 'h fam \<Rightarrow> fault + TagGptr" where
  "getC_ptr key_ptr m = (if key_ptr = 0 then Inl AssertFail else loadTagGptr key_ptr m)"

section \<open>The value cell: the CAS loop shared by put, destroy and their variants\<close>

text \<open>
  One trip of \<open>for (;;) { seen = casTagGptr(tp, tq, TagGptr(value, tq.tag() + 1)); \<dots> }\<close>:
  the locals are the node and the value last seen; the result is the old and the new cell.
\<close>

definition value_step ::
  "Gptr \<Rightarrow> Gptr \<Rightarrow> (TagGptr, 'h fam, fault + TagGptr \<times> TagGptr) stepper" where
  "value_step q value tq m =
     (let new_value = mk_TagGptr value (tg_tag tq + 1)
      in case casTagGptr q tq new_value m of
           Inl f \<Rightarrow> (Ret (Inl f), m)
         | Inr (seen, m') \<Rightarrow>
             if TagGptr_eq seen tq then (Ret (Inr (tq, new_value)), m') else (Next seen, m'))"

text \<open>\<open>putC(key_ptr, value)\<close> and \<open>destroyC(key_ptr)\<close>.\<close>

definition update_ptr ::
  "Gptr \<Rightarrow> Gptr \<Rightarrow> 'h fam \<Rightarrow> ((fault + TagGptr \<times> TagGptr) \<times> 'h fam) option" where
  "update_ptr key_ptr value m =
     (if key_ptr = 0 then Some (Inl AssertFail, m)
      else case loadTagGptr key_ptr m of
        Inl f \<Rightarrow> Some (Inl f, m)
      | Inr tq \<Rightarrow> run (value_step key_ptr value) tq m)"

definition putC_ptr ::
  "Gptr \<Rightarrow> Gptr \<Rightarrow> 'h fam \<Rightarrow> ((fault + TagGptr \<times> TagGptr) \<times> 'h fam) option" where
  "putC_ptr key_ptr value m = update_ptr key_ptr value m"

definition destroyC_ptr ::
  "Gptr \<Rightarrow> 'h fam \<Rightarrow> ((fault + TagGptr \<times> TagGptr) \<times> 'h fam) option" where
  "destroyC_ptr key_ptr m = update_ptr key_ptr 0 m"

section \<open>Destroy\<close>

datatype destroy_local = DSearch Gptr | DUpdate Gptr TagGptr

text \<open>
  \<open>destroy\<close> and \<open>destroyC\<close> walk down like \<open>get\<close> and \<open>getC\<close> and null the value of the node
  they find. The result is the node, the old and the new cell.
\<close>

definition destroy_at ::
  "Gptr \<Rightarrow> TagGptr \<Rightarrow> 'h fam \<Rightarrow> (destroy_local, fault + Gptr \<times> TagGptr \<times> TagGptr) outcome \<times> 'h fam"
  where
  "destroy_at q tq m =
     (case value_step q 0 tq m of
        (Ret (Inl f), m') \<Rightarrow> (Ret (Inl f), m')
      | (Ret (Inr (old, new)), m') \<Rightarrow> (Ret (Inr (q, old, new)), m')
      | (Next seen, m') \<Rightarrow> (Next (DUpdate q seen), m'))"

definition destroy_none :: "Gptr \<times> TagGptr \<times> TagGptr" where
  "destroy_none = (0, TagGptr_default, TagGptr_default)"

fun destroy_step ::
  "'h nvmm \<Rightarrow> bytes \<Rightarrow> (destroy_local, 'h fam, fault + Gptr \<times> TagGptr \<times> TagGptr) stepper" where
  "destroy_step nv key (DSearch q) m =
     (if q = 0 then (Ret (Inr destroy_none), m)
      else case fam_nodes m q of
        None \<Rightarrow> (Ret (Inl AssertFail), m)
      | Some n \<Rightarrow>
          if nv_memcmp nv key (node_key n) (min (prefix_size n) (length key)) \<noteq> 0
          then (Ret (Inr destroy_none), m)
          else if prefix_size n = length key
          then (case loadTagGptr q m of
                  Inl f \<Rightarrow> (Ret (Inl f), m) | Inr tq \<Rightarrow> (Next (DUpdate q tq), m))
          else if length key < prefix_size n then (Ret (Inr destroy_none), m)
          else (Next (DSearch (child n (key ! prefix_size n))), m))"
| "destroy_step nv key (DUpdate q tq) m = destroy_at q tq m"

definition destroy ::
  "'h nvmm \<Rightarrow> Gptr \<Rightarrow> bytes \<Rightarrow> 'h fam \<Rightarrow> ((fault + TagGptr) \<times> 'h fam) option" where
  "destroy nv root key m =
     (if key_ok key
      then map_option (map_prod (map_sum id (fst \<circ> snd)) id)
             (run (destroy_step nv key) (DSearch root) m)
      else Some (Inl AssertFail, m))"

fun destroyC_step ::
  "'h nvmm \<Rightarrow> bytes \<Rightarrow> (destroy_local, 'h fam, fault + Gptr \<times> TagGptr \<times> TagGptr) stepper" where
  "destroyC_step nv key (DSearch q) m =
     (if q = 0 then (Ret (Inr destroy_none), m)
      else case fam_nodes m q of
        None \<Rightarrow> (Ret (Inl AssertFail), m)
      | Some n \<Rightarrow>
          if nv_memcmp nv key (node_key n) (min (prefix_size n) (length key)) \<noteq> 0
          then (Ret (Inr destroy_none), m)
          else if prefix_size n = length key
          then (case loadTagGptr q m of
                  Inl f \<Rightarrow> (Ret (Inl f), m) | Inr tq \<Rightarrow> (Next (DUpdate q tq), m))
          else (let i = min (prefix_size n) (length key)
                in if i < length key then (Next (DSearch (child n (key ! i))), m)
                   else (Ret (Inl OutOfBounds), m)))"
| "destroyC_step nv key (DUpdate q tq) m = destroy_at q tq m"

definition destroyC ::
  "'h nvmm \<Rightarrow> Gptr \<Rightarrow> bytes \<Rightarrow> 'h fam \<Rightarrow>
   ((fault + Gptr \<times> TagGptr \<times> TagGptr) \<times> 'h fam) option" where
  "destroyC nv root key m =
     (if key_ok key then run (destroyC_step nv key) (DSearch root) m
      else Some (Inl AssertFail, m))"

section \<open>Put\<close>

text \<open>
  The locals of \<open>put\<close> and \<open>putC\<close>: \<open>p\<close> (the address of a child slot), \<open>q\<close>, the two
  nodes the call may have allocated, the length of the common prefix and the byte under
  which the old node is linked after a split. The program counter names the loop heads and
  the CAS instructions.
\<close>

datatype put_pc =
    Find
  | UpdateValue TagGptr
  | InsertLeaf
  | CasLeaf
  | Split
  | CasSplit

record put_local =
  put_pc :: put_pc
  slot :: "(Gptr \<times> byte) option"
  cur_q :: Gptr
  new_leaf_ptr :: Gptr
  intermediate_node_ptr :: Gptr
  split_size :: nat
  existing :: byte

definition put_init :: "Gptr \<Rightarrow> put_local" where
  "put_init root =
     \<lparr>put_pc = Find, slot = None, cur_q = root, new_leaf_ptr = 0, intermediate_node_ptr = 0,
      split_size = 0, existing = 0\<rparr>"

record put_result =
  put_key :: Gptr
  put_old :: TagGptr
  put_new :: TagGptr

type_synonym 'h put_out = "(put_local, fault + put_result) outcome \<times> 'h fam"

text \<open>\<open>for (i = 0; i < max_i; i++) if (key[i] != n->key[i]) break;\<close>\<close>

fun match_len :: "nat \<Rightarrow> bytes \<Rightarrow> bytes \<Rightarrow> nat" where
  "match_len (Suc max_i) (x # xs) (y # ys) = (if x = y then Suc (match_len max_i xs ys) else 0)"
| "match_len _ _ _ = 0"

text \<open>
  The body of \<open>while (q != 0)\<close>: compare the key with the node's prefix, then split, use the
  node, or go down; and the exit of the loop towards case 1 when \<open>q == 0\<close>.
\<close>

definition put_find ::
  "'h nvmm \<Rightarrow> bytes \<Rightarrow> UpdateFlags \<Rightarrow> put_local \<Rightarrow> 'h fam \<Rightarrow> 'h put_out" where
  "put_find nv key update l m =
     (if cur_q l = 0 then (Next (l\<lparr>put_pc := InsertLeaf\<rparr>), m)
      else case fam_nodes m (cur_q l) of
        None \<Rightarrow> (Ret (Inl AssertFail), m)
      | Some n \<Rightarrow>
          (let i = match_len (min (length key) (prefix_size n)) key (node_key n)
           in if i < prefix_size n
              then (Next (l\<lparr>put_pc := Split, split_size := i, existing := node_key n ! i\<rparr>), m)
              else if length key = i
              then (let m' = free_node nv (new_leaf_ptr l)
                               (free_node nv (intermediate_node_ptr l) m);
                        tq = node_value n
                    in if update = FIND_OR_CREATE \<and> IsValid tq
                       then (Ret (Inr \<lparr>put_key = cur_q l, put_old = tq, put_new = tq\<rparr>), m')
                       else (Next (l\<lparr>put_pc := UpdateValue tq\<rparr>), m'))
              else (Next (l\<lparr>slot := Some (cur_q l, key ! i), cur_q := child n (key ! i)\<rparr>), m)))"

definition put_update :: "Gptr \<Rightarrow> TagGptr \<Rightarrow> put_local \<Rightarrow> 'h fam \<Rightarrow> 'h put_out" where
  "put_update value tq l m =
     (case value_step (cur_q l) value tq m of
        (Ret (Inl f), m') \<Rightarrow> (Ret (Inl f), m')
      | (Ret (Inr (old, new)), m') \<Rightarrow>
          (Ret (Inr \<lparr>put_key = cur_q l, put_old = old, put_new = new\<rparr>), m')
      | (Next seen, m') \<Rightarrow> (Next (l\<lparr>put_pc := UpdateValue seen\<rparr>), m'))"

text \<open>Allocation and initialisation of the new leaf: key, prefix size and value only.\<close>

definition make_leaf ::
  "'h nvmm \<Rightarrow> bytes \<Rightarrow> Gptr \<Rightarrow> Gptr \<Rightarrow> 'h fam \<Rightarrow> (fault + Gptr) \<times> 'h fam" where
  "make_leaf nv key value leaf m =
     (if leaf \<noteq> 0 then (Inr leaf, m)
      else case alloc_node nv (fam_heap m) of
        (Inl f, h) \<Rightarrow> (Inl f, m\<lparr>fam_heap := h\<rparr>)
      | (Inr p, h) \<Rightarrow>
          (let raw = nv_raw nv p h
           in (Inr p,
               store_node p
                 (raw\<lparr>node_key := memcpy (node_key raw) key, prefix_size := length key,
                      node_value := mk_TagGptr value 0\<rparr>)
                 (m\<lparr>fam_heap := h\<rparr>))))"

text \<open>Allocation of the intermediate node: key and children only.\<close>

definition make_intermediate ::
  "'h nvmm \<Rightarrow> bytes \<Rightarrow> Gptr \<Rightarrow> 'h fam \<Rightarrow> (fault + Gptr) \<times> 'h fam" where
  "make_intermediate nv key im_ptr m =
     (if im_ptr \<noteq> 0 then (Inr im_ptr, m)
      else case alloc_node nv (fam_heap m) of
        (Inl f, h) \<Rightarrow> (Inl f, m\<lparr>fam_heap := h\<rparr>)
      | (Inr p, h) \<Rightarrow>
          (let raw = nv_raw nv p h
           in (Inr p,
               store_node p
                 (raw\<lparr>node_key := memcpy (node_key raw) key, child := (\<lambda>_. 0)\<rparr>)
                 (m\<lparr>fam_heap := h\<rparr>))))"

text \<open>Case 1: no split, a new leaf is linked into the empty slot.\<close>

definition put_insert_leaf :: "'h nvmm \<Rightarrow> bytes \<Rightarrow> Gptr \<Rightarrow> put_local \<Rightarrow> 'h fam \<Rightarrow> 'h put_out" where
  "put_insert_leaf nv key value l m =
     (case make_leaf nv key value (new_leaf_ptr l) m of
        (Inl f, m') \<Rightarrow> (Ret (Inl f), m')
      | (Inr p, m') \<Rightarrow> (Next (l\<lparr>put_pc := CasLeaf, new_leaf_ptr := p\<rparr>), m'))"

definition put_cas_leaf :: "'h nvmm \<Rightarrow> Gptr \<Rightarrow> put_local \<Rightarrow> 'h fam \<Rightarrow> 'h put_out" where
  "put_cas_leaf nv value l m =
     (case slot l of
        None \<Rightarrow> (Ret (Inl AssertFail), m)
      | Some p \<Rightarrow>
          (case cas64 p (cur_q l) (new_leaf_ptr l) m of
             Inl f \<Rightarrow> (Ret (Inl f), m)
           | Inr (seen_q, m') \<Rightarrow>
               if seen_q = cur_q l
               then (Ret (Inr \<lparr>put_key = new_leaf_ptr l, put_old = TagGptr_default,
                               put_new = mk_TagGptr value 0\<rparr>),
                     free_node nv (intermediate_node_ptr l) m')
               else (Next (l\<lparr>put_pc := Find, cur_q := seen_q\<rparr>), m')))"

text \<open>
  Case 2: an intermediate node with the common prefix takes the place of \<open>q\<close>. It holds the
  value itself when the key ends there, and else a new leaf. A call that comes back here
  after a failed CAS reuses the intermediate node as it left it.
\<close>

definition put_split :: "'h nvmm \<Rightarrow> bytes \<Rightarrow> Gptr \<Rightarrow> put_local \<Rightarrow> 'h fam \<Rightarrow> 'h put_out" where
  "put_split nv key value l m =
     (case make_intermediate nv key (intermediate_node_ptr l) m of
        (Inl f, m1) \<Rightarrow> (Ret (Inl f), m1)
      | (Inr ip, m1) \<Rightarrow>
          (if split_size l = length key
           then (case fam_nodes m1 ip of
                   None \<Rightarrow> (Ret (Inl AssertFail), m1)
                 | Some im \<Rightarrow>
                     (Next (l\<lparr>put_pc := CasSplit, intermediate_node_ptr := ip\<rparr>),
                      store_node ip
                        (im\<lparr>node_value := mk_TagGptr value 0, prefix_size := split_size l,
                            child := (child im)(existing l := cur_q l)\<rparr>) m1))
           else (case make_leaf nv key value (new_leaf_ptr l) m1 of
                   (Inl f, m2) \<Rightarrow> (Ret (Inl f), m2)
                 | (Inr lp, m2) \<Rightarrow>
                     (case fam_nodes m2 ip of
                        None \<Rightarrow> (Ret (Inl AssertFail), m2)
                      | Some im \<Rightarrow>
                          (Next (l\<lparr>put_pc := CasSplit, intermediate_node_ptr := ip,
                                   new_leaf_ptr := lp\<rparr>),
                           store_node ip
                             (im\<lparr>prefix_size := split_size l,
                                 child := ((child im)(key ! split_size l := lp))
                                            (existing l := cur_q l)\<rparr>) m2)))))"

definition put_cas_split :: "'h nvmm \<Rightarrow> bytes \<Rightarrow> Gptr \<Rightarrow> put_local \<Rightarrow> 'h fam \<Rightarrow> 'h put_out" where
  "put_cas_split nv key value l m =
     (case slot l of
        None \<Rightarrow> (Ret (Inl AssertFail), m)
      | Some p \<Rightarrow>
          (case cas64 p (cur_q l) (intermediate_node_ptr l) m of
             Inl f \<Rightarrow> (Ret (Inl f), m)
           | Inr (seen_q, m') \<Rightarrow>
               if seen_q = cur_q l
               then (if split_size l = length key
                     then (Ret (Inr \<lparr>put_key = intermediate_node_ptr l,
                                     put_old = TagGptr_default, put_new = mk_TagGptr value 0\<rparr>),
                           free_node nv (new_leaf_ptr l) m')
                     else (Ret (Inr \<lparr>put_key = new_leaf_ptr l,
                                     put_old = TagGptr_default, put_new = mk_TagGptr value 0\<rparr>),
                           m'))
               else (Next (l\<lparr>put_pc := Find, cur_q := seen_q\<rparr>), m')))"

definition put_step ::
  "'h nvmm \<Rightarrow> bytes \<Rightarrow> Gptr \<Rightarrow> UpdateFlags \<Rightarrow> (put_local, 'h fam, fault + put_result) stepper" where
  "put_step nv key value update l m =
     (case put_pc l of
        Find \<Rightarrow> put_find nv key update l m
      | UpdateValue tq \<Rightarrow> put_update value tq l m
      | InsertLeaf \<Rightarrow> put_insert_leaf nv key value l m
      | CasLeaf \<Rightarrow> put_cas_leaf nv value l m
      | Split \<Rightarrow> put_split nv key value l m
      | CasSplit \<Rightarrow> put_cas_split nv key value l m)"

definition put ::
  "'h nvmm \<Rightarrow> Gptr \<Rightarrow> bytes \<Rightarrow> Gptr \<Rightarrow> UpdateFlags \<Rightarrow> 'h fam \<Rightarrow>
   ((fault + TagGptr) \<times> 'h fam) option" where
  "put nv root key value update m =
     (if key_ok key
      then map_option (map_prod (map_sum id put_old) id)
             (run (put_step nv key value update) (put_init root) m)
      else Some (Inl AssertFail, m))"

text \<open>\<open>putC\<close> is the same loop in \<open>UPDATE\<close> mode and returns the node and both cells.\<close>

definition putC ::
  "'h nvmm \<Rightarrow> Gptr \<Rightarrow> bytes \<Rightarrow> Gptr \<Rightarrow> 'h fam \<Rightarrow> ((fault + put_result) \<times> 'h fam) option" where
  "putC nv root key value m =
     (if key_ok key then run (put_step nv key value UPDATE) (put_init root) m
      else Some (Inl AssertFail, m))"

section \<open>List and structure\<close>

definition all_bytes :: "byte list" where
  "all_bytes = map of_nat [0..<256]"

text \<open>Thread an accumulator through a list; \<open>None\<close> is running out of recursion depth.\<close>

fun thread_acc ::
  "('a \<Rightarrow> 's \<Rightarrow> (fault + 's) option) \<Rightarrow> 'a list \<Rightarrow> 's \<Rightarrow> (fault + 's) option" where
  "thread_acc f [] s = Some (Inr s)"
| "thread_acc f (x # xs) s =
     (case f x s of
        None \<Rightarrow> None
      | Some (Inl e) \<Rightarrow> Some (Inl e)
      | Some (Inr s') \<Rightarrow> thread_acc f xs s')"

record list_acc =
  la_level :: nat
  la_depth :: nat
  la_value_cnt :: nat
  la_node_cnt :: nat
  la_calls :: "(bytes \<times> Gptr) list"

text \<open>
  \<open>recursive_list\<close>: the first argument bounds the recursion depth (a root-to-leaf path has at
  most \<open>MAX_KEY_LEN + 1\<close> nodes); \<open>la_calls\<close> collects the calls of the visitor \<open>f\<close>.
\<close>

definition list_visit :: "Node \<Rightarrow> list_acc \<Rightarrow> list_acc" where
  "list_visit n acc =
     (let acc1 = (if IsValid (node_value n)
                  then acc\<lparr>la_value_cnt := la_value_cnt acc + 1,
                           la_calls := la_calls acc @ [(pfx n, tg_nomark (node_value n))]\<rparr>
                  else acc)
      in acc1\<lparr>la_node_cnt := la_node_cnt acc1 + 1,
              la_depth := max (la_level acc1) (la_depth acc1),
              la_level := la_level acc1 + 1\<rparr>)"

fun recursive_list :: "nat \<Rightarrow> nodes \<Rightarrow> Gptr \<Rightarrow> list_acc \<Rightarrow> (fault + list_acc) option" where
  "recursive_list 0 ns parent acc = None"
| "recursive_list (Suc d) ns parent acc =
     (if parent = 0 then Some (Inr acc)
      else case ns parent of
        None \<Rightarrow> Some (Inl AssertFail)
      | Some n \<Rightarrow>
          (case thread_acc (\<lambda>c. recursive_list d ns (child n c)) all_bytes (list_visit n acc) of
             None \<Rightarrow> None
           | Some (Inl e) \<Rightarrow> Some (Inl e)
           | Some (Inr acc') \<Rightarrow> Some (Inr (acc'\<lparr>la_level := la_level acc' - 1\<rparr>))))"

definition list_depth :: nat where
  "list_depth = MAX_KEY_LEN + 2"

definition list_tree :: "Gptr \<Rightarrow> 'h fam \<Rightarrow> (fault + list_acc) option" where
  "list_tree root m =
     recursive_list list_depth (fam_nodes m) root
       \<lparr>la_level = 0, la_depth = 0, la_value_cnt = 0, la_node_cnt = 0, la_calls = []\<rparr>"

text \<open>
  \<open>TreeStructure\<close>: a vector of 100 levels; \<open>AddNode\<close> on a deeper level writes past it.
  \<open>value_cnt\<close> is never counted.
\<close>

record tree_structure =
  ts_depth :: nat
  ts_value_cnt :: nat
  ts_node_cnt :: nat
  ts_levels :: "Gptr list list"

definition TreeStructure_init :: tree_structure where
  "TreeStructure_init =
     \<lparr>ts_depth = 0, ts_value_cnt = 0, ts_node_cnt = 0, ts_levels = replicate 100 []\<rparr>"

definition AddNode :: "nat \<Rightarrow> Gptr \<Rightarrow> tree_structure \<Rightarrow> fault + tree_structure" where
  "AddNode level n s =
     (if level < length (ts_levels s)
      then Inr (s\<lparr>ts_levels := (ts_levels s)[level := ts_levels s ! level @ [n]]\<rparr>)
      else Inl OutOfBounds)"

fun recursive_structure ::
  "nat \<Rightarrow> nodes \<Rightarrow> Gptr \<Rightarrow> nat \<Rightarrow> tree_structure \<Rightarrow> (fault + tree_structure) option" where
  "recursive_structure 0 ns parent level s = None"
| "recursive_structure (Suc d) ns parent level s =
     (if parent = 0 then Some (Inr s)
      else case ns parent of
        None \<Rightarrow> Some (Inl AssertFail)
      | Some n \<Rightarrow>
          (case AddNode level parent s of
             Inl e \<Rightarrow> Some (Inl e)
           | Inr s1 \<Rightarrow>
               thread_acc (\<lambda>c. recursive_structure d ns (child n c) (level + 1)) all_bytes
                 (s1\<lparr>ts_node_cnt := ts_node_cnt s1 + 1, ts_depth := max level (ts_depth s1)\<rparr>)))"

definition structure_tree :: "Gptr \<Rightarrow> 'h fam \<Rightarrow> (fault + tree_structure) option" where
  "structure_tree root m =
     recursive_structure list_depth (fam_nodes m) root 0 TreeStructure_init"

text \<open>
  What \<open>Report\<close> prints: the three counters and, for every level below \<open>depth\<close>, its nodes and
  the nodes of it that hold a value.
\<close>

definition structure_report ::
  "nodes \<Rightarrow> tree_structure \<Rightarrow> nat \<times> nat \<times> nat \<times> (nat \<times> nat) list" where
  "structure_report ns s =
     (ts_depth s, ts_value_cnt s, ts_node_cnt s,
      map (\<lambda>l. (length (ts_levels s ! l),
                length (filter (\<lambda>a. case ns a of
                                      None \<Rightarrow> False
                                    | Some n \<Rightarrow> IsValid (node_value n)) (ts_levels s ! l))))
        [0..<ts_depth s])"

end
