(* ===== verification/RT_Tree_Inv.thy ===== *)
theory RT_Tree_Inv
  imports RT_Tree
begin

text \<open>
  The shape of a radix tree in memory and what it means. \<open>tree_inv\<close> is local: every node a
  child pointer leads to extends its parent's prefix by the byte of the slot. From it follow
  that paths are deterministic and finite, that a key has at most one node, and the abstract
  contents of a tree: \<open>tree_val\<close>, the versioned value of every key.
\<close>

section \<open>Invariant\<close>

definition node_ok :: "nodes \<Rightarrow> Node \<Rightarrow> bool" where
  "node_ok ns n \<longleftrightarrow>
     length (node_key n) = MAX_KEY_LEN \<and> prefix_size n \<le> MAX_KEY_LEN \<and>
     (\<forall>c. child n c \<noteq> 0 \<longrightarrow> (\<exists>n'. ns (child n c) = Some n' \<and> prefix (pfx n @ [c]) (pfx n')))"

definition tree_inv :: "nodes \<Rightarrow> Gptr \<Rightarrow> bool" where
  "tree_inv ns root \<longleftrightarrow>
     ns 0 = None \<and> (\<exists>n. ns root = Some n \<and> prefix_size n = 0) \<and>
     (\<forall>a n. ns a = Some n \<longrightarrow> node_ok ns n)"

definition fam_inv :: "'h nvmm \<Rightarrow> Gptr \<Rightarrow> 'h fam \<Rightarrow> bool" where
  "fam_inv nv root m \<longleftrightarrow>
     tree_inv (fam_nodes m) root \<and> dom (fam_nodes m) \<subseteq> nv_live nv (fam_heap m)"

inductive reach :: "nodes \<Rightarrow> Gptr \<Rightarrow> Gptr \<Rightarrow> bool" for ns a where
  reach_refl: "reach ns a a"
| reach_child: "reach ns a b \<Longrightarrow> ns b = Some n \<Longrightarrow> child n c \<noteq> 0 \<Longrightarrow> reach ns a (child n c)"

text \<open>Node \<open>a\<close> of the tree is the node of key \<open>k\<close>.\<close>

definition key_at :: "nodes \<Rightarrow> Gptr \<Rightarrow> bytes \<Rightarrow> Gptr \<Rightarrow> bool" where
  "key_at ns root k a \<longleftrightarrow> reach ns root a \<and> (\<exists>n. ns a = Some n \<and> pfx n = k)"

text \<open>
  The abstract contents: the value cell of every key, the null cell with version 0 for a
  key without a node.
\<close>

definition tree_val :: "nodes \<Rightarrow> Gptr \<Rightarrow> bytes \<Rightarrow> TagGptr" where
  "tree_val ns root k =
     (if \<exists>a. key_at ns root k a
      then (case ns (THE a. key_at ns root k a) of
              None \<Rightarrow> TagGptr_default | Some n \<Rightarrow> node_value n)
      else TagGptr_default)"

section \<open>Basic consequences\<close>

lemma length_pfx [simp]: "node_ok ns n \<Longrightarrow> length (pfx n) = prefix_size n"
  by (simp add: node_ok_def pfx_def)

lemma node_okD:
  assumes "node_ok ns n"
  shows "length (node_key n) = MAX_KEY_LEN" "prefix_size n \<le> MAX_KEY_LEN"
  using assms by (simp_all add: node_ok_def)

lemma node_ok_child:
  assumes "node_ok ns n" "child n c \<noteq> 0"
  obtains n' where "ns (child n c) = Some n'" "prefix (pfx n @ [c]) (pfx n')"
  using assms by (auto simp: node_ok_def)

lemma tree_inv_node: "tree_inv ns root \<Longrightarrow> ns a = Some n \<Longrightarrow> node_ok ns n"
  by (simp add: tree_inv_def)

lemma tree_inv_null [simp]: "tree_inv ns root \<Longrightarrow> ns 0 = None"
  by (simp add: tree_inv_def)

lemma tree_inv_nonnull: "tree_inv ns root \<Longrightarrow> ns a = Some n \<Longrightarrow> a \<noteq> 0"
  by (auto simp: tree_inv_def)

lemma tree_inv_root:
  assumes "tree_inv ns root"
  obtains n where "ns root = Some n" "prefix_size n = 0" "pfx n = []" "root \<noteq> 0"
  using assms by (force simp: tree_inv_def pfx_def)

lemma fam_invD:
  "fam_inv nv root m \<Longrightarrow> tree_inv (fam_nodes m) root"
  "fam_inv nv root m \<Longrightarrow> dom (fam_nodes m) \<subseteq> nv_live nv (fam_heap m)"
  by (simp_all add: fam_inv_def)

section \<open>Paths\<close>

lemma reach_trans: "reach ns b c \<Longrightarrow> reach ns a b \<Longrightarrow> reach ns a c"
  by (induction rule: reach.induct) (auto intro: reach.intros)

lemma reach_first:
  assumes "reach ns a b"
  shows "a = b \<or> (\<exists>n c. ns a = Some n \<and> child n c \<noteq> 0 \<and> reach ns (child n c) b)"
  using assms by (induction rule: reach.induct) (metis reach.intros)+

lemma reach_edge: "ns a = Some n \<Longrightarrow> child n c \<noteq> 0 \<Longrightarrow> reach ns a (child n c)"
  by (rule reach_child [OF reach_refl])

text \<open>Along a path prefixes grow: the end extends the start, strictly when they differ.\<close>

lemma reach_prefix:
  assumes "tree_inv ns root" "reach ns a b" "ns a = Some na"
  obtains nb where "ns b = Some nb" "prefix (pfx na) (pfx nb)"
    "a \<noteq> b \<Longrightarrow> length (pfx na) < length (pfx nb)"
proof -
  from assms(2,3)
  have "\<exists>nb. ns b = Some nb \<and> prefix (pfx na) (pfx nb) \<and>
          (a = b \<or> length (pfx na) < length (pfx nb))"
  proof (induction rule: reach.induct)
    case (reach_child b n c)
    then have "prefix (pfx na) (pfx n)" by auto
    moreover obtain n' where "ns (child n c) = Some n'" "prefix (pfx n @ [c]) (pfx n')"
      using reach_child node_ok_child tree_inv_node [OF assms(1)] by metis
    ultimately show ?case
      using prefix_length_le [of "pfx na" "pfx n"] prefix_length_le [of "pfx n @ [c]" "pfx n'"]
      by (auto intro: prefix_order.trans [of _ "pfx n"] simp: append_prefixD)
  qed simp
  then show thesis using that by blast
qed

lemma reach_node:
  assumes "tree_inv ns root" "reach ns root a"
  obtains n where "ns a = Some n" "node_ok ns n" "a \<noteq> 0"
  using assms by (metis reach_prefix tree_inv_node tree_inv_nonnull tree_inv_root)

text \<open>A path towards an extension of a child's slot goes through that child.\<close>

lemma reach_via:
  assumes inv: "tree_inv ns root" and "reach ns a b" "ns a = Some n" "ns b = Some nb"
    and "prefix (pfx n @ [c]) (pfx nb)"
  shows "child n c \<noteq> 0 \<and> reach ns (child n c) b"
proof -
  have "a \<noteq> b" using assms(3,4,5) by (auto simp: prefix_def)
  then obtain d where d: "child n d \<noteq> 0" "reach ns (child n d) b"
    using reach_first [OF assms(2)] assms(3) by auto
  obtain n' where n': "ns (child n d) = Some n'" "prefix (pfx n @ [d]) (pfx n')"
    using node_ok_child [OF tree_inv_node [OF inv assms(3)] d(1)] .
  from reach_prefix [OF inv d(2) n'(1)] assms(4) have "prefix (pfx n') (pfx nb)" by auto
  with n'(2) have "prefix (pfx n @ [d]) (pfx nb)" by (rule prefix_order.trans)
  with assms(5) have "c = d" by (rule prefix_fork)
  with d show ?thesis by simp
qed

text \<open>Determinism: a node whose prefix is a prefix of another's lies on the way to it.\<close>

lemma reach_between:
  assumes inv: "tree_inv ns root" and "reach ns root a" "reach ns root b"
    and "ns a = Some na" "ns b = Some nb" "prefix (pfx na) (pfx nb)"
  shows "reach ns a b"
  using assms(2,4,6)
proof (induction arbitrary: na rule: reach.induct)
  case reach_refl
  show ?case by (rule assms(3))
next
  case (reach_child a' n c)
  have "prefix (pfx n @ [c]) (pfx na)"
    using node_ok_child [OF tree_inv_node [OF inv reach_child.hyps(2)] reach_child.hyps(3)]
      reach_child.prems(1) by auto
  then have pre: "prefix (pfx n @ [c]) (pfx nb)"
    using reach_child.prems(2) by (rule prefix_order.trans)
  then have "reach ns a' b"
    using reach_child.IH [OF reach_child.hyps(2)] by (auto dest: append_prefixD)
  from reach_via [OF inv this reach_child.hyps(2) assms(5) pre] show ?case by simp
qed

lemma key_at_unique:
  assumes "tree_inv ns root" "key_at ns root k a" "key_at ns root k b"
  shows "a = b"
proof (rule ccontr)
  assume "a \<noteq> b"
  from assms(2,3) obtain na nb where n: "ns a = Some na" "ns b = Some nb" "pfx na = k" "pfx nb = k"
    and r: "reach ns root a" "reach ns root b" by (auto simp: key_at_def)
  from reach_between [OF assms(1) r n(1,2)] n have "reach ns a b" by simp
  from reach_prefix [OF assms(1) this n(1)] \<open>a \<noteq> b\<close> n show False by auto
qed

lemma key_at_the [simp]:
  "tree_inv ns root \<Longrightarrow> key_at ns root k a \<Longrightarrow> (THE a. key_at ns root k a) = a"
  using key_at_unique by blast

lemma tree_val_at:
  "tree_inv ns root \<Longrightarrow> key_at ns root k a \<Longrightarrow> ns a = Some n \<Longrightarrow> tree_val ns root k = node_value n"
  by (auto simp: tree_val_def)

lemma tree_val_none: "(\<And>a. \<not> key_at ns root k a) \<Longrightarrow> tree_val ns root k = TagGptr_default"
  by (simp add: tree_val_def)

lemma tree_val_reach:
  "tree_inv ns root \<Longrightarrow> reach ns root a \<Longrightarrow> ns a = Some n \<Longrightarrow> tree_val ns root (pfx n) = node_value n"
  by (rule tree_val_at) (auto simp: key_at_def)

text \<open>Two trees with the same key nodes and the same values there have the same contents.\<close>

lemma tree_val_cong:
  assumes "tree_inv ns root" "tree_inv ns' root'"
    and "\<And>a. key_at ns root k a \<longleftrightarrow> key_at ns' root' k a"
    and "\<And>a n. key_at ns root k a \<Longrightarrow> ns a = Some n \<Longrightarrow>
           \<exists>n'. ns' a = Some n' \<and> node_value n' = node_value n"
  shows "tree_val ns' root' k = tree_val ns root k"
proof (cases "\<exists>a. key_at ns root k a")
  case True
  then obtain a n where a: "key_at ns root k a" "ns a = Some n" by (auto simp: key_at_def)
  from assms(4) [OF a] obtain n' where n': "ns' a = Some n'" "node_value n' = node_value n"
    by blast
  from a(1) assms(3) have "key_at ns' root' k a" by simp
  from tree_val_at [OF assms(2) this n'(1)] tree_val_at [OF assms(1) a] n'(2) show ?thesis by simp
next
  case False
  with assms(3) show ?thesis by (simp add: tree_val_none)
qed

section \<open>Comparing a key with a node\<close>

lemma memcmp_pfx:
  assumes "node_ok ns n"
  shows "memcmp key (node_key n) (min (prefix_size n) (length key)) = 0 \<longleftrightarrow>
    (if prefix_size n \<le> length key then prefix (pfx n) key else prefix key (pfx n))"
proof -
  let ?m = "min (prefix_size n) (length key)"
  have "memcmp key (node_key n) ?m = 0 \<longleftrightarrow> take ?m key = take ?m (node_key n)"
    using node_okD [OF assms] by (intro memcmp_eq_0) auto
  also have "\<dots> \<longleftrightarrow> take ?m key = take ?m (pfx n)"
    by (simp add: pfx_def)
  also have "\<dots> \<longleftrightarrow> (if prefix_size n \<le> length key then prefix (pfx n) key else prefix key (pfx n))"
    using length_pfx [OF assms] by (auto simp: min_def prefix_take_iff)
  finally show ?thesis .
qed

lemma match_len_spec:
  assumes "m \<le> length xs" "m \<le> length ys"
  shows "match_len m xs ys \<le> m \<and> take (match_len m xs ys) xs = take (match_len m xs ys) ys \<and>
    (match_len m xs ys < m \<longrightarrow> xs ! match_len m xs ys \<noteq> ys ! match_len m xs ys)"
  using assms by (induction m xs ys rule: match_len.induct) auto

end
