(* ===== verification/RT_Tree_Update.thy ===== *)
theory RT_Tree_Update
  imports RT_Tree_Inv
begin

text \<open>
  The three ways a tree changes in memory and what each does to its contents: writing the
  value cell of a node, writing a node that is not part of the tree, and swinging one child
  pointer from a subtree to a new node above it. Every operation of the tree, alone or
  interleaved, is a sequence of these.
\<close>

section \<open>Writing a value cell\<close>

lemma node_ok_mono:
  assumes "node_ok ns n"
    and "\<And>c n'. child n c \<noteq> 0 \<Longrightarrow> ns (child n c) = Some n' \<Longrightarrow>
           \<exists>n2. ns' (child n c) = Some n2 \<and> pfx n2 = pfx n'"
  shows "node_ok ns' n"
  using assms unfolding node_ok_def by metis

lemma pfx_update [simp]:
  "pfx (n\<lparr>node_value := v\<rparr>) = pfx n" "pfx (n\<lparr>child := ch\<rparr>) = pfx n"
  by (simp_all add: pfx_def)

lemma node_ok_value [simp]: "node_ok ns (n\<lparr>node_value := v\<rparr>) = node_ok ns n"
  by (simp add: node_ok_def)

lemma tree_inv_value:
  assumes inv: "tree_inv ns root" and a: "ns a = Some n"
  shows "tree_inv (ns(a \<mapsto> n\<lparr>node_value := v\<rparr>)) root"
proof -
  have ok: "node_ok (ns(a \<mapsto> n\<lparr>node_value := v\<rparr>)) n'" if "node_ok ns n'" for n'
    using that by (rule node_ok_mono) (use a in auto)
  from inv a show ?thesis
    by (auto simp: tree_inv_def intro: ok)
qed

lemma reach_cong1:
  assumes "reach ns a b" and "\<And>x. map_option child (ns' x) = map_option child (ns x)"
  shows "reach ns' a b"
  using assms(1)
proof (induction rule: reach.induct)
  case reach_refl
  show ?case by (rule reach.reach_refl)
next
  case (reach_child b n c)
  from assms(2) [of b] reach_child.hyps(2) obtain n' where "ns' b = Some n'" "child n' = child n"
    by auto
  with reach_child reach.reach_child [of ns' a b n' c] show ?case by simp
qed

lemma reach_value:
  assumes "ns a = Some n"
  shows "reach (ns(a \<mapsto> n\<lparr>node_value := v\<rparr>)) x y = reach ns x y"
proof -
  have "map_option child ((ns(a \<mapsto> n\<lparr>node_value := v\<rparr>)) x) = map_option child (ns x)" for x
    using assms by simp
  then show ?thesis using reach_cong1 [of _ x y] by metis
qed

lemma key_at_value:
  assumes "ns a = Some n"
  shows "key_at (ns(a \<mapsto> n\<lparr>node_value := v\<rparr>)) root k b = key_at ns root k b"
  using assms by (auto simp: key_at_def reach_value)

lemma tree_val_value:
  assumes inv: "tree_inv ns root" and a: "reach ns root a" "ns a = Some n"
  shows "tree_val (ns(a \<mapsto> n\<lparr>node_value := v\<rparr>)) root = (tree_val ns root)(pfx n := v)"
proof
  fix k
  let ?ns = "ns(a \<mapsto> n\<lparr>node_value := v\<rparr>)"
  note inv' = tree_inv_value [OF inv a(2), of v]
  show "tree_val ?ns root k = ((tree_val ns root)(pfx n := v)) k"
  proof (cases "k = pfx n")
    case True
    then have "key_at ?ns root k a" using a by (auto simp: key_at_def reach_value)
    from tree_val_at [OF inv' this] True show ?thesis by simp
  next
    case False
    then have "tree_val ?ns root k = tree_val ns root k"
      by (intro tree_val_cong [OF inv inv'])
        (use a in \<open>auto simp only: key_at_value\<close>, use a in \<open>auto simp: key_at_def\<close>)
    with False show ?thesis by simp
  qed
qed

section \<open>Writing a node outside of the tree\<close>

lemma reach_private:
  assumes "\<not> reach ns root b"
  shows "reach (ns(b := v)) root x = reach ns root x"
proof
  show "reach (ns(b := v)) root x" if "reach ns root x"
    using that
  proof (induction rule: reach.induct)
    case (reach_child y n c)
    with assms have "(ns(b := v)) y = Some n" by auto
    from reach.reach_child [OF reach_child.IH this reach_child.hyps(3)] show ?case .
  qed (rule reach.reach_refl)
next
  show "reach ns root x" if "reach (ns(b := v)) root x"
    using that
  proof (induction rule: reach.induct)
    case (reach_child y n c)
    then have "y \<noteq> b" using assms by auto
    with reach_child show ?case using reach.reach_child [of ns root y n c] by simp
  qed (rule reach.reach_refl)
qed

lemma key_at_private:
  "\<not> reach ns root b \<Longrightarrow> key_at (ns(b := v)) root k x = key_at ns root k x"
  by (auto simp: key_at_def reach_private)

lemma tree_val_private:
  assumes "tree_inv ns root" "\<not> reach ns root b"
  shows "tree_val (ns(b := v)) root = tree_val ns root"
proof
  fix k
  have same: "key_at (ns(b := v)) root k = key_at ns root k"
    by (rule ext) (rule key_at_private [OF assms(2)])
  show "tree_val (ns(b := v)) root k = tree_val ns root k"
  proof (cases "\<exists>x. key_at ns root k x")
    case True
    then obtain x where x: "key_at ns root k x" by blast
    then have "x \<noteq> b" using assms(2) by (auto simp: key_at_def)
    with x key_at_the [OF assms(1) x] show ?thesis by (auto simp: tree_val_def same)
  next
    case False
    then show ?thesis by (simp add: tree_val_def same)
  qed
qed

lemma fresh_not_reach:
  assumes "tree_inv ns root" "b \<notin> dom ns"
  shows "\<not> reach ns root b"
  using assms reach_node by blast

lemma tree_inv_fresh:
  assumes inv: "tree_inv ns root" and b: "b \<notin> dom ns" "b \<noteq> 0" and nb: "node_ok ns nb"
  shows "tree_inv (ns(b \<mapsto> nb)) root"
proof -
  have ok: "node_ok (ns(b \<mapsto> nb)) n" if "node_ok ns n" for n
    using that by (rule node_ok_mono) (use b in auto)
  have "root \<noteq> b" using inv b by (auto simp: tree_inv_def)
  with inv b nb show ?thesis by (auto simp: tree_inv_def intro: ok)
qed

section \<open>Swinging a child pointer\<close>

text \<open>
  The pointer \<open>child n c\<close> of a tree node \<open>a\<close> goes from \<open>q\<close> to a node \<open>i\<close> outside of
  the tree that fits under \<open>a\<close> and from which \<open>q\<close>, if not null, is still reached.
\<close>

definition swings :: "nodes \<Rightarrow> Gptr \<Rightarrow> Gptr \<Rightarrow> Node \<Rightarrow> byte \<Rightarrow> Gptr \<Rightarrow> Node \<Rightarrow> bool" where
  "swings ns root a n c i ni \<longleftrightarrow>
     tree_inv ns root \<and> reach ns root a \<and> ns a = Some n \<and> ns i = Some ni \<and> \<not> reach ns root i \<and>
     prefix (pfx n @ [c]) (pfx ni) \<and> (child n c \<noteq> 0 \<longrightarrow> reach ns i (child n c))"

definition swing :: "nodes \<Rightarrow> Gptr \<Rightarrow> Node \<Rightarrow> byte \<Rightarrow> Gptr \<Rightarrow> nodes" where
  "swing ns a n c i = ns(a \<mapsto> n\<lparr>child := (child n)(c := i)\<rparr>)"

lemma swings_nonnull: "swings ns root a n c i ni \<Longrightarrow> i \<noteq> 0"
  by (auto simp: swings_def)

lemma tree_inv_swing:
  assumes "swings ns root a n c i ni"
  shows "tree_inv (swing ns a n c i) root"
proof -
  from assms have inv: "tree_inv ns root" and a: "ns a = Some n" and i: "ns i = Some ni"
    and pre: "prefix (pfx n @ [c]) (pfx ni)" by (auto simp: swings_def)
  let ?ns = "swing ns a n c i"
  have same: "\<exists>n2. ?ns x = Some n2 \<and> pfx n2 = pfx n'" if "ns x = Some n'" for x n'
    using that a by (auto simp: swing_def)
  have ok: "node_ok ?ns n'" if "node_ok ns n'" for n'
    using that by (rule node_ok_mono) (rule same)
  have "node_ok ?ns (n\<lparr>child := (child n)(c := i)\<rparr>)"
    using ok [OF tree_inv_node [OF inv a]] same [OF i] pre
    by (auto simp: node_ok_def)
  with inv a show ?thesis
    by (auto simp: tree_inv_def swing_def intro: ok [unfolded swing_def])
qed

lemma reach_swing_below:
  assumes sw: "swings ns root a n c i ni" and "reach ns i x"
  shows "reach (swing ns a n c i) i x"
  using assms(2)
proof (induction rule: reach.induct)
  case reach_refl
  show ?case by (rule reach.reach_refl)
next
  case (reach_child y ny d)
  from sw have inv: "tree_inv ns root" and a: "ns a = Some n" and i: "ns i = Some ni"
    and pre: "prefix (pfx n @ [c]) (pfx ni)" by (auto simp: swings_def)
  have "y \<noteq> a"
  proof
    assume "y = a"
    with reach_prefix [OF inv reach_child.hyps(1) i] a have "prefix (pfx ni) (pfx n)" by auto
    with pre show False by (auto dest!: prefix_length_le)
  qed
  with reach_child.hyps(2) have "swing ns a n c i y = Some ny" by (simp add: swing_def)
  from reach.reach_child [OF reach_child.IH this reach_child.hyps(3)] show ?case .
qed

lemma reach_swing:
  assumes sw: "swings ns root a n c i ni"
  shows "reach (swing ns a n c i) root x \<longleftrightarrow> reach ns root x \<or> reach ns i x"
    (is "reach ?ns root x \<longleftrightarrow> _")
proof
  from sw have a: "reach ns root a" "ns a = Some n" by (auto simp: swings_def)
  assume "reach ?ns root x"
  then show "reach ns root x \<or> reach ns i x"
  proof (induction rule: reach.induct)
    case (reach_child y ny d)
    show ?case
    proof (cases "y = a")
      case True
      with reach_child.hyps have "child ny d = i \<or> child ny d = child n d \<and> child n d \<noteq> 0"
        by (auto simp: swing_def split: if_splits)
      with a show ?thesis by (auto intro: reach.intros)
    next
      case False
      with reach_child show ?thesis by (auto simp: swing_def intro: reach.reach_child)
    qed
  qed (simp add: reach.reach_refl)
next
  from sw have a: "ns a = Some n" and q: "child n c \<noteq> 0 \<Longrightarrow> reach ns i (child n c)"
    by (auto simp: swings_def)
  have to_i: "reach ?ns root i" if "reach ?ns root a"
    using reach.reach_child [OF that, of "n\<lparr>child := (child n)(c := i)\<rparr>" c] swings_nonnull [OF sw]
    by (simp add: swing_def)
  have old: "reach ?ns root x" if "reach ns root x" for x
    using that
  proof (induction rule: reach.induct)
    case (reach_child y ny d)
    show ?case
    proof (cases "y = a \<and> d = c")
      case True
      with reach_child a have "reach ns i (child ny d)" using q by simp
      from reach_trans [OF reach_swing_below [OF sw this] to_i] reach_child.IH True
      show ?thesis by simp
    next
      case False
      then obtain ny' where "?ns y = Some ny'" "child ny' d = child ny d"
        using reach_child.hyps(2) a by (cases "y = a") (auto simp: swing_def)
      with reach.reach_child [OF reach_child.IH, of ny' d] reach_child.hyps(3)
      show ?thesis by simp
    qed
  qed (rule reach.reach_refl)
  have "reach ?ns root i" using sw to_i old by (auto simp: swings_def)
  then show "reach ?ns root x" if "reach ns root x \<or> reach ns i x"
    using that old reach_trans [OF reach_swing_below [OF sw]] by blast
qed

section \<open>Growing a tree\<close>

text \<open>
  When the nodes of a tree stay, with their prefixes and values, and others join it, the
  contents change only at the prefixes of the new nodes, which had no node before.
\<close>

lemma tree_val_grow:
  assumes inv: "tree_inv ns root" and inv': "tree_inv ns' root"
    and reach': "\<And>x. reach ns' root x \<longleftrightarrow> reach ns root x \<or> x \<in> new"
    and new: "\<And>x. x \<in> new \<Longrightarrow> \<not> reach ns root x"
    and same: "\<And>x n. reach ns root x \<Longrightarrow> ns x = Some n \<Longrightarrow>
      \<exists>n'. ns' x = Some n' \<and> pfx n' = pfx n \<and> node_value n' = node_value n"
  shows "x \<in> new \<Longrightarrow> ns' x = Some nx \<Longrightarrow>
           tree_val ns root (pfx nx) = TagGptr_default \<and>
           (\<forall>b. \<not> key_at ns root (pfx nx) b) \<and> tree_val ns' root (pfx nx) = node_value nx"
    and "(\<And>x nx. x \<in> new \<Longrightarrow> ns' x = Some nx \<Longrightarrow> pfx nx \<noteq> k) \<Longrightarrow>
           tree_val ns' root k = tree_val ns root k"
proof -
  have lift: "key_at ns' root k b" if "key_at ns root k b" for k b
    using that same reach' by (fastforce simp: key_at_def)
  {
    assume x: "x \<in> new" "ns' x = Some nx"
    then have at: "key_at ns' root (pfx nx) x" using reach' by (auto simp: key_at_def)
    have none: "\<not> key_at ns root (pfx nx) b" for b
    proof
      assume b: "key_at ns root (pfx nx) b"
      from key_at_unique [OF inv' lift [OF b] at] b new [OF x(1)] show False
        by (simp add: key_at_def)
    qed
    from tree_val_none [OF none] none tree_val_at [OF inv' at x(2)]
    show "tree_val ns root (pfx nx) = TagGptr_default \<and>
          (\<forall>b. \<not> key_at ns root (pfx nx) b) \<and> tree_val ns' root (pfx nx) = node_value nx"
      by simp
  }
  assume out: "\<And>x nx. x \<in> new \<Longrightarrow> ns' x = Some nx \<Longrightarrow> pfx nx \<noteq> k"
  show "tree_val ns' root k = tree_val ns root k"
  proof (rule tree_val_cong [OF inv inv'])
    show "key_at ns root k b \<longleftrightarrow> key_at ns' root k b" for b
    proof
      assume b: "key_at ns' root k b"
      with out have "b \<notin> new" by (auto simp: key_at_def)
      with b have r: "reach ns root b" using reach' by (simp add: key_at_def)
      obtain n where "ns b = Some n" using reach_node [OF inv r] .
      with same [OF r this] b r show "key_at ns root k b" by (auto simp: key_at_def)
    qed (rule lift)
  next
    fix b n
    assume "key_at ns root k b" "ns b = Some n"
    with same [of b n] show "\<exists>n'. ns' b = Some n' \<and> node_value n' = node_value n"
      by (auto simp: key_at_def)
  qed
qed

text \<open>
  The swing that publishes new nodes: \<open>b\<close> carries the new key, the other new nodes hold no
  value. Exactly the key of \<open>b\<close> gets a new value, and no key loses its node.
\<close>

lemma swing_publishes:
  assumes sw: "swings ns root a n c i ni"
    and below: "\<And>x. reach ns i x \<longleftrightarrow> x \<in> new \<or> (child n c \<noteq> 0 \<and> reach ns (child n c) x)"
    and new: "\<And>x. x \<in> new \<Longrightarrow> \<not> reach ns root x"
    and b: "b \<in> new" "ns b = Some nb"
    and blank: "\<And>x nx. x \<in> new \<Longrightarrow> x \<noteq> b \<Longrightarrow> ns x = Some nx \<Longrightarrow> node_value nx = TagGptr_default"
  shows "tree_val (swing ns a n c i) root = (tree_val ns root)(pfx nb := node_value nb)"
    and "\<not> key_at ns root (pfx nb) x"
    and "key_at (swing ns a n c i) root (pfx nb) b"
    and "key_at ns root k x \<Longrightarrow> key_at (swing ns a n c i) root k x"
proof -
  let ?ns = "swing ns a n c i"
  from sw have inv: "tree_inv ns root" and a: "reach ns root a" "ns a = Some n"
    by (auto simp: swings_def)
  note inv' = tree_inv_swing [OF sw]
  have reach': "reach ?ns root x \<longleftrightarrow> reach ns root x \<or> x \<in> new" for x
    using reach_swing [OF sw, of x] below [of x] reach_trans [OF _ reach.reach_child [OF a]]
    by blast
  have same: "\<exists>n'. ?ns x = Some n' \<and> pfx n' = pfx nx \<and> node_value n' = node_value nx"
    if "ns x = Some nx" for x nx
    using that a(2) by (auto simp: swing_def)
  have keep: "?ns x = ns x" if "x \<in> new" for x
    using new [OF that] a by (auto simp: swing_def)
  have grow: "tree_val ns root (pfx nx) = TagGptr_default \<and>
      (\<forall>b. \<not> key_at ns root (pfx nx) b) \<and> tree_val ?ns root (pfx nx) = node_value nx"
    if "x \<in> new" "?ns x = Some nx" for x nx
    by (rule tree_val_grow(1) [OF inv inv' reach' _ _ that]) (use new same in auto)
  have nb: "?ns b = Some nb" using keep [OF b(1)] b(2) by simp
  show none: "\<not> key_at ns root (pfx nb) x" for x using grow [OF b(1) nb] by simp
  show "key_at ?ns root (pfx nb) b" using reach' b(1) nb by (auto simp: key_at_def)
  show "key_at ?ns root k x" if "key_at ns root k x"
    using that reach' same by (fastforce simp: key_at_def)
  show "tree_val ?ns root = (tree_val ns root)(pfx nb := node_value nb)"
  proof
    fix k
    show "tree_val ?ns root k = ((tree_val ns root)(pfx nb := node_value nb)) k"
    proof (cases "\<exists>x nx. x \<in> new \<and> ?ns x = Some nx \<and> pfx nx = k")
      case True
      then obtain x nx where x: "x \<in> new" "?ns x = Some nx" "pfx nx = k" by blast
      show ?thesis
      proof (cases "x = b")
        case True
        with grow [OF b(1) nb] x nb show ?thesis by auto
      next
        case False
        with blank [OF x(1)] keep [OF x(1)] x(2) have "node_value nx = TagGptr_default" by simp
        moreover have "k \<noteq> pfx nb"
          using key_at_unique [OF inv', of k x b] False x nb reach' b(1)
          by (auto simp: key_at_def)
        ultimately show ?thesis using grow [OF x(1,2)] x(3) by auto
      qed
    next
      case False
      with b(1) nb have "k \<noteq> pfx nb" by blast
      moreover have "tree_val ?ns root k = tree_val ns root k"
        by (rule tree_val_grow(2) [OF inv inv' reach']) (use False new same in auto)
      ultimately show ?thesis by simp
    qed
  qed
qed

text \<open>What can be reached from a new leaf, and from a new intermediate node.\<close>

lemma reach_leaf:
  assumes "ns i = Some ni" "\<And>c. child ni c = 0"
  shows "reach ns i x \<longleftrightarrow> x = i"
  using reach_first [of ns i x] assms by (auto intro: reach.reach_refl)

lemma reach_inner:
  assumes "ns i = Some ni" and "\<And>c. child ni c \<noteq> 0 \<Longrightarrow> child ni c \<in> kids"
    and "\<And>y. y \<in> kids \<Longrightarrow> \<exists>c. child ni c = y \<and> y \<noteq> 0"
  shows "reach ns i x \<longleftrightarrow> x = i \<or> (\<exists>y\<in>kids. reach ns y x)"
proof
  assume "reach ns i x"
  from reach_first [OF this] assms(1,2) show "x = i \<or> (\<exists>y\<in>kids. reach ns y x)" by auto
next
  assume "x = i \<or> (\<exists>y\<in>kids. reach ns y x)"
  then show "reach ns i x"
    using assms reach_edge [of ns i ni, OF assms(1)] reach_trans [of ns _ x i] reach.reach_refl
    by metis
qed

end
