(* ===== verification/RT_Tree_Get.thy ===== *)
theory RT_Tree_Get
  imports RT_Tree_Update
begin

text \<open>
  Correctness of the lookups of the radix tree: \<open>get\<close>, \<open>getC\<close>, and the two operations on a
  node pointer. The walk down the tree keeps \<open>seeks\<close>: every node whose prefix extends the
  key lies below the current pointer.
\<close>

section \<open>The walk\<close>

definition extends :: "nodes \<Rightarrow> Gptr \<Rightarrow> bytes \<Rightarrow> Gptr \<Rightarrow> bool" where
  "extends ns root key a \<longleftrightarrow> reach ns root a \<and> (\<exists>n. ns a = Some n \<and> prefix key (pfx n))"

definition seeks :: "nodes \<Rightarrow> Gptr \<Rightarrow> bytes \<Rightarrow> Gptr \<Rightarrow> bool" where
  "seeks ns root key q \<longleftrightarrow>
     (q \<noteq> 0 \<longrightarrow> reach ns root q) \<and> (\<forall>a. extends ns root key a \<longrightarrow> q \<noteq> 0 \<and> reach ns q a)"

lemma key_at_extends: "key_at ns root key a \<Longrightarrow> extends ns root key a"
  by (auto simp: key_at_def extends_def)

lemma seeks_root: "tree_inv ns root \<Longrightarrow> seeks ns root key root"
  by (auto simp: seeks_def extends_def intro: reach.reach_refl elim: tree_inv_root)

lemma seeks_null: "seeks ns root key 0 \<Longrightarrow> \<not> extends ns root key a"
  by (auto simp: seeks_def)

lemma seeks_node:
  assumes "tree_inv ns root" "seeks ns root key q" "q \<noteq> 0"
  obtains n where "ns q = Some n" "node_ok ns n" "reach ns root q"
  using assms reach_node unfolding seeks_def by metis

lemma seeks_miss:
  assumes "tree_inv ns root" "seeks ns root key q" "ns q = Some n"
    and "\<not> prefix (pfx n) key" "\<not> prefix key (pfx n)"
  shows "\<not> extends ns root key a"
proof
  assume a: "extends ns root key a"
  with assms(2) have "reach ns q a" by (auto simp: seeks_def)
  from reach_prefix [OF assms(1) this assms(3)] a assms(4,5) show False
    unfolding extends_def by (metis option.inject prefix_same_cases)
qed

lemma seeks_hit:
  assumes "tree_inv ns root" "seeks ns root (pfx n) q" "ns q = Some n"
  shows "key_at ns root (pfx n) q"
  using assms tree_inv_nonnull [OF assms(1,3)] by (auto simp: seeks_def key_at_def)

text \<open>A key that ends inside of a node's prefix has no node.\<close>

lemma seeks_short:
  assumes "tree_inv ns root" "seeks ns root key q" "ns q = Some n"
    and "prefix key (pfx n)" "length key < length (pfx n)"
  shows "\<not> key_at ns root key a" "extends ns root key q"
proof -
  have q: "reach ns root q" using assms(2) tree_inv_nonnull [OF assms(1,3)] by (simp add: seeks_def)
  with assms(3,4) show "extends ns root key q" by (auto simp: extends_def)
  show "\<not> key_at ns root key a"
  proof
    assume a: "key_at ns root key a"
    then have "reach ns q a" using assms(2) by (auto simp: seeks_def dest: key_at_extends)
    from reach_prefix [OF assms(1) this assms(3)] obtain na
      where "ns a = Some na" "prefix (pfx n) (pfx na)" .
    with a assms(5) show False by (auto simp: key_at_def dest: prefix_length_le)
  qed
qed

lemma seeks_down:
  assumes inv: "tree_inv ns root" and "seeks ns root key q" and n: "ns q = Some n"
    and pre: "prefix (pfx n) key" "length (pfx n) < length key"
  shows "seeks ns root key (child n (key ! length (pfx n)))"
proof -
  let ?c = "key ! length (pfx n)"
  have q: "reach ns root q" using assms(2) tree_inv_nonnull [OF inv n] by (simp add: seeks_def)
  have "child n ?c \<noteq> 0 \<and> reach ns (child n ?c) a" if a: "extends ns root key a" for a
  proof -
    obtain na where na: "ns a = Some na" "prefix key (pfx na)" using a by (auto simp: extends_def)
    have "prefix (pfx n @ [?c]) (pfx na)"
      using prefix_snoc_nth [OF pre] na(2) by (rule prefix_order.trans)
    with reach_via [OF inv _ n na(1)] a assms(2) show ?thesis by (auto simp: seeks_def)
  qed
  with q n show ?thesis by (auto simp: seeks_def intro: reach.reach_child)
qed

lemmas seeks_none = seeks_null seeks_miss

text \<open>Every trip down the tree reaches a longer prefix.\<close>

definition room :: "nodes \<Rightarrow> Gptr \<Rightarrow> nat" where
  "room ns q = (case ns q of None \<Rightarrow> 0 | Some n \<Rightarrow> Suc (MAX_KEY_LEN - prefix_size n))"

lemma room_child:
  assumes inv: "tree_inv ns root" and n: "ns q = Some n"
  shows "room ns (child n c) < room ns q"
proof (cases "child n c = 0")
  case True
  with inv n show ?thesis by (simp add: room_def)
next
  case False
  note ok = tree_inv_node [OF inv n]
  obtain n' where n': "ns (child n c) = Some n'" "prefix (pfx n @ [c]) (pfx n')"
    using node_ok_child [OF ok False] .
  note ok' = tree_inv_node [OF inv n'(1)]
  from prefix_length_le [OF n'(2)] ok ok' have "prefix_size n < prefix_size n'" by simp
  with n n'(1) node_okD(2) [OF ok'] show ?thesis by (simp add: room_def)
qed

text \<open>The comparison at the head of a trip, with the three ways it can end.\<close>

lemma walk_cases:
  assumes nv: "nvmm_ok nv" and ok: "node_ok ns n"
  obtains (miss) "nv_memcmp nv key (node_key n) (min (prefix_size n) (length key)) \<noteq> 0"
      "\<not> prefix (pfx n) key" "\<not> prefix key (pfx n)"
  | (hit) "nv_memcmp nv key (node_key n) (min (prefix_size n) (length key)) = 0"
      "prefix_size n = length key" "pfx n = key"
  | (short) "nv_memcmp nv key (node_key n) (min (prefix_size n) (length key)) = 0"
      "length key < prefix_size n" "prefix key (pfx n)" "length key < length (pfx n)"
  | (down) "nv_memcmp nv key (node_key n) (min (prefix_size n) (length key)) = 0"
      "prefix_size n < length key" "prefix (pfx n) key" "length (pfx n) < length key"
proof -
  note len = length_pfx [OF ok]
  note cmp = nv_memcmp_iff(1) [OF nv, of key "node_key n" "min (prefix_size n) (length key)"]
    memcmp_pfx [OF ok, of key]
  show thesis
  proof (cases "nv_memcmp nv key (node_key n) (min (prefix_size n) (length key)) = 0")
    case False
    with cmp len have "\<not> prefix (pfx n) key" "\<not> prefix key (pfx n)"
      by (auto split: if_splits dest: prefix_length_le dest!: prefix_length_eq)
    with False miss show thesis by simp
  next
    case True
    with cmp len hit short down show thesis
      by (cases "prefix_size n" "length key" rule: linorder_cases)
        (auto dest: prefix_length_eq)
  qed
qed

section \<open>The contract of a walk\<close>

text \<open>
  \<open>get\<close>, \<open>getC\<close>, \<open>destroy\<close> and \<open>destroyC\<close> share one loop: at the null pointer and on a
  mismatch they return \<open>r_none\<close>, on a node whose prefix is longer than the key \<open>r_short\<close>,
  on a proper prefix of the key they follow the next byte, and on the node of the key they do
  what they are for. \<open>loc\<close> builds the locals of the loop from \<open>q\<close>.
\<close>

locale tree_walk =
  fixes nv :: "'h nvmm" and key :: bytes
    and step :: "('l, 'h fam, 'r) stepper" and loc :: "Gptr \<Rightarrow> 'l" and r_none r_short :: 'r
  assumes step_null: "step (loc 0) m = (Ret r_none, m)"
    and step_miss: "q \<noteq> 0 \<Longrightarrow> fam_nodes m q = Some n \<Longrightarrow>
      nv_memcmp nv key (node_key n) (min (prefix_size n) (length key)) \<noteq> 0 \<Longrightarrow>
      step (loc q) m = (Ret r_none, m)"
    and step_short: "q \<noteq> 0 \<Longrightarrow> fam_nodes m q = Some n \<Longrightarrow>
      nv_memcmp nv key (node_key n) (min (prefix_size n) (length key)) = 0 \<Longrightarrow>
      length key < prefix_size n \<Longrightarrow> step (loc q) m = (Ret r_short, m)"
    and step_down: "q \<noteq> 0 \<Longrightarrow> fam_nodes m q = Some n \<Longrightarrow>
      nv_memcmp nv key (node_key n) (min (prefix_size n) (length key)) = 0 \<Longrightarrow>
      prefix_size n < length key \<Longrightarrow>
      step (loc q) m = (Next (loc (child n (key ! prefix_size n))), m)"
begin

text \<open>Where a walk that keeps \<open>seeks\<close> ends.\<close>

lemma walk_ends:
  assumes nv: "nvmm_ok nv" and inv: "tree_inv (fam_nodes m) root"
    and "seeks (fam_nodes m) root key q"
  shows "(\<exists>a. key_at (fam_nodes m) root key a \<and> run step (loc q) m = run step (loc a) m) \<or>
         ((\<forall>a. \<not> extends (fam_nodes m) root key a) \<and> run step (loc q) m = Some (r_none, m)) \<or>
         ((\<forall>a. \<not> key_at (fam_nodes m) root key a) \<and> (\<exists>a. extends (fam_nodes m) root key a) \<and>
          run step (loc q) m = Some (r_short, m))"
  using assms(3)
proof (induction "room (fam_nodes m) q" arbitrary: q rule: less_induct)
  case less
  note sk = less.prems
  show ?case
  proof (cases "q = 0")
    case True
    with seeks_null [of _ root key] sk run_Ret [of step, OF step_null] show ?thesis by auto
  next
    case False
    obtain n where n: "fam_nodes m q = Some n" and ok: "node_ok (fam_nodes m) n"
      using seeks_node [OF inv sk False] .
    from nv ok show ?thesis
    proof (cases rule: walk_cases [where key = key])
      case miss
      with seeks_miss [OF inv sk n] run_Ret [of step, OF step_miss [OF False n miss(1)]]
      show ?thesis by auto
    next
      case hit
      with seeks_hit [OF inv _ n] sk show ?thesis by auto
    next
      case short
      with seeks_short [OF inv sk n] run_Ret [of step, OF step_short [OF False n short(1,2)]]
      show ?thesis by auto
    next
      case down
      let ?q = "child n (key ! prefix_size n)"
      have "seeks (fam_nodes m) root key ?q"
        using seeks_down [OF inv sk n down(3,4)] length_pfx [OF ok] by simp
      from less.hyps [OF room_child [OF inv n] this]
        run_Next [of step, OF step_down [OF False n down(1,2)]]
      show ?thesis by simp
    qed
  qed
qed

lemma walk_found:
  assumes "nvmm_ok nv" "tree_inv (fam_nodes m) root" "key_at (fam_nodes m) root key a"
  shows "run step (loc root) m = run step (loc a) m"
  using walk_ends [OF assms(1,2) seeks_root [OF assms(2)]] assms(3)
    key_at_unique [OF assms(2,3)] key_at_extends [OF assms(3)] by blast

lemma walk_none:
  assumes "nvmm_ok nv" "tree_inv (fam_nodes m) root"
    and "\<And>a. \<not> extends (fam_nodes m) root key a"
  shows "run step (loc root) m = Some (r_none, m)"
  using walk_ends [OF assms(1,2) seeks_root [OF assms(2)]] assms(3) key_at_extends by blast

lemma walk_short:
  assumes "nvmm_ok nv" "tree_inv (fam_nodes m) root"
    and "\<And>a. \<not> key_at (fam_nodes m) root key a" "extends (fam_nodes m) root key b"
  shows "run step (loc root) m = Some (r_short, m)"
  using walk_ends [OF assms(1,2) seeks_root [OF assms(2)]] assms(3,4) by blast

end

section \<open>get and getC\<close>

interpretation get_walk: tree_walk nv key "get_step nv key" "\<lambda>q. q"
  "Inr TagGptr_default" "Inr TagGptr_default" for nv key
  by unfold_locales (auto simp: get_step_def)

interpretation getC_walk: tree_walk nv key "getC_step nv key" "\<lambda>q. q"
  "Inr (0, TagGptr_default)" "Inl OutOfBounds" for nv key
  by unfold_locales (auto simp: getC_step_def)

lemma key_at_hit:
  assumes "nvmm_ok nv" "tree_inv ns root" "key_at ns root key a"
  obtains n where "a \<noteq> 0" "ns a = Some n" "prefix_size n = length key"
    "nv_memcmp nv key (node_key n) (min (prefix_size n) (length key)) = 0"
    "tree_val ns root key = node_value n" "pfx n = key" "reach ns root a"
proof -
  from assms(3) obtain n where n: "ns a = Some n" "pfx n = key" "reach ns root a"
    by (auto simp: key_at_def)
  note ok = tree_inv_node [OF assms(2) n(1)]
  from length_pfx [OF ok] n(2) have len: "prefix_size n = length key" by simp
  have "nv_memcmp nv key (node_key n) (min (prefix_size n) (length key)) = 0"
    using assms(1) ok by (cases rule: walk_cases [where key = key]) (use n len in auto)
  with that n len tree_inv_nonnull [OF assms(2) n(1)] tree_val_at [OF assms(2,3) n(1)]
  show thesis by blast
qed

lemma get_correct:
  assumes nv: "nvmm_ok nv" and inv: "tree_inv (fam_nodes m) root" and k: "key_ok key"
  shows "get nv root key m = Some (Inr (tree_val (fam_nodes m) root key), m)"
proof (cases "\<exists>a. key_at (fam_nodes m) root key a")
  case True
  then obtain a where a: "key_at (fam_nodes m) root key a" by blast
  obtain n where "a \<noteq> 0" "fam_nodes m a = Some n" "prefix_size n = length key"
    "nv_memcmp nv key (node_key n) (min (prefix_size n) (length key)) = 0"
    "tree_val (fam_nodes m) root key = node_value n"
    using key_at_hit [OF nv inv a] by metis
  then have "get_step nv key a m = (Ret (Inr (tree_val (fam_nodes m) root key)), m)"
    by (simp add: get_step_def loadTagGptr_def)
  from run_Ret [of "get_step nv key", OF this] get_walk.walk_found [OF nv inv a] k
  show ?thesis by (simp add: get_def)
next
  case False
  then have "run (get_step nv key) root m = Some (Inr TagGptr_default, m)"
    using get_walk.walk_none [OF nv inv] get_walk.walk_short [OF nv inv] by blast
  with False k show ?thesis by (simp add: get_def tree_val_none)
qed

lemma getC_found:
  assumes nv: "nvmm_ok nv" and inv: "tree_inv (fam_nodes m) root" and k: "key_ok key"
    and a: "key_at (fam_nodes m) root key a"
  shows "getC nv root key m = Some (Inr (a, tree_val (fam_nodes m) root key), m)"
proof -
  obtain n where "a \<noteq> 0" "fam_nodes m a = Some n" "prefix_size n = length key"
    "nv_memcmp nv key (node_key n) (min (prefix_size n) (length key)) = 0"
    "tree_val (fam_nodes m) root key = node_value n"
    using key_at_hit [OF nv inv a] by metis
  then have "getC_step nv key a m = (Ret (Inr (a, tree_val (fam_nodes m) root key)), m)"
    by (simp add: getC_step_def loadTagGptr_def)
  from run_Ret [of "getC_step nv key", OF this] getC_walk.walk_found [OF nv inv a] k
  show ?thesis by (simp add: getC_def)
qed

lemma getC_absent:
  assumes "nvmm_ok nv" "tree_inv (fam_nodes m) root" "key_ok key"
    and "\<And>a. \<not> extends (fam_nodes m) root key a"
  shows "getC nv root key m = Some (Inr (0, TagGptr_default), m)"
  using assms getC_walk.walk_none [OF assms(1,2,4)] by (simp add: getC_def)

lemma getC_out_of_bounds:
  assumes "nvmm_ok nv" "tree_inv (fam_nodes m) root" "key_ok key"
    and "\<And>a. \<not> key_at (fam_nodes m) root key a" "extends (fam_nodes m) root key b"
  shows "getC nv root key m = Some (Inl OutOfBounds, m)"
  using assms getC_walk.walk_short [OF assms(1,2,4,5)] by (simp add: getC_def)

section \<open>The operations on the value cell\<close>

definition bump :: "Gptr \<Rightarrow> TagGptr \<Rightarrow> TagGptr" where
  "bump value tq = mk_TagGptr value (tg_tag tq + 1)"

lemma value_step_alone:
  assumes "fam_nodes m q = Some n"
  shows "value_step q value (node_value n) m =
    (Ret (Inr (node_value n, bump value (node_value n))),
     store_node q (n\<lparr>node_value := bump value (node_value n)\<rparr>) m)"
  using assms by (simp add: value_step_def casTagGptr_def bump_def Let_def)

lemma update_ptr_alone:
  assumes "fam_nodes m q = Some n" "q \<noteq> 0"
  shows "update_ptr q value m =
    Some (Inr (node_value n, bump value (node_value n)),
          store_node q (n\<lparr>node_value := bump value (node_value n)\<rparr>) m)"
  using assms run_Ret [of "value_step q value", OF value_step_alone [OF assms(1)]]
  by (simp add: update_ptr_def loadTagGptr_def)

section \<open>destroy and destroyC\<close>

interpretation destroy_walk: tree_walk nv key "destroy_step nv key" DSearch
  "Inr destroy_none" "Inr destroy_none" for nv key
  by unfold_locales (auto simp: destroy_none_def)

interpretation destroyC_walk: tree_walk nv key "destroyC_step nv key" DSearch
  "Inr destroy_none" "Inl OutOfBounds" for nv key
  by unfold_locales (auto simp: destroy_none_def)

lemma destroy_found:
  assumes nv: "nvmm_ok nv" and inv: "tree_inv (fam_nodes m) root"
    and a: "key_at (fam_nodes m) root key a" and n: "fam_nodes m a = Some n"
  shows "run (destroy_step nv key) (DSearch root) m =
      Some (Inr (a, node_value n, bump 0 (node_value n)),
            store_node a (n\<lparr>node_value := bump 0 (node_value n)\<rparr>) m)"
    and "run (destroyC_step nv key) (DSearch root) m =
      Some (Inr (a, node_value n, bump 0 (node_value n)),
            store_node a (n\<lparr>node_value := bump 0 (node_value n)\<rparr>) m)"
proof -
  have h: "a \<noteq> 0" "prefix_size n = length key"
    "nv_memcmp nv key (node_key n) (min (prefix_size n) (length key)) = 0"
    using key_at_hit [OF nv inv a] n by (metis option.inject)+
  let ?r = "(Ret (Inr (a, node_value n, bump 0 (node_value n))),
    store_node a (n\<lparr>node_value := bump 0 (node_value n)\<rparr>) m)"
  have at: "destroy_at a (node_value n) m = ?r"
    by (simp add: destroy_at_def value_step_alone [OF n])
  from h n have "destroy_step nv key (DSearch a) m = (Next (DUpdate a (node_value n)), m)"
    "destroyC_step nv key (DSearch a) m = (Next (DUpdate a (node_value n)), m)"
    by (simp_all add: loadTagGptr_def)
  moreover from at have "destroy_step nv key (DUpdate a (node_value n)) m = ?r"
    "destroyC_step nv key (DUpdate a (node_value n)) m = ?r" by simp_all
  ultimately show "run (destroy_step nv key) (DSearch root) m =
      Some (Inr (a, node_value n, bump 0 (node_value n)),
            store_node a (n\<lparr>node_value := bump 0 (node_value n)\<rparr>) m)"
    and "run (destroyC_step nv key) (DSearch root) m =
      Some (Inr (a, node_value n, bump 0 (node_value n)),
            store_node a (n\<lparr>node_value := bump 0 (node_value n)\<rparr>) m)"
    using destroy_walk.walk_found [OF nv inv a] destroyC_walk.walk_found [OF nv inv a]
    by (simp_all only: run_Next run_Ret)
qed

lemma fam_inv_value:
  assumes "fam_inv nv root m" "fam_nodes m a = Some n"
  shows "fam_inv nv root (store_node a (n\<lparr>node_value := v\<rparr>) m)"
  using assms tree_inv_value [of "fam_nodes m" root a n v] by (auto simp: fam_inv_def)

text \<open>
  The frame of every operation: nothing the program owned is given up or becomes a node, and
  no node goes away.
\<close>

definition grows :: "'h nvmm \<Rightarrow> 'h fam \<Rightarrow> 'h fam \<Rightarrow> bool" where
  "grows nv m m' \<longleftrightarrow>
     nv_live nv (fam_heap m) \<subseteq> nv_live nv (fam_heap m') \<and>
     dom (fam_nodes m) \<subseteq> dom (fam_nodes m') \<and>
     dom (fam_nodes m') \<inter> nv_live nv (fam_heap m) \<subseteq> dom (fam_nodes m)"

lemma grows_refl [simp]: "grows nv m m"
  by (auto simp: grows_def)

lemma grows_trans: "grows nv m m1 \<Longrightarrow> grows nv m1 m2 \<Longrightarrow> grows nv m m2"
  unfolding grows_def by blast

lemma grows_store: "fam_nodes m a = Some n \<Longrightarrow> grows nv m (store_node a n' m)"
  by (auto simp: grows_def)

text \<open>What writing the value cell of the node of \<open>key\<close> does to the whole tree.\<close>

definition value_written :: "'h nvmm \<Rightarrow> Gptr \<Rightarrow> bytes \<Rightarrow> TagGptr \<Rightarrow> 'h fam \<Rightarrow> 'h fam \<Rightarrow> bool" where
  "value_written nv root key v m m' \<longleftrightarrow>
     fam_inv nv root m' \<and> grows nv m m' \<and>
     tree_val (fam_nodes m') root = (tree_val (fam_nodes m) root)(key := v) \<and>
     key_at (fam_nodes m') root = key_at (fam_nodes m) root"

lemma value_written_store:
  assumes inv: "fam_inv nv root m" and a: "key_at (fam_nodes m) root key a"
    and n: "fam_nodes m a = Some n"
  shows "value_written nv root key v m (store_node a (n\<lparr>node_value := v\<rparr>) m)"
proof -
  from a n have r: "reach (fam_nodes m) root a" "pfx n = key" by (auto simp: key_at_def)
  show ?thesis
    using fam_inv_value [OF inv n] tree_val_value [OF fam_invD(1) [OF inv] r(1) n] r(2)
      grows_store [OF n]
    by (auto simp: value_written_def key_at_value [of "fam_nodes m" a n, OF n] intro!: ext)
qed

lemma destroy_correct:
  assumes nv: "nvmm_ok nv" and inv: "fam_inv nv root m" and k: "key_ok key"
  shows "\<exists>m'. destroy nv root key m = Some (Inr (tree_val (fam_nodes m) root key), m') \<and>
    (if \<exists>a. key_at (fam_nodes m) root key a
     then value_written nv root key (bump 0 (tree_val (fam_nodes m) root key)) m m'
     else m' = m)"
proof (cases "\<exists>a. key_at (fam_nodes m) root key a")
  case True
  note tinv = fam_invD(1) [OF inv]
  from True obtain a n where a: "key_at (fam_nodes m) root key a" "fam_nodes m a = Some n"
    by (auto simp: key_at_def)
  from tree_val_at [OF tinv a] destroy_found(1) [OF nv tinv a] value_written_store [OF inv a] k True
  show ?thesis by (auto simp: destroy_def)
next
  case False
  then have "run (destroy_step nv key) (DSearch root) m = Some (Inr destroy_none, m)"
    using destroy_walk.walk_none [OF nv fam_invD(1) [OF inv]]
      destroy_walk.walk_short [OF nv fam_invD(1) [OF inv]] by blast
  with False k show ?thesis by (simp add: destroy_def destroy_none_def tree_val_none)
qed

lemma destroyC_found:
  assumes nv: "nvmm_ok nv" and inv: "fam_inv nv root m" and k: "key_ok key"
    and a: "key_at (fam_nodes m) root key a"
  shows "\<exists>m'. destroyC nv root key m =
      Some (Inr (a, tree_val (fam_nodes m) root key,
                 bump 0 (tree_val (fam_nodes m) root key)), m') \<and>
    value_written nv root key (bump 0 (tree_val (fam_nodes m) root key)) m m'"
proof -
  note tinv = fam_invD(1) [OF inv]
  from a obtain n where n: "fam_nodes m a = Some n" by (auto simp: key_at_def)
  from tree_val_at [OF tinv a n] destroy_found(2) [OF nv tinv a n]
    value_written_store [OF inv a n] k
  show ?thesis by (auto simp: destroyC_def)
qed

lemma update_ptr_correct:
  assumes inv: "fam_inv nv root m" and a: "key_at (fam_nodes m) root key a"
  shows "\<exists>m'. update_ptr a value m =
      Some (Inr (tree_val (fam_nodes m) root key,
                 bump value (tree_val (fam_nodes m) root key)), m') \<and>
    value_written nv root key (bump value (tree_val (fam_nodes m) root key)) m m'"
proof -
  note tinv = fam_invD(1) [OF inv]
  from a obtain n where n: "fam_nodes m a = Some n" by (auto simp: key_at_def)
  from tree_val_at [OF tinv a n] update_ptr_alone [OF n tree_inv_nonnull [OF tinv n]]
    value_written_store [OF inv a n]
  show ?thesis by auto
qed

lemma getC_ptr_correct:
  assumes "tree_inv (fam_nodes m) root" "key_at (fam_nodes m) root key a"
  shows "getC_ptr a m = Inr (tree_val (fam_nodes m) root key)"
proof -
  from assms(2) obtain n where n: "fam_nodes m a = Some n" by (auto simp: key_at_def)
  with tree_val_at [OF assms n] tree_inv_nonnull [OF assms(1) n] show ?thesis
    by (simp add: getC_ptr_def loadTagGptr_def)
qed

end
