(* ===== verification/RT_Tree_Put.thy ===== *)
theory RT_Tree_Put
  imports RT_Tree_Get
begin

text \<open>
  Correctness of \<open>put\<close> and \<open>putC\<close> for a caller that runs alone: the search phase, then one of
  three endings (the value of an existing node, a new leaf, a split), each a change of the
  memory that \<open>RT_Tree_Update\<close> describes.
\<close>

section \<open>Comparing the key with a node's prefix\<close>

definition match_at :: "bytes \<Rightarrow> Node \<Rightarrow> nat" where
  "match_at key n = match_len (min (length key) (prefix_size n)) key (node_key n)"

lemma match_at_spec:
  assumes "node_ok ns n"
  shows "match_at key n \<le> length key" "match_at key n \<le> prefix_size n"
    "take (match_at key n) key = take (match_at key n) (pfx n)"
    "match_at key n < length key \<Longrightarrow> match_at key n < prefix_size n \<Longrightarrow>
       key ! match_at key n \<noteq> pfx n ! match_at key n"
proof -
  let ?i = "match_at key n"
  have s: "?i \<le> min (length key) (prefix_size n)" "take ?i key = take ?i (node_key n)"
    "?i < min (length key) (prefix_size n) \<longrightarrow> key ! ?i \<noteq> node_key n ! ?i"
    using match_len_spec [of "min (length key) (prefix_size n)" key "node_key n"] node_okD [OF assms]
    by (auto simp: match_at_def)
  then show "?i \<le> length key" "?i \<le> prefix_size n" by auto
  with s(2) show "take ?i key = take ?i (pfx n)" by (simp add: pfx_def min_def)
  show "key ! ?i \<noteq> pfx n ! ?i" if "?i < length key" "?i < prefix_size n"
    using s(3) that by (simp add: pfx_def)
qed

lemma match_at_full: "node_ok ns n \<Longrightarrow> match_at key n = prefix_size n \<longleftrightarrow> prefix (pfx n) key"
proof
  assume ok: "node_ok ns n"
  note s = match_at_spec [OF ok, of key] and len = length_pfx [OF ok]
  show "prefix (pfx n) key" if "match_at key n = prefix_size n"
    using s(3) that len by (simp add: prefix_take_iff)
  show "match_at key n = prefix_size n" if pre: "prefix (pfx n) key"
  proof (rule ccontr)
    assume "match_at key n \<noteq> prefix_size n"
    with s(2) have "match_at key n < prefix_size n" by simp
    with s(4) pre len show False by (auto simp: prefix_def nth_append)
  qed
qed

lemma match_at_ge:
  assumes "node_ok ns n" "prefix p key" "prefix p (pfx n)"
  shows "length p \<le> match_at key n"
proof (rule ccontr)
  assume lt: "\<not> length p \<le> match_at key n"
  moreover have "length p \<le> length key" "length p \<le> prefix_size n"
    using assms(2,3) length_pfx [OF assms(1)] by (auto dest: prefix_length_le)
  ultimately have "key ! match_at key n \<noteq> pfx n ! match_at key n"
    by (intro match_at_spec(4) [OF assms(1)]) auto
  with lt assms(2,3) show False by (auto simp: prefix_def nth_append)
qed

section \<open>The search phase\<close>

text \<open>
  While \<open>put\<close> searches, \<open>q\<close> is what the slot \<open>p\<close> holds, and the slot lies on the way to the
  key; only at the start is there no slot, and then \<open>q\<close> is the root.
\<close>

definition put_pos :: "nodes \<Rightarrow> Gptr \<Rightarrow> bytes \<Rightarrow> put_local \<Rightarrow> bool" where
  "put_pos ns root key l \<longleftrightarrow>
     seeks ns root key (cur_q l) \<and>
     (case slot l of
        None \<Rightarrow> cur_q l = root
      | Some (a, c) \<Rightarrow> reach ns root a \<and>
          (\<exists>n. ns a = Some n \<and> prefix (pfx n @ [c]) key \<and> child n c = cur_q l))"

lemma put_pos_init: "tree_inv ns root \<Longrightarrow> put_pos ns root key (put_init root)"
  by (simp add: put_pos_def put_init_def seeks_root)

text \<open>The search ends at the null pointer, at the node of the key, or at a node to split.\<close>

definition put_stop :: "nodes \<Rightarrow> bytes \<Rightarrow> put_local \<Rightarrow> bool" where
  "put_stop ns key l \<longleftrightarrow>
     cur_q l = 0 \<or> (\<exists>n. ns (cur_q l) = Some n \<and> (pfx n = key \<or> \<not> prefix (pfx n) key))"

lemma put_find_at:
  assumes "cur_q l \<noteq> 0" "fam_nodes m (cur_q l) = Some n"
  shows "put_find nv key update l m =
    (if match_at key n < prefix_size n
     then (Next (l\<lparr>put_pc := Split, split_size := match_at key n,
                   existing := node_key n ! match_at key n\<rparr>), m)
     else if length key = match_at key n
     then (let m' = free_node nv (new_leaf_ptr l) (free_node nv (intermediate_node_ptr l) m)
           in if update = FIND_OR_CREATE \<and> IsValid (node_value n)
              then (Ret (Inr \<lparr>put_key = cur_q l, put_old = node_value n,
                              put_new = node_value n\<rparr>), m')
              else (Next (l\<lparr>put_pc := UpdateValue (node_value n)\<rparr>), m'))
     else (Next (l\<lparr>slot := Some (cur_q l, key ! match_at key n),
                   cur_q := child n (key ! match_at key n)\<rparr>), m))"
  using assms unfolding put_find_def match_at_def Let_def by simp

lemma put_find_down:
  assumes inv: "tree_inv (fam_nodes m) root" and pos: "put_pos (fam_nodes m) root key l"
    and go: "\<not> put_stop (fam_nodes m) key l"
  obtains l' where "put_find nv key update l m = (Next l', m)"
    "put_pos (fam_nodes m) root key l'" "room (fam_nodes m) (cur_q l') < room (fam_nodes m) (cur_q l)"
    "put_pc l' = put_pc l" "new_leaf_ptr l' = new_leaf_ptr l"
    "intermediate_node_ptr l' = intermediate_node_ptr l"
proof -
  from go have nz: "cur_q l \<noteq> 0" by (simp add: put_stop_def)
  have sk: "seeks (fam_nodes m) root key (cur_q l)" using pos by (simp add: put_pos_def)
  obtain n where n: "fam_nodes m (cur_q l) = Some n" and ok: "node_ok (fam_nodes m) n"
    and r: "reach (fam_nodes m) root (cur_q l)"
    using seeks_node [OF inv sk nz] .
  from go n have pre: "prefix (pfx n) key" "pfx n \<noteq> key" by (auto simp: put_stop_def)
  have len: "length (pfx n) < length key"
    using pre prefix_length_eq [OF pre(1)] by (simp add: not_le [symmetric] del: not_le) blast
  let ?i = "match_at key n" and ?l = "l\<lparr>slot := Some (cur_q l, key ! length (pfx n)),
    cur_q := child n (key ! length (pfx n))\<rparr>"
  have i: "?i = prefix_size n" "?i = length (pfx n)"
    using match_at_full [OF ok] pre(1) length_pfx [OF ok] by simp_all
  have "put_find nv key update l m = (Next ?l, m)"
    using i len by (simp add: put_find_at [OF nz n])
  moreover have "put_pos (fam_nodes m) root key ?l"
    using seeks_down [OF inv sk n pre(1) len] r n prefix_snoc_nth [OF pre(1) len]
    by (auto simp: put_pos_def)
  ultimately show thesis using that [of ?l] room_child [OF inv n] by simp
qed

lemma put_search:
  assumes inv: "tree_inv (fam_nodes m) root"
    and "put_pos (fam_nodes m) root key l" "put_pc l = Find"
  shows "\<exists>l'. run (put_step nv key value update) l m = run (put_step nv key value update) l' m \<and>
    put_pos (fam_nodes m) root key l' \<and> put_stop (fam_nodes m) key l' \<and> put_pc l' = Find \<and>
    new_leaf_ptr l' = new_leaf_ptr l \<and> intermediate_node_ptr l' = intermediate_node_ptr l"
  using assms(2,3)
proof (induction "room (fam_nodes m) (cur_q l)" arbitrary: l rule: less_induct)
  case less
  show ?case
  proof (cases "put_stop (fam_nodes m) key l")
    case True
    with less.prems show ?thesis by blast
  next
    case False
    obtain l' where l': "put_find nv key update l m = (Next l', m)"
      "put_pos (fam_nodes m) root key l'"
      "room (fam_nodes m) (cur_q l') < room (fam_nodes m) (cur_q l)"
      "put_pc l' = put_pc l" "new_leaf_ptr l' = new_leaf_ptr l"
      "intermediate_node_ptr l' = intermediate_node_ptr l"
      by (rule put_find_down [OF inv less.prems(1) False])
    from l'(1) less.prems(2) have "put_step nv key value update l m = (Next l', m)"
      by (simp add: put_step_def)
    from run_Next [of "put_step nv key value update", OF this] less.hyps [OF l'(3,2)]
      l'(4-6) less.prems(2) show ?thesis by auto
  qed
qed

section \<open>New nodes\<close>

definition leaf_node :: "bytes \<Rightarrow> Gptr \<Rightarrow> Node" where
  "leaf_node key value =
     zero_node\<lparr>node_key := memcpy (node_key zero_node) key, prefix_size := length key,
               node_value := mk_TagGptr value 0\<rparr>"

definition inner_node :: "bytes \<Rightarrow> nat \<Rightarrow> (byte \<Rightarrow> Gptr) \<Rightarrow> TagGptr \<Rightarrow> Node" where
  "inner_node key s ch v =
     zero_node\<lparr>node_key := memcpy (node_key zero_node) key, prefix_size := s, child := ch,
               node_value := v\<rparr>"

lemma leaf_node_simps [simp]:
  "key_ok key \<Longrightarrow> pfx (leaf_node key value) = key" "child (leaf_node key value) c = 0"
  "node_value (leaf_node key value) = mk_TagGptr value 0"
  by (simp_all add: leaf_node_def pfx_def take_memcpy zero_node_def)

lemma leaf_node_ok [simp]: "key_ok key \<Longrightarrow> node_ok ns (leaf_node key value)"
  by (simp add: node_ok_def leaf_node_def zero_node_def length_memcpy key_ok_def)

lemma inner_node_simps [simp]:
  "s \<le> length key \<Longrightarrow> pfx (inner_node key s ch v) = take s key"
  "child (inner_node key s ch v) = ch" "node_value (inner_node key s ch v) = v"
  by (simp_all add: inner_node_def pfx_def take_memcpy)

lemma inner_node_ok:
  assumes "key_ok key" "s \<le> length key"
    and "\<And>c. ch c \<noteq> 0 \<Longrightarrow> \<exists>n'. ns (ch c) = Some n' \<and> prefix (take s key @ [c]) (pfx n')"
  shows "node_ok ns (inner_node key s ch v)"
  using assms by (auto simp: node_ok_def length_memcpy key_ok_def inner_node_def zero_node_def
      pfx_def take_memcpy)

lemma make_leaf_cases:
  assumes nv: "nvmm_ok nv" and "make_leaf nv key value 0 m = (r, m')"
  obtains (abort) "r = Inl AssertFail" "fam_nodes m' = fam_nodes m"
      "nv_live nv (fam_heap m') = nv_live nv (fam_heap m)" "\<forall>k. \<not> nvmm_serves nv (Suc k) (fam_heap m)"
  | (made) p where "r = Inr p" "fam_nodes m' = (fam_nodes m)(p \<mapsto> leaf_node key value)"
      "fresh_block nv (fam_heap m) p (fam_heap m')"
      "\<forall>k. nvmm_serves nv (Suc k) (fam_heap m) \<longrightarrow> nvmm_serves nv k (fam_heap m')"
proof -
  obtain x h where x: "alloc_node nv (fam_heap m) = (x, h)" by fastforce
  have t: "\<forall>k. nvmm_serves nv (Suc k) (fam_heap m) \<longrightarrow> (\<exists>p. x = Inr p) \<and> nvmm_serves nv k h"
    using x by (metis nvmm_serves_alloc prod.inject)
  from nv x show thesis
    by (cases rule: alloc_node_cases)
      (use assms(2) x that t in \<open>auto simp: make_leaf_def leaf_node_def fresh_block_def Let_def
        simp del: nvmm_serves.simps\<close>)
qed

lemma make_intermediate_cases:
  assumes nv: "nvmm_ok nv" and "make_intermediate nv key 0 m = (r, m')"
  obtains (abort) "r = Inl AssertFail" "fam_nodes m' = fam_nodes m"
      "nv_live nv (fam_heap m') = nv_live nv (fam_heap m)" "\<forall>k. \<not> nvmm_serves nv (Suc k) (fam_heap m)"
  | (made) p where "r = Inr p"
      "fam_nodes m' = (fam_nodes m)(p \<mapsto> inner_node key 0 (\<lambda>_. 0) TagGptr_default)"
      "fresh_block nv (fam_heap m) p (fam_heap m')"
      "\<forall>k. nvmm_serves nv (Suc k) (fam_heap m) \<longrightarrow> nvmm_serves nv k (fam_heap m')"
proof -
  obtain x h where x: "alloc_node nv (fam_heap m) = (x, h)" by fastforce
  have t: "\<forall>k. nvmm_serves nv (Suc k) (fam_heap m) \<longrightarrow> (\<exists>p. x = Inr p) \<and> nvmm_serves nv k h"
    using x by (metis nvmm_serves_alloc prod.inject)
  have z: "zero_node\<lparr>node_key := k, child := \<lambda>_. 0\<rparr> =
      zero_node\<lparr>node_key := k, prefix_size := 0, child := \<lambda>_. 0, node_value := TagGptr_default\<rparr>" for k
    by (simp add: zero_node_def)
  from nv x show thesis
    by (cases rule: alloc_node_cases)
      (use assms(2) x that z t in
        \<open>auto simp: make_intermediate_def inner_node_def fresh_block_def Let_def
          simp del: nvmm_serves.simps\<close>)
qed

section \<open>What a put does to the tree\<close>

definition same_tree :: "'h nvmm \<Rightarrow> Gptr \<Rightarrow> 'h fam \<Rightarrow> 'h fam \<Rightarrow> bool" where
  "same_tree nv root m m' \<longleftrightarrow>
     fam_inv nv root m' \<and> grows nv m m' \<and> tree_val (fam_nodes m') root = tree_val (fam_nodes m) root \<and>
     key_at (fam_nodes m') root = key_at (fam_nodes m) root"

text \<open>The key had no node; now \<open>b\<close> is its node and holds \<open>v\<close>; nothing else changed.\<close>

definition key_added ::
  "'h nvmm \<Rightarrow> Gptr \<Rightarrow> bytes \<Rightarrow> TagGptr \<Rightarrow> Gptr \<Rightarrow> 'h fam \<Rightarrow> 'h fam \<Rightarrow> bool" where
  "key_added nv root key v b m m' \<longleftrightarrow>
     fam_inv nv root m' \<and> grows nv m m' \<and> (\<forall>a. \<not> key_at (fam_nodes m) root key a) \<and>
     tree_val (fam_nodes m') root = (tree_val (fam_nodes m) root)(key := v) \<and>
     key_at (fam_nodes m') root key b \<and>
     (\<forall>k a. key_at (fam_nodes m) root k a \<longrightarrow> key_at (fam_nodes m') root k a)"

lemma same_tree_refl: "fam_inv nv root m \<Longrightarrow> same_tree nv root m m"
  by (simp add: same_tree_def)

lemma same_tree_trans:
  "same_tree nv root m m1 \<Longrightarrow> same_tree nv root m1 m2 \<Longrightarrow> same_tree nv root m m2"
  by (auto simp: same_tree_def intro: grows_trans)

lemma key_added_after:
  "same_tree nv root m m1 \<Longrightarrow> key_added nv root key v b m1 m2 \<Longrightarrow> key_added nv root key v b m m2"
  by (auto simp: same_tree_def key_added_def intro: grows_trans)

lemma same_tree_heap:
  assumes "fam_inv nv root m" "fam_nodes m' = fam_nodes m"
    "nv_live nv (fam_heap m') = nv_live nv (fam_heap m)"
  shows "same_tree nv root m m'"
  using assms by (auto simp: same_tree_def fam_inv_def grows_def)

lemma same_tree_fresh:
  assumes inv: "fam_inv nv root m" and fr: "fresh_block nv (fam_heap m) p (fam_heap m')"
    and m': "fam_nodes m' = (fam_nodes m)(p \<mapsto> np)" and ok: "node_ok (fam_nodes m) np"
  shows "same_tree nv root m m'" "p \<notin> dom (fam_nodes m)" "p \<noteq> 0"
proof -
  note tinv = fam_invD(1) [OF inv] and dom = fam_invD(2) [OF inv]
  show p: "p \<notin> dom (fam_nodes m)" "p \<noteq> 0" using fr dom by (auto simp: fresh_block_def)
  note nr = fresh_not_reach [OF tinv p(1)]
  have "tree_inv (fam_nodes m') root" unfolding m' by (rule tree_inv_fresh [OF tinv p ok])
  moreover have "dom (fam_nodes m') \<subseteq> nv_live nv (fam_heap m')"
    using dom fr by (auto simp: m' fresh_block_def)
  moreover have "key_at (fam_nodes m') root = key_at (fam_nodes m) root"
    unfolding m' by (intro ext key_at_private [OF nr])
  moreover have "tree_val (fam_nodes m') root = tree_val (fam_nodes m) root"
    unfolding m' by (rule tree_val_private [OF tinv nr])
  moreover have "grows nv m m'" using fr by (auto simp: grows_def m' fresh_block_def)
  ultimately show "same_tree nv root m m'" by (simp add: same_tree_def fam_inv_def)
qed

text \<open>The CAS that publishes, as a step on the whole memory.\<close>

lemma cas64_publishes:
  assumes inv: "fam_inv nv root m" and sw: "swings (fam_nodes m) root a n c i ni"
    and below: "\<And>x. reach (fam_nodes m) i x \<longleftrightarrow>
      x \<in> new \<or> (child n c \<noteq> 0 \<and> reach (fam_nodes m) (child n c) x)"
    and new: "\<And>x. x \<in> new \<Longrightarrow> \<not> reach (fam_nodes m) root x"
    and b: "b \<in> new" "fam_nodes m b = Some nb" "pfx nb = key"
    and blank: "\<And>x nx. x \<in> new \<Longrightarrow> x \<noteq> b \<Longrightarrow> fam_nodes m x = Some nx \<Longrightarrow>
      node_value nx = TagGptr_default"
  shows "\<exists>m'. cas64 (a, c) (child n c) i m = Inr (child n c, m') \<and>
    key_added nv root key (node_value nb) b m m'"
proof -
  from sw have a: "fam_nodes m a = Some n" by (simp add: swings_def)
  let ?m = "store_node a (n\<lparr>child := (child n)(c := i)\<rparr>) m"
  have ns: "fam_nodes ?m = swing (fam_nodes m) a n c i" by (simp add: swing_def)
  have "dom (fam_nodes ?m) = dom (fam_nodes m)" using a by auto
  then have "fam_inv nv root ?m"
    using tree_inv_swing [OF sw] fam_invD(2) [OF inv] unfolding ns [symmetric]
    by (simp add: fam_inv_def del: store_node_sel(1))
  moreover have "tree_val (fam_nodes ?m) root = (tree_val (fam_nodes m) root)(key := node_value nb)"
    unfolding ns b(3) [symmetric]
    by (rule swing_publishes(1) [OF sw below _ b(1,2)]) (use new blank in auto)
  moreover have "\<not> key_at (fam_nodes m) root key x" for x
    unfolding b(3) [symmetric]
    by (rule swing_publishes(2) [OF sw below _ b(1,2)]) (use new blank in auto)
  moreover have "key_at (fam_nodes ?m) root key b"
    unfolding ns b(3) [symmetric]
    by (rule swing_publishes(3) [OF sw below _ b(1,2)]) (use new blank in auto)
  moreover have "key_at (fam_nodes ?m) root k x" if "key_at (fam_nodes m) root k x" for k x
    unfolding ns by (rule swing_publishes(4) [OF sw below _ b(1,2) _ that]) (use new blank in auto)
  moreover have "grows nv m ?m" by (rule grows_store [OF a])
  ultimately have "key_added nv root key (node_value nb) b m ?m"
    by (simp add: key_added_def del: store_node_sel)
  with a show ?thesis by (simp add: cas64_def)
qed

section \<open>The three endings\<close>

text \<open>What a \<open>put\<close> that finds no node for its key does.\<close>

definition put_adds ::
  "'h nvmm \<Rightarrow> Gptr \<Rightarrow> bytes \<Rightarrow> Gptr \<Rightarrow> 'h fam \<Rightarrow> fault + put_result \<Rightarrow> 'h fam \<Rightarrow> bool" where
  "put_adds nv root key value m r m' \<longleftrightarrow>
     (r = Inl AssertFail \<and> \<not> nvmm_serves nv 2 (fam_heap m) \<and> same_tree nv root m m') \<or>
     (\<exists>b. r = Inr \<lparr>put_key = b, put_old = TagGptr_default, put_new = mk_TagGptr value 0\<rparr> \<and>
          key_added nv root key (mk_TagGptr value 0) b m m')"

text \<open>The node of the key exists: its value cell is read, and rewritten unless in find mode.\<close>

lemma put_ends_value:
  assumes "put_pc l = Find" "cur_q l \<noteq> 0" "new_leaf_ptr l = 0" "intermediate_node_ptr l = 0"
    and n: "fam_nodes m (cur_q l) = Some n" and ok: "node_ok ns n" and key: "pfx n = key"
  shows "run (put_step nv key value update) l m = Some
    (if update = FIND_OR_CREATE \<and> IsValid (node_value n)
     then (Inr \<lparr>put_key = cur_q l, put_old = node_value n, put_new = node_value n\<rparr>, m)
     else (Inr \<lparr>put_key = cur_q l, put_old = node_value n,
                put_new = bump value (node_value n)\<rparr>,
           store_node (cur_q l) (n\<lparr>node_value := bump value (node_value n)\<rparr>) m))"
proof -
  let ?step = "put_step nv key value update"
  let ?l = "l\<lparr>put_pc := UpdateValue (node_value n)\<rparr>"
  have i: "match_at key n = prefix_size n" "length key = prefix_size n"
    using match_at_full [OF ok, of key] length_pfx [OF ok] key by auto
  show ?thesis
  proof (cases "update = FIND_OR_CREATE \<and> IsValid (node_value n)")
    case True
    with i assms have "?step l m = (Ret (Inr \<lparr>put_key = cur_q l, put_old = node_value n,
        put_new = node_value n\<rparr>), m)"
      by (simp add: put_step_def put_find_at)
    from run_Ret [of ?step, OF this] True show ?thesis by simp
  next
    case False
    with i assms have "?step l m = (Next ?l, m)"
      by (auto simp: put_step_def put_find_at)
    moreover have "?step ?l m = (Ret (Inr \<lparr>put_key = cur_q l, put_old = node_value n,
        put_new = bump value (node_value n)\<rparr>),
        store_node (cur_q l) (n\<lparr>node_value := bump value (node_value n)\<rparr>) m)"
      using value_step_alone [OF n, of "value"] by (simp add: put_step_def put_update_def)
    ultimately show ?thesis using False by (simp only: run_Next run_Ret if_False)
  qed
qed

text \<open>The slot is empty: a new leaf is linked into it.\<close>

lemma put_ends_leaf:
  assumes nv: "nvmm_ok nv" and inv: "fam_inv nv root m" and k: "key_ok key"
    and pos: "put_pos (fam_nodes m) root key l"
    and l: "put_pc l = Find" "cur_q l = 0" "new_leaf_ptr l = 0" "intermediate_node_ptr l = 0"
  shows "\<exists>r m'. run (put_step nv key value update) l m = Some (r, m') \<and>
    put_adds nv root key value m r m'"
proof -
  let ?step = "put_step nv key value update" and ?l = "l\<lparr>put_pc := InsertLeaf\<rparr>"
  note tinv = fam_invD(1) [OF inv]
  have "root \<noteq> 0" using tinv by (rule tree_inv_root)
  with pos l(2) obtain a c n where sl: "slot l = Some (a, c)" and ra: "reach (fam_nodes m) root a"
    and n: "fam_nodes m a = Some n" "prefix (pfx n @ [c]) key" "child n c = 0"
    by (auto simp: put_pos_def split: option.splits)
  obtain x m1 where mk: "make_leaf nv key value 0 m = (x, m1)" by fastforce
  have r1: "run ?step l m = run ?step ?l m"
    by (rule run_Next) (simp add: put_step_def put_find_def l)
  from nv mk show ?thesis
  proof (cases rule: make_leaf_cases)
    case abort
    then have "run ?step ?l m = Some (Inl AssertFail, m1)"
      by (intro run_Ret) (simp add: put_step_def put_insert_leaf_def l mk)
    with r1 spec [OF abort(4), of 1] same_tree_heap [OF inv abort(2,3)] show ?thesis by (auto simp: put_adds_def numeral_2_eq_2)
  next
    case (made p)
    let ?l2 = "?l\<lparr>put_pc := CasLeaf, new_leaf_ptr := p\<rparr>" and ?nl = "leaf_node key value"
    note fresh = same_tree_fresh [OF inv made(3,2) leaf_node_ok [OF k]]
    from made have r2: "run ?step ?l m = run ?step ?l2 m1"
      by (intro run_Next) (simp add: put_step_def put_insert_leaf_def l mk)
    note nr = fresh_not_reach [OF tinv fresh(2)]
    have sw: "swings (fam_nodes m1) root a n c p ?nl"
      using fresh n ra nr k reach_private [OF nr] unfolding swings_def made(2)
      by (auto simp: same_tree_def fam_inv_def made(2))
    have "\<exists>m'. cas64 (a, c) (child n c) p m1 = Inr (child n c, m') \<and>
        key_added nv root key (node_value ?nl) p m1 m'"
      using fresh(1) sw
      by (intro cas64_publishes [where new = "{p}"])
        (auto simp: same_tree_def made(2) n(3) k reach_leaf reach_private [OF nr] nr)
    then obtain m2 where m2: "cas64 (a, c) 0 p m1 = Inr (0, m2)"
      "key_added nv root key (mk_TagGptr value 0) p m1 m2" by (auto simp: n(3))
    then have "run ?step ?l2 m1 = Some (Inr \<lparr>put_key = p, put_old = TagGptr_default,
        put_new = mk_TagGptr value 0\<rparr>, m2)"
      by (intro run_Ret) (simp add: put_step_def put_cas_leaf_def sl l)
    with r1 r2 key_added_after [OF fresh(1) m2(2)] show ?thesis by (auto simp: put_adds_def numeral_2_eq_2)
  qed
qed

text \<open>
  The place of a split: below slot \<open>c\<close> of node \<open>a\<close> hangs \<open>q\<close>, whose prefix leaves the key
  after \<open>s\<close> bytes.
\<close>

definition split_at ::
  "nodes \<Rightarrow> Gptr \<Rightarrow> bytes \<Rightarrow> Gptr \<Rightarrow> Node \<Rightarrow> byte \<Rightarrow> Gptr \<Rightarrow> Node \<Rightarrow> nat \<Rightarrow> bool" where
  "split_at ns root key a n c q nq s \<longleftrightarrow>
     tree_inv ns root \<and> reach ns root a \<and> ns a = Some n \<and> child n c = q \<and> q \<noteq> 0 \<and>
     ns q = Some nq \<and> s \<le> length key \<and> prefix (pfx n @ [c]) (take s key) \<and>
     prefix (take s key @ [node_key nq ! s]) (pfx nq) \<and>
     (s < length key \<longrightarrow> key ! s \<noteq> node_key nq ! s)"

lemma put_pos_split:
  assumes inv: "tree_inv ns root" and pos: "put_pos ns root key l"
    and q: "cur_q l \<noteq> 0" "ns (cur_q l) = Some nq" and np: "\<not> prefix (pfx nq) key"
  obtains a c n where "slot l = Some (a, c)" "match_at key nq < prefix_size nq"
    "split_at ns root key a n c (cur_q l) nq (match_at key nq)"
proof -
  let ?s = "match_at key nq"
  note ok = tree_inv_node [OF inv q(2)]
  note ms = match_at_spec [OF ok, of key]
  have lt: "?s < prefix_size nq" using ms(2) match_at_full [OF ok, of key] np by linarith
  have nth: "pfx nq ! ?s = node_key nq ! ?s" using lt by (simp add: pfx_def)
  have "cur_q l \<noteq> root" using np q(2) tree_inv_root [OF inv] by (metis Nil_prefix option.inject)
  with pos obtain a c n where sl: "slot l = Some (a, c)" and r: "reach ns root a"
    and n: "ns a = Some n" "prefix (pfx n @ [c]) key" "child n c = cur_q l"
    by (auto simp: put_pos_def split: option.splits)
  have "prefix (pfx n @ [c]) (pfx nq)"
    using node_ok_child [OF tree_inv_node [OF inv n(1)], of c] n(3) q by auto
  from prefix_of_take [OF n(2) match_at_ge [OF ok n(2) this]]
  have "prefix (pfx n @ [c]) (take ?s key)" .
  moreover have "prefix (take ?s key @ [node_key nq ! ?s]) (pfx nq)"
    using prefix_snoc_nth [of "take ?s (pfx nq)" "pfx nq"] lt length_pfx [OF ok] ms(3) nth
    by (simp add: take_is_prefix)
  ultimately have "split_at ns root key a n c (cur_q l) nq ?s"
    using inv r n q ms(1) ms(4) lt nth by (auto simp: split_at_def)
  with sl lt show thesis by (rule that)
qed

lemma split_at_fresh:
  assumes "split_at ns root key a n c q nq s" "p \<notin> dom ns" "tree_inv (ns(p := v)) root"
  shows "split_at (ns(p := v)) root key a n c q nq s" "reach (ns(p := v)) root x = reach ns root x"
proof -
  from assms(1) have inv: "tree_inv ns root" by (simp add: split_at_def)
  note r = reach_private [OF fresh_not_reach [OF inv assms(2)], of v]
  from r show "reach (ns(p := v)) root x = reach ns root x" .
  from assms r show "split_at (ns(p := v)) root key a n c q nq s"
    by (auto simp: split_at_def dom_def)
qed

lemma split_at_swings:
  assumes "split_at ns root key a n c q nq s" "ns i = Some (inner_node key s ch v)"
    "\<not> reach ns root i" "ch (node_key nq ! s) = q"
  shows "swings ns root a n c i (inner_node key s ch v)"
  using assms reach_edge [of ns i "inner_node key s ch v" "node_key nq ! s"]
  by (auto simp: swings_def split_at_def)

text \<open>The key ends at the split: the intermediate node itself holds the value.\<close>

lemma split_publishes_here:
  assumes inv: "fam_inv nv root m" and sp: "split_at (fam_nodes m) root key a n c q nq (length key)"
    and i: "fam_nodes m i = Some (inner_node key (length key) ((\<lambda>_. 0)(node_key nq ! length key := q)) v)"
      "\<not> reach (fam_nodes m) root i"
  shows "\<exists>m'. cas64 (a, c) q i m = Inr (q, m') \<and> key_added nv root key v i m m'"
proof -
  from sp have q: "child n c = q" "q \<noteq> 0" by (auto simp: split_at_def)
  have "reach (fam_nodes m) i x \<longleftrightarrow> x = i \<or> (\<exists>y\<in>{q}. reach (fam_nodes m) y x)" for x
    using q by (intro reach_inner [of "fam_nodes m" i, OF i(1)]) (auto split: if_splits)
  then have "\<exists>m'. cas64 (a, c) (child n c) i m = Inr (child n c, m') \<and>
      key_added nv root key (node_value (inner_node key (length key)
        ((\<lambda>_. 0)(node_key nq ! length key := q)) v)) i m m'"
    using i q by (intro cas64_publishes [OF inv split_at_swings [OF sp i], where new = "{i}"]) auto
  with q show ?thesis by simp
qed

text \<open>The key goes on: the intermediate node has the old subtree and the new leaf below it.\<close>

lemma split_publishes_leaf:
  assumes inv: "fam_inv nv root m" and sp: "split_at (fam_nodes m) root key a n c q nq s"
    and s: "s < length key" and k: "key_ok key"
    and i: "fam_nodes m i = Some (inner_node key s
        ((\<lambda>_. 0)(key ! s := lp, node_key nq ! s := q)) TagGptr_default)"
      "\<not> reach (fam_nodes m) root i" "i \<noteq> lp"
    and lp: "fam_nodes m lp = Some (leaf_node key value)" "\<not> reach (fam_nodes m) root lp"
  shows "\<exists>m'. cas64 (a, c) q i m = Inr (q, m') \<and>
    key_added nv root key (mk_TagGptr value 0) lp m m'"
proof -
  from sp s have q: "child n c = q" "q \<noteq> 0" and ne: "key ! s \<noteq> node_key nq ! s"
    by (auto simp: split_at_def)
  have lp0: "lp \<noteq> 0" using tree_inv_nonnull [OF fam_invD(1) [OF inv] lp(1)] .
  have "reach (fam_nodes m) i x \<longleftrightarrow> x = i \<or> (\<exists>y\<in>{lp, q}. reach (fam_nodes m) y x)" for x
    using q ne lp0 by (intro reach_inner [of "fam_nodes m" i, OF i(1)])
      (auto split: if_splits intro: exI [of _ "node_key nq ! s"])
  then have below: "reach (fam_nodes m) i x \<longleftrightarrow>
      x \<in> {i, lp} \<or> child n c \<noteq> 0 \<and> reach (fam_nodes m) (child n c) x" for x
    using reach_leaf [of "fam_nodes m" lp, OF lp(1)] q by auto
  have "\<exists>m'. cas64 (a, c) (child n c) i m = Inr (child n c, m') \<and>
      key_added nv root key (node_value (leaf_node key value)) lp m m'"
    using i lp k
    by (intro cas64_publishes [OF inv split_at_swings [OF sp i(1,2)] below]) auto
  with q show ?thesis by simp
qed

text \<open>The intermediate node, and the leaf when there is one, before they are published.\<close>

lemma inner_here_ok:
  assumes "split_at ns root key a n c q nq s" "key_ok key"
  shows "node_ok ns (inner_node key s ((\<lambda>_. 0)(node_key nq ! s := q)) v)"
  using assms by (intro inner_node_ok) (auto simp: split_at_def)

lemma inner_leaf_ok:
  assumes "split_at ns root key a n c q nq s" "key_ok key" "s < length key"
    "ns lp = Some (leaf_node key value)"
  shows "node_ok ns (inner_node key s ((\<lambda>_. 0)(key ! s := lp, node_key nq ! s := q)) v)"
proof (rule inner_node_ok)
  fix d
  assume "((\<lambda>_. 0)(key ! s := lp, node_key nq ! s := q)) d \<noteq> 0"
  then show "\<exists>n'. ns (((\<lambda>_. 0)(key ! s := lp, node_key nq ! s := q)) d) = Some n' \<and>
      prefix (take s key @ [d]) (pfx n')"
    using assms prefix_snoc_nth [OF take_is_prefix, of s key]
    by (auto simp: split_at_def split: if_splits)
qed (use assms in auto)

lemma split_prepared_leaf:
  assumes inv: "fam_inv nv root m" and sp: "split_at (fam_nodes m) root key a n c q nq s"
    and s: "s < length key" and k: "key_ok key"
    and ip: "fresh_block nv (fam_heap m) ip (fam_heap m1)"
    and lp: "fresh_block nv (fam_heap m1) lp (fam_heap m2)"
    and m3: "fam_heap m3 = fam_heap m2"
      "fam_nodes m3 = (fam_nodes m)(lp \<mapsto> leaf_node key value, ip \<mapsto> inner_node key s
        ((\<lambda>_. 0)(key ! s := lp, node_key nq ! s := q)) TagGptr_default)"
  shows "same_tree nv root m m3"
    "\<exists>m'. cas64 (a, c) q ip m3 = Inr (q, m') \<and>
       key_added nv root key (mk_TagGptr value 0) lp m3 m'"
proof -
  let ?ns = "(fam_nodes m)(lp \<mapsto> leaf_node key value)"
  note tinv = fam_invD(1) [OF inv] and dom = fam_invD(2) [OF inv]
  have p: "lp \<notin> dom (fam_nodes m)" "lp \<noteq> 0" "ip \<notin> dom (fam_nodes m)" "ip \<noteq> 0" "ip \<noteq> lp"
    "ip \<notin> dom ?ns"
    using ip lp dom by (auto simp: fresh_block_def)
  have inv1: "tree_inv ?ns root" by (rule tree_inv_fresh [OF tinv p(1,2)]) (simp add: k)
  note sp1 = split_at_fresh [OF sp p(1) inv1]
  have inv3: "tree_inv (fam_nodes m3) root" unfolding m3
    by (rule tree_inv_fresh [OF inv1 p(6,4) inner_leaf_ok [OF sp1(1) k s]]) simp
  note sp3 = split_at_fresh [OF sp1(1) p(6) inv3 [unfolded m3], folded m3(2)]
  note nr = fresh_not_reach [OF tinv p(1)] fresh_not_reach [OF tinv p(3)]
    fresh_not_reach [OF inv1 p(6)]
  have inv3': "fam_inv nv root m3"
    using inv3 dom ip lp by (auto simp: fam_inv_def m3 fresh_block_def)
  have "grows nv m m3" using ip lp by (auto simp: grows_def m3 fresh_block_def)
  then show "same_tree nv root m m3"
    using inv3' key_at_private [OF nr(1)] key_at_private [OF nr(3)] tree_val_private [OF tinv nr(1)]
      tree_val_private [OF inv1 nr(3)]
    by (auto simp: same_tree_def m3 intro!: ext)
  show "\<exists>m'. cas64 (a, c) q ip m3 = Inr (q, m') \<and>
      key_added nv root key (mk_TagGptr value 0) lp m3 m'"
    by (rule split_publishes_leaf [OF inv3' sp3(1) s k])
      (use p nr sp1(2) sp3(2) in \<open>auto simp: m3\<close>)
qed

lemma split_prepared_here:
  assumes inv: "fam_inv nv root m" and sp: "split_at (fam_nodes m) root key a n c q nq (length key)"
    and k: "key_ok key" and ip: "fresh_block nv (fam_heap m) ip (fam_heap m2)"
    and m2: "fam_nodes m2 = (fam_nodes m)(ip \<mapsto> inner_node key (length key)
        ((\<lambda>_. 0)(node_key nq ! length key := q)) v)"
  shows "same_tree nv root m m2"
    "\<exists>m'. cas64 (a, c) q ip m2 = Inr (q, m') \<and> key_added nv root key v ip m2 m'"
proof -
  note fresh = same_tree_fresh [OF inv ip m2 inner_here_ok [OF sp k]]
  from fresh(1) show "same_tree nv root m m2" .
  then have inv2: "fam_inv nv root m2" by (simp add: same_tree_def)
  note sp2 = split_at_fresh [OF sp fresh(2) fam_invD(1) [OF inv2, unfolded m2], folded m2]
  show "\<exists>m'. cas64 (a, c) q ip m2 = Inr (q, m') \<and> key_added nv root key v ip m2 m'"
    by (rule split_publishes_here [OF inv2 sp2(1)])
      (use fresh_not_reach [OF fam_invD(1) [OF inv] fresh(2)] sp2(2) in \<open>auto simp: m2\<close>)
qed

lemma inner_node_split [simp]:
  "(inner_node key s ch v)\<lparr>prefix_size := s', child := ch'\<rparr> = inner_node key s' ch' v"
  "(inner_node key s ch v)\<lparr>node_value := v', prefix_size := s', child := ch'\<rparr> =
     inner_node key s' ch' v'"
  by (simp_all add: inner_node_def)

text \<open>The two steps of a split: prepare the nodes, then swing the slot.\<close>

lemma put_split_leaf_steps:
  assumes nv: "nvmm_ok nv" and inv: "fam_inv nv root m" and k: "key_ok key"
    and sp: "split_at (fam_nodes m) root key a n c (cur_q l) nq s" and s: "s < length key"
    and l: "slot l = Some (a, c)" "put_pc l = Split" "split_size l = s"
      "existing l = node_key nq ! s" "new_leaf_ptr l = 0" "intermediate_node_ptr l = 0"
    and ip: "make_intermediate nv key 0 m = (Inr ip, m1)"
      "fam_nodes m1 = (fam_nodes m)(ip \<mapsto> inner_node key 0 (\<lambda>_. 0) TagGptr_default)"
      "fresh_block nv (fam_heap m) ip (fam_heap m1)"
      "nvmm_serves nv 2 (fam_heap m) \<Longrightarrow> nvmm_serves nv 1 (fam_heap m1)"
  shows "\<exists>r m'. run (put_step nv key value update) l m = Some (r, m') \<and>
    put_adds nv root key value m r m'"
proof -
  let ?step = "put_step nv key value update"
  have ok: "node_ok ns (inner_node key 0 (\<lambda>_. 0) TagGptr_default)" for ns
    using k by (intro inner_node_ok) auto
  note fresh = same_tree_fresh [OF inv ip(3,2) ok]
  then have inv1: "fam_inv nv root m1" by (simp add: same_tree_def)
  obtain x m2 where mk: "make_leaf nv key value 0 m1 = (x, m2)" by fastforce
  from nv mk show ?thesis
  proof (cases rule: make_leaf_cases)
    case abort
    then have "run ?step l m = Some (Inl AssertFail, m2)"
      using s by (intro run_Ret) (simp add: put_step_def put_split_def l ip(1) mk)
    with spec [OF abort(4), of 0] ip(4) same_tree_trans [OF fresh(1) same_tree_heap [OF inv1 abort(2,3)]] show ?thesis
      by (auto simp: put_adds_def numeral_2_eq_2)
  next
    case (made lp)
    have ne: "ip \<noteq> lp" using made(3) ip(3) by (auto simp: fresh_block_def)
    let ?inner = "inner_node key s ((\<lambda>_. 0)(key ! s := lp, node_key nq ! s := cur_q l)) TagGptr_default"
    let ?m3 = "store_node ip ?inner m2"
    let ?l = "l\<lparr>put_pc := CasSplit, intermediate_node_ptr := ip, new_leaf_ptr := lp\<rparr>"
    have "?step l m = (Next ?l, ?m3)"
      using s ne made by (simp add: put_step_def put_split_def l ip(1,2) mk)
    note go = run_Next [of ?step, OF this]
    have m3: "fam_nodes ?m3 = (fam_nodes m)(lp \<mapsto> leaf_node key value, ip \<mapsto> ?inner)"
      using ne by (simp add: made(2) ip(2) fun_upd_twist)
    note prep = split_prepared_leaf [OF inv sp s k ip(3) made(3) store_node_sel(2) m3]
    then obtain m' where m': "cas64 (a, c) (cur_q l) ip ?m3 = Inr (cur_q l, m')"
      "key_added nv root key (mk_TagGptr value 0) lp ?m3 m'" by blast
    then have "run ?step ?l ?m3 = Some (Inr \<lparr>put_key = lp, put_old = TagGptr_default,
        put_new = mk_TagGptr value 0\<rparr>, m')"
      using s by (intro run_Ret) (simp add: put_step_def put_cas_split_def l)
    with go key_added_after [OF prep(1) m'(2)] show ?thesis by (auto simp: put_adds_def numeral_2_eq_2)
  qed
qed

lemma put_split_here_steps:
  assumes inv: "fam_inv nv root m" and k: "key_ok key"
    and sp: "split_at (fam_nodes m) root key a n c (cur_q l) nq (length key)"
    and l: "slot l = Some (a, c)" "put_pc l = Split" "split_size l = length key"
      "existing l = node_key nq ! length key" "new_leaf_ptr l = 0" "intermediate_node_ptr l = 0"
    and ip: "make_intermediate nv key 0 m = (Inr ip, m1)"
      "fam_nodes m1 = (fam_nodes m)(ip \<mapsto> inner_node key 0 (\<lambda>_. 0) TagGptr_default)"
      "fresh_block nv (fam_heap m) ip (fam_heap m1)"
  shows "\<exists>r m'. run (put_step nv key value update) l m = Some (r, m') \<and>
    put_adds nv root key value m r m'"
proof -
  let ?step = "put_step nv key value update"
  let ?inner = "inner_node key (length key) ((\<lambda>_. 0)(node_key nq ! length key := cur_q l))
      (mk_TagGptr value 0)"
  let ?m2 = "store_node ip ?inner m1"
  let ?l = "l\<lparr>put_pc := CasSplit, intermediate_node_ptr := ip\<rparr>"
  have "?step l m = (Next ?l, ?m2)"
    by (simp add: put_step_def put_split_def l ip(1,2))
  note go = run_Next [of ?step, OF this]
  have m2: "fam_nodes ?m2 = (fam_nodes m)(ip \<mapsto> ?inner)" by (simp add: ip(2))
  have "fresh_block nv (fam_heap m) ip (fam_heap ?m2)" using ip(3) by simp
  note prep = split_prepared_here [OF inv sp k this m2]
  then obtain m' where m': "cas64 (a, c) (cur_q l) ip ?m2 = Inr (cur_q l, m')"
    "key_added nv root key (mk_TagGptr value 0) ip ?m2 m'" by blast
  then have "run ?step ?l ?m2 = Some (Inr \<lparr>put_key = ip, put_old = TagGptr_default,
      put_new = mk_TagGptr value 0\<rparr>, m')"
    by (intro run_Ret) (simp add: put_step_def put_cas_split_def l)
  with go key_added_after [OF prep(1) m'(2)] show ?thesis by (auto simp: put_adds_def numeral_2_eq_2)
qed

lemma put_ends_split:
  assumes nv: "nvmm_ok nv" and inv: "fam_inv nv root m" and k: "key_ok key"
    and pos: "put_pos (fam_nodes m) root key l"
    and q: "cur_q l \<noteq> 0" "fam_nodes m (cur_q l) = Some nq" "\<not> prefix (pfx nq) key"
    and l: "put_pc l = Find" "new_leaf_ptr l = 0" "intermediate_node_ptr l = 0"
  shows "\<exists>r m'. run (put_step nv key value update) l m = Some (r, m') \<and>
    put_adds nv root key value m r m'"
proof -
  let ?step = "put_step nv key value update" and ?s = "match_at key nq"
  obtain a c n where sl: "slot l = Some (a, c)" and lt: "?s < prefix_size nq"
    and sp: "split_at (fam_nodes m) root key a n c (cur_q l) nq ?s"
    using put_pos_split [OF fam_invD(1) [OF inv] pos q] .
  let ?l = "l\<lparr>put_pc := Split, split_size := ?s, existing := node_key nq ! ?s\<rparr>"
  have "?step l m = (Next ?l, m)" using lt l by (simp add: put_step_def put_find_at [OF q(1,2)])
  note go = run_Next [of ?step, OF this]
  obtain x m1 where mk: "make_intermediate nv key 0 m = (x, m1)" by fastforce
  from nv mk show ?thesis
  proof (cases rule: make_intermediate_cases)
    case abort
    then have "run ?step ?l m = Some (Inl AssertFail, m1)"
      by (intro run_Ret) (simp add: put_step_def put_split_def l mk)
    with go spec [OF abort(4), of 1] same_tree_heap [OF inv abort(2,3)] show ?thesis by (auto simp: put_adds_def numeral_2_eq_2)
  next
    case (made ip)
    have "?s \<le> length key" using sp by (simp add: split_at_def)
    then consider "?s < length key" | "?s = length key" by linarith
    then show ?thesis
    proof cases
      case 1
      show ?thesis unfolding go
        by (rule put_split_leaf_steps [OF nv inv k, where l = ?l and s = ?s])
          (use sp sl l mk made spec [OF made(4), of 1] 1 in \<open>auto simp: numeral_2_eq_2\<close>)
    next
      case 2
      show ?thesis unfolding go
        by (rule put_split_here_steps [OF inv k, where l = ?l]) (use sp sl l mk made 2 in auto)
    qed
  qed
qed

section \<open>put and putC\<close>

definition put_effect ::
  "'h nvmm \<Rightarrow> Gptr \<Rightarrow> bytes \<Rightarrow> Gptr \<Rightarrow> UpdateFlags \<Rightarrow> 'h fam \<Rightarrow> fault + put_result \<Rightarrow>
   'h fam \<Rightarrow> bool" where
  "put_effect nv root key value update m r m' \<longleftrightarrow>
     (if \<exists>a. key_at (fam_nodes m) root key a
      then (let v = tree_val (fam_nodes m) root key;
                keep = update = FIND_OR_CREATE \<and> IsValid v;
                v' = (if keep then v else bump value v)
            in (\<exists>a. key_at (fam_nodes m) root key a \<and>
                    r = Inr \<lparr>put_key = a, put_old = v, put_new = v'\<rparr>) \<and>
               (if keep then m' = m else value_written nv root key v' m m'))
      else put_adds nv root key value m r m')"

text \<open>A search that stops at a node to split has proved that the key has no node.\<close>

lemma put_stop_cases:
  assumes inv: "tree_inv ns root" and pos: "put_pos ns root key l" and stop: "put_stop ns key l"
  obtains (null) "cur_q l = 0" "\<And>a. \<not> key_at ns root key a"
  | (hit) n where "cur_q l \<noteq> 0" "ns (cur_q l) = Some n" "pfx n = key" "key_at ns root key (cur_q l)"
  | (split) n where "cur_q l \<noteq> 0" "ns (cur_q l) = Some n" "\<not> prefix (pfx n) key"
      "\<And>a. \<not> key_at ns root key a"
proof -
  have sk: "seeks ns root key (cur_q l)" using pos by (simp add: put_pos_def)
  show thesis
  proof (cases "cur_q l = 0")
    case True
    with sk seeks_null [of ns root key] key_at_extends null show thesis by metis
  next
    case False
    with stop obtain n where n: "ns (cur_q l) = Some n" "pfx n = key \<or> \<not> prefix (pfx n) key"
      by (auto simp: put_stop_def)
    show thesis
    proof (cases "pfx n = key")
      case True
      with seeks_hit [OF inv _ n(1)] sk hit [OF False n(1)] show thesis by simp
    next
      case np: False
      have "\<not> key_at ns root key a" for a
      proof
        assume a: "key_at ns root key a"
        then have "reach ns (cur_q l) a" using sk by (auto simp: seeks_def dest: key_at_extends)
        then obtain na where "ns a = Some na" "prefix (pfx n) (pfx na)"
          by (rule reach_prefix [OF inv _ n(1)])
        with a n(2) np show False by (simp add: key_at_def)
      qed
      with split [OF False n(1)] n(2) np show thesis by simp
    qed
  qed
qed

lemma put_run:
  assumes nv: "nvmm_ok nv" and inv: "fam_inv nv root m" and k: "key_ok key"
  shows "\<exists>r m'. run (put_step nv key value update) (put_init root) m = Some (r, m') \<and>
    put_effect nv root key value update m r m'"
proof -
  note tinv = fam_invD(1) [OF inv]
  let ?run = "run (put_step nv key value update)"
  obtain l where go: "?run (put_init root) m = ?run l m"
    and pos: "put_pos (fam_nodes m) root key l" "put_stop (fam_nodes m) key l"
    and l: "put_pc l = Find" "new_leaf_ptr l = 0" "intermediate_node_ptr l = 0"
    using put_search [OF tinv put_pos_init [OF tinv], where key = key and nv = nv and update = update]
    by (auto simp: put_init_def)
  from tinv pos show ?thesis
  proof (cases rule: put_stop_cases)
    case null
    with put_ends_leaf [OF nv inv k pos(1), of "value" update] l go show ?thesis
      by (simp add: put_effect_def)
  next
    case (hit n)
    note run = put_ends_value [OF l(1) hit(1) l(2,3) hit(2) tree_inv_node [OF tinv hit(2)] hit(3),
        of nv "value" update]
    from run go hit(4) tree_val_at [OF tinv hit(4,2)] value_written_store [OF inv hit(4,2)]
    show ?thesis by (auto simp: put_effect_def Let_def)
  next
    case (split n)
    with put_ends_split [OF nv inv k pos(1) split(1-3) l, of "value" update] go show ?thesis
      by (simp add: put_effect_def)
  qed
qed

text \<open>
  The contract of \<open>put\<close>: it returns; the old cell is what the key had; the new contents have
  the new cell at the key and are unchanged elsewhere. Only an exhausted heap makes it abort,
  and then the tree is the one before.
\<close>

definition put_post ::
  "'h nvmm \<Rightarrow> Gptr \<Rightarrow> bytes \<Rightarrow> TagGptr \<Rightarrow> 'h fam \<Rightarrow> 'h fam \<Rightarrow> bool" where
  "put_post nv root key v m m' \<longleftrightarrow>
     fam_inv nv root m' \<and> grows nv m m' \<and>
     tree_val (fam_nodes m') root = (tree_val (fam_nodes m) root)(key := v) \<and>
     (\<forall>k a. key_at (fam_nodes m) root k a \<longrightarrow> key_at (fam_nodes m') root k a)"

definition put_value ::
  "UpdateFlags \<Rightarrow> Gptr \<Rightarrow> nodes \<Rightarrow> Gptr \<Rightarrow> bytes \<Rightarrow> TagGptr" where
  "put_value update value ns root key =
     (let v = tree_val ns root key
      in if \<nexists>a. key_at ns root key a then mk_TagGptr value 0
         else if update = FIND_OR_CREATE \<and> IsValid v then v else bump value v)"

lemma put_effect_post:
  assumes inv: "fam_inv nv root m" and eff: "put_effect nv root key value update m r m'"
  shows "(r = Inl AssertFail \<and> \<not> nvmm_serves nv 2 (fam_heap m) \<and> same_tree nv root m m') \<or>
    (\<exists>a. r = Inr \<lparr>put_key = a, put_old = tree_val (fam_nodes m) root key,
            put_new = put_value update value (fam_nodes m) root key\<rparr> \<and>
         key_at (fam_nodes m') root key a \<and>
         put_post nv root key (put_value update value (fam_nodes m) root key) m m')"
proof (cases "\<exists>a. key_at (fam_nodes m) root key a")
  case True
  with eff inv show ?thesis
    by (auto simp: put_effect_def put_post_def put_value_def Let_def value_written_def
        split: if_splits)
next
  case False
  with eff show ?thesis
    by (auto simp: put_effect_def put_post_def put_value_def put_adds_def key_added_def
        tree_val_none)
qed

lemma putC_correct:
  assumes nv: "nvmm_ok nv" and inv: "fam_inv nv root m" and k: "key_ok key"
  obtains (stored) a m' where "putC nv root key w m =
      Some (Inr \<lparr>put_key = a, put_old = tree_val (fam_nodes m) root key,
                 put_new = put_value UPDATE w (fam_nodes m) root key\<rparr>, m')"
    "key_at (fam_nodes m') root key a"
    "put_post nv root key (put_value UPDATE w (fam_nodes m) root key) m m'"
  | (abort) m' where "putC nv root key w m = Some (Inl AssertFail, m')" "\<not> nvmm_serves nv 2 (fam_heap m)"
    "same_tree nv root m m'"
  using put_run [OF nv inv k, of w UPDATE] put_effect_post [OF inv, of key w UPDATE] k that
  by (fastforce simp: putC_def)

lemma put_correct:
  assumes nv: "nvmm_ok nv" and inv: "fam_inv nv root m" and k: "key_ok key"
  obtains (stored) m' where "put nv root key w update m =
      Some (Inr (tree_val (fam_nodes m) root key), m')"
    "put_post nv root key (put_value update w (fam_nodes m) root key) m m'"
  | (abort) m' where "put nv root key w update m = Some (Inl AssertFail, m')"
    "\<not> nvmm_serves nv 2 (fam_heap m)" "same_tree nv root m m'"
  using put_run [OF nv inv k, of w update] put_effect_post [OF inv, of key w update] k that
  by (fastforce simp: put_def)

end
