(* ===== verification/RT_Tree_Order.thy ===== *)
theory RT_Tree_Order
  imports RT_Tree_Put
begin

text \<open>
  The nodes of a tree in the order of their prefixes. \<open>subtree\<close> lists what hangs below a
  pointer, parents first and children by byte; on a tree it is strictly sorted and complete.
  The visits of \<open>list\<close>, of \<open>structure\<close> and of a range scan follow this list.
\<close>

section \<open>All bytes, in order\<close>

lemma of_nat_byte_less: "i < j \<Longrightarrow> j < 256 \<Longrightarrow> (of_nat i :: byte) < of_nat j"
  by (simp add: word_less_nat_alt unat_of_nat)

lemma of_nat_byte_eq: "i < 256 \<Longrightarrow> j < 256 \<Longrightarrow> (of_nat i :: byte) = of_nat j \<longleftrightarrow> i = j"
  using of_nat_byte_less [of i j] of_nat_byte_less [of j i] by (cases i j rule: linorder_cases) auto

lemma unat_byte: "unat (c :: byte) < 256"
  using unsigned_less [of c, where ?'a = nat] by simp

lemma of_nat_unat_byte [simp]: "(of_nat (unat (c :: byte)) :: byte) = c"
  by simp

lemma byte_of_nat: obtains i where "i < 256" "c = (of_nat i :: byte)"
  using unat_byte [of c] of_nat_unat_byte [of c] by metis

section \<open>The nodes below a pointer\<close>

fun nodes_from :: "nat \<Rightarrow> nodes \<Rightarrow> Gptr \<Rightarrow> Gptr list" where
  "nodes_from 0 ns q = []"
| "nodes_from (Suc d) ns q =
     (case ns q of
        None \<Rightarrow> []
      | Some n \<Rightarrow> q # concat (map (\<lambda>i. nodes_from d ns (child n (of_nat i))) [0..<256]))"

definition subtree :: "nodes \<Rightarrow> Gptr \<Rightarrow> Gptr list" where
  "subtree ns q = nodes_from list_depth ns q"

definition kids :: "nodes \<Rightarrow> Node \<Rightarrow> nat \<Rightarrow> nat \<Rightarrow> Gptr list" where
  "kids ns n i j = concat (map (\<lambda>i. subtree ns (child n (of_nat i))) [i..<j])"

text \<open>The depth is enough: prefixes grow by at least a byte and are at most 128 bytes long.\<close>

lemma nodes_from_enough:
  assumes inv: "tree_inv ns root"
  shows "room ns q \<le> d \<Longrightarrow> nodes_from (Suc d) ns q = nodes_from d ns q"
proof (induction d arbitrary: q)
  case 0
  then show ?case by (simp add: room_def split: option.splits)
next
  case (Suc d)
  show ?case
  proof (cases "ns q")
    case (Some n)
    have "nodes_from (Suc d) ns (child n c) = nodes_from d ns (child n c)" for c
      by (rule Suc.IH) (use room_child [OF inv Some, of c] Suc.prems in simp)
    with Some show ?thesis by (subst (1 2) nodes_from.simps) simp
  qed simp
qed

lemma room_bound: "tree_inv ns root \<Longrightarrow> room ns q \<le> MAX_KEY_LEN + 1"
  by (simp add: room_def split: option.splits)

lemma subtree_null [simp]: "tree_inv ns root \<Longrightarrow> subtree ns 0 = []"
  by (simp add: subtree_def list_depth_def)

lemma subtree_node:
  assumes inv: "tree_inv ns root" and n: "ns q = Some n"
  shows "subtree ns q = q # kids ns n 0 256"
proof -
  have "subtree ns q = nodes_from (Suc list_depth) ns q"
    unfolding subtree_def
    by (rule nodes_from_enough [OF inv, symmetric])
      (use room_bound [OF inv, of q] in \<open>simp add: list_depth_def\<close>)
  with n show ?thesis by (simp add: kids_def subtree_def)
qed

lemma subtree_induct [consumes 2, case_names null node]:
  assumes inv: "tree_inv ns root" and "q = 0 \<or> q \<in> dom ns"
    and null: "P 0"
    and node: "\<And>q n. ns q = Some n \<Longrightarrow> (\<And>c. P (child n c)) \<Longrightarrow> P q"
  shows "P q"
  using assms(2)
proof (induction "room ns q" arbitrary: q rule: less_induct)
  case less
  show ?case
  proof (cases "q = 0")
    case True
    with null show ?thesis by simp
  next
    case False
    with less.prems obtain n where n: "ns q = Some n" by auto
    have "P (child n c)" for c
      by (rule less.hyps [OF room_child [OF inv n]])
        (use node_ok_child [OF tree_inv_node [OF inv n], of c] in auto)
    with node [OF n] show ?thesis by blast
  qed
qed

lemma kids_cut: "i \<le> j \<Longrightarrow> j \<le> l \<Longrightarrow> kids ns n i l = kids ns n i j @ kids ns n j l"
  using upt_add_eq_append [of i j "l - j"] by (simp add: kids_def)

lemma kids_Suc: "i < j \<Longrightarrow> kids ns n i j = subtree ns (child n (of_nat i)) @ kids ns n (Suc i) j"
  by (simp add: kids_def upt_conv_Cons)

lemma kids_empty [simp]: "j \<le> i \<Longrightarrow> kids ns n i j = []"
  by (simp add: kids_def)

lemma set_kids: "set (kids ns n i j) = (\<Union>k\<in>{i..<j}. set (subtree ns (child n (of_nat k))))"
  by (simp add: kids_def)

lemma set_kids_all: "set (kids ns n 0 256) = (\<Union>c. set (subtree ns (child n c)))"
proof
  show "(\<Union>c. set (subtree ns (child n c))) \<subseteq> set (kids ns n 0 256)"
  proof
    fix x
    assume "x \<in> (\<Union>c. set (subtree ns (child n c)))"
    then obtain c where c: "x \<in> set (subtree ns (child n c))" by blast
    obtain i where "i < 256" "c = of_nat i" by (rule byte_of_nat)
    with c show "x \<in> set (kids ns n 0 256)" by (auto simp: set_kids)
  qed
qed (auto simp: set_kids)

text \<open>Complete: the list holds exactly the nodes reached from the pointer.\<close>

lemma set_subtree:
  assumes inv: "tree_inv ns root" and "q = 0 \<or> q \<in> dom ns"
  shows "set (subtree ns q) = (if q = 0 then {} else {x. reach ns q x})"
  using assms
proof (induction rule: subtree_induct)
  case null
  show ?case using inv by simp
next
  case (node q n)
  have q: "q \<noteq> 0" using tree_inv_nonnull [OF inv node.hyps] .
  have "reach ns q x \<longleftrightarrow> x = q \<or> (\<exists>c. child n c \<noteq> 0 \<and> reach ns (child n c) x)" for x
    using reach_first [of ns q x] node.hyps reach_trans [of ns _ x q] reach_edge [of ns q n]
      reach.reach_refl [of ns q] by auto
  then show ?case
    using node.IH q by (auto simp: subtree_node [OF inv node.hyps] set_kids_all split: if_splits)
qed

text \<open>Every node below a slot extends the slot's prefix.\<close>

definition pfx_at :: "nodes \<Rightarrow> Gptr \<Rightarrow> bytes" where
  "pfx_at ns a = (case ns a of None \<Rightarrow> [] | Some n \<Rightarrow> pfx n)"

lemma subtree_prefix:
  assumes inv: "tree_inv ns root" and n: "ns q = Some n" and x: "x \<in> set (subtree ns q)"
  shows "prefix (pfx n) (pfx_at ns x)" "\<exists>nx. ns x = Some nx"
proof -
  from set_subtree [OF inv, of q] n tree_inv_nonnull [OF inv n] x have "reach ns q x" by auto
  then obtain nx where "ns x = Some nx" "prefix (pfx n) (pfx nx)"
    by (rule reach_prefix [OF inv _ n])
  then show "prefix (pfx n) (pfx_at ns x)" "\<exists>nx. ns x = Some nx" by (simp_all add: pfx_at_def)
qed

lemma kids_prefix:
  assumes inv: "tree_inv ns root" and n: "ns q = Some n" and x: "x \<in> set (kids ns n i j)"
  obtains k where "i \<le> k" "k < j" "prefix (pfx n @ [of_nat k]) (pfx_at ns x)"
    "x \<in> set (subtree ns (child n (of_nat k)))"
proof -
  from x obtain k where k: "i \<le> k" "k < j" "x \<in> set (subtree ns (child n (of_nat k)))"
    by (auto simp: set_kids)
  then have "child n (of_nat k) \<noteq> 0" using inv by auto
  then obtain n' where n': "ns (child n (of_nat k)) = Some n'" "prefix (pfx n @ [of_nat k]) (pfx n')"
    by (rule node_ok_child [OF tree_inv_node [OF inv n]])
  from subtree_prefix(1) [OF inv n'(1) k(3)] n'(2)
  have "prefix (pfx n @ [of_nat k]) (pfx_at ns x)" using prefix_order.trans by blast
  with k that show thesis by blast
qed

section \<open>Sorted\<close>

lemma lex_less_fork:
  assumes "prefix (p @ [c]) xs" "prefix (p @ [d]) ys" "c < d"
  shows "lex_less xs ys"
  using assms by (auto simp: prefix_def)

lemma lex_less_proper: "prefix (p @ [c]) xs \<Longrightarrow> lex_less p xs"
  by (auto simp: prefix_def)

abbreviation before :: "nodes \<Rightarrow> Gptr \<Rightarrow> Gptr \<Rightarrow> bool" where
  "before ns a b \<equiv> lex_less (pfx_at ns a) (pfx_at ns b)"

lemma sorted_kids:
  assumes inv: "tree_inv ns root" and n: "ns q = Some n"
    and sub: "\<And>c. sorted_wrt (before ns) (subtree ns (child n c))"
  shows "j \<le> 256 \<Longrightarrow> sorted_wrt (before ns) (kids ns n i j)"
proof (induction "j - i" arbitrary: i)
  case (Suc d)
  then have ij: "i < j" by simp
  have "before ns a b" if a: "a \<in> set (subtree ns (child n (of_nat i)))"
    and b: "b \<in> set (kids ns n (Suc i) j)" for a b
  proof -
    from a have "a \<in> set (kids ns n i (Suc i))" by (simp add: set_kids)
    then have pa: "prefix (pfx n @ [of_nat i]) (pfx_at ns a)"
      by (rule kids_prefix [OF inv n]) (simp add: le_antisym less_Suc_eq_le)
    from b obtain k where k: "Suc i \<le> k" "k < j" "prefix (pfx n @ [of_nat k]) (pfx_at ns b)"
      by (rule kids_prefix [OF inv n])
    have "(of_nat i :: byte) < of_nat k" by (rule of_nat_byte_less) (use k Suc.prems in auto)
    with pa k(3) show ?thesis by (rule lex_less_fork)
  qed
  with Suc sub show ?case by (simp add: kids_Suc [OF ij] sorted_wrt_append)
qed simp

lemma sorted_subtree:
  assumes inv: "tree_inv ns root" and "q = 0 \<or> q \<in> dom ns"
  shows "sorted_wrt (before ns) (subtree ns q)"
  using assms
proof (induction rule: subtree_induct)
  case null
  show ?case using inv by simp
next
  case (node q n)
  have "before ns q b" if "b \<in> set (kids ns n 0 256)" for b
    using that node.hyps by (auto elim!: kids_prefix [OF inv node.hyps] simp: pfx_at_def lex_less_proper)
  with sorted_kids [OF inv node.hyps node.IH, of 256 0] show ?case
    by (simp add: subtree_node [OF inv node.hyps])
qed

lemma distinct_sorted: "sorted_wrt (before ns) xs \<Longrightarrow> distinct xs"
  by (induction xs) auto

text \<open>The whole tree.\<close>

lemma tree_nodes:
  assumes inv: "tree_inv ns root"
  shows "set (subtree ns root) = {a. reach ns root a}" "sorted_wrt (before ns) (subtree ns root)"
    "distinct (subtree ns root)"
proof -
  obtain n where n: "ns root = Some n" "root \<noteq> 0" by (rule tree_inv_root [OF inv])
  then have d: "root = 0 \<or> root \<in> dom ns" by auto
  from set_subtree [OF inv d] n show "set (subtree ns root) = {a. reach ns root a}" by simp
  show s: "sorted_wrt (before ns) (subtree ns root)" by (rule sorted_subtree [OF inv d])
  then show "distinct (subtree ns root)" by (rule distinct_sorted)
qed

end
