(* ===== verification/RT_Tree_List.thy ===== *)
theory RT_Tree_List
  imports RT_Tree_Order "HOL-Library.Multiset"
begin

text \<open>
  The constructor makes an empty tree; \<open>list\<close> calls its visitor once for every key with a
  value, in key order, and counts nodes and values; \<open>structure\<close> collects every node as long
  as its table of one hundred levels is deep enough.
\<close>

section \<open>Constructor\<close>

definition nodes_ok :: "'h nvmm \<Rightarrow> 'h fam \<Rightarrow> bool" where
  "nodes_ok nv m \<longleftrightarrow>
     fam_nodes m 0 = None \<and> (\<forall>a n. fam_nodes m a = Some n \<longrightarrow> node_ok (fam_nodes m) n) \<and>
     dom (fam_nodes m) \<subseteq> nv_live nv (fam_heap m)"

lemma fam_inv_nodes_ok: "fam_inv nv root m \<Longrightarrow> nodes_ok nv m"
  by (simp add: fam_inv_def nodes_ok_def tree_inv_def)

lemma node_ok_fresh:
  assumes "\<And>a n. ns a = Some n \<Longrightarrow> node_ok ns n" "p \<notin> dom ns" "node_ok ns n"
  shows "node_ok (ns(p \<mapsto> np)) n"
  using assms(3) by (rule node_ok_mono) (use assms(2) in auto)

lemma RadixTree_create_cases:
  assumes nv: "nvmm_ok nv" and c: "RadixTree_create nv 0 m = (r, m')"
  obtains (abort) "r = Inl AssertFail" "fam_nodes m' = fam_nodes m"
  | (made) p where "r = Inr p" "fresh_block nv (fam_heap m) p (fam_heap m')"
      "fam_nodes m' = (fam_nodes m)(p \<mapsto> zero_node)"
proof -
  obtain p h1 where al: "nv_alloc nv NODE_SIZE (fam_heap m) = (p, h1)" by fastforce
  obtain x h2 where rs: "resize_alloc nv NODE_SIZE h1 = (x, h2)" by fastforce
  have z: "zero_node\<lparr>prefix_size := 0, child := \<lambda>_. 0, node_value := TagGptr_default\<rparr> = zero_node"
    by (simp add: zero_node_def)
  show thesis
  proof (cases "p = 0")
    case True
    then have "nv_live nv h1 = nv_live nv (fam_heap m)"
      using nv_alloc_cases [OF nv al] by (auto simp: fresh_block_def)
    with True resize_alloc_cases [OF nv rs] c al rs z that show thesis
      by (auto simp: RadixTree_create_def gptr_valid_def fresh_block_def Let_def)
  next
    case False
    with nv_alloc_cases [OF nv al] c al z that show thesis
      by (auto simp: RadixTree_create_def gptr_valid_def fresh_block_def Let_def)
  qed
qed

lemma RadixTree_create_empty:
  assumes nv: "nvmm_ok nv" and ok: "nodes_ok nv m"
    and c: "RadixTree_create nv 0 m = (Inr root, m')"
  shows "fam_inv nv root m' \<and> tree_val (fam_nodes m') root = (\<lambda>_. TagGptr_default)"
  using nv c
proof (cases rule: RadixTree_create_cases)
  case (made p)
  then have p: "root = p" "p \<noteq> 0" "p \<notin> dom (fam_nodes m)"
    using ok by (auto simp: fresh_block_def nodes_ok_def)
  have z: "node_ok ns zero_node" for ns by (simp add: node_ok_def zero_node_def)
  have "node_ok (fam_nodes m') n" if "fam_nodes m' a = Some n" for a n
    using that z ok node_ok_fresh [of "fam_nodes m" p n] p
    by (auto simp: made(3) nodes_ok_def split: if_splits)
  then have inv: "tree_inv (fam_nodes m') root"
    using p ok by (auto simp: tree_inv_def made(3) nodes_ok_def zero_node_def)
  then have "fam_inv nv root m'"
    using made(2,3) ok by (auto simp: fam_inv_def fresh_block_def nodes_ok_def)
  have "reach (fam_nodes m') root x \<longleftrightarrow> x = root" for x
    by (rule reach_leaf [of _ _ zero_node]) (simp_all add: made(3) p zero_node_def)
  then have "tree_val (fam_nodes m') root k = TagGptr_default" for k
    using tree_val_at [OF inv, of k root zero_node]
    by (cases "k = []") (auto simp: tree_val_def key_at_def made(3) p zero_node_def pfx_def)
  with \<open>fam_inv nv root m'\<close> show ?thesis by blast
qed simp

section \<open>Threading an accumulator\<close>

text \<open>
  A recursion that visits the nodes of a list one by one: \<open>R xs s s'\<close> says what the visits
  \<open>xs\<close> do to the accumulator.
\<close>

lemma thread_acc_all:
  assumes nil: "\<And>s. R [] s s" and app: "\<And>xs ys s s' s''. R xs s s' \<Longrightarrow> R ys s' s'' \<Longrightarrow> R (xs @ ys) s s''"
    and keep: "\<And>xs s s'. R xs s s' \<Longrightarrow> I s \<Longrightarrow> I s'"
    and f: "\<And>c s. c \<in> set cs \<Longrightarrow> I s \<Longrightarrow> \<exists>s'. f c s = Some (Inr s') \<and> R (g c) s s'"
  shows "I s \<Longrightarrow> \<exists>s'. thread_acc f cs s = Some (Inr s') \<and> R (concat (map g cs)) s s'"
  using f
proof (induction cs arbitrary: s)
  case Nil
  then show ?case by (simp add: nil)
next
  case (Cons c cs)
  from Cons.prems(2) [of c s] Cons.prems(1) obtain s1
    where s1: "f c s = Some (Inr s1)" "R (g c) s s1" by auto
  from Cons.IH [OF keep [OF s1(2) Cons.prems(1)]] Cons.prems(2) obtain s'
    where "thread_acc f cs s1 = Some (Inr s')" "R (concat (map g cs)) s1 s'" by fastforce
  with app [OF s1(2)] s1(1) show ?case by auto
qed

lemma thread_kids:
  assumes nil: "\<And>s. R [] s s" and app: "\<And>xs ys s s' s''. R xs s s' \<Longrightarrow> R ys s' s'' \<Longrightarrow> R (xs @ ys) s s''"
    and keep: "\<And>xs s s'. R xs s s' \<Longrightarrow> I s \<Longrightarrow> I s'"
    and f: "\<And>c s. I s \<Longrightarrow> \<exists>s'. f c s = Some (Inr s') \<and> R (subtree ns (child n c)) s s'"
    and s: "I s"
  shows "\<exists>s'. thread_acc f all_bytes s = Some (Inr s') \<and> R (kids ns n 0 256) s s'"
proof -
  have "\<exists>s'. thread_acc f all_bytes s = Some (Inr s') \<and>
      R (concat (map (\<lambda>c. subtree ns (child n c)) all_bytes)) s s'"
    by (rule thread_acc_all [where R = R and I = I]) (use assms in blast)+
  then show ?thesis by (simp add: kids_def all_bytes_def comp_def)
qed

section \<open>list\<close>

definition value_at :: "nodes \<Rightarrow> Gptr \<Rightarrow> TagGptr" where
  "value_at ns a = (case ns a of None \<Rightarrow> TagGptr_default | Some n \<Rightarrow> node_value n)"

definition has_value :: "nodes \<Rightarrow> Gptr \<Rightarrow> bool" where
  "has_value ns a \<longleftrightarrow> IsValid (value_at ns a)"

definition listed :: "nodes \<Rightarrow> Gptr list \<Rightarrow> list_acc \<Rightarrow> list_acc \<Rightarrow> bool" where
  "listed ns xs s s' \<longleftrightarrow>
     la_level s' = la_level s \<and> la_node_cnt s' = la_node_cnt s + length xs \<and>
     la_value_cnt s' = la_value_cnt s + length (filter (has_value ns) xs) \<and>
     la_calls s' = la_calls s @
       map (\<lambda>a. (pfx_at ns a, tg_nomark (value_at ns a))) (filter (has_value ns) xs)"

lemma listed_nil: "listed ns [] s s"
  by (simp add: listed_def)

lemma listed_append: "listed ns xs s s' \<Longrightarrow> listed ns ys s' s'' \<Longrightarrow> listed ns (xs @ ys) s s''"
  by (simp add: listed_def)

lemma listed_visit:
  assumes "ns a = Some n" "listed ns xs (list_visit n s) s'"
  shows "listed ns (a # xs) s (s'\<lparr>la_level := la_level s' - 1\<rparr>)"
  using assms by (auto simp: listed_def list_visit_def has_value_def value_at_def pfx_at_def Let_def)

lemma recursive_list_spec:
  assumes inv: "tree_inv ns root"
  shows "q = 0 \<or> q \<in> dom ns \<Longrightarrow> room ns q < d \<Longrightarrow>
    \<exists>s'. recursive_list d ns q s = Some (Inr s') \<and> listed ns (subtree ns q) s s'"
proof (induction d arbitrary: q s)
  case (Suc d)
  show ?case
  proof (cases "q = 0")
    case True
    with inv show ?thesis by (simp add: listed_nil)
  next
    case False
    with Suc.prems obtain n where n: "ns q = Some n" by auto
    have below: "\<exists>s'. recursive_list d ns (child n c) s = Some (Inr s') \<and>
        listed ns (subtree ns (child n c)) s s'" for c s
      by (rule Suc.IH)
        (use node_ok_child [OF tree_inv_node [OF inv n], of c] room_child [OF inv n, of c]
          Suc.prems in auto)
    have "\<exists>s'. thread_acc (\<lambda>c. recursive_list d ns (child n c)) all_bytes (list_visit n s) =
        Some (Inr s') \<and> listed ns (kids ns n 0 256) (list_visit n s) s'"
      by (rule thread_kids [where R = "listed ns" and I = "\<lambda>_. True"])
        (use listed_nil listed_append below in blast)+
    then obtain s' where s': "thread_acc (\<lambda>c. recursive_list d ns (child n c)) all_bytes (list_visit n s) =
        Some (Inr s')" "listed ns (kids ns n 0 256) (list_visit n s) s'" by blast
    from listed_visit [of ns q n, OF n s'(2)] s'(1) False n show ?thesis
      by (simp add: subtree_node [OF inv n])
  qed
qed simp

lemma list_tree_spec:
  assumes inv: "tree_inv (fam_nodes m) root"
  obtains acc where "list_tree root m = Some (Inr acc)" "la_level acc = 0"
    "la_node_cnt acc = length (subtree (fam_nodes m) root)"
    "la_value_cnt acc = length (la_calls acc)"
    "la_calls acc = map (\<lambda>a. (pfx_at (fam_nodes m) a, tg_nomark (value_at (fam_nodes m) a)))
       (filter (has_value (fam_nodes m)) (subtree (fam_nodes m) root))"
proof -
  let ?s = "\<lparr>la_level = 0, la_depth = 0, la_value_cnt = 0, la_node_cnt = 0, la_calls = []\<rparr>"
  obtain n where n: "fam_nodes m root = Some n" by (rule tree_inv_root [OF inv])
  have "\<exists>s'. recursive_list list_depth (fam_nodes m) root ?s = Some (Inr s') \<and>
      listed (fam_nodes m) (subtree (fam_nodes m) root) ?s s'"
    by (rule recursive_list_spec [OF inv])
      (use n room_bound [OF inv, of root] in \<open>auto simp: list_depth_def\<close>)
  with that show thesis by (auto simp: list_tree_def listed_def)
qed

text \<open>The calls of the visitor, as the contents of the tree.\<close>

lemma valued_nodes:
  assumes inv: "tree_inv ns root"
  shows "(k, v) \<in> set (map (\<lambda>a. (pfx_at ns a, value_at ns a))
      (filter (has_value ns) (subtree ns root))) \<longleftrightarrow> tree_val ns root k = v \<and> IsValid v"
proof -
  have "(\<exists>a. reach ns root a \<and> IsValid (value_at ns a) \<and> k = pfx_at ns a \<and> v = value_at ns a) \<longleftrightarrow>
      tree_val ns root k = v \<and> IsValid v"
  proof
    assume "\<exists>a. reach ns root a \<and> IsValid (value_at ns a) \<and> k = pfx_at ns a \<and> v = value_at ns a"
    then obtain a where a: "reach ns root a" "IsValid (value_at ns a)" "k = pfx_at ns a"
      "v = value_at ns a" by blast
    obtain n where "ns a = Some n" by (rule reach_node [OF inv a(1)])
    with a tree_val_reach [OF inv a(1)] show "tree_val ns root k = v \<and> IsValid v"
      by (simp add: pfx_at_def value_at_def)
  next
    assume v: "tree_val ns root k = v \<and> IsValid v"
    have "\<exists>a. key_at ns root k a"
    proof (rule ccontr)
      assume "\<nexists>a. key_at ns root k a"
      with v show False by (auto simp: tree_val_none)
    qed
    then obtain a n where a: "key_at ns root k a" "ns a = Some n" by (auto simp: key_at_def)
    with v tree_val_at [OF inv a]
    show "\<exists>a. reach ns root a \<and> IsValid (value_at ns a) \<and> k = pfx_at ns a \<and> v = value_at ns a"
      by (auto simp: key_at_def pfx_at_def value_at_def)
  qed
  then show ?thesis by (auto simp: tree_nodes [OF inv] has_value_def image_iff)
qed

section \<open>structure\<close>

text \<open>
  A node's level is at most the length of its prefix, so the hundred levels of
  \<open>TreeStructure\<close> are enough for a tree of prefixes shorter than that. \<open>collected\<close> is what
  the visits \<open>xs\<close> do to the table: every node is added once; \<open>value_cnt\<close> is never touched.
\<close>

definition collected :: "Gptr list \<Rightarrow> tree_structure \<Rightarrow> tree_structure \<Rightarrow> bool" where
  "collected xs s s' \<longleftrightarrow>
     length (ts_levels s') = length (ts_levels s) \<and> ts_value_cnt s' = ts_value_cnt s \<and>
     ts_node_cnt s' = ts_node_cnt s + length xs \<and>
     mset (concat (ts_levels s')) = mset (concat (ts_levels s)) + mset xs"

lemma collected_nil: "collected [] s s"
  by (simp add: collected_def)

lemma collected_append: "collected xs s s' \<Longrightarrow> collected ys s' s'' \<Longrightarrow> collected (xs @ ys) s s''"
  by (simp add: collected_def)

lemma mset_concat_update:
  "l < length xss \<Longrightarrow> mset (concat (xss[l := xss ! l @ [a]])) = mset (concat xss) + {#a#}"
  by (induction xss arbitrary: l) (auto split: nat.splits)

lemma collected_visit:
  assumes "AddNode level a s = Inr s1"
    and "collected xs (s1\<lparr>ts_node_cnt := ts_node_cnt s1 + 1, ts_depth := d\<rparr>) s'"
  shows "collected (a # xs) s s'"
  using assms by (auto simp: AddNode_def collected_def mset_concat_update split: if_splits)

definition short_tree :: "nodes \<Rightarrow> bool" where
  "short_tree ns \<longleftrightarrow> (\<forall>a n. ns a = Some n \<longrightarrow> prefix_size n < 100)"

lemma recursive_structure_spec:
  assumes inv: "tree_inv ns root" and sh: "short_tree ns"
  shows "q = 0 \<or> (\<exists>n. ns q = Some n \<and> level \<le> prefix_size n) \<Longrightarrow> room ns q < d \<Longrightarrow>
    length (ts_levels s) = 100 \<Longrightarrow>
    \<exists>s'. recursive_structure d ns q level s = Some (Inr s') \<and> collected (subtree ns q) s s'"
proof (induction d arbitrary: q level s)
  case (Suc d)
  show ?case
  proof (cases "q = 0")
    case True
    with inv show ?thesis by (simp add: collected_nil)
  next
    case False
    with Suc.prems obtain n where n: "ns q = Some n" "level \<le> prefix_size n" by auto
    note ok = tree_inv_node [OF inv n(1)]
    have lt: "level < length (ts_levels s)"
      using sh n Suc.prems(3) unfolding short_tree_def by fastforce
    have below: "child n c = 0 \<or> (\<exists>n'. ns (child n c) = Some n' \<and> level + 1 \<le> prefix_size n')" for c
    proof (rule disjCI)
      assume "\<not> (\<exists>n'. ns (child n c) = Some n' \<and> level + 1 \<le> prefix_size n')"
      with n(2) length_pfx [OF ok] show "child n c = 0"
        using node_ok_child [OF ok, of c] prefix_length_le length_pfx tree_inv_node [OF inv]
        by (metis Suc_eq_plus1 Suc_le_mono length_append_singleton order.trans)
    qed
    then obtain s1 where s1: "AddNode level q s = Inr s1" using lt by (simp add: AddNode_def)
    let ?s1 = "s1\<lparr>ts_node_cnt := ts_node_cnt s1 + 1, ts_depth := max level (ts_depth s1)\<rparr>"
    have len: "length (ts_levels ?s1) = 100"
      using s1(1) lt Suc.prems(3) by (auto simp: AddNode_def)
    have step: "\<exists>s'. recursive_structure d ns (child n c) (level + 1) s = Some (Inr s') \<and>
        collected (subtree ns (child n c)) s s'" if "length (ts_levels s) = 100" for c s
      by (rule Suc.IH [OF below _ that]) (use room_child [OF inv n(1), of c] Suc.prems in simp)
    have "\<exists>s'. thread_acc (\<lambda>c. recursive_structure d ns (child n c) (level + 1)) all_bytes ?s1 =
        Some (Inr s') \<and> collected (kids ns n 0 256) ?s1 s'"
      by (rule thread_kids [where R = collected and I = "\<lambda>s. length (ts_levels s) = 100"])
        (use collected_nil collected_append step len in \<open>auto simp: collected_def\<close>)
    with collected_visit [OF s1] s1 False n(1) show ?thesis
      by (auto simp: subtree_node [OF inv n(1)])
  qed
qed simp

lemma structure_tree_spec:
  assumes inv: "tree_inv (fam_nodes m) root" and sh: "short_tree (fam_nodes m)"
  obtains s where "structure_tree root m = Some (Inr s)" "ts_value_cnt s = 0"
    "ts_node_cnt s = length (subtree (fam_nodes m) root)"
    "mset (concat (ts_levels s)) = mset (subtree (fam_nodes m) root)"
proof -
  obtain n where n: "fam_nodes m root = Some n" by (rule tree_inv_root [OF inv])
  have "\<exists>s'. recursive_structure list_depth (fam_nodes m) root 0 TreeStructure_init = Some (Inr s') \<and>
      collected (subtree (fam_nodes m) root) TreeStructure_init s'"
    by (rule recursive_structure_spec [OF inv sh])
      (use n room_bound [OF inv, of root] in \<open>auto simp: list_depth_def TreeStructure_init_def\<close>)
  with that show thesis by (auto simp: structure_tree_def collected_def TreeStructure_init_def)
qed

end
