(* ===== verification/RT_Scan.thy ===== *)
theory RT_Scan
  imports RT_Tree_List
begin

text \<open>
  The range scan of \<open>src/src/radix_tree.cc\<close>: the iterator \<open>RadixTree::Iter\<close>, \<open>next_value\<close>,
  \<open>lower_bound\<close>, \<open>scan\<close> and \<open>get_next\<close>. An iterator that is returned is passed on to the
  next call, as the reference argument of the code is.
\<close>

section \<open>The iterator\<close>

record Iter =
  begin_key :: bytes
  begin_key_inclusive :: bool
  begin_key_open :: bool
  end_key :: bytes
  end_key_inclusive :: bool
  end_key_open :: bool
  it_node :: Gptr
  next_pos :: nat
  it_key :: bytes
  it_value :: TagGptr
  path :: "(Gptr \<times> nat) list"

definition OPEN_BOUNDARY_STR :: bytes where
  "OPEN_BOUNDARY_STR = [0]"

section \<open>next\_value\<close>

text \<open>\<open>while (iter.next_pos == 257)\<close>: go up to the parent, behind the slot we came from.\<close>

fun climb :: "(Gptr \<times> nat) list \<Rightarrow> Iter \<Rightarrow> Iter" where
  "climb [] it = it\<lparr>path := []\<rparr>"
| "climb ((g, i) # ps) it =
     (if next_pos it = 257 then climb ps (it\<lparr>it_node := g, next_pos := i + 2\<rparr>)
      else it\<lparr>path := (g, i) # ps\<rparr>)"

text \<open>
  \<open>for (; pos <= hi; pos++) if (child[pos - 1]) break;\<close> on the array of 256 children: the
  index of the first child, the end of the loop, or a read past the array.
\<close>

datatype child_search = Found nat | Exhausted | PastEnd

definition search_children :: "Node \<Rightarrow> nat \<Rightarrow> u64 \<Rightarrow> child_search" where
  "search_children n pos hi =
     (let top = (if hi \<le> 256 then unat hi else 256)
      in case find (\<lambda>i. child n (of_nat i) \<noteq> 0) [pos - 1..<top] of
           Some i \<Rightarrow> Found i
         | None \<Rightarrow> if 256 < hi \<and> of_nat pos \<le> hi then PastEnd else Exhausted)"

text \<open>\<open>(uint64_t)key[i] + 1\<close> with \<open>key\<close> of the signed type \<open>char\<close>.\<close>

definition upper_end :: "byte \<Rightarrow> u64" where
  "upper_end c = scast c + 1"

definition take_value :: "Node \<Rightarrow> Iter \<Rightarrow> Iter" where
  "take_value n it = it\<lparr>it_key := pfx n, it_value := node_value n\<rparr>"

definition push_child :: "Node \<Rightarrow> nat \<Rightarrow> Iter \<Rightarrow> Iter" where
  "push_child n i it =
     it\<lparr>path := (it_node it, i) # path it, it_node := child n (of_nat i), next_pos := 0\<rparr>"

type_synonym 'h next_out = "(Iter, (fault + bool) \<times> Iter) outcome \<times> 'h fam"

text \<open>The node lies below the end key: all of it is in range.\<close>

definition next_inside :: "Node \<Rightarrow> Iter \<Rightarrow> 'h fam \<Rightarrow> 'h next_out" where
  "next_inside n it m =
     (if next_pos it = 0 \<and> IsValid (node_value n)
      then (Ret (Inr True, take_value n (it\<lparr>next_pos := 1\<rparr>)), m)
      else case search_children n (max 1 (next_pos it)) 256 of
             Found i \<Rightarrow> (Next (push_child n i it), m)
           | PastEnd \<Rightarrow> (Ret (Inl OutOfBounds, it), m)
           | Exhausted \<Rightarrow> (Next (it\<lparr>next_pos := 257\<rparr>), m))"

text \<open>The node is the node of the end key.\<close>

definition next_end :: "Node \<Rightarrow> Iter \<Rightarrow> 'h fam \<Rightarrow> 'h next_out" where
  "next_end n it m =
     (if end_key_inclusive it \<and> next_pos it = 0 \<and> IsValid (node_value n)
      then (Ret (Inr True, take_value n (it\<lparr>it_node := 0\<rparr>)), m)
      else (Ret (Inr False, it\<lparr>it_node := 0\<rparr>), m))"

text \<open>
  Node and end key agree as far as both go. The value is taken before the two sizes are
  compared; then the children up to the end key's byte are searched.
\<close>

definition next_border :: "Node \<Rightarrow> Iter \<Rightarrow> 'h fam \<Rightarrow> 'h next_out" where
  "next_border n it m =
     (let key = end_key it; pos = max 1 (next_pos it); it1 = it\<lparr>next_pos := pos\<rparr>
      in if next_pos it = 0 \<and> IsValid (node_value n)
         then (Ret (Inr True, take_value n it1), m)
         else if length key < prefix_size n then (Ret (Inr False, it1), m)
         else (let hi = upper_end (key ! prefix_size n)
               in case search_children n pos hi of
                    Found i \<Rightarrow> (Next (push_child n i it1), m)
                  | PastEnd \<Rightarrow> (Ret (Inl OutOfBounds, it1), m)
                  | Exhausted \<Rightarrow>
                      (Ret (Inr False, it1\<lparr>it_node := 0, next_pos := max pos (unat hi + 1)\<rparr>), m)))"

text \<open>One trip of \<open>while (iter.node != 0)\<close>.\<close>

definition next_step :: "'h nvmm \<Rightarrow> (Iter, 'h fam, (fault + bool) \<times> Iter) stepper" where
  "next_step nv it0 m =
     (if it_node it0 = 0 then (Ret (Inr False, it0), m)
      else
        (let it = climb (path it0) it0
         in if next_pos it = 257 then (Ret (Inr False, it), m)
            else case fam_nodes m (it_node it) of
              None \<Rightarrow> (Ret (Inl AssertFail, it), m)
            | Some n \<Rightarrow>
                (let key = end_key it;
                     result = (if end_key_open it then 1
                               else nv_memcmp nv key (node_key n) (min (prefix_size n) (length key)))
                 in if result < 0 then (Ret (Inr False, it), m)
                    else if 0 < result then next_inside n it m
                    else if prefix_size n = length key then next_end n it m
                    else next_border n it m)))"

definition next_value ::
  "'h nvmm \<Rightarrow> Iter \<Rightarrow> 'h fam \<Rightarrow> (((fault + bool) \<times> Iter) \<times> 'h fam) option" where
  "next_value nv it m = run (next_step nv) it m"

section \<open>lower\_bound\<close>

text \<open>
  One trip of the search for the starting point; it ends with the iterator on which
  \<open>next_value\<close> is called.
\<close>

definition lower_step :: "'h nvmm \<Rightarrow> (Iter, 'h fam, (fault + bool) \<times> Iter) stepper" where
  "lower_step nv it m =
     (if it_node it = 0 then (Ret (Inr False, it), m)
      else case fam_nodes m (it_node it) of
        None \<Rightarrow> (Ret (Inl AssertFail, it), m)
      | Some n \<Rightarrow>
          (let key = begin_key it;
               result = (if begin_key_open it then - 1
                         else nv_memcmp nv key (node_key n) (min (prefix_size n) (length key)))
           in if 0 < result then (Ret (Inr True, it\<lparr>next_pos := 257\<rparr>), m)
              else if result < 0 then (Ret (Inr True, it), m)
              else if prefix_size n = length key
              then (Ret (Inr True, if begin_key_inclusive it then it else it\<lparr>next_pos := 1\<rparr>), m)
              else if length key < prefix_size n then (Ret (Inr True, it), m)
              else (let idx = unat (key ! prefix_size n); q = child n (key ! prefix_size n)
                    in if q \<noteq> 0
                       then (Next (it\<lparr>path := (it_node it, idx) # path it, it_node := q\<rparr>), m)
                       else (Ret (Inr True, it\<lparr>next_pos := idx + 1\<rparr>), m))))"

definition lower_bound ::
  "'h nvmm \<Rightarrow> Gptr \<Rightarrow> Iter \<Rightarrow> 'h fam \<Rightarrow> (((fault + bool) \<times> Iter) \<times> 'h fam) option" where
  "lower_bound nv root it m =
     (if it_key it \<noteq> [] then Some ((Inl AssertFail, it), m)
      else do {
        ((r, it'), m') \<leftarrow>
          run (lower_step nv) (it\<lparr>it_node := root, next_pos := 0, it_value := TagGptr_default\<rparr>) m;
        (case r of
           Inl f \<Rightarrow> Some ((Inl f, it'), m')
         | Inr go \<Rightarrow> if go then next_value nv it' m'
                    else Some ((Inr False, it'\<lparr>it_node := 0\<rparr>), m'))
      })"

section \<open>scan and get\_next\<close>

text \<open>The result is the key and value found, or \<open>None\<close> where the code returns \<open>-1\<close>.\<close>

type_synonym 'h scan_out = "(((fault + (bytes \<times> TagGptr) option) \<times> Iter) \<times> 'h fam) option"

definition scan_result :: "(((fault + bool) \<times> Iter) \<times> 'h fam) option \<Rightarrow> 'h scan_out" where
  "scan_result = map_option (\<lambda>((r, it), m).
     ((map_sum id (\<lambda>found. if found then Some (it_key it, it_value it) else None) r, it), m))"

text \<open>
  The set-up of the iterator. The test for an open begin key reads \<open>end_key_inclusive\<close>, which
  still has the value of the iterator's previous use: it is set three lines below.
\<close>

definition scan_init :: "bytes \<Rightarrow> bool \<Rightarrow> bytes \<Rightarrow> bool \<Rightarrow> Iter \<Rightarrow> Iter" where
  "scan_init bkey binc ekey einc it0 =
     \<lparr>begin_key = bkey, begin_key_inclusive = binc,
      begin_key_open = (bkey = OPEN_BOUNDARY_STR \<and> \<not> end_key_inclusive it0),
      end_key = ekey, end_key_inclusive = einc,
      end_key_open = (ekey = OPEN_BOUNDARY_STR \<and> \<not> einc),
      it_node = 0, next_pos = 0, it_key = [], it_value = TagGptr_default, path = []\<rparr>"

definition scan ::
  "'h nvmm \<Rightarrow> Gptr \<Rightarrow> Iter \<Rightarrow> bytes \<Rightarrow> bool \<Rightarrow> bytes \<Rightarrow> bool \<Rightarrow> 'h fam \<Rightarrow> 'h scan_out" where
  "scan nv root it0 bkey binc ekey einc m =
     (if \<not> (key_ok bkey \<and> key_ok ekey) then Some ((Inl AssertFail, it0), m)
      else
        (let it = scan_init bkey binc ekey einc it0
         in if bkey = ekey \<and> binc \<and> einc
            then map_option
                   (\<lambda>(r, m'). ((map_sum id (\<lambda>v. if IsValid v then Some (bkey, v) else None) r, it), m'))
                   (get nv root bkey m)
            else if begin_key_open it \<or> end_key_open it \<or> lex_less bkey ekey
            then scan_result (lower_bound nv root it m)
            else Some ((Inr None, it), m)))"

definition get_next :: "'h nvmm \<Rightarrow> Iter \<Rightarrow> 'h fam \<Rightarrow> 'h scan_out" where
  "get_next nv it m = scan_result (next_value nv it m)"

end
