(* ===== verification/RT_Scan_Correct.thy ===== *)
theory RT_Scan_Correct
  imports RT_Scan
begin

text \<open>
  What a scan returns. An iterator stands for the list of nodes still to visit, a suffix of
  the sorted list of all nodes; \<open>next_value\<close> delivers the first of them that has a value and
  is within the end key and leaves the rest, \<open>lower_bound\<close> starts at the first node within
  the begin key. The end key must consist of bytes below 128 and must not be a proper prefix
  of a stored key without having a node itself: \<open>end_ok\<close>. Outside of that the code fails.
\<close>

section \<open>The nodes still to visit\<close>

fun chain :: "nodes \<Rightarrow> Gptr \<Rightarrow> Gptr \<Rightarrow> (Gptr \<times> nat) list \<Rightarrow> bool" where
  "chain ns root q [] \<longleftrightarrow> q = root"
| "chain ns root q ((g, i) # ps) \<longleftrightarrow>
     q \<noteq> 0 \<and> i < 256 \<and> (\<exists>n. ns g = Some n \<and> child n (of_nat i) = q) \<and> chain ns root g ps"

definition later :: "nodes \<Rightarrow> Gptr \<Rightarrow> nat \<Rightarrow> Gptr list" where
  "later ns g i = (case ns g of None \<Rightarrow> [] | Some n \<Rightarrow> kids ns n i 256)"

definition rests :: "nodes \<Rightarrow> (Gptr \<times> nat) list \<Rightarrow> Gptr list" where
  "rests ns ps = concat (map (\<lambda>(g, i). later ns g (i + 1)) ps)"

definition remaining :: "nodes \<Rightarrow> Iter \<Rightarrow> Gptr list" where
  "remaining ns it =
     (if it_node it = 0 then []
      else (if next_pos it = 0 then subtree ns (it_node it)
            else later ns (it_node it) (next_pos it - 1)) @ rests ns (path it))"

lemma later_node [simp]: "ns g = Some n \<Longrightarrow> later ns g i = kids ns n i 256"
  by (simp add: later_def)

lemma rests_simps [simp]: "rests ns [] = []" "rests ns ((g, i) # ps) = later ns g (i + 1) @ rests ns ps"
  by (simp_all add: rests_def)

lemma chain_reach: "chain ns root q ps \<Longrightarrow> reach ns root q"
proof (induction ps arbitrary: q)
  case (Cons p ps)
  obtain g i where p: "p = (g, i)" by fastforce
  with Cons obtain n where "ns g = Some n" "child n (of_nat i) = q" "q \<noteq> 0" "reach ns root g" by auto
  then show ?case using reach.reach_child [of ns root g n "of_nat i"] by simp
qed (simp add: reach.reach_refl)

lemma chain_node:
  assumes "tree_inv ns root" "chain ns root q ps"
  obtains n where "ns q = Some n" "node_ok ns n" "q \<noteq> 0"
  using reach_node [OF assms(1) chain_reach [OF assms(2)]] .

text \<open>A slot on the path is a prefix of the current node.\<close>

lemma chain_slot:
  assumes inv: "tree_inv ns root" and "chain ns root q ps" "(g, i) \<in> set ps"
  shows "prefix (pfx_at ns g @ [of_nat i]) (pfx_at ns q) \<and> i < 256 \<and> reach ns root g"
  using assms(2,3)
proof (induction ps arbitrary: q)
  case (Cons p ps)
  obtain g' i' where p: "p = (g', i')" by fastforce
  with Cons.prems(1) obtain n where n: "ns g' = Some n" "child n (of_nat i') = q" "q \<noteq> 0"
    "i' < 256" and ch: "chain ns root g' ps" by auto
  obtain n' where n': "ns q = Some n'" "prefix (pfx n @ [of_nat i']) (pfx n')"
    using node_ok_child [OF tree_inv_node [OF inv n(1)], of "of_nat i'"] n(2,3) by auto
  have here: "prefix (pfx_at ns g' @ [of_nat i']) (pfx_at ns q)"
    using n n' by (simp add: pfx_at_def)
  show ?case
  proof (cases "(g, i) = p")
    case True
    with here p n(4) chain_reach [OF ch] show ?thesis by simp
  next
    case False
    with Cons.IH [OF ch] Cons.prems(2)
    have "prefix (pfx_at ns g @ [of_nat i]) (pfx_at ns g') \<and> i < 256 \<and> reach ns root g" by simp
    with here show ?thesis by (meson append_prefixD prefix_order.trans)
  qed
qed simp

lemma chain_length:
  assumes inv: "tree_inv ns root" and "chain ns root q ps"
  shows "length ps \<le> length (pfx_at ns q)"
  using assms(2)
proof (induction ps arbitrary: q)
  case (Cons p ps)
  obtain g i where p: "p = (g, i)" by fastforce
  with Cons.prems have "chain ns root g ps" by auto
  from Cons.IH [OF this] chain_slot [OF inv Cons.prems, of g i] p show ?case
    by (auto dest!: prefix_length_le)
qed simp

text \<open>An ancestor of the current node is on the path.\<close>

lemma chain_ancestor:
  assumes inv: "tree_inv ns root" and "chain ns root q ps" "reach ns root b"
    "prefix (pfx_at ns b) (pfx_at ns q)" "b \<noteq> q"
  shows "\<exists>i. (b, i) \<in> set ps"
  using assms(2,4,5)
proof (induction ps arbitrary: q)
  case Nil
  obtain n where "ns q = Some n" "pfx n = []" using tree_inv_root [OF inv] Nil by auto
  moreover obtain nb where nb: "ns b = Some nb" by (rule reach_node [OF inv assms(3)])
  ultimately have "key_at ns root [] b" "key_at ns root [] q"
    using Nil assms(3) chain_reach [OF Nil.prems(1)] by (auto simp: key_at_def pfx_at_def)
  from key_at_unique [OF inv this] Nil.prems show ?case by simp
next
  case (Cons p ps)
  obtain g i where p: "p = (g, i)" by fastforce
  with Cons.prems(1) obtain n where n: "ns g = Some n" "child n (of_nat i) = q" "q \<noteq> 0"
    and ch: "chain ns root g ps" by auto
  show ?case
  proof (cases "b = g")
    case True
    with p show ?thesis by auto
  next
    case False
    obtain nb nq where nb: "ns b = Some nb" and nq: "ns q = Some nq"
      using reach_node [OF inv assms(3)] chain_node [OF inv Cons.prems(1)] by metis
    have "prefix (pfx n @ [of_nat i]) (pfx nq)"
      using chain_slot [OF inv Cons.prems(1), of g i] p n(1) nq by (simp add: pfx_at_def)
    have "prefix (pfx nb) (pfx n)"
    proof (rule ccontr)
      assume np: "\<not> prefix (pfx nb) (pfx n)"
      have pq: "prefix (pfx nb) (pfx nq)" using Cons.prems(2) nb nq by (simp add: pfx_at_def)
      with np \<open>prefix (pfx n @ [of_nat i]) (pfx nq)\<close> have "prefix (pfx n @ [of_nat i]) (pfx nb)"
        by (metis prefix_same_cases prefix_snoc)
      moreover have "reach ns g b"
        using reach_between [OF inv chain_reach [OF ch] assms(3) n(1) nb]
          \<open>prefix (pfx n @ [of_nat i]) (pfx nb)\<close> append_prefixD by blast
      ultimately have "reach ns q b" using reach_via [OF inv _ n(1) nb] n(2) by metis
      then have "prefix (pfx nq) (pfx nb)" using reach_prefix [OF inv _ nq] nb by fastforce
      with pq have "pfx nb = pfx nq" by (simp add: prefix_order.antisym)
      with key_at_unique [OF inv, of "pfx nb" b q] assms(3) chain_reach [OF Cons.prems(1)] nb nq
        Cons.prems(3) show False by (auto simp: key_at_def)
    qed
    with Cons.IH [OF ch _ False] nb n(1) p show ?thesis by (auto simp: pfx_at_def)
  qed
qed

text \<open>What is left on the path lies behind everything that extends the current node.\<close>

lemma rests_behind:
  assumes inv: "tree_inv ns root" and ch: "chain ns root q ps" and x: "x \<in> set (rests ns ps)"
    and k: "prefix (pfx_at ns q) k"
  shows "lex_less k (pfx_at ns x)"
proof -
  from x obtain g i where gi: "(g, i) \<in> set ps" "x \<in> set (later ns g (i + 1))"
    by (auto simp: rests_def)
  then obtain n where n: "ns g = Some n" "x \<in> set (kids ns n (i + 1) 256)"
    by (cases "ns g") (auto simp: later_def)
  note sl = chain_slot [OF inv ch gi(1)]
  from n(2) obtain j where j: "i + 1 \<le> j" "j < 256" "prefix (pfx n @ [of_nat j]) (pfx_at ns x)"
    by (rule kids_prefix [OF inv n(1)])
  have "(of_nat i :: byte) < of_nat j" by (rule of_nat_byte_less) (use j in auto)
  moreover have "prefix (pfx n @ [of_nat i]) k"
    using sl k n(1) by (auto simp: pfx_at_def intro: prefix_order.trans)
  ultimately show ?thesis using j(3) lex_less_fork by blast
qed

lemma later_behind:
  assumes inv: "tree_inv ns root" and n: "ns q = Some n" and x: "x \<in> set (kids ns n i 256)"
    and c: "unat c < i" "prefix (pfx n @ [c]) k"
  shows "lex_less k (pfx_at ns x)"
proof -
  from x obtain j where j: "i \<le> j" "j < 256" "prefix (pfx n @ [of_nat j]) (pfx_at ns x)"
    by (rule kids_prefix [OF inv n])
  have "c < of_nat j" using of_nat_byte_less [of "unat c" j] j c(1) by simp
  with c(2) j(3) show ?thesis by (rule lex_less_fork)
qed

lemma kids_skip:
  assumes inv: "tree_inv ns root"
    and "\<And>k. i \<le> k \<Longrightarrow> k < j \<Longrightarrow> child n (of_nat k) = 0" "j \<le> 256" "i \<le> j"
  shows "kids ns n i 256 = kids ns n j 256"
proof -
  have "kids ns n i j = []"
    using assms(2) subtree_null [OF inv] by (auto simp: kids_def)
  with kids_cut [OF assms(4,3)] show ?thesis by simp
qed

section \<open>Iterators\<close>

definition within :: "nodes \<Rightarrow> Iter \<Rightarrow> Gptr \<Rightarrow> bool" where
  "within ns it a \<longleftrightarrow>
     end_key_open it \<or> lex_less (pfx_at ns a) (end_key it) \<or>
     end_key_inclusive it \<and> pfx_at ns a = end_key it"

definition to_deliver :: "nodes \<Rightarrow> Iter \<Rightarrow> Gptr list" where
  "to_deliver ns it = filter (\<lambda>a. has_value ns a \<and> within ns it a) (remaining ns it)"

definition iter_ok :: "nodes \<Rightarrow> Gptr \<Rightarrow> Iter \<Rightarrow> bool" where
  "iter_ok ns root it \<longleftrightarrow>
     it_node it = 0 \<or>
     chain ns root (it_node it) (path it) \<and> next_pos it \<le> 257 \<and>
     (end_key_open it \<or> (\<forall>(g, i) \<in> set (path it). \<not> prefix (end_key it) (pfx_at ns g)))"

definition end_ok :: "nodes \<Rightarrow> Gptr \<Rightarrow> bytes \<Rightarrow> bool" where
  "end_ok ns root key \<longleftrightarrow>
     (\<forall>c \<in> set key. c < 128) \<and>
     ((\<exists>b. key_at ns root key b) \<or>
      (\<forall>a. reach ns root a \<longrightarrow> prefix key (pfx_at ns a) \<longrightarrow> \<not> has_value ns a))"

text \<open>The fields that name the range do not change.\<close>

definition same_end :: "Iter \<Rightarrow> Iter \<Rightarrow> bool" where
  "same_end it it' \<longleftrightarrow> end_key it' = end_key it \<and> end_key_inclusive it' = end_key_inclusive it \<and>
     end_key_open it' = end_key_open it"

lemma same_end_within: "same_end it it' \<Longrightarrow> within ns it' = within ns it"
  by (auto simp: same_end_def within_def)

lemma same_end_refl [simp]: "same_end it it"
  by (simp add: same_end_def)

lemma same_end_trans: "same_end a b \<Longrightarrow> same_end b c \<Longrightarrow> same_end a c"
  by (simp add: same_end_def)

text \<open>Going up changes nothing of what is left.\<close>

lemma climb_ok:
  assumes inv: "tree_inv ns root"
  shows "iter_ok ns root (it\<lparr>path := ps\<rparr>) \<Longrightarrow> it_node it \<noteq> 0 \<Longrightarrow>
    iter_ok ns root (climb ps it) \<and> it_node (climb ps it) \<noteq> 0 \<and> same_end it (climb ps it) \<and>
    remaining ns (climb ps it) = remaining ns (it\<lparr>path := ps\<rparr>) \<and>
    length (path (climb ps it)) \<le> length ps \<and>
    (next_pos it = 257 \<longrightarrow> next_pos (climb ps it) \<noteq> 257 \<longrightarrow>
       length (path (climb ps it)) < length ps \<and> 0 < next_pos (climb ps it)) \<and>
    (next_pos it \<noteq> 257 \<longrightarrow> next_pos (climb ps it) = next_pos it) \<and>
    (next_pos (climb ps it) = 257 \<longrightarrow> remaining ns (it\<lparr>path := ps\<rparr>) = [])"
proof (induction ps arbitrary: it)
  case Nil
  then have "it_node it = root" by (simp add: iter_ok_def)
  then obtain n where "ns (it_node it) = Some n" using tree_inv_root [OF inv] by metis
  with Nil show ?case by (simp add: remaining_def same_end_def)
next
  case (Cons p ps)
  obtain g i where p: "p = (g, i)" by fastforce
  show ?case
  proof (cases "next_pos it = 257")
    case True
    let ?it = "it\<lparr>it_node := g, next_pos := i + 2\<rparr>"
    from Cons.prems p have ch: "chain ns root (it_node it) ((g, i) # ps)" by (auto simp: iter_ok_def)
    obtain nq where "ns (it_node it) = Some nq" by (rule chain_node [OF inv ch])
    with ch obtain n where n: "ns g = Some n" "ns (it_node it) = Some nq" "i < 256" by auto
    from n have g: "g \<noteq> 0" using tree_inv_nonnull [OF inv] by blast
    have "iter_ok ns root (?it\<lparr>path := ps\<rparr>)" using Cons.prems p n by (auto simp: iter_ok_def)
    moreover have "remaining ns (?it\<lparr>path := ps\<rparr>) = remaining ns (it\<lparr>path := p # ps\<rparr>)"
      using True n g Cons.prems(2) p by (simp add: remaining_def)
    ultimately show ?thesis using Cons.IH [of ?it] True g p
      by (cases "i + 2 = 257") (auto simp: same_end_def)
  next
    case False
    with Cons.prems p show ?thesis by (simp add: same_end_def)
  qed
qed

section \<open>One trip of next\_value\<close>

lemma search_children_cases:
  assumes "1 \<le> pos" "pos \<le> 257"
  obtains (found) i where "search_children n pos hi = Found i" "pos - 1 \<le> i" "i < unat hi" "i < 256"
      "child n (of_nat i) \<noteq> 0" "\<And>k. pos - 1 \<le> k \<Longrightarrow> k < i \<Longrightarrow> child n (of_nat k) = 0"
  | (exhausted) "search_children n pos hi = Exhausted"
      "\<And>k. pos - 1 \<le> k \<Longrightarrow> k < unat hi \<Longrightarrow> k < 256 \<Longrightarrow> child n (of_nat k) = 0"
  | (past) "search_children n pos hi = PastEnd" "256 < unat hi"
proof -
  let ?top = "if hi \<le> 256 then unat hi else 256"
  have top: "?top = min (unat hi) 256" and past_hi: "256 < hi \<longleftrightarrow> 256 < unat hi"
    by (auto simp: word_le_nat_alt word_less_nat_alt)
  show thesis
  proof (cases "find (\<lambda>i. child n (of_nat i) \<noteq> 0) [pos - 1..<?top]")
    case None
    then have "search_children n pos hi = (if 256 < hi \<and> of_nat pos \<le> hi then PastEnd else Exhausted)"
      by (simp add: search_children_def)
    moreover from None have "child n (of_nat k) = 0" if "pos - 1 \<le> k" "k < unat hi" "k < 256" for k
      using that unfolding top by (auto simp: find_None_iff)
    ultimately show thesis using that(2,3) past_hi by (metis (full_types))
  next
    case (Some i)
    note found = find_upt_Some [OF this]
    then have "i < min (unat hi) 256" by (simp only: top)
    moreover from Some have "search_children n pos hi = Found i" by (simp add: search_children_def)
    ultimately show thesis using that(1) [of i] found by simp
  qed
qed

definition scan_measure :: "nodes \<Rightarrow> Iter \<Rightarrow> nat" where
  "scan_measure ns it =
     1000 * (2 * length (remaining ns it) + (if next_pos it = 0 then 0 else 1)) +
     length (path it) + (if next_pos it = 257 then 0 else 1)"

definition delivers :: "nodes \<Rightarrow> Gptr \<Rightarrow> Iter \<Rightarrow> fault + bool \<Rightarrow> Iter \<Rightarrow> bool" where
  "delivers ns root it r it' \<longleftrightarrow>
     iter_ok ns root it' \<and> same_end it it' \<and>
     (r = Inr False \<and> to_deliver ns it = [] \<and> to_deliver ns it' = [] \<or>
      r = Inr True \<and> (\<exists>a. to_deliver ns it = a # to_deliver ns it' \<and>
         it_key it' = pfx_at ns a \<and> it_value it' = value_at ns a))"

definition goes_on :: "nodes \<Rightarrow> Gptr \<Rightarrow> Iter \<Rightarrow> Iter \<Rightarrow> bool" where
  "goes_on ns root it it' \<longleftrightarrow>
     iter_ok ns root it' \<and> same_end it it' \<and> to_deliver ns it' = to_deliver ns it \<and>
     scan_measure ns it' < scan_measure ns it"

definition trip_ok ::
  "nodes \<Rightarrow> Gptr \<Rightarrow> Iter \<Rightarrow> (Iter, (fault + bool) \<times> Iter) outcome \<times> 'h fam \<Rightarrow> 'h fam \<Rightarrow> bool" where
  "trip_ok ns root it out m \<longleftrightarrow>
     snd out = m \<and>
     (case fst out of Next it' \<Rightarrow> goes_on ns root it it' | Ret (r, it') \<Rightarrow> delivers ns root it r it')"

text \<open>The situation after the climb: a node to look at.\<close>

definition at_node :: "nodes \<Rightarrow> Gptr \<Rightarrow> Iter \<Rightarrow> Node \<Rightarrow> bool" where
  "at_node ns root it n \<longleftrightarrow>
     tree_inv ns root \<and> iter_ok ns root it \<and> it_node it \<noteq> 0 \<and> next_pos it \<noteq> 257 \<and>
     ns (it_node it) = Some n"

lemma at_nodeD:
  assumes "at_node ns root it n"
  shows "tree_inv ns root" "chain ns root (it_node it) (path it)" "next_pos it \<le> 256"
    "it_node it \<noteq> 0" "ns (it_node it) = Some n" "node_ok ns n"
    "remaining ns it = (if next_pos it = 0 then [it_node it] else []) @
       kids ns n (next_pos it - 1) 256 @ rests ns (path it)"
    "length (path it) \<le> 128"
proof -
  from assms have inv: "tree_inv ns root" and ch: "chain ns root (it_node it) (path it)"
    and n: "ns (it_node it) = Some n" by (auto simp: at_node_def iter_ok_def)
  note ok = tree_inv_node [OF inv n]
  from assms inv ch n ok show "tree_inv ns root" "chain ns root (it_node it) (path it)"
    "next_pos it \<le> 256" "it_node it \<noteq> 0" "ns (it_node it) = Some n" "node_ok ns n"
    by (auto simp: at_node_def iter_ok_def)
  show "remaining ns it = (if next_pos it = 0 then [it_node it] else []) @
       kids ns n (next_pos it - 1) 256 @ rests ns (path it)"
    using assms n by (simp add: remaining_def at_node_def subtree_node [OF inv n])
  show "length (path it) \<le> 128"
    using chain_length [OF inv ch] n length_pfx [OF ok] node_okD(2) [OF ok]
    by (simp add: pfx_at_def MAX_KEY_LEN_def)
qed

text \<open>Everything still to visit is the current node or lies behind it.\<close>

lemma remaining_behind:
  assumes at: "at_node ns root it n" and x: "x \<in> set (remaining ns it)"
  shows "x = it_node it \<and> next_pos it = 0 \<or> lex_less (pfx n) (pfx_at ns x)"
proof -
  note d = at_nodeD [OF at]
  from x d(7) consider "x = it_node it" "next_pos it = 0" | "x \<in> set (kids ns n (next_pos it - 1) 256)"
    | "x \<in> set (rests ns (path it))" by (auto split: if_splits)
  then show ?thesis
  proof cases
    case 2
    then show ?thesis by (auto elim!: kids_prefix [OF d(1,5)] intro: lex_less_proper)
  next
    case 3
    from rests_behind [OF d(1,2) this, of "pfx n"] d(5) show ?thesis by (simp add: pfx_at_def)
  qed simp
qed

lemma beyond_end:
  assumes at: "at_node ns root it n" and op: "\<not> end_key_open it"
    and gt: "lex_less (end_key it) (pfx n)"
  shows "to_deliver ns it = []"
proof -
  have "\<not> within ns it x" if "x \<in> set (remaining ns it)" for x
  proof -
    have "lex_less (end_key it) (pfx_at ns x)"
      using remaining_behind [OF at that] gt at_nodeD(5) [OF at] lex_less_trans
      by (auto simp: pfx_at_def)
    with op show ?thesis using lex_less_asym lex_less_irrefl by (auto simp: within_def)
  qed
  then show ?thesis by (auto simp: to_deliver_def filter_empty_conv)
qed

text \<open>Going down to the next child: only null children are skipped.\<close>

lemma push_child_ok:
  assumes at: "at_node ns root it n" and it1: "it1 = it\<lparr>next_pos := pos\<rparr>"
    and i: "max 1 (next_pos it) - 1 \<le> i" "i < 256" "child n (of_nat i) \<noteq> 0"
      "\<And>k. max 1 (next_pos it) - 1 \<le> k \<Longrightarrow> k < i \<Longrightarrow> child n (of_nat k) = 0"
    and no: "next_pos it = 0 \<Longrightarrow> \<not> IsValid (node_value n)"
    and pre: "end_key_open it \<or> \<not> prefix (end_key it) (pfx n)"
  shows "goes_on ns root it (push_child n i it1)"
proof -
  note d = at_nodeD [OF at]
  let ?it = "push_child n i it1"
  have se: "same_end it ?it" by (simp add: same_end_def push_child_def it1)
  have "kids ns n (max 1 (next_pos it) - 1) 256 = kids ns n i 256"
    by (rule kids_skip [OF d(1)]) (use i in auto)
  also have "\<dots> = subtree ns (child n (of_nat i)) @ kids ns n (i + 1) 256"
    using kids_Suc [OF i(2), of ns n] by simp
  finally have kids: "kids ns n (next_pos it - 1) 256 =
      subtree ns (child n (of_nat i)) @ kids ns n (i + 1) 256" by (simp add: max_def split: if_splits)
  have rem: "remaining ns it = (if next_pos it = 0 then [it_node it] else []) @ remaining ns ?it"
    using d kids i(3) by (simp add: remaining_def push_child_def it1)
  have "\<not> has_value ns (it_node it)" if "next_pos it = 0"
    using no [OF that] d(5) by (simp add: has_value_def value_at_def)
  then have del: "to_deliver ns ?it = to_deliver ns it"
    by (simp add: to_deliver_def rem same_end_within [OF se])
  have "iter_ok ns root ?it"
    using at d(2,4,5) i pre by (auto simp: iter_ok_def push_child_def it1 pfx_at_def at_node_def)
  moreover have "scan_measure ns ?it < scan_measure ns it"
    using rem d(3,8) by (simp add: scan_measure_def push_child_def it1)
  ultimately show ?thesis using se del by (simp add: goes_on_def)
qed

text \<open>Taking the value of the current node.\<close>

lemma take_value_ok:
  assumes at: "at_node ns root it n" and pos: "next_pos it = 0" and v: "IsValid (node_value n)"
    and w: "within ns it (it_node it)"
  shows "delivers ns root it (Inr True) (take_value n (it\<lparr>next_pos := 1\<rparr>))"
proof -
  note d = at_nodeD [OF at]
  let ?it = "take_value n (it\<lparr>next_pos := 1\<rparr>)"
  have se: "same_end it ?it" by (simp add: same_end_def take_value_def)
  have "remaining ns it = it_node it # remaining ns ?it"
    using d pos by (simp add: remaining_def take_value_def subtree_node [OF d(1,5)])
  moreover have "has_value ns (it_node it)" using v d(5) by (simp add: has_value_def value_at_def)
  ultimately have "to_deliver ns it = it_node it # to_deliver ns ?it"
    using w unfolding to_deliver_def same_end_within [OF se] by simp
  moreover have "iter_ok ns root ?it" using at by (auto simp: at_node_def iter_ok_def take_value_def)
  ultimately show ?thesis using se d(5)
    by (simp add: delivers_def take_value_def pfx_at_def value_at_def)
qed

lemma next_inside_ok:
  assumes at: "at_node ns root it n"
    and w: "end_key_open it \<or> lex_less (pfx n) (end_key it) \<and> \<not> prefix (end_key it) (pfx n)"
  shows "trip_ok ns root it (next_inside n it m) m"
proof -
  note d = at_nodeD [OF at]
  show ?thesis
  proof (cases "next_pos it = 0 \<and> IsValid (node_value n)")
    case True
    moreover have "within ns it (it_node it)" using w d(5) by (auto simp: within_def pfx_at_def)
    ultimately show ?thesis using take_value_ok [OF at] by (simp add: next_inside_def trip_ok_def)
  next
    case False
    have pos: "1 \<le> max 1 (next_pos it)" "max 1 (next_pos it) \<le> 257" using d(3) by auto
    from pos show ?thesis
    proof (cases rule: search_children_cases [where n = n and hi = 256])
      case (found i)
      have "goes_on ns root it (push_child n i (it\<lparr>next_pos := next_pos it\<rparr>))"
        by (rule push_child_ok [OF at refl]) (use found False w in auto)
      then have "goes_on ns root it (push_child n i it)" by simp
      with False found(1) show ?thesis by (auto simp: next_inside_def trip_ok_def)
    next
      case exhausted
      let ?it = "it\<lparr>next_pos := 257\<rparr>"
      have "kids ns n (max 1 (next_pos it) - 1) 256 = kids ns n 256 256"
        by (rule kids_skip [OF d(1)]) (use exhausted pos d(3) in auto)
      then have kids: "kids ns n (next_pos it - 1) 256 = []" by (simp add: max_def split: if_splits)
      have rem: "remaining ns it = (if next_pos it = 0 then [it_node it] else []) @ remaining ns ?it"
        using d(4,5) kids unfolding d(7) by (simp add: remaining_def)
      have se: "same_end it ?it" by (simp add: same_end_def)
      have "to_deliver ns ?it = to_deliver ns it"
        using False d(5)
        by (auto simp: to_deliver_def rem same_end_within [OF se] has_value_def value_at_def)
      moreover have "scan_measure ns ?it < scan_measure ns it"
        using rem at by (simp add: scan_measure_def at_node_def)
      moreover have "iter_ok ns root ?it" using at by (auto simp: at_node_def iter_ok_def)
      ultimately have "goes_on ns root it ?it" using se by (simp add: goes_on_def)
      with False exhausted(1) show ?thesis by (auto simp: next_inside_def trip_ok_def)
    qed simp
  qed
qed

lemma next_end_ok:
  assumes at: "at_node ns root it n" and op: "\<not> end_key_open it" and key: "pfx n = end_key it"
  shows "trip_ok ns root it (next_end n it m) m"
proof -
  note d = at_nodeD [OF at]
  have out: "\<not> within ns it x" if "lex_less (pfx n) (pfx_at ns x)" for x
    using that op key lex_less_asym lex_less_irrefl by (auto simp: within_def)
  have "\<not> within ns it x" if "x \<in> set (kids ns n (next_pos it - 1) 256 @ rests ns (path it))" for x
    using that out rests_behind [OF d(1,2), of x "pfx n"] d(5)
    by (auto elim!: kids_prefix [OF d(1,5)] dest: lex_less_proper simp: pfx_at_def)
  then have "to_deliver ns it =
      (if next_pos it = 0 \<and> IsValid (node_value n) \<and> end_key_inclusive it then [it_node it] else [])"
    using d(5) op key unfolding to_deliver_def d(7)
    by (auto simp: filter_empty_conv has_value_def value_at_def within_def pfx_at_def)
  moreover have "to_deliver ns (it\<lparr>it_node := 0\<rparr>) = []" "iter_ok ns root (it\<lparr>it_node := 0\<rparr>)"
    "same_end it (it\<lparr>it_node := 0\<rparr>)"
    by (simp_all add: to_deliver_def remaining_def iter_ok_def same_end_def)
  ultimately show ?thesis using d(5)
    by (auto simp: next_end_def trip_ok_def delivers_def take_value_def to_deliver_def remaining_def
        iter_ok_def same_end_def pfx_at_def value_at_def)
qed

lemma sint_small_byte: "sint c = uint c" if "c < 128" for c :: byte
proof -
  have u: "0 \<le> uint c" "uint c < 128" using that by (simp_all add: word_less_def)
  from u(1) have l: "- 128 \<le> uint c" by linarith
  have "sint c = signed_take_bit 7 (uint c)" by (simp add: sint_uint)
  also have "\<dots> = uint c" by (rule signed_take_bit_int_eq_self) (simp_all add: l u)
  finally show ?thesis .
qed

lemma upper_end_ascii:
  assumes c: "c < 128"
  shows "unat (upper_end c) = unat c + 1"
proof -
  have u: "unat c < 128" using c by (simp add: word_less_nat_alt)
  have "(scast c :: u64) = of_int (sint c)" by simp
  also have "\<dots> = of_nat (unat c)" using sint_small_byte [OF c] by simp
  finally have "upper_end c = of_nat (unat c + 1)" by (simp add: upper_end_def add.commute)
  then have "unat (upper_end c) = unat (of_nat (unat c + 1) :: u64)" by (simp only:)
  also have "\<dots> = unat c + 1" unfolding unat_of_nat using u by simp
  finally show ?thesis .
qed

text \<open>The node's prefix is a proper prefix of the end key: the end key lies below one child.\<close>

lemma next_border_down:
  assumes at: "at_node ns root it n" and op: "\<not> end_key_open it"
    and asc: "\<forall>c \<in> set (end_key it). c < 128"
    and pre: "prefix (pfx n) (end_key it)" "prefix_size n < length (end_key it)"
  shows "trip_ok ns root it (next_border n it m) m"
proof -
  note d = at_nodeD [OF at]
  let ?c = "end_key it ! prefix_size n"
  have len: "length (pfx n) = prefix_size n" by (rule length_pfx [OF d(6)])
  have c: "prefix (pfx n @ [?c]) (end_key it)"
    using prefix_snoc_nth [OF pre(1)] pre(2) len by simp
  have hi: "unat (upper_end ?c) = unat ?c + 1" by (rule upper_end_ascii) (use asc pre(2) in simp)
  show ?thesis
  proof (cases "next_pos it = 0 \<and> IsValid (node_value n)")
    case True
    have "within ns it (it_node it)"
      using d(5) lex_less_proper [OF c] by (simp add: within_def pfx_at_def)
    with True take_value_ok [OF at] show ?thesis by (simp add: next_border_def trip_ok_def Let_def)
  next
    case False
    have pos: "1 \<le> max 1 (next_pos it)" "max 1 (next_pos it) \<le> 257" using d(3) by auto
    have np: "\<not> prefix (end_key it) (pfx n)" using pre(2) len by (auto dest: prefix_length_le)
    from pos show ?thesis
    proof (cases rule: search_children_cases [where n = n and hi = "upper_end ?c"])
      case (found i)
      have "goes_on ns root it (push_child n i (it\<lparr>next_pos := max 1 (next_pos it)\<rparr>))"
        by (rule push_child_ok [OF at refl]) (use found False np in auto)
      with False found(1) pre(2) show ?thesis by (auto simp: next_border_def trip_ok_def Let_def)
    next
      case exhausted
      have skip: "child n (of_nat k) = 0" if "max 1 (next_pos it) - 1 \<le> k" "k \<le> unat ?c" for k
        using exhausted(2) [of k] that hi unat_byte [of ?c] by simp
      have "\<not> within ns it x" if x: "x \<in> set (kids ns n (next_pos it - 1) 256 @ rests ns (path it))" for x
      proof -
        have "lex_less (end_key it) (pfx_at ns x)"
        proof (cases "x \<in> set (rests ns (path it))")
          case True
          with rests_behind [OF d(1,2) this, of "end_key it"] pre(1) d(5) show ?thesis
            by (simp add: pfx_at_def)
        next
          case False
          with x have "x \<in> set (kids ns n (next_pos it - 1) 256)" by simp
          then obtain j where j: "next_pos it - 1 \<le> j" "j < 256"
            "prefix (pfx n @ [of_nat j]) (pfx_at ns x)" "x \<in> set (subtree ns (child n (of_nat j)))"
            by (rule kids_prefix [OF d(1,5)])
          then have "unat ?c < j"
            using skip [of j] d(1) by (cases "unat ?c < j") (auto simp: max_def split: if_splits)
          then have "?c < of_nat j" using of_nat_byte_less [of "unat ?c" j] j(2) by simp
          with c j(3) show ?thesis by (rule lex_less_fork)
        qed
        with op show ?thesis using lex_less_asym lex_less_irrefl by (auto simp: within_def)
      qed
      then have "to_deliver ns it = []"
        using False d(5) unfolding to_deliver_def d(7)
        by (auto simp: filter_empty_conv has_value_def value_at_def)
      with False exhausted(1) pre(2) show ?thesis
        by (auto simp: next_border_def trip_ok_def Let_def delivers_def to_deliver_def remaining_def
            iter_ok_def same_end_def)
    next
      case past
      with hi unat_byte [of ?c] show ?thesis by simp
    qed
  qed
qed

text \<open>The node's prefix properly extends the end key.\<close>

lemma next_border_long:
  assumes at: "at_node ns root it n" and op: "\<not> end_key_open it"
    and ok: "end_ok ns root (end_key it)"
    and pre: "prefix (end_key it) (pfx n)" "length (end_key it) < prefix_size n"
  shows "trip_ok ns root it (next_border n it m) m"
proof -
  note d = at_nodeD [OF at]
  have len: "length (pfx n) = prefix_size n" by (rule length_pfx [OF d(6)])
  have no: "\<not> IsValid (node_value n)"
  proof
    assume v: "IsValid (node_value n)"
    with ok chain_reach [OF d(2)] pre(1) d(5) obtain b where b: "key_at ns root (end_key it) b"
      by (auto simp: end_ok_def has_value_def value_at_def pfx_at_def)
    then have "b \<noteq> it_node it" "reach ns root b" "pfx_at ns b = end_key it"
      using d(5) pre(2) len by (auto simp: key_at_def pfx_at_def)
    with chain_ancestor [OF d(1,2), of b] pre(1) d(5) obtain i where "(b, i) \<in> set (path it)"
      by (auto simp: pfx_at_def)
    with at op \<open>pfx_at ns b = end_key it\<close> show False by (auto simp: at_node_def iter_ok_def)
  qed
  have "lex_less (end_key it) (pfx n)"
    using lex_less_proper [OF prefix_snoc_nth [OF pre(1)]] pre(2) len by simp
  note none = beyond_end [OF at op this]
  let ?it = "it\<lparr>next_pos := max 1 (next_pos it)\<rparr>"
  have at': "at_node ns root ?it n" using at d(3) by (auto simp: at_node_def iter_ok_def)
  from \<open>lex_less (end_key it) (pfx n)\<close> op have "to_deliver ns ?it = []"
    by (intro beyond_end [OF at']) simp_all
  with none no pre(2) at' show ?thesis
    by (simp add: next_border_def trip_ok_def Let_def delivers_def at_node_def same_end_def)
qed

section \<open>next\_value\<close>

text \<open>The comparison with the end key.\<close>

lemma memcmp_end:
  assumes ok: "node_ok ns n"
  shows "memcmp key (node_key n) (min (prefix_size n) (length key)) < 0 \<Longrightarrow> lex_less key (pfx n)"
    "0 < memcmp key (node_key n) (min (prefix_size n) (length key)) \<Longrightarrow>
       lex_less (pfx n) key \<and> \<not> prefix key (pfx n)"
proof -
  let ?m = "min (prefix_size n) (length key)"
  have "take ?m (node_key n) = take ?m (pfx n)" by (simp add: pfx_def)
  then have t: "take ?m key @ drop ?m key = key" "take ?m (node_key n) @ drop ?m (pfx n) = pfx n"
    by (simp_all only: append_take_drop_id)
  show "lex_less key (pfx n)" if "memcmp key (node_key n) ?m < 0"
    using memcmp_neg_lex [OF that, of "drop ?m key" "drop ?m (pfx n)"] t by simp
  assume pos: "0 < memcmp key (node_key n) ?m"
  have "\<not> prefix key (pfx n)"
  proof
    assume pre: "prefix key (pfx n)"
    then have "?m = length key" using prefix_length_le [OF pre] length_pfx [OF ok] by simp
    moreover have "take (length key) (node_key n) = key"
      using pre prefix_length_le [OF pre] length_pfx [OF ok] by (simp add: prefix_take_iff pfx_def)
    ultimately have "memcmp key (node_key n) ?m = 0"
      using memcmp_take2 [of key "length key" "node_key n"] memcmp_eq_0 [of "length key" key key]
      by (metis order_refl)
    with pos show False by simp
  qed
  with memcmp_pos_lex [OF pos, of "drop ?m (pfx n)" "drop ?m key"] t
  show "lex_less (pfx n) key \<and> \<not> prefix key (pfx n)" by simp
qed

lemma delivers_after:
  assumes "same_end it0 it" "remaining ns it = remaining ns it0" "delivers ns root it r it'"
  shows "delivers ns root it0 r it'"
proof -
  have "to_deliver ns it = to_deliver ns it0"
    using assms(1,2) by (simp add: to_deliver_def same_end_within)
  with assms show ?thesis by (auto simp: delivers_def intro: same_end_trans)
qed

lemma trip_after:
  assumes "same_end it0 it" "remaining ns it = remaining ns it0"
    "scan_measure ns it \<le> scan_measure ns it0" "trip_ok ns root it out m"
  shows "trip_ok ns root it0 out m"
proof -
  have del: "to_deliver ns it = to_deliver ns it0"
    using assms(1,2) by (simp add: to_deliver_def same_end_within)
  show ?thesis
    using assms(3,4) del delivers_after [OF assms(1,2)] same_end_trans [OF assms(1)]
    by (auto simp: trip_ok_def goes_on_def split: outcome.splits)
qed

lemma at_node_trip:
  assumes nv: "nvmm_ok nv" and at: "at_node ns root it n"
    and ok: "end_key_open it \<or> end_ok ns root (end_key it)"
    and res: "result = (if end_key_open it then 1
       else nv_memcmp nv (end_key it) (node_key n) (min (prefix_size n) (length (end_key it))))"
  shows "trip_ok ns root it
    (if result < 0 then (Ret (Inr False, it), m)
     else if 0 < result then next_inside n it m
     else if prefix_size n = length (end_key it) then next_end n it m
     else next_border n it m) m"
proof -
  note d = at_nodeD [OF at]
  let ?key = "end_key it" and ?m = "min (prefix_size n) (length (end_key it))"
  have okn: "node_ok ns n" by (rule d(6))
  consider (opened) "end_key_open it" | (neg) "\<not> end_key_open it" "result < 0"
    | (pos) "\<not> end_key_open it" "0 < result" | (zero) "\<not> end_key_open it" "result = 0" by linarith
  then show ?thesis
  proof cases
    case opened
    with next_inside_ok [OF at] res show ?thesis by simp
  next
    case neg
    then have "lex_less ?key (pfx n)" using res memcmp_end(1) [OF okn] nv_memcmp_iff(2) [OF nv] by simp
    from beyond_end [OF at neg(1) this] neg at show ?thesis
      by (simp add: trip_ok_def delivers_def at_node_def)
  next
    case pos
    then have "lex_less (pfx n) ?key \<and> \<not> prefix ?key (pfx n)"
      using res memcmp_end(2) [OF okn] nv_memcmp_iff(3) [OF nv] by simp
    with next_inside_ok [OF at] pos show ?thesis by simp
  next
    case zero
    then have z: "memcmp ?key (node_key n) ?m = 0" using res nv_memcmp_iff(1) [OF nv] by simp
    note pre = memcmp_pfx [OF okn, of ?key, THEN iffD1, OF z]
    consider "prefix_size n = length ?key" | "prefix_size n < length ?key" | "length ?key < prefix_size n"
      by linarith
    then show ?thesis
    proof cases
      case 1
      then have "pfx n = ?key" using pre length_pfx [OF okn] by (auto dest: prefix_length_eq)
      with 1 zero next_end_ok [OF at] show ?thesis by simp
    next
      case 2
      with pre zero ok next_border_down [OF at zero(1)] show ?thesis by (auto simp: end_ok_def)
    next
      case 3
      with pre zero ok next_border_long [OF at zero(1)] show ?thesis by auto
    qed
  qed
qed

lemma next_step_trip:
  assumes nv: "nvmm_ok nv" and inv: "tree_inv (fam_nodes m) root"
    and it: "iter_ok (fam_nodes m) root it"
    and ok: "end_key_open it \<or> end_ok (fam_nodes m) root (end_key it)"
  shows "trip_ok (fam_nodes m) root it (next_step nv it m) m"
proof (cases "it_node it = 0")
  case True
  with it show ?thesis
    by (simp add: next_step_def trip_ok_def delivers_def to_deliver_def remaining_def)
next
  case False
  let ?it = "climb (path it) it"
  have up: "iter_ok (fam_nodes m) root ?it" "it_node ?it \<noteq> 0" "same_end it ?it"
    "remaining (fam_nodes m) ?it = remaining (fam_nodes m) it"
    "length (path ?it) \<le> length (path it)"
    "next_pos it = 257 \<longrightarrow> next_pos ?it \<noteq> 257 \<longrightarrow>
       length (path ?it) < length (path it) \<and> 0 < next_pos ?it"
    "next_pos it \<noteq> 257 \<longrightarrow> next_pos ?it = next_pos it"
    "next_pos ?it = 257 \<longrightarrow> remaining (fam_nodes m) it = []"
    using climb_ok [OF inv, where it = it and ps = "path it"] it False by simp_all
  show ?thesis
  proof (cases "next_pos ?it = 257")
    case True
    with up have "delivers (fam_nodes m) root it (Inr False) ?it"
      by (simp add: delivers_def to_deliver_def)
    with True False show ?thesis by (simp add: next_step_def trip_ok_def Let_def)
  next
    case np: False
    from up(1,2) obtain n where n: "fam_nodes m (it_node ?it) = Some n"
      by (auto simp: iter_ok_def elim: chain_node [OF inv])
    with up np inv have at: "at_node (fam_nodes m) root ?it n" by (simp add: at_node_def)
    have "scan_measure (fam_nodes m) ?it \<le> scan_measure (fam_nodes m) it"
      using up(4-7) np by (auto simp: scan_measure_def)
    moreover have "end_key_open ?it \<or> end_ok (fam_nodes m) root (end_key ?it)"
      using ok up(3) by (simp add: same_end_def)
    ultimately have "trip_ok (fam_nodes m) root it
        (let key = end_key ?it;
             result = (if end_key_open ?it then 1
                       else nv_memcmp nv key (node_key n) (min (prefix_size n) (length key)))
         in if result < 0 then (Ret (Inr False, ?it), m)
            else if 0 < result then next_inside n ?it m
            else if prefix_size n = length key then next_end n ?it m
            else next_border n ?it m) m"
      unfolding Let_def by (rule trip_after [OF up(3,4) _ at_node_trip [OF nv at _ refl]])
    with np False n show ?thesis unfolding next_step_def Let_def by (simp only: if_False option.case)
  qed
qed

text \<open>\<open>next_value\<close> returns, and delivers the first of the nodes still to deliver.\<close>

lemma next_value_correct:
  assumes nv: "nvmm_ok nv" and inv: "tree_inv (fam_nodes m) root"
    and it: "iter_ok (fam_nodes m) root it"
    and ok: "end_key_open it \<or> end_ok (fam_nodes m) root (end_key it)"
  shows "\<exists>r it'. next_value nv it m = Some ((r, it'), m) \<and> delivers (fam_nodes m) root it r it'"
proof -
  let ?ns = "fam_nodes m"
  define I where "I i m' \<longleftrightarrow> m' = m \<and> iter_ok ?ns root i \<and> same_end it i \<and>
    to_deliver ?ns i = to_deliver ?ns it" for i m'
  have "\<exists>r m'. run (next_step nv) it m = Some (r, m') \<and>
      (m' = m \<and> delivers ?ns root it (fst r) (snd r))"
  proof (rule run_total [where I = I and f = "\<lambda>i _. scan_measure ?ns i"])
    show "I it m" using it by (simp add: I_def)
  next
    fix i m1 i' m2
    assume i: "I i m1" "next_step nv i m1 = (Next i', m2)"
    then have "end_key_open i \<or> end_ok ?ns root (end_key i)" using ok by (simp add: I_def same_end_def)
    with next_step_trip [OF nv inv, of i] i show "I i' m2 \<and> scan_measure ?ns i' < scan_measure ?ns i"
      by (auto simp: I_def trip_ok_def goes_on_def intro: same_end_trans)
  next
    fix i m1 r m2
    assume i: "I i m1" "next_step nv i m1 = (Ret r, m2)"
    then have "end_key_open i \<or> end_ok ?ns root (end_key i)" using ok by (simp add: I_def same_end_def)
    with next_step_trip [OF nv inv, of i] i show "m2 = m \<and> delivers ?ns root it (fst r) (snd r)"
      by (auto simp: I_def trip_ok_def delivers_def intro: same_end_trans split: prod.splits)
  qed
  then show ?thesis by (auto simp: next_value_def)
qed

section \<open>lower\_bound\<close>

definition from_begin :: "nodes \<Rightarrow> Iter \<Rightarrow> Gptr \<Rightarrow> bool" where
  "from_begin ns it a \<longleftrightarrow>
     begin_key_open it \<or> lex_less (begin_key it) (pfx_at ns a) \<or>
     begin_key_inclusive it \<and> pfx_at ns a = begin_key it"

text \<open>Below a proper prefix of the begin key, the range starts under the key's next byte.\<close>

lemma begin_split:
  assumes inv: "tree_inv ns root" and n: "ns q = Some n" and op: "\<not> begin_key_open it"
    and pre: "prefix (pfx n) (begin_key it)" "length (pfx n) < length (begin_key it)"
    and c: "c = begin_key it ! length (pfx n)"
  shows "filter (from_begin ns it) (subtree ns q) =
    filter (from_begin ns it) (subtree ns (child n c)) @ kids ns n (unat c + 1) 256"
proof -
  have pc: "prefix (pfx n @ [c]) (begin_key it)" unfolding c by (rule prefix_snoc_nth [OF pre])
  have less: "\<not> from_begin ns it x" if "lex_less (pfx_at ns x) (begin_key it)" for x
    using that op lex_less_asym lex_less_irrefl by (auto simp: from_begin_def)
  have q: "\<not> from_begin ns it q"
    by (rule less) (use lex_less_proper [OF pc] n in \<open>simp add: pfx_at_def\<close>)
  have "\<not> from_begin ns it x" if x: "x \<in> set (kids ns n 0 (unat c))" for x
  proof -
    from x obtain j where j: "j < unat c" "prefix (pfx n @ [of_nat j]) (pfx_at ns x)"
      by (rule kids_prefix [OF inv n])
    from of_nat_byte_less [OF j(1) unat_byte] have "of_nat j < c" by simp
    from less [OF lex_less_fork [OF j(2) pc this]] show ?thesis .
  qed
  then have lo: "filter (from_begin ns it) (kids ns n 0 (unat c)) = []"
    by (simp add: filter_empty_conv)
  have "from_begin ns it x" if "x \<in> set (kids ns n (unat c + 1) 256)" for x
    using later_behind [OF inv n that _ pc] by (simp add: from_begin_def)
  then have hi: "filter (from_begin ns it) (kids ns n (unat c + 1) 256) = kids ns n (unat c + 1) 256"
    by (simp add: filter_id_conv)
  have "kids ns n 0 256 = kids ns n 0 (unat c) @ subtree ns (child n c) @ kids ns n (unat c + 1) 256"
    using kids_cut [of 0 "unat c" 256 ns n] kids_Suc [OF unat_byte, of ns n c] unat_byte [of c] by simp
  with q lo hi show ?thesis by (simp add: subtree_node [OF inv n])
qed

lemma begin_all:
  assumes "tree_inv ns root" "ns q = Some n"
    and "begin_key_open it \<or> lex_less (begin_key it) (pfx n)"
  shows "filter (from_begin ns it) (subtree ns q) = subtree ns q"
proof -
  have "from_begin ns it x" if x: "x \<in> set (subtree ns q)" for x
  proof -
    from subtree_prefix(1) [OF assms(1,2) x] obtain zs where "pfx_at ns x = pfx n @ zs"
      by (auto simp: prefix_def)
    then have "pfx n = pfx_at ns x \<or> lex_less (pfx n) (pfx_at ns x)" by (cases zs) auto
    with assms(3) show ?thesis by (auto simp: from_begin_def intro: lex_less_trans)
  qed
  then show ?thesis by (simp add: filter_id_conv)
qed

lemma begin_none:
  assumes "tree_inv ns root" "ns q = Some n" "node_ok ns n" and op: "\<not> begin_key_open it"
    and "0 < memcmp (begin_key it) (node_key n) (min (prefix_size n) (length (begin_key it)))"
  shows "filter (from_begin ns it) (subtree ns q) = []"
proof -
  let ?m = "min (prefix_size n) (length (begin_key it))"
  have "\<not> from_begin ns it x" if x: "x \<in> set (subtree ns q)" for x
  proof -
    have "prefix (take ?m (node_key n)) (pfx_at ns x)"
      using subtree_prefix(1) [OF assms(1,2) x] take_is_prefix [of ?m "pfx n"]
      by (simp add: pfx_def)
    then obtain zs where "pfx_at ns x = take ?m (node_key n) @ zs" by (auto simp: prefix_def)
    with memcmp_pos_lex [OF assms(5), of zs "drop ?m (begin_key it)"]
    have "lex_less (pfx_at ns x) (begin_key it)" by simp
    with op show ?thesis using lex_less_asym lex_less_irrefl by (auto simp: from_begin_def)
  qed
  then show ?thesis by (simp add: filter_empty_conv)
qed

lemma begin_hit:
  assumes "tree_inv ns root" "ns q = Some n" "\<not> begin_key_open it" "pfx n = begin_key it"
  shows "filter (from_begin ns it) (subtree ns q) =
    (if begin_key_inclusive it then [q] else []) @ kids ns n 0 256"
proof -
  have "from_begin ns it x" if "x \<in> set (kids ns n 0 256)" for x
    using that assms(4) by (auto elim!: kids_prefix [OF assms(1,2)] dest: lex_less_proper
        simp: from_begin_def)
  then have "filter (from_begin ns it) (kids ns n 0 256) = kids ns n 0 256" by (simp add: filter_id_conv)
  then show ?thesis using assms by (auto simp: subtree_node [OF assms(1,2)] from_begin_def pfx_at_def)
qed

definition seeks_begin :: "nodes \<Rightarrow> Gptr \<Rightarrow> Iter \<Rightarrow> bool" where
  "seeks_begin ns root it \<longleftrightarrow>
     chain ns root (it_node it) (path it) \<and> next_pos it = 0 \<and>
     (\<forall>(g, i) \<in> set (path it). \<not> begin_key_open it \<and>
        prefix (pfx_at ns g @ [of_nat i]) (begin_key it)) \<and>
     filter (from_begin ns it) (subtree ns root) =
       filter (from_begin ns it) (subtree ns (it_node it)) @ rests ns (path it)"

definition at_begin :: "nodes \<Rightarrow> Gptr \<Rightarrow> Iter \<Rightarrow> bool" where
  "at_begin ns root it \<longleftrightarrow>
     it_node it \<noteq> 0 \<and> chain ns root (it_node it) (path it) \<and> next_pos it \<le> 257 \<and>
     (\<forall>(g, i) \<in> set (path it). \<not> begin_key_open it \<and>
        prefix (pfx_at ns g @ [of_nat i]) (begin_key it)) \<and>
     remaining ns it = filter (from_begin ns it) (subtree ns root)"

definition same_range :: "Iter \<Rightarrow> Iter \<Rightarrow> bool" where
  "same_range it it' \<longleftrightarrow> same_end it it' \<and> begin_key it' = begin_key it \<and>
     begin_key_inclusive it' = begin_key_inclusive it \<and> begin_key_open it' = begin_key_open it"

lemma at_begin_pos:
  assumes "seeks_begin ns root it" "it_node it \<noteq> 0" "pos \<le> 257"
    and "filter (from_begin ns it) (subtree ns (it_node it)) =
      (if pos = 0 then subtree ns (it_node it) else later ns (it_node it) (pos - 1))"
  shows "at_begin ns root (it\<lparr>next_pos := pos\<rparr>)" "same_range it (it\<lparr>next_pos := pos\<rparr>)"
proof -
  have "from_begin ns (it\<lparr>next_pos := pos\<rparr>) = from_begin ns it" by (simp add: from_begin_def fun_eq_iff)
  with assms show "at_begin ns root (it\<lparr>next_pos := pos\<rparr>)"
    by (simp add: at_begin_def seeks_begin_def remaining_def)
  show "same_range it (it\<lparr>next_pos := pos\<rparr>)" by (simp add: same_range_def same_end_def)
qed

lemma lower_step_trip:
  assumes nv: "nvmm_ok nv" and inv: "tree_inv (fam_nodes m) root"
    and sk: "seeks_begin (fam_nodes m) root it"
  shows "(\<exists>it'. lower_step nv it m = (Next it', m) \<and> seeks_begin (fam_nodes m) root it' \<and>
            same_range it it' \<and> room (fam_nodes m) (it_node it') < room (fam_nodes m) (it_node it)) \<or>
         (\<exists>it'. lower_step nv it m = (Ret (Inr True, it'), m) \<and>
            at_begin (fam_nodes m) root it' \<and> same_range it it')"
proof -
  let ?ns = "fam_nodes m" and ?key = "begin_key it"
  from sk have ch: "chain ?ns root (it_node it) (path it)" and p0: "next_pos it = 0"
    by (simp_all add: seeks_begin_def)
  obtain n where n: "?ns (it_node it) = Some n" and ok: "node_ok ?ns n" and nz: "it_node it \<noteq> 0"
    by (rule chain_node [OF inv ch])
  have id: "it\<lparr>next_pos := 0\<rparr> = it" using p0 by simp
  have start: "at_begin ?ns root it \<and> same_range it it"
    if "begin_key_open it \<or> lex_less ?key (pfx n)"
    using at_begin_pos [OF sk nz, of 0] begin_all [OF inv n that] unfolding id by simp
  show ?thesis
  proof (cases "begin_key_open it")
    case True
    with start nz n show ?thesis by (simp add: lower_step_def)
  next
    case op: False
    let ?r = "nv_memcmp nv ?key (node_key n) (min (prefix_size n) (length ?key))"
    note cmp = nv_memcmp_iff [OF nv, of ?key "node_key n" "min (prefix_size n) (length ?key)"]
    consider "0 < ?r" | "?r < 0" | "?r = 0" by linarith
    then show ?thesis
    proof cases
      case 1
      then have "filter (from_begin ?ns it) (subtree ?ns (it_node it)) = []"
        by (intro begin_none [OF inv n ok op]) (simp add: cmp)
      with at_begin_pos [OF sk nz, of 257] 1 op nz n show ?thesis by (simp add: lower_step_def Let_def)
    next
      case 2
      then have "lex_less ?key (pfx n)" using memcmp_end(1) [OF ok] cmp by simp
      with start 2 op nz n show ?thesis by (simp add: lower_step_def Let_def)
    next
      case 3
      then have "memcmp ?key (node_key n) (min (prefix_size n) (length ?key)) = 0" using cmp by simp
      note pre = memcmp_pfx [OF ok, of ?key, THEN iffD1, OF this] and len = length_pfx [OF ok]
      consider "prefix_size n = length ?key" | "length ?key < prefix_size n" | "prefix_size n < length ?key"
        by linarith
      then show ?thesis
      proof cases
        case 1
        then have key: "pfx n = ?key" using pre len by (auto dest: prefix_length_eq)
        note hit = begin_hit [OF inv n op key]
        show ?thesis
        proof (cases "begin_key_inclusive it")
          case True
          with hit at_begin_pos [OF sk nz, of 0] \<open>?r = 0\<close> 1 op nz n show ?thesis unfolding id
            by (simp add: lower_step_def Let_def subtree_node [OF inv n])
        next
          case False
          with hit at_begin_pos [OF sk nz, of 1] \<open>?r = 0\<close> 1 op nz n show ?thesis
            by (simp add: lower_step_def Let_def)
        qed
      next
        case 2
        then have "lex_less ?key (pfx n)"
          using pre len lex_less_proper [OF prefix_snoc_nth [of ?key "pfx n"]] by simp
        with start 2 \<open>?r = 0\<close> op nz n show ?thesis by (simp add: lower_step_def Let_def)
      next
        case 3
        let ?c = "?key ! prefix_size n"
        from 3 pre len have pk: "prefix (pfx n) ?key" "length (pfx n) < length ?key" by auto
        have c: "?c = ?key ! length (pfx n)" using len by simp
        note split = begin_split [OF inv n op pk c]
        show ?thesis
        proof (cases "child n ?c = 0")
          case True
          have "kids ?ns n (unat ?c) 256 = kids ?ns n (unat ?c + 1) 256"
            using kids_Suc [OF unat_byte, of ?ns n ?c] True inv by simp
          with split True inv at_begin_pos [OF sk nz, of "unat ?c + 1"] unat_byte [of ?c]
            \<open>?r = 0\<close> 3 op nz n show ?thesis by (simp add: lower_step_def Let_def)
        next
          case False
          let ?it = "it\<lparr>path := (it_node it, unat ?c) # path it, it_node := child n ?c\<rparr>"
          have fb: "from_begin ?ns ?it = from_begin ?ns it" by (simp add: from_begin_def fun_eq_iff)
          have "prefix (pfx n @ [?c]) ?key" using prefix_snoc_nth [OF pk] c by simp
          then have "seeks_begin ?ns root ?it"
            using sk split n False unat_byte [of ?c] op
            by (auto simp: seeks_begin_def fb pfx_at_def)
          with room_child [OF inv n, of ?c] False \<open>?r = 0\<close> 3 op nz n show ?thesis
            by (simp add: lower_step_def Let_def same_range_def same_end_def)
        qed
      qed
    qed
  qed
qed

lemma same_range_trans: "same_range a b \<Longrightarrow> same_range b c \<Longrightarrow> same_range a c"
  by (auto simp: same_range_def intro: same_end_trans)

lemma lower_run:
  assumes nv: "nvmm_ok nv" and inv: "tree_inv (fam_nodes m) root"
    and sk: "seeks_begin (fam_nodes m) root it"
  shows "\<exists>it'. run (lower_step nv) it m = Some ((Inr True, it'), m) \<and>
    at_begin (fam_nodes m) root it' \<and> same_range it it'"
  using sk
proof (induction "room (fam_nodes m) (it_node it)" arbitrary: it rule: less_induct)
  case less
  from lower_step_trip [OF nv inv less.prems]
  show ?case
  proof (elim disjE exE conjE)
    fix it1
    assume st: "lower_step nv it m = (Next it1, m)" "seeks_begin (fam_nodes m) root it1"
      "same_range it it1" "room (fam_nodes m) (it_node it1) < room (fam_nodes m) (it_node it)"
    from less.hyps [OF st(4,2)] run_Next [of "lower_step nv", OF st(1)] st(3) show ?case
      by (auto intro: same_range_trans)
  next
    fix it1
    assume st: "lower_step nv it m = (Ret (Inr True, it1), m)"
      "at_begin (fam_nodes m) root it1" "same_range it it1"
    with run_Ret [of "lower_step nv", OF st(1)] show ?case by blast
  qed
qed

section \<open>scan and get\_next\<close>

text \<open>The keys of a range, as the header documents it.\<close>

definition in_range :: "Iter \<Rightarrow> bytes \<Rightarrow> bool" where
  "in_range it k \<longleftrightarrow>
     (begin_key_open it \<or> lex_less (begin_key it) k \<or> begin_key_inclusive it \<and> k = begin_key it) \<and>
     (end_key_open it \<or> lex_less k (end_key it) \<or> end_key_inclusive it \<and> k = end_key it)"

definition range_nodes :: "nodes \<Rightarrow> Gptr \<Rightarrow> Iter \<Rightarrow> Gptr list" where
  "range_nodes ns root it =
     filter (\<lambda>a. has_value ns a \<and> in_range it (pfx_at ns a)) (subtree ns root)"

definition entry_at :: "nodes \<Rightarrow> Gptr \<Rightarrow> bytes \<times> TagGptr" where
  "entry_at ns a = (pfx_at ns a, value_at ns a)"

text \<open>A call that delivers: the head of the list, and an iterator for the rest.\<close>

definition scan_yields ::
  "'h nvmm \<Rightarrow> Gptr \<Rightarrow> 'h fam \<Rightarrow> bytes \<Rightarrow> Gptr list \<Rightarrow> 'h scan_out \<Rightarrow> bool" where
  "scan_yields nv root m ekey xs out \<longleftrightarrow>
     (\<exists>r it'. out = Some ((Inr r, it'), m) \<and> iter_ok (fam_nodes m) root it' \<and> end_key it' = ekey \<and>
        (end_key_open it' \<or> end_ok (fam_nodes m) root ekey) \<and>
        r = (case xs of [] \<Rightarrow> None | a # _ \<Rightarrow> Some (entry_at (fam_nodes m) a)) \<and>
        to_deliver (fam_nodes m) it' = tl xs)"

lemma next_value_yields:
  assumes "nvmm_ok nv" "tree_inv (fam_nodes m) root" "iter_ok (fam_nodes m) root it"
    and "end_key_open it \<or> end_ok (fam_nodes m) root (end_key it)"
  shows "scan_yields nv root m (end_key it) (to_deliver (fam_nodes m) it)
    (scan_result (next_value nv it m))"
proof -
  obtain r it' where r: "next_value nv it m = Some ((r, it'), m)" "delivers (fam_nodes m) root it r it'"
    using next_value_correct [OF assms] by blast
  then show ?thesis using assms(4)
    by (auto simp: scan_yields_def scan_result_def delivers_def same_end_def entry_at_def)
qed

lemma at_begin_iter:
  assumes "at_begin ns root it"
    and "begin_key_open it \<or> end_key_open it \<or> lex_less (begin_key it) (end_key it)"
  shows "iter_ok ns root it" "to_deliver ns it = range_nodes ns root it"
proof -
  have "\<not> prefix (end_key it) (pfx_at ns g)" if g: "(g, i) \<in> set (path it)" "\<not> end_key_open it" for g i
  proof
    assume "prefix (end_key it) (pfx_at ns g)"
    moreover from assms(1) g(1) have "prefix (pfx_at ns g @ [of_nat i]) (begin_key it)"
      "\<not> begin_key_open it" by (auto simp: at_begin_def)
    ultimately have "prefix (end_key it) (begin_key it)" "end_key it \<noteq> begin_key it"
      by (auto simp: prefix_def)
    then have "lex_less (end_key it) (begin_key it)" by (auto simp: prefix_def neq_Nil_conv)
    with assms(2) g(2) \<open>\<not> begin_key_open it\<close> lex_less_asym show False by blast
  qed
  with assms(1) show "iter_ok ns root it" by (auto simp: iter_ok_def at_begin_def)
  show "to_deliver ns it = range_nodes ns root it"
    using assms(1) unfolding to_deliver_def range_nodes_def at_begin_def
    by (auto simp: in_range_def within_def from_begin_def intro: filter_cong)
qed

lemma lower_bound_yields:
  assumes nv: "nvmm_ok nv" and inv: "tree_inv (fam_nodes m) root"
    and fresh: "it_key it = []" "path it = []"
    and ne: "begin_key_open it \<or> end_key_open it \<or> lex_less (begin_key it) (end_key it)"
    and ok: "end_key_open it \<or> end_ok (fam_nodes m) root (end_key it)"
  shows "scan_yields nv root m (end_key it) (range_nodes (fam_nodes m) root it)
    (scan_result (lower_bound nv root it m))"
proof -
  let ?it = "it\<lparr>it_node := root, next_pos := 0, it_value := TagGptr_default\<rparr>"
  have "seeks_begin (fam_nodes m) root ?it" using fresh by (simp add: seeks_begin_def)
  from lower_run [OF nv inv this] obtain it1 where
    it1: "run (lower_step nv) ?it m = Some ((Inr True, it1), m)" "at_begin (fam_nodes m) root it1"
      "same_range ?it it1" by blast
  then have same: "begin_key it1 = begin_key it" "begin_key_inclusive it1 = begin_key_inclusive it"
    "begin_key_open it1 = begin_key_open it" "end_key it1 = end_key it"
    "end_key_inclusive it1 = end_key_inclusive it" "end_key_open it1 = end_key_open it"
    by (simp_all add: same_range_def same_end_def)
  then have "range_nodes (fam_nodes m) root it1 = range_nodes (fam_nodes m) root it"
    by (simp add: range_nodes_def in_range_def)
  with next_value_yields [OF nv inv at_begin_iter(1) [OF it1(2)]] at_begin_iter(2) [OF it1(2)]
    ne ok same it1(1) fresh(1) show ?thesis by (simp add: lower_bound_def)
qed

text \<open>A range that is not open and not \<open>begin < end\<close> is empty, a closed point aside.\<close>

lemma range_empty:
  assumes "\<not> begin_key_open it" "\<not> end_key_open it" "\<not> lex_less (begin_key it) (end_key it)"
    and "in_range it k"
  shows "k = begin_key it \<and> k = end_key it \<and> begin_key_inclusive it \<and> end_key_inclusive it"
  using assms lex_less_trans lex_less_linear lex_less_asym lex_less_irrefl
  unfolding in_range_def by metis

lemma sorted_filter_eq:
  assumes "distinct xs" "\<And>x. x \<in> set xs \<Longrightarrow> P x \<longleftrightarrow> x = a" "a \<in> set xs"
  shows "filter P xs = [a]"
  using assms
proof (induction xs)
  case (Cons x xs)
  show ?case
  proof (cases "x = a")
    case True
    with Cons.prems have "filter P xs = []" by (auto simp: filter_empty_conv)
    with True Cons.prems show ?thesis by simp
  qed (use Cons in auto)
qed simp

lemma point_nodes:
  assumes inv: "tree_inv ns root"
    and rng: "\<And>k'. IsValid (tree_val ns root k') \<Longrightarrow> in_range it k' \<longleftrightarrow> k' = k"
  shows "(case range_nodes ns root it of [] \<Rightarrow> None | a # _ \<Rightarrow> Some (entry_at ns a)) =
      (if IsValid (tree_val ns root k) then Some (k, tree_val ns root k) else None)"
    "tl (range_nodes ns root it) = []"
proof -
  have vk: "IsValid (tree_val ns root (pfx_at ns x))" if x: "reach ns root x" "has_value ns x" for x
  proof -
    obtain nx where "ns x = Some nx" by (rule reach_node [OF inv x(1)])
    with x tree_val_reach [OF inv x(1)] show ?thesis
      by (simp add: has_value_def value_at_def pfx_at_def)
  qed
  have "range_nodes ns root it = [] \<and> \<not> IsValid (tree_val ns root k) \<or>
    (\<exists>a. range_nodes ns root it = [a] \<and> entry_at ns a = (k, tree_val ns root k) \<and>
         IsValid (tree_val ns root k))"
  proof (cases "IsValid (tree_val ns root k)")
    case True
    have "\<exists>a. reach ns root a \<and> has_value ns a \<and> pfx_at ns a = k \<and> value_at ns a = tree_val ns root k"
      using valued_nodes [OF inv, of k "tree_val ns root k"] True tree_nodes(1) [OF inv] by auto
    then obtain a where a: "reach ns root a" "has_value ns a" "pfx_at ns a = k"
      "value_at ns a = tree_val ns root k" by blast
    have at: "key_at ns root k x" if x: "reach ns root x" "pfx_at ns x = k" for x
    proof -
      obtain nx where "ns x = Some nx" by (rule reach_node [OF inv x(1)])
      with x show ?thesis by (simp add: key_at_def pfx_at_def)
    qed
    have "x = a" if "reach ns root x" "pfx_at ns x = k" for x
      using key_at_unique [OF inv at at] that a by blast
    then have "(has_value ns x \<and> in_range it (pfx_at ns x)) \<longleftrightarrow> x = a" if "x \<in> set (subtree ns root)" for x
      using that a tree_nodes(1) [OF inv] rng vk by blast
    moreover have "a \<in> set (subtree ns root)" unfolding tree_nodes(1) [OF inv] using a(1) by simp
    ultimately have "range_nodes ns root it = [a]"
      unfolding range_nodes_def by (intro sorted_filter_eq [OF tree_nodes(3) [OF inv]])
    with a True show ?thesis by (simp add: entry_at_def)
  next
    case False
    have "\<not> (has_value ns a \<and> in_range it (pfx_at ns a))" if a: "reach ns root a" for a
      using False vk [OF a] rng by blast
    with False tree_nodes(1) [OF inv] show ?thesis by (auto simp: range_nodes_def filter_empty_conv)
  qed
  then show "(case range_nodes ns root it of [] \<Rightarrow> None | a # _ \<Rightarrow> Some (entry_at ns a)) =
      (if IsValid (tree_val ns root k) then Some (k, tree_val ns root k) else None)"
    "tl (range_nodes ns root it) = []" by auto
qed

lemma lex_less_single: "lex_less k [0] \<longleftrightarrow> k = []"
  by (cases k) auto

lemma scan_correct:
  assumes nv: "nvmm_ok nv" and inv: "tree_inv (fam_nodes m) root"
    and k: "key_ok bkey" "key_ok ekey"
    and empty: "\<not> IsValid (tree_val (fam_nodes m) root [])"
    and ok: "ekey = OPEN_BOUNDARY_STR \<and> \<not> einc \<or> end_ok (fam_nodes m) root ekey"
  shows "scan_yields nv root m ekey
    (range_nodes (fam_nodes m) root (scan_init bkey binc ekey einc it0))
    (scan nv root it0 bkey binc ekey einc m)"
proof -
  let ?it = "scan_init bkey binc ekey einc it0"
  have f: "begin_key ?it = bkey" "end_key ?it = ekey" "begin_key_inclusive ?it = binc"
    "end_key_inclusive ?it = einc" "end_key_open ?it = (ekey = OPEN_BOUNDARY_STR \<and> \<not> einc)"
    "begin_key_open ?it = (bkey = OPEN_BOUNDARY_STR \<and> \<not> end_key_inclusive it0)"
    "it_key ?it = []" "path ?it = []" "it_node ?it = 0"
    by (simp_all add: scan_init_def)
  have done_it: "iter_ok (fam_nodes m) root ?it" "to_deliver (fam_nodes m) ?it = []"
    using f by (simp_all add: iter_ok_def to_deliver_def remaining_def)
  consider (point) "bkey = ekey \<and> binc \<and> einc"
    | (range) "\<not> (bkey = ekey \<and> binc \<and> einc)"
        "begin_key_open ?it \<or> end_key_open ?it \<or> lex_less bkey ekey"
    | (none) "\<not> (bkey = ekey \<and> binc \<and> einc)"
        "\<not> (begin_key_open ?it \<or> end_key_open ?it \<or> lex_less bkey ekey)" by blast
  then show ?thesis
  proof cases
    case point
    have op: "\<not> end_key_open ?it" using point f by auto
    have "in_range ?it k' \<longleftrightarrow> k' = bkey" if v: "IsValid (tree_val (fam_nodes m) root k')" for k'
    proof -
      have "k' \<noteq> []" using v empty by auto
      with point f lex_less_asym show ?thesis
        by (auto simp: in_range_def OPEN_BOUNDARY_STR_def lex_less_single)
    qed
    note pn = point_nodes [OF inv this] and g = get_correct [OF nv inv k(1)]
    show ?thesis
      using point pn f(2-4) g k ok op done_it
      by (auto simp: scan_yields_def scan_def Let_def f(2))
  next
    case range
    then have "scan nv root it0 bkey binc ekey einc m = scan_result (lower_bound nv root ?it m)"
      using k by (auto simp: scan_def Let_def)
    with lower_bound_yields [OF nv inv f(7,8)] range(2) ok f show ?thesis by simp
  next
    case none
    then have "range_nodes (fam_nodes m) root ?it = []"
      using range_empty [of ?it] f by (auto simp: range_nodes_def filter_empty_conv)
    moreover have "scan nv root it0 bkey binc ekey einc m = Some ((Inr None, ?it), m)"
      using none k by (auto simp: scan_def Let_def)
    ultimately show ?thesis using done_it f ok by (auto simp: scan_yields_def)
  qed
qed

text \<open>Repeated \<open>get_next\<close>, as the users of a scan call it, until it returns \<open>-1\<close>.\<close>

fun drain :: "'h nvmm \<Rightarrow> nat \<Rightarrow> Iter \<Rightarrow> 'h fam \<Rightarrow> (bytes \<times> TagGptr) list" where
  "drain nv 0 it m = []"
| "drain nv (Suc k) it m =
     (case get_next nv it m of
        Some ((Inr (Some kv), it'), m') \<Rightarrow> kv # drain nv k it' m'
      | _ \<Rightarrow> [])"

lemma drain_correct:
  assumes nv: "nvmm_ok nv" and inv: "tree_inv (fam_nodes m) root"
  shows "iter_ok (fam_nodes m) root it \<Longrightarrow>
    end_key_open it \<or> end_ok (fam_nodes m) root (end_key it) \<Longrightarrow>
    length (to_deliver (fam_nodes m) it) \<le> k \<Longrightarrow>
    drain nv k it m = map (entry_at (fam_nodes m)) (to_deliver (fam_nodes m) it)"
proof (induction k arbitrary: it)
  case (Suc k)
  note y = next_value_yields [OF nv inv Suc.prems(1,2), folded get_next_def, unfolded scan_yields_def]
  show ?case
  proof (cases "to_deliver (fam_nodes m) it")
    case Nil
    with y show ?thesis by auto
  next
    case (Cons a as)
    with y obtain it' where "get_next nv it m = Some ((Inr (Some (entry_at (fam_nodes m) a)), it'), m)"
      "iter_ok (fam_nodes m) root it'" "end_key it' = end_key it"
      "end_key_open it' \<or> end_ok (fam_nodes m) root (end_key it)"
      "to_deliver (fam_nodes m) it' = as" by auto
    with Suc.IH [of it'] Suc.prems(3) Cons show ?thesis by simp
  qed
qed simp

definition scan_entries :: "nodes \<Rightarrow> Gptr \<Rightarrow> Iter \<Rightarrow> (bytes \<times> TagGptr) list" where
  "scan_entries ns root it = map (entry_at ns) (range_nodes ns root it)"

text \<open>The entries of a range: sorted, and exactly the keys of the range that have a value.\<close>

lemma scan_entries_spec:
  assumes inv: "tree_inv ns root"
  shows "sorted_wrt lex_less (map fst (scan_entries ns root it))"
    "(k, v) \<in> set (scan_entries ns root it) \<longleftrightarrow>
       tree_val ns root k = v \<and> IsValid v \<and> in_range it k"
proof -
  have "sorted_wrt (before ns) (range_nodes ns root it)"
    unfolding range_nodes_def by (rule sorted_wrt_filter [OF tree_nodes(2) [OF inv]])
  then show "sorted_wrt lex_less (map fst (scan_entries ns root it))"
    by (simp add: scan_entries_def entry_at_def comp_def sorted_wrt_map)
  show "(k, v) \<in> set (scan_entries ns root it) \<longleftrightarrow>
      tree_val ns root k = v \<and> IsValid v \<and> in_range it k"
    using valued_nodes [OF inv, of k v]
    by (auto simp: scan_entries_def entry_at_def range_nodes_def)
qed

end
