(* ===== verification/RT_KVS.thy ===== *)
theory RT_KVS
  imports RT_Scan_Correct
begin

text \<open>
  The key-value store over the radix tree, \<open>class KVSRadixTree\<close> of
  \<open>src/src/kvs_radix_tree.cc\<close>: the values live in buffers of the same heap, the tree maps a
  key to the pointer of its buffer. Return codes are the integers of the code (0, -1, -2,
  -3); a failed \<open>assert\<close> inside of the tree is a fault. The epoch operation \<open>Eop\<close> of every
  call delays the reuse of freed blocks until readers are gone; for a caller that runs alone
  a delayed \<open>Free\<close> is a \<open>Free\<close>.
\<close>

section \<open>State\<close>

text \<open>\<open>struct ValBuf\<close>: the size and the bytes; here the byte string, whose length is the size.\<close>

record 'h kvs =
  kv_fam :: "'h fam"
  kv_bufs :: "Gptr \<rightharpoonup> bytes"
  kv_root :: Gptr
  kv_iters :: "Iter list"

definition kMaxKeyLen :: nat where
  "kMaxKeyLen = MAX_KEY_LEN"

text \<open>\<open>kMaxValLen\<close> is \<open>SIZE_MAX\<close>: the test \<open>val_len > kMaxValLen\<close> never holds.\<close>

definition kMaxValLen :: nat where
  "kMaxValLen = 2 ^ 64 - 1"

definition sizeof_ValBuf :: nat where
  "sizeof_ValBuf = 8"

type_synonym ('h, 'r) kvs_out = "((fault + 'r) \<times> 'h kvs) option"

section \<open>Open, close, maintenance\<close>

text \<open>What the memory manager answers, in the order \<open>Open\<close> asks.\<close>

record heap_mgr =
  hm_found :: bool
  hm_created :: bool
  hm_found_after :: bool
  hm_opened :: bool

definition KVSRadixTree_Open :: "'h nvmm \<Rightarrow> heap_mgr \<Rightarrow> 'h kvs \<Rightarrow> (fault + int) \<times> 'h kvs" where
  "KVSRadixTree_Open nv mg s =
     (if \<not> hm_found mg \<and> \<not> hm_created mg then (Inr (- 1), s)
      else if \<not> hm_found mg \<and> \<not> hm_found_after mg then (Inl AssertFail, s)
      else if \<not> hm_opened mg then (Inr (- 1), s)
      else (case RadixTree_create nv (kv_root s) (kv_fam s) of
              (Inl f, m) \<Rightarrow> (Inl f, s\<lparr>kv_fam := m\<rparr>)
            | (Inr root, m) \<Rightarrow> (Inr 0, s\<lparr>kv_fam := m, kv_root := root\<rparr>)))"

text \<open>The constructor asserts that \<open>Open\<close> returned 0.\<close>

definition KVSRadixTree_new :: "'h nvmm \<Rightarrow> heap_mgr \<Rightarrow> Gptr \<Rightarrow> 'h fam \<Rightarrow> (Gptr \<rightharpoonup> bytes) \<Rightarrow>
    (fault + int) \<times> 'h kvs" where
  "KVSRadixTree_new nv mg root m bufs =
     (case KVSRadixTree_Open nv mg \<lparr>kv_fam = m, kv_bufs = bufs, kv_root = root, kv_iters = []\<rparr> of
        (Inr r, s) \<Rightarrow> (if r = 0 then Inr 0 else Inl AssertFail, s)
      | (Inl f, s) \<Rightarrow> (Inl f, s))"

definition KVSRadixTree_Maintenance :: "'h nvmm \<Rightarrow> 'h kvs \<Rightarrow> 'h kvs" where
  "KVSRadixTree_Maintenance nv s =
     s\<lparr>kv_fam := (kv_fam s)\<lparr>fam_heap := nv_offline_free nv (fam_heap (kv_fam s))\<rparr>\<rparr>"

section \<open>Value buffers\<close>

text \<open>Allocate, if need be resize once and allocate again; then fill the buffer.\<close>

definition alloc_value :: "'h nvmm \<Rightarrow> bytes \<Rightarrow> 'h kvs \<Rightarrow> Gptr option \<times> 'h kvs" where
  "alloc_value nv val s =
     (let sz = (length val + sizeof_ValBuf) mod 2 ^ 64;
          (p, h1) = nv_alloc nv sz (fam_heap (kv_fam s));
          (r, h2) =
            (if gptr_valid p then (Some p, h1)
             else (let (ok, h2) = nv_resize nv (2 * nv_size nv h1) h1
                   in if \<not> ok then (None, h2)
                      else (let (p', h3) = nv_alloc nv sz h2
                            in if gptr_valid p' then (Some p', h3) else (None, h3))));
          s' = s\<lparr>kv_fam := (kv_fam s)\<lparr>fam_heap := h2\<rparr>\<rparr>
      in case r of
           None \<Rightarrow> (None, s')
         | Some q \<Rightarrow> (Some q, s'\<lparr>kv_bufs := (kv_bufs s)(q \<mapsto> val)\<rparr>))"

definition free_value :: "'h nvmm \<Rightarrow> Gptr \<Rightarrow> 'h kvs \<Rightarrow> 'h kvs" where
  "free_value nv p s =
     s\<lparr>kv_bufs := (kv_bufs s)(p := None),
       kv_fam := (kv_fam s)\<lparr>fam_heap := nv_free nv p (fam_heap (kv_fam s))\<rparr>\<rparr>"

definition free_old :: "'h nvmm \<Rightarrow> TagGptr \<Rightarrow> 'h kvs \<Rightarrow> 'h kvs" where
  "free_old nv old s = (if IsValid old then free_value nv (tg_masked old) s else s)"

text \<open>
  Copy a value out: \<open>val\<close> and \<open>val_len\<close> are the caller's buffer and its capacity. A buffer
  that is too small is left alone and the needed size is returned with -1.
\<close>

definition copy_out ::
  "'h kvs \<Rightarrow> Gptr \<Rightarrow> bytes \<Rightarrow> nat \<Rightarrow> fault + int \<times> bytes \<times> nat" where
  "copy_out s p val val_len =
     (case kv_bufs s p of
        None \<Rightarrow> Inl AssertFail
      | Some data \<Rightarrow>
          Inr (if val_len < length data then (- 1, val, length data)
               else (0, memcpy val data, length data)))"

section \<open>Put, Get, Del, FindOrCreate\<close>

definition KVSRadixTree_Put :: "'h nvmm \<Rightarrow> bytes \<Rightarrow> bytes \<Rightarrow> 'h kvs \<Rightarrow> ('h, int) kvs_out" where
  "KVSRadixTree_Put nv key val s =
     (if kMaxKeyLen < length key \<or> kMaxValLen < length val then Some (Inr (- 1), s)
      else case alloc_value nv val s of
        (None, s1) \<Rightarrow> Some (Inr (- 1), s1)
      | (Some p, s1) \<Rightarrow>
          map_option
            (\<lambda>(r, m). case r of
               Inl f \<Rightarrow> (Inl f, s1\<lparr>kv_fam := m\<rparr>)
             | Inr old \<Rightarrow> (Inr 0, free_old nv old (s1\<lparr>kv_fam := m\<rparr>)))
            (put nv (kv_root s1) key p UPDATE (kv_fam s1)))"

definition KVSRadixTree_Get ::
  "'h nvmm \<Rightarrow> bytes \<Rightarrow> bytes \<Rightarrow> nat \<Rightarrow> 'h kvs \<Rightarrow> ('h, int \<times> bytes \<times> nat) kvs_out" where
  "KVSRadixTree_Get nv key val val_len s =
     (if kMaxKeyLen < length key then Some (Inr (- 1, val, val_len), s)
      else map_option
        (\<lambda>(r, m). (case r of
            Inl f \<Rightarrow> Inl f
          | Inr v \<Rightarrow> if \<not> IsValid v then Inr (- 2, val, val_len)
                     else copy_out s (tg_masked v) val val_len, s\<lparr>kv_fam := m\<rparr>))
        (get nv (kv_root s) key (kv_fam s)))"

definition KVSRadixTree_Del :: "'h nvmm \<Rightarrow> bytes \<Rightarrow> 'h kvs \<Rightarrow> ('h, int) kvs_out" where
  "KVSRadixTree_Del nv key s =
     (if kMaxKeyLen < length key then Some (Inr (- 1), s)
      else map_option
        (\<lambda>(r, m). case r of
           Inl f \<Rightarrow> (Inl f, s\<lparr>kv_fam := m\<rparr>)
         | Inr old \<Rightarrow> (Inr (if IsValid old then 0 else - 2), free_old nv old (s\<lparr>kv_fam := m\<rparr>)))
        (destroy nv (kv_root s) key (kv_fam s)))"

text \<open>
  \<open>FindOrCreate\<close> allocates the new value first. A value that is found is copied out and -3
  is returned; 0 is returned for an insertion.
\<close>

definition KVSRadixTree_FindOrCreate ::
  "'h nvmm \<Rightarrow> bytes \<Rightarrow> bytes \<Rightarrow> bytes \<Rightarrow> nat \<Rightarrow> 'h kvs \<Rightarrow> ('h, int \<times> bytes \<times> nat) kvs_out" where
  "KVSRadixTree_FindOrCreate nv key val ret_val ret_len s =
     (if kMaxKeyLen < length key \<or> kMaxValLen < length val then Some (Inr (- 1, ret_val, ret_len), s)
      else case alloc_value nv val s of
        (None, s1) \<Rightarrow> Some (Inr (- 1, ret_val, ret_len), s1)
      | (Some p, s1) \<Rightarrow>
          map_option
            (\<lambda>(r, m). case r of
               Inl f \<Rightarrow> (Inl f, s1\<lparr>kv_fam := m\<rparr>)
             | Inr old \<Rightarrow>
                 if IsValid old
                 then (let s2 = free_value nv p (s1\<lparr>kv_fam := m\<rparr>)
                       in (case copy_out s2 (tg_masked old) ret_val ret_len of
                             Inl f \<Rightarrow> Inl f
                           | Inr (c, v, l) \<Rightarrow> Inr (if c = 0 then - 3 else c, v, l), s2))
                 else (Inr (0, ret_val, ret_len), s1\<lparr>kv_fam := m\<rparr>))
            (put nv (kv_root s1) key p FIND_OR_CREATE (kv_fam s1)))"

section \<open>Scan and GetNext\<close>

text \<open>\<open>new RadixTree::Iter()\<close>: every member zero or empty.\<close>

definition Iter_new :: Iter where
  "Iter_new =
     \<lparr>begin_key = [], begin_key_inclusive = False, begin_key_open = False,
      end_key = [], end_key_inclusive = False, end_key_open = False,
      it_node = 0, next_pos = 0, it_key = [], it_value = TagGptr_default, path = []\<rparr>"

record scan_reply =
  sr_code :: int
  sr_handle :: int
  sr_key :: bytes
  sr_key_len :: nat
  sr_val :: bytes
  sr_val_len :: nat

text \<open>
  The key that was found is in the caller's key buffer even when the value does not fit; the
  iterator gets a handle only when the value was copied.
\<close>

definition KVSRadixTree_Scan ::
  "'h nvmm \<Rightarrow> int \<Rightarrow> bytes \<Rightarrow> nat \<Rightarrow> bytes \<Rightarrow> nat \<Rightarrow> bytes \<Rightarrow> bool \<Rightarrow> bytes \<Rightarrow> bool \<Rightarrow> 'h kvs \<Rightarrow>
   ('h, scan_reply) kvs_out" where
  "KVSRadixTree_Scan nv handle key key_len val val_len bkey binc ekey einc s =
     (let reply = (\<lambda>c k kl v l. \<lparr>sr_code = c, sr_handle = handle, sr_key = k, sr_key_len = kl,
                                 sr_val = v, sr_val_len = l\<rparr>)
      in if kMaxKeyLen < length bkey \<or> kMaxKeyLen < length ekey \<or> kMaxKeyLen < key_len \<or>
            kMaxValLen < val_len
         then Some (Inr (reply (- 1) key key_len val val_len), s)
         else map_option
           (\<lambda>((r, it), m). case r of
              Inl f \<Rightarrow> (Inl f, s\<lparr>kv_fam := m\<rparr>)
            | Inr None \<Rightarrow> (Inr (reply (- 2) key key_len val val_len), s\<lparr>kv_fam := m\<rparr>)
            | Inr (Some (k, v)) \<Rightarrow>
                (case copy_out s (tg_masked v) val val_len of
                   Inl f \<Rightarrow> (Inl f, s\<lparr>kv_fam := m\<rparr>)
                 | Inr (c, data, l) \<Rightarrow>
                     if c = 0
                     then (Inr ((reply 0 (memcpy key k) (length k) data l)
                              \<lparr>sr_handle := int (length (kv_iters s))\<rparr>),
                           s\<lparr>kv_fam := m, kv_iters := kv_iters s @ [it]\<rparr>)
                     else (Inr (reply c (memcpy key k) (length k) data l), s\<lparr>kv_fam := m\<rparr>)))
           (scan nv (kv_root s) Iter_new bkey binc ekey einc (kv_fam s)))"

definition KVSRadixTree_GetNext ::
  "'h nvmm \<Rightarrow> int \<Rightarrow> bytes \<Rightarrow> nat \<Rightarrow> bytes \<Rightarrow> nat \<Rightarrow> 'h kvs \<Rightarrow> ('h, scan_reply) kvs_out" where
  "KVSRadixTree_GetNext nv handle key key_len val val_len s =
     (let reply = (\<lambda>c k kl v l. \<lparr>sr_code = c, sr_handle = handle, sr_key = k, sr_key_len = kl,
                                 sr_val = v, sr_val_len = l\<rparr>)
      in if kMaxKeyLen < key_len \<or> kMaxValLen < val_len \<or> handle < 0 \<or>
            int (length (kv_iters s)) \<le> handle
         then Some (Inr (reply (- 1) key key_len val val_len), s)
         else map_option
           (\<lambda>((r, it), m).
              (let s' = s\<lparr>kv_fam := m, kv_iters := (kv_iters s)[nat handle := it]\<rparr>
               in case r of
                    Inl f \<Rightarrow> (Inl f, s')
                  | Inr None \<Rightarrow> (Inr (reply (- 2) key key_len val val_len), s')
                  | Inr (Some (k, v)) \<Rightarrow>
                      (map_sum id (\<lambda>(c, data, l). reply c (memcpy key k) (length k) data l)
                         (copy_out s (tg_masked v) val val_len), s')))
           (get_next nv (kv_iters s ! nat handle) (kv_fam s)))"

section \<open>The operations for consistent DRAM caching\<close>

text \<open>
  The non-cached variants take the key and return the node pointer \<open>key_ptr\<close> and the value
  cell \<open>val_ptr\<close>; the cached ones go through \<open>key_ptr\<close>. The out parameters keep their old
  contents (\<open>kp\<close>, \<open>vp\<close>) on an early return.
\<close>

definition KVSRadixTree_PutC ::
  "'h nvmm \<Rightarrow> bytes \<Rightarrow> bytes \<Rightarrow> Gptr \<Rightarrow> TagGptr \<Rightarrow> 'h kvs \<Rightarrow> ('h, int \<times> Gptr \<times> TagGptr) kvs_out" where
  "KVSRadixTree_PutC nv key val kp vp s =
     (if kMaxKeyLen < length key \<or> kMaxValLen < length val then Some (Inr (- 1, kp, vp), s)
      else case alloc_value nv val s of
        (None, s1) \<Rightarrow> Some (Inr (- 1, kp, vp), s1)
      | (Some p, s1) \<Rightarrow>
          map_option
            (\<lambda>(r, m). case r of
               Inl f \<Rightarrow> (Inl f, s1\<lparr>kv_fam := m\<rparr>)
             | Inr pr \<Rightarrow>
                 if \<not> gptr_valid (put_key pr) then (Inl AssertFail, s1\<lparr>kv_fam := m\<rparr>)
                 else (Inr (0, put_key pr, put_new pr), free_old nv (put_old pr) (s1\<lparr>kv_fam := m\<rparr>)))
            (putC nv (kv_root s1) key p (kv_fam s1)))"

definition KVSRadixTree_Put_ptr ::
  "'h nvmm \<Rightarrow> Gptr \<Rightarrow> TagGptr \<Rightarrow> bytes \<Rightarrow> 'h kvs \<Rightarrow> ('h, int \<times> TagGptr) kvs_out" where
  "KVSRadixTree_Put_ptr nv key_ptr vp val s =
     (if kMaxValLen < length val then Some (Inr (- 1, vp), s)
      else case alloc_value nv val s of
        (None, s1) \<Rightarrow> Some (Inr (- 1, vp), s1)
      | (Some p, s1) \<Rightarrow>
          map_option
            (\<lambda>(r, m). case r of
               Inl f \<Rightarrow> (Inl f, s1\<lparr>kv_fam := m\<rparr>)
             | Inr (old, new) \<Rightarrow> (Inr (0, new), free_old nv old (s1\<lparr>kv_fam := m\<rparr>)))
            (putC_ptr key_ptr p (kv_fam s1)))"

definition KVSRadixTree_GetC ::
  "'h nvmm \<Rightarrow> bytes \<Rightarrow> bytes \<Rightarrow> nat \<Rightarrow> Gptr \<Rightarrow> TagGptr \<Rightarrow> 'h kvs \<Rightarrow>
   ('h, (int \<times> bytes \<times> nat) \<times> Gptr \<times> TagGptr) kvs_out" where
  "KVSRadixTree_GetC nv key val val_len kp vp s =
     (if kMaxKeyLen < length key then Some (Inr ((- 1, val, val_len), kp, vp), s)
      else map_option
        (\<lambda>(r, m). (case r of
            Inl f \<Rightarrow> Inl f
          | Inr (a, v) \<Rightarrow>
              if gptr_valid a \<and> IsValid v
              then map_sum id (\<lambda>out. (out, a, v)) (copy_out s (tg_masked v) val val_len)
              else Inr ((0, val, val_len), a, v), s\<lparr>kv_fam := m\<rparr>))
        (getC nv (kv_root s) key (kv_fam s)))"

definition KVSRadixTree_Get_ptr ::
  "Gptr \<Rightarrow> TagGptr \<Rightarrow> bytes \<Rightarrow> nat \<Rightarrow> bool \<Rightarrow> 'h kvs \<Rightarrow>
   fault + (int \<times> bytes \<times> nat) \<times> TagGptr" where
  "KVSRadixTree_Get_ptr key_ptr vp val val_len get_value s =
     (if kMaxValLen < val_len then Inr ((- 1, val, val_len), vp)
      else case getC_ptr key_ptr (kv_fam s) of
        Inl f \<Rightarrow> Inl f
      | Inr cur \<Rightarrow>
          if TagGptr_eq cur vp \<and> \<not> get_value then Inr ((0, val, val_len), vp)
          else if IsValid cur
          then map_sum id (\<lambda>(c, data, l). ((c, data, l), if c = 0 then cur else vp))
                 (copy_out s (tg_masked cur) val val_len)
          else Inr ((0, val, val_len), cur))"

definition KVSRadixTree_DelC ::
  "'h nvmm \<Rightarrow> bytes \<Rightarrow> Gptr \<Rightarrow> TagGptr \<Rightarrow> 'h kvs \<Rightarrow> ('h, int \<times> Gptr \<times> TagGptr) kvs_out" where
  "KVSRadixTree_DelC nv key kp vp s =
     (if kMaxKeyLen < length key then Some (Inr (- 1, kp, vp), s)
      else map_option
        (\<lambda>(r, m). case r of
           Inl f \<Rightarrow> (Inl f, s\<lparr>kv_fam := m\<rparr>)
         | Inr (a, old, new) \<Rightarrow>
             (Inr (0, a, new), if gptr_valid a then free_old nv old (s\<lparr>kv_fam := m\<rparr>)
                               else s\<lparr>kv_fam := m\<rparr>))
        (destroyC nv (kv_root s) key (kv_fam s)))"

definition KVSRadixTree_Del_ptr ::
  "'h nvmm \<Rightarrow> Gptr \<Rightarrow> 'h kvs \<Rightarrow> ('h, int \<times> TagGptr) kvs_out" where
  "KVSRadixTree_Del_ptr nv key_ptr s =
     map_option
       (\<lambda>(r, m). case r of
          Inl f \<Rightarrow> (Inl f, s\<lparr>kv_fam := m\<rparr>)
        | Inr (old, new) \<Rightarrow> (Inr (0, new), free_old nv old (s\<lparr>kv_fam := m\<rparr>)))
       (destroyC_ptr key_ptr (kv_fam s))"

end
