(* ===== verification/RT_KVS_Correct.thy ===== *)
theory RT_KVS_Correct
  imports RT_KVS
begin

text \<open>
  The store is a map from keys to byte strings. \<open>kvs_inv\<close> relates the tree to the value
  buffers: every valued key has its own live buffer, and buffers and nodes do not overlap.
  Every operation keeps it and does to \<open>contents\<close> what its name says.
\<close>

section \<open>Invariant and contents\<close>

abbreviation kv_cell :: "'h kvs \<Rightarrow> bytes \<Rightarrow> TagGptr" where
  "kv_cell s \<equiv> tree_val (fam_nodes (kv_fam s)) (kv_root s)"

abbreviation kv_live :: "'h nvmm \<Rightarrow> 'h kvs \<Rightarrow> Gptr set" where
  "kv_live nv s \<equiv> nv_live nv (fam_heap (kv_fam s))"

definition kvs_inv :: "'h nvmm \<Rightarrow> 'h kvs \<Rightarrow> bool" where
  "kvs_inv nv s \<longleftrightarrow>
     nvmm_ok nv \<and> fam_inv nv (kv_root s) (kv_fam s) \<and>
     dom (kv_bufs s) \<subseteq> kv_live nv s \<and> dom (kv_bufs s) \<inter> dom (fam_nodes (kv_fam s)) = {} \<and>
     \<not> IsValid (kv_cell s []) \<and>
     (\<forall>k. IsValid (kv_cell s k) \<longrightarrow>
        \<not> bit (tg_gptr (kv_cell s k)) 0 \<and> tg_gptr (kv_cell s k) \<in> dom (kv_bufs s)) \<and>
     (\<forall>k k'. IsValid (kv_cell s k) \<longrightarrow> tg_gptr (kv_cell s k) = tg_gptr (kv_cell s k') \<longrightarrow> k = k')"

definition contents :: "'h kvs \<Rightarrow> bytes \<Rightarrow> bytes option" where
  "contents s k =
     (if IsValid (kv_cell s k) then kv_bufs s (tg_masked (kv_cell s k)) else None)"

lemma kvs_invD:
  assumes "kvs_inv nv s"
  shows "nvmm_ok nv" "fam_inv nv (kv_root s) (kv_fam s)" "\<not> IsValid (kv_cell s [])"
    "tree_inv (fam_nodes (kv_fam s)) (kv_root s)"
  using assms by (auto simp: kvs_inv_def fam_inv_def)

lemma kvs_inv_bufs:
  assumes "kvs_inv nv s"
  shows "dom (kv_bufs s) \<subseteq> kv_live nv s" "dom (kv_bufs s) \<inter> dom (fam_nodes (kv_fam s)) = {}"
    "dom (fam_nodes (kv_fam s)) \<subseteq> kv_live nv s"
    "IsValid (kv_cell s k) \<Longrightarrow> \<not> bit (tg_gptr (kv_cell s k)) 0"
    "IsValid (kv_cell s k) \<Longrightarrow> tg_gptr (kv_cell s k) \<in> dom (kv_bufs s)"
    "IsValid (kv_cell s k) \<Longrightarrow> tg_gptr (kv_cell s k) = tg_gptr (kv_cell s k') \<Longrightarrow> k = k'"
  using assms by (simp_all add: kvs_inv_def fam_inv_def)

lemma kvs_invI:
  assumes "nvmm_ok nv" "fam_inv nv (kv_root s) (kv_fam s)" "dom (kv_bufs s) \<subseteq> kv_live nv s"
    "dom (kv_bufs s) \<inter> dom (fam_nodes (kv_fam s)) = {}" "\<not> IsValid (kv_cell s [])"
    and "\<And>k. IsValid (kv_cell s k) \<Longrightarrow>
      \<not> bit (tg_gptr (kv_cell s k)) 0 \<and> tg_gptr (kv_cell s k) \<in> dom (kv_bufs s)"
    and "\<And>k k'. IsValid (kv_cell s k) \<Longrightarrow> tg_gptr (kv_cell s k) = tg_gptr (kv_cell s k') \<Longrightarrow> k = k'"
  shows "kvs_inv nv s"
  using assms by (simp add: kvs_inv_def)

lemma kvs_inv_cell:
  assumes "kvs_inv nv s" "IsValid (kv_cell s k)"
  obtains data where "tg_masked (kv_cell s k) = tg_gptr (kv_cell s k)"
    "kv_bufs s (tg_gptr (kv_cell s k)) = Some data" "contents s k = Some data"
  using assms by (auto simp: kvs_inv_def contents_def tg_masked_def gptr_mask_even)

lemma contents_None: "kvs_inv nv s \<Longrightarrow> contents s k = None \<longleftrightarrow> \<not> IsValid (kv_cell s k)"
  by (cases "IsValid (kv_cell s k)") (auto simp: contents_def elim: kvs_inv_cell)

text \<open>
  A key with a node keeps it, and either nothing happened to the key or its cell has the next
  version.
\<close>

abbreviation kv_node :: "'h kvs \<Rightarrow> bytes \<Rightarrow> Gptr \<Rightarrow> bool" where
  "kv_node s \<equiv> key_at (fam_nodes (kv_fam s)) (kv_root s)"

definition versioned :: "'h kvs \<Rightarrow> 'h kvs \<Rightarrow> bool" where
  "versioned s s' \<longleftrightarrow>
     (\<forall>k a. kv_node s k a \<longrightarrow> kv_node s' k a \<and>
        (kv_cell s' k = kv_cell s k \<and> contents s' k = contents s k \<or>
         tg_tag (kv_cell s' k) = tg_tag (kv_cell s k) + 1))"

lemma versioned_quiet:
  assumes "\<And>k a. kv_node s k a \<Longrightarrow> kv_node s' k a" "kv_cell s' = kv_cell s" "contents s' = contents s"
  shows "versioned s s'"
  using assms by (simp add: versioned_def)

lemma versioned_refl [simp]: "versioned s s"
  by (simp add: versioned_def)

lemma versioned_write:
  assumes "kv_root s' = kv_root s" "contents s' = (contents s)(key := c)"
    and "\<And>k a. kv_node s k a \<Longrightarrow> kv_node s' k a" "kv_cell s' = (kv_cell s)(key := v)"
    and "\<And>a. kv_node s key a \<Longrightarrow> v = kv_cell s key \<and> c = contents s key \<or>
      tg_tag v = tg_tag (kv_cell s key) + 1"
  shows "versioned s s'"
  unfolding versioned_def using assms(3,5) by (simp add: assms(2,4)) blast

section \<open>Allocation of a value\<close>

definition value_block :: "'h nvmm \<Rightarrow> 'h kvs \<Rightarrow> Gptr \<Rightarrow> 'h kvs \<Rightarrow> bool" where
  "value_block nv s p s1 \<longleftrightarrow>
     p \<noteq> 0 \<and> \<not> bit p 0 \<and> p \<notin> kv_live nv s \<and> kv_live nv s1 = insert p (kv_live nv s) \<and>
     fam_nodes (kv_fam s1) = fam_nodes (kv_fam s) \<and> kv_root s1 = kv_root s \<and> kv_iters s1 = kv_iters s"

lemma alloc_value_cases:
  assumes nv: "nvmm_ok nv" and al: "alloc_value nv val s = (r, s1)"
  obtains (none) "r = None" "kv_live nv s1 = kv_live nv s"
      "fam_nodes (kv_fam s1) = fam_nodes (kv_fam s)" "kv_root s1 = kv_root s" "kv_bufs s1 = kv_bufs s"
      "kv_iters s1 = kv_iters s"
  | (block) p where "r = Some p" "value_block nv s p s1" "kv_bufs s1 = (kv_bufs s)(p \<mapsto> val)"
proof -
  let ?sz = "(length val + sizeof_ValBuf) mod 2 ^ 64"
  obtain p h1 where a1: "nv_alloc nv ?sz (fam_heap (kv_fam s)) = (p, h1)" by fastforce
  note c1 = nv_alloc_cases [OF nv a1]
  let ?res = "\<lambda>h. s\<lparr>kv_fam := (kv_fam s)\<lparr>fam_heap := h\<rparr>\<rparr>"
  let ?put = "\<lambda>q h. (?res h)\<lparr>kv_bufs := (kv_bufs s)(q \<mapsto> val)\<rparr>"
  show thesis
  proof (cases "p = 0")
    case False
    then have "r = Some p" "s1 = ?put p h1"
      using al a1 by (simp_all add: alloc_value_def Let_def gptr_valid_def)
    with c1 False block [of p] show thesis by (simp add: value_block_def fresh_block_def)
  next
    case True
    obtain ok h2 where rs: "nv_resize nv (2 * nv_size nv h1) h1 = (ok, h2)" by fastforce
    have l2: "nv_live nv h2 = nv_live nv h1"
      using nvmm_okD(3) [OF nv] rs unfolding nvmm_resize_ok_def by (metis snd_conv)
    obtain q h3 where a2: "nv_alloc nv ?sz h2 = (q, h3)" by fastforce
    note c2 = nv_alloc_cases [OF nv a2]
    have l1: "nv_live nv h1 = kv_live nv s" using c1 True by (simp add: fresh_block_def)
    consider "\<not> ok" | "ok" "q = 0" | "ok" "q \<noteq> 0" by blast
    then show thesis
    proof cases
      case 1
      then have "r = None" "s1 = ?res h2"
        using al a1 rs True by (simp_all add: alloc_value_def Let_def gptr_valid_def)
      with l1 l2 none show thesis by simp
    next
      case 2
      then have "r = None" "s1 = ?res h3"
        using al a1 rs a2 True by (simp_all add: alloc_value_def Let_def gptr_valid_def)
      with l1 l2 c2 2 none show thesis by (simp add: fresh_block_def)
    next
      case 3
      then have "r = Some q" "s1 = ?put q h3"
        using al a1 rs a2 True by (simp_all add: alloc_value_def Let_def gptr_valid_def)
      with l1 l2 c2 3 block [of q] show thesis by (simp add: value_block_def fresh_block_def)
    qed
  qed
qed

lemma kvs_inv_frame:
  assumes "kvs_inv nv s" "kv_live nv s1 = kv_live nv s" "fam_nodes (kv_fam s1) = fam_nodes (kv_fam s)"
    "kv_root s1 = kv_root s" "kv_bufs s1 = kv_bufs s"
  shows "kvs_inv nv s1" "contents s1 = contents s" "versioned s s1"
proof -
  show "kvs_inv nv s1" using assms by (simp add: kvs_inv_def fam_inv_def)
  show "contents s1 = contents s" using assms by (intro ext) (simp add: contents_def)
  then show "versioned s s1" using assms by (intro versioned_quiet) simp_all
qed

text \<open>A buffer that no key refers to.\<close>

definition orphan :: "Gptr \<Rightarrow> 'h kvs \<Rightarrow> bool" where
  "orphan p s \<longleftrightarrow>
     p \<in> dom (kv_bufs s) \<and> (\<forall>k. IsValid (kv_cell s k) \<longrightarrow> tg_gptr (kv_cell s k) \<noteq> p)"

lemma alloc_value_block:
  assumes inv: "kvs_inv nv s" and b: "value_block nv s p s1" "kv_bufs s1 = (kv_bufs s)(p \<mapsto> val)"
  shows "kvs_inv nv s1" "contents s1 = contents s" "orphan p s1"
proof -
  from b have eq: "fam_nodes (kv_fam s1) = fam_nodes (kv_fam s)" "kv_root s1 = kv_root s"
    "kv_live nv s1 = insert p (kv_live nv s)" "p \<notin> kv_live nv s"
    by (auto simp: value_block_def)
  note sub = kvs_inv_bufs(1,3) [OF inv]
  have ne: "tg_gptr (kv_cell s k) \<noteq> p" if "IsValid (kv_cell s k)" for k
    using kvs_inv_bufs(5) [OF inv that] sub(1) eq(4) by blast
  show "orphan p s1" using ne by (simp add: orphan_def b(2) eq(1,2))
  show "kvs_inv nv s1"
    using inv ne eq(4) sub unfolding kvs_inv_def fam_inv_def eq(1-3) b(2) by auto
  show "contents s1 = contents s"
    using ne inv by (auto simp: contents_def eq(1,2) b(2) fun_eq_iff tg_masked_def kvs_inv_def
        gptr_mask_even)
qed

lemma versioned_alloc:
  assumes "value_block nv s p s1" "kv_bufs s1 = (kv_bufs s)(p \<mapsto> val)" "kvs_inv nv s" "versioned s1 s2"
  shows "versioned s s2"
  using assms(1,4) alloc_value_block(2) [OF assms(3,1,2)] by (simp add: versioned_def value_block_def)

text \<open>The tree writes the cell of one key.\<close>

lemma cell_write:
  assumes inv: "kvs_inv nv s"
    and m: "fam_inv nv (kv_root s) m" "grows nv (kv_fam s) m"
      "tree_val (fam_nodes m) (kv_root s) = (kv_cell s)(key := v)"
    and key: "key \<noteq> []"
    and v: "IsValid v \<Longrightarrow> \<not> bit (tg_gptr v) 0 \<and> orphan (tg_gptr v) s"
  shows "kvs_inv nv (s\<lparr>kv_fam := m\<rparr>)"
    "contents (s\<lparr>kv_fam := m\<rparr>) =
       (contents s)(key := if IsValid v then kv_bufs s (tg_gptr v) else None)"
    "IsValid (kv_cell s key) \<Longrightarrow> orphan (tg_gptr (kv_cell s key)) (s\<lparr>kv_fam := m\<rparr>)"
proof -
  have cell: "kv_cell (s\<lparr>kv_fam := m\<rparr>) = (kv_cell s)(key := v)" using m(3) by simp
  have bufs: "dom (kv_bufs s) \<subseteq> nv_live nv (fam_heap m)" "dom (kv_bufs s) \<inter> dom (fam_nodes m) = {}"
    using kvs_inv_bufs(1,2) [OF inv] m(2) unfolding grows_def by blast+
  have c: "\<not> bit (tg_gptr (kv_cell s k)) 0" "tg_gptr (kv_cell s k) \<in> dom (kv_bufs s)"
    if "IsValid (kv_cell s k)" for k using inv that by (simp_all add: kvs_inv_def)
  have inj: "k = k'" if "IsValid (kv_cell s k)" "tg_gptr (kv_cell s k) = tg_gptr (kv_cell s k')" for k k'
    using inv that by (simp add: kvs_inv_def)
  have fresh: "tg_gptr (kv_cell s k) \<noteq> tg_gptr v" if "IsValid v" for k
  proof
    assume eq: "tg_gptr (kv_cell s k) = tg_gptr v"
    then have "IsValid (kv_cell s k)" using that by (simp add: IsValid_def)
    with v [OF that] eq show False by (simp add: orphan_def)
  qed
  have inj': "k = k'"
    if k: "IsValid (((kv_cell s)(key := v)) k)"
      "tg_gptr (((kv_cell s)(key := v)) k) = tg_gptr (((kv_cell s)(key := v)) k')" for k k'
  proof -
    have "IsValid v" if "k = key \<or> k' = key" using that k by (auto simp: IsValid_def split: if_splits)
    then show ?thesis
      using k inj [of k k'] fresh [of k] fresh [of k'] by (cases "k = key"; cases "k' = key") auto
  qed
  show "kvs_inv nv (s\<lparr>kv_fam := m\<rparr>)"
  proof (rule kvs_invI, goal_cases)
    case (6 k)
    then show ?case using v c [of k] unfolding cell by (cases "k = key") (auto simp: orphan_def)
  next
    case (7 k k')
    then show ?case unfolding cell by (rule inj')
  qed (use kvs_invD [OF inv] m bufs key in simp_all)
  show "contents (s\<lparr>kv_fam := m\<rparr>) =
      (contents s)(key := if IsValid v then kv_bufs s (tg_gptr v) else None)"
    unfolding contents_def [abs_def] cell
    using v by (auto simp: fun_eq_iff tg_masked_def gptr_mask_even)
  show "orphan (tg_gptr (kv_cell s key)) (s\<lparr>kv_fam := m\<rparr>)" if old: "IsValid (kv_cell s key)"
  proof -
    have "tg_gptr (kv_cell s k) \<noteq> tg_gptr (kv_cell s key)" if "k \<noteq> key" for k
      using inj [OF old] that by metis
    then show ?thesis unfolding orphan_def cell using c [OF old] fresh [of key] by auto
  qed
qed

lemma free_orphan:
  assumes inv: "kvs_inv nv s" and p: "orphan p s"
  shows "kvs_inv nv (free_value nv p s)" "contents (free_value nv p s) = contents s"
proof -
  have live: "nv_live nv (nv_free nv p h) = nv_live nv h - {p}" for h
    using nvmm_okD(2) [OF kvs_invD(1) [OF inv]] by (simp add: nvmm_free_ok_def)
  have "p \<notin> dom (fam_nodes (kv_fam s))" using inv p by (auto simp: kvs_inv_def orphan_def)
  then show "kvs_inv nv (free_value nv p s)"
    using inv p by (auto simp: kvs_inv_def free_value_def fam_inv_def live orphan_def)
  show "contents (free_value nv p s) = contents s"
    using inv p by (auto simp: contents_def free_value_def fun_eq_iff tg_masked_def gptr_mask_even
        kvs_inv_def orphan_def)
qed

lemma free_old_orphan:
  assumes inv: "kvs_inv nv s" and p: "IsValid old \<Longrightarrow> orphan (tg_gptr old) s \<and> \<not> bit (tg_gptr old) 0"
  shows "kvs_inv nv (free_old nv old s)" "contents (free_old nv old s) = contents s"
  using free_orphan [OF inv, of "tg_gptr old"] p inv
  by (auto simp: free_old_def tg_masked_def gptr_mask_even)

section \<open>The operations\<close>

lemma key_ok_len: "key_ok key \<Longrightarrow> \<not> kMaxKeyLen < length key" "key_ok key \<Longrightarrow> key \<noteq> []"
  by (auto simp: key_ok_def kMaxKeyLen_def)

text \<open>\<open>put_value\<close> stores the given pointer unless it keeps a value it found.\<close>

lemma put_value_gptr:
  "tg_gptr (put_value update p ns root key) =
     (if update = FIND_OR_CREATE \<and> IsValid (tree_val ns root key) then tg_gptr (tree_val ns root key)
      else p)"
  by (auto simp: put_value_def bump_def Let_def tree_val_none)

lemma put_post_cell:
  assumes "put_post nv root key v m m'"
  shows "fam_inv nv root m'" "grows nv m m'"
    "tree_val (fam_nodes m') root = (tree_val (fam_nodes m) root)(key := v)"
  using assms by (simp_all add: put_post_def)

lemma put_post_node: "put_post nv root key v m m' \<Longrightarrow> key_at (fam_nodes m) root k a \<Longrightarrow> key_at (fam_nodes m') root k a"
  by (simp add: put_post_def)

lemma same_tree_cell:
  assumes "same_tree nv root m m'"
  shows "fam_inv nv root m'" "tree_val (fam_nodes m') root = tree_val (fam_nodes m) root"
  using assms by (simp_all add: same_tree_def)

lemma same_tree_post: "same_tree nv root m m' \<Longrightarrow> put_post nv root key (tree_val (fam_nodes m) root key) m m'"
  by (simp add: same_tree_def put_post_def)

lemma value_written_post: "value_written nv root key v m m' \<Longrightarrow> put_post nv root key v m m'"
  by (simp add: value_written_def put_post_def)

lemmas value_written_cell = put_post_cell [OF value_written_post]

text \<open>A present node gets the next version.\<close>

lemma put_value_tag:
  "key_at ns root key a \<Longrightarrow> \<not> (update = FIND_OR_CREATE \<and> IsValid (tree_val ns root key)) \<Longrightarrow>
   tg_tag (put_value update p ns root key) = tg_tag (tree_val ns root key) + 1"
  by (auto simp: put_value_def bump_def Let_def)

lemma cell_keep:
  assumes inv: "kvs_inv nv s" and m: "put_post nv (kv_root s) key (kv_cell s key) (kv_fam s) m"
  shows "kvs_inv nv (s\<lparr>kv_fam := m\<rparr>)" "contents (s\<lparr>kv_fam := m\<rparr>) = contents s"
    "versioned s (s\<lparr>kv_fam := m\<rparr>)" "kv_cell (s\<lparr>kv_fam := m\<rparr>) = kv_cell s"
proof -
  note w = put_post_cell [OF m]
  have "dom (kv_bufs s) \<subseteq> nv_live nv (fam_heap m)" "dom (kv_bufs s) \<inter> dom (fam_nodes m) = {}"
    using kvs_inv_bufs(1,2) [OF inv] w(2) unfolding grows_def by blast+
  with inv w show "kvs_inv nv (s\<lparr>kv_fam := m\<rparr>)" by (simp add: kvs_inv_def)
  show c: "contents (s\<lparr>kv_fam := m\<rparr>) = contents s" using w(3) by (intro ext) (simp add: contents_def)
  show "kv_cell (s\<lparr>kv_fam := m\<rparr>) = kv_cell s" using w(3) by simp
  then show "versioned s (s\<lparr>kv_fam := m\<rparr>)"
    using put_post_node [OF m] c by (intro versioned_quiet) simp_all
qed

lemma free_old_frame:
  "kv_root (free_old nv old s) = kv_root s" "fam_nodes (kv_fam (free_old nv old s)) = fam_nodes (kv_fam s)"
  by (simp_all add: free_old_def free_value_def)

text \<open>After the value block is allocated and the tree has stored it, the old value is freed.\<close>

lemma store_value:
  assumes inv: "kvs_inv nv s" and b: "value_block nv s p s1" "kv_bufs s1 = (kv_bufs s)(p \<mapsto> val)"
    and key: "key_ok key" and v: "tg_gptr v = p"
      "\<And>a. kv_node s1 key a \<Longrightarrow> tg_tag v = tg_tag (kv_cell s1 key) + 1"
    and post: "put_post nv (kv_root s1) key v (kv_fam s1) m"
  shows "kvs_inv nv (free_old nv (kv_cell s1 key) (s1\<lparr>kv_fam := m\<rparr>))"
    "contents (free_old nv (kv_cell s1 key) (s1\<lparr>kv_fam := m\<rparr>)) = (contents s)(key \<mapsto> val)"
    "versioned s (free_old nv (kv_cell s1 key) (s1\<lparr>kv_fam := m\<rparr>))"
proof -
  note al = alloc_value_block [OF inv b]
  have p: "p \<noteq> 0" "\<not> bit p 0" using b(1) by (simp_all add: value_block_def)
  have "IsValid v" using v(1) p by (simp add: IsValid_def gptr_valid_def)
  note w = cell_write [OF al(1) put_post_cell [OF post] key_ok_len(2) [OF key]]
  have w1: "kvs_inv nv (s1\<lparr>kv_fam := m\<rparr>)" by (rule w(1)) (use v(1) p al(3) in auto)
  have w2: "contents (s1\<lparr>kv_fam := m\<rparr>) = (contents s)(key \<mapsto> val)"
    using w(2) v(1) p al(2,3) \<open>IsValid v\<close> b(2) by simp
  have w3: "orphan (tg_gptr (kv_cell s1 key)) (s1\<lparr>kv_fam := m\<rparr>) \<and> \<not> bit (tg_gptr (kv_cell s1 key)) 0"
    if "IsValid (kv_cell s1 key)"
    using w(3) [OF _ that] v(1) p al(3) kvs_inv_bufs(4) [OF al(1) that] by auto
  from free_old_orphan [OF w1 w3] w2
  show "kvs_inv nv (free_old nv (kv_cell s1 key) (s1\<lparr>kv_fam := m\<rparr>))"
    and c: "contents (free_old nv (kv_cell s1 key) (s1\<lparr>kv_fam := m\<rparr>)) = (contents s)(key \<mapsto> val)" by auto
  have eq: "fam_nodes (kv_fam s1) = fam_nodes (kv_fam s)" "kv_root s1 = kv_root s"
    using b(1) by (simp_all add: value_block_def)
  show "versioned s (free_old nv (kv_cell s1 key) (s1\<lparr>kv_fam := m\<rparr>))"
    by (rule versioned_write [OF _ c, of v])
      (use put_post_node [OF post] put_post_cell(3) [OF post] v(2) in \<open>simp_all add: free_old_frame eq\<close>)
qed

lemma Put_correct:
  assumes inv: "kvs_inv nv s" and key: "key_ok key"
  obtains (stored) s' where "KVSRadixTree_Put nv key val s = Some (Inr 0, s')" "kvs_inv nv s'"
      "contents s' = (contents s)(key \<mapsto> val)" "versioned s s'"
  | (refused) s' where "KVSRadixTree_Put nv key val s = Some (Inr (- 1), s')" "kvs_inv nv s'"
      "contents s' = contents s" "versioned s s'"
  | (abort) s' where "KVSRadixTree_Put nv key val s = Some (Inl AssertFail, s')" "kvs_inv nv s'"
      "contents s' = contents s" "versioned s s'"
proof -
  note nv = kvs_invD(1) [OF inv]
  obtain r s1 where al: "alloc_value nv val s = (r, s1)" by fastforce
  show thesis
  proof (cases "kMaxValLen < length val")
    case True
    with refused [OF _ inv refl versioned_refl] show thesis by (simp add: KVSRadixTree_Put_def)
  next
    case len: False
    from nv al show thesis
    proof (cases rule: alloc_value_cases)
      case none
      with kvs_inv_frame [OF inv none(2-5)] refused [of s1] key_ok_len(1) [OF key] len al show thesis
        by (simp add: KVSRadixTree_Put_def)
    next
      case (block p)
      note ab = alloc_value_block [OF inv block(2,3)]
      from kvs_invD(1,2) [OF ab(1)] key show thesis
      proof (cases rule: put_correct [where w = p and update = UPDATE])
        case (stored m)
        let ?s = "free_old nv (kv_cell s1 key) (s1\<lparr>kv_fam := m\<rparr>)"
        have "kvs_inv nv ?s \<and> contents ?s = (contents s)(key \<mapsto> val) \<and> versioned s ?s"
          using store_value [OF inv block(2,3) key _ _ stored(2)]
            put_value_gptr [of UPDATE p] put_value_tag [of _ _ key _ UPDATE p] by simp
        with that(1) [of ?s] stored(1) block(1) al len key_ok_len(1) [OF key] show thesis
          by (simp add: KVSRadixTree_Put_def)
      next
        case (abort m)
        note k = cell_keep [OF ab(1) same_tree_post [OF abort(3)]]
        show thesis
          by (rule that(3) [OF _ k(1) _ versioned_alloc [OF block(2,3) inv k(3)]])
            (use abort(1) k(2) ab(2) block(1) al len key_ok_len(1) [OF key] in \<open>simp_all add: KVSRadixTree_Put_def\<close>)
      qed
    qed
  qed
qed

lemma Get_correct:
  assumes inv: "kvs_inv nv s" and key: "key_ok key"
  shows "KVSRadixTree_Get nv key val val_len s = Some (Inr
    (case contents s key of
       None \<Rightarrow> (- 2, val, val_len)
     | Some data \<Rightarrow> if val_len < length data then (- 1, val, length data)
                     else (0, memcpy val data, length data)), s)"
proof (cases "IsValid (kv_cell s key)")
  case True
  from kvs_inv_cell [OF inv this] obtain data where
    "tg_masked (kv_cell s key) = tg_gptr (kv_cell s key)"
    "kv_bufs s (tg_gptr (kv_cell s key)) = Some data" "contents s key = Some data" .
  with True get_correct [OF kvs_invD(1,4) [OF inv] key] key_ok_len(1) [OF key] show ?thesis
    by (simp add: KVSRadixTree_Get_def copy_out_def)
next
  case False
  with get_correct [OF kvs_invD(1,4) [OF inv] key] key_ok_len(1) [OF key] show ?thesis
    by (simp add: KVSRadixTree_Get_def contents_def)
qed

text \<open>The tree has cleared the cell of a key; then the old value is freed.\<close>

lemma clear_value:
  assumes inv: "kvs_inv nv s" and key: "key_ok key"
    and w: "value_written nv (kv_root s) key (bump 0 (kv_cell s key)) (kv_fam s) m"
  shows "kvs_inv nv (free_old nv (kv_cell s key) (s\<lparr>kv_fam := m\<rparr>))"
    "contents (free_old nv (kv_cell s key) (s\<lparr>kv_fam := m\<rparr>)) = (contents s)(key := None)"
    "versioned s (free_old nv (kv_cell s key) (s\<lparr>kv_fam := m\<rparr>))"
proof -
  have nv0: "\<not> IsValid (bump 0 (kv_cell s key))" by (simp add: bump_def)
  note c = cell_write [OF inv value_written_cell [OF w] key_ok_len(2) [OF key]]
  have old: "orphan (tg_gptr (kv_cell s key)) (s\<lparr>kv_fam := m\<rparr>) \<and> \<not> bit (tg_gptr (kv_cell s key)) 0"
    if "IsValid (kv_cell s key)" using c(3) [OF _ that] nv0 kvs_inv_bufs(4) [OF inv that] by simp
  from c(1,2) nv0 have "kvs_inv nv (s\<lparr>kv_fam := m\<rparr>)"
    "contents (s\<lparr>kv_fam := m\<rparr>) = (contents s)(key := None)" by auto
  with free_old_orphan [OF _ old] show "kvs_inv nv (free_old nv (kv_cell s key) (s\<lparr>kv_fam := m\<rparr>))"
    and d: "contents (free_old nv (kv_cell s key) (s\<lparr>kv_fam := m\<rparr>)) = (contents s)(key := None)" by simp_all
  show "versioned s (free_old nv (kv_cell s key) (s\<lparr>kv_fam := m\<rparr>))"
    by (rule versioned_write [OF _ d, of "bump 0 (kv_cell s key)"])
      (use value_written_cell(3) [OF w] put_post_node [OF value_written_post [OF w]] in
        \<open>simp_all add: free_old_frame bump_def\<close>)
qed

lemma Del_correct:
  assumes inv: "kvs_inv nv s" and key: "key_ok key"
  shows "\<exists>s'. KVSRadixTree_Del nv key s =
      Some (Inr (if contents s key = None then - 2 else 0), s') \<and>
    kvs_inv nv s' \<and> contents s' = (contents s)(key := None) \<and> versioned s s'"
proof -
  note d = kvs_invD [OF inv]
  obtain m where m: "destroy nv (kv_root s) key (kv_fam s) = Some (Inr (kv_cell s key), m)"
    "if \<exists>a. key_at (fam_nodes (kv_fam s)) (kv_root s) key a
     then value_written nv (kv_root s) key (bump 0 (kv_cell s key)) (kv_fam s) m else m = kv_fam s"
    using destroy_correct [OF d(1,2) key] by blast
  let ?s = "free_old nv (kv_cell s key) (s\<lparr>kv_fam := m\<rparr>)"
  have "kvs_inv nv ?s \<and> contents ?s = (contents s)(key := None) \<and> versioned s ?s"
  proof (cases "\<exists>a. key_at (fam_nodes (kv_fam s)) (kv_root s) key a")
    case True
    with m(2) show ?thesis using clear_value [OF inv key] by simp
  next
    case False
    then have "kv_cell s key = TagGptr_default" by (simp add: tree_val_none)
    with m(2) False inv show ?thesis by (auto simp: free_old_def contents_def)
  qed
  with m(1) contents_None [OF inv] key_ok_len(1) [OF key] show ?thesis
    by (simp add: KVSRadixTree_Del_def)
qed

lemma orphan_frame:
  "orphan p s \<Longrightarrow> tree_val (fam_nodes m) (kv_root s) = kv_cell s \<Longrightarrow> orphan p (s\<lparr>kv_fam := m\<rparr>)"
  by (simp add: orphan_def)

lemma FindOrCreate_found:
  assumes inv: "kvs_inv nv s" and key: "key_ok key" and c: "contents s key = Some data"
    and b: "value_block nv s p s1" "kv_bufs s1 = (kv_bufs s)(p \<mapsto> val)"
    and post: "put_post nv (kv_root s1) key (put_value FIND_OR_CREATE p (fam_nodes (kv_fam s1)) (kv_root s1) key)
      (kv_fam s1) m"
  shows "kvs_inv nv (free_value nv p (s1\<lparr>kv_fam := m\<rparr>))"
    "contents (free_value nv p (s1\<lparr>kv_fam := m\<rparr>)) = contents s"
    "copy_out (free_value nv p (s1\<lparr>kv_fam := m\<rparr>)) (tg_masked (kv_cell s1 key)) ret_val ret_len =
       Inr (if ret_len < length data then (- 1, ret_val, length data)
            else (0, memcpy ret_val data, length data))"
    "IsValid (kv_cell s1 key)" "versioned s (free_value nv p (s1\<lparr>kv_fam := m\<rparr>))"
proof -
  note ab = alloc_value_block [OF inv b]
  from c ab(2) contents_None [OF ab(1), of key] show v: "IsValid (kv_cell s1 key)" by auto
  then have "put_value FIND_OR_CREATE p (fam_nodes (kv_fam s1)) (kv_root s1) key = kv_cell s1 key"
    by (auto simp: put_value_def Let_def tree_val_none)
  with post have "put_post nv (kv_root s1) key (kv_cell s1 key) (kv_fam s1) m" by simp
  note k = cell_keep [OF ab(1) this]
  have w: "tree_val (fam_nodes m) (kv_root s1) = kv_cell s1" using k(4) by simp
  note f = free_orphan [OF k(1) orphan_frame [OF ab(3) w]]
  have "versioned s1 (free_value nv p (s1\<lparr>kv_fam := m\<rparr>))"
    by (rule versioned_quiet) (use put_post_node [OF post] w f(2) k(2) in \<open>simp_all add: free_value_def\<close>)
  from versioned_alloc [OF b inv this] show "versioned s (free_value nv p (s1\<lparr>kv_fam := m\<rparr>))" .
  from f k(2) ab(2) show "kvs_inv nv (free_value nv p (s1\<lparr>kv_fam := m\<rparr>))"
    "contents (free_value nv p (s1\<lparr>kv_fam := m\<rparr>)) = contents s" by auto
  let ?s = "free_value nv p (s1\<lparr>kv_fam := m\<rparr>)"
  have cell: "kv_cell ?s key = kv_cell s1 key" using w by (simp add: free_value_def)
  with v have "IsValid (kv_cell ?s key)" by simp
  then obtain data' where d: "tg_masked (kv_cell ?s key) = tg_gptr (kv_cell ?s key)"
    "kv_bufs ?s (tg_gptr (kv_cell ?s key)) = Some data'" "contents ?s key = Some data'"
    by (rule kvs_inv_cell [OF f(1)])
  have "data' = data" using d(3) f(2) k(2) ab(2) c by simp
  with d(1,2) have "kv_bufs ?s (tg_masked (kv_cell s1 key)) = Some data" unfolding cell by simp
  then show "copy_out ?s (tg_masked (kv_cell s1 key)) ret_val ret_len =
      Inr (if ret_len < length data then (- 1, ret_val, length data)
           else (0, memcpy ret_val data, length data))"
    by (simp add: copy_out_def)
qed

lemma FindOrCreate_correct:
  assumes inv: "kvs_inv nv s" and key: "key_ok key"
  obtains (found) s' data where "contents s key = Some data"
      "KVSRadixTree_FindOrCreate nv key val ret_val ret_len s = Some (Inr
         (if ret_len < length data then (- 1, ret_val, length data)
          else (- 3, memcpy ret_val data, length data)), s')"
      "kvs_inv nv s'" "contents s' = contents s" "versioned s s'"
  | (created) s' where "contents s key = None"
      "KVSRadixTree_FindOrCreate nv key val ret_val ret_len s = Some (Inr (0, ret_val, ret_len), s')"
      "kvs_inv nv s'" "contents s' = (contents s)(key \<mapsto> val)" "versioned s s'"
  | (refused) s' where
      "KVSRadixTree_FindOrCreate nv key val ret_val ret_len s = Some (Inr (- 1, ret_val, ret_len), s')"
      "kvs_inv nv s'" "contents s' = contents s" "versioned s s'"
  | (abort) s' where
      "KVSRadixTree_FindOrCreate nv key val ret_val ret_len s = Some (Inl AssertFail, s')"
      "kvs_inv nv s'" "contents s' = contents s" "versioned s s'"
proof -
  note nv = kvs_invD(1) [OF inv] and klen = key_ok_len(1) [OF key]
  obtain r s1 where al: "alloc_value nv val s = (r, s1)" by fastforce
  show thesis
  proof (cases "kMaxValLen < length val")
    case True
    with refused [OF _ inv refl versioned_refl] show thesis by (simp add: KVSRadixTree_FindOrCreate_def)
  next
    case len: False
    from nv al show thesis
    proof (cases rule: alloc_value_cases)
      case none
      with kvs_inv_frame [OF inv none(2-5)] refused [of s1] klen len al show thesis
        by (simp add: KVSRadixTree_FindOrCreate_def)
    next
      case (block p)
      note ab = alloc_value_block [OF inv block(2,3)]
      from kvs_invD(1,2) [OF ab(1)] key show thesis
      proof (cases rule: put_correct [where w = p and update = FIND_OR_CREATE])
        case (stored m)
        show thesis
        proof (cases "contents s key")
          case (Some data)
          note f = FindOrCreate_found [OF inv key Some block(2,3) stored(2)]
          show thesis
            by (rule found [OF Some _ f(1,2,5)])
              (use f(3,4) stored(1) al block(1) len klen in \<open>auto simp: KVSRadixTree_FindOrCreate_def Let_def\<close>)
        next
          case None
          then have nval: "\<not> IsValid (kv_cell s1 key)" using contents_None [OF ab(1), of key] ab(2) by simp
          then have old: "free_old nv (kv_cell s1 key) (s1\<lparr>kv_fam := m\<rparr>) = s1\<lparr>kv_fam := m\<rparr>"
            by (simp add: free_old_def)
          have "tg_gptr (put_value FIND_OR_CREATE p (fam_nodes (kv_fam s1)) (kv_root s1) key) = p"
            using nval by (simp add: put_value_gptr)
          note st = store_value [OF inv block(2,3) key this put_value_tag stored(2), unfolded old]
          show thesis
            by (rule created [OF None _ st])
              (use nval stored(1) al block(1) len klen in \<open>simp_all add: KVSRadixTree_FindOrCreate_def\<close>)
        qed
      next
        case (abort m)
        note k = cell_keep [OF ab(1) same_tree_post [OF abort(3)]]
        show thesis
          by (rule that(4) [OF _ k(1) _ versioned_alloc [OF block(2,3) inv k(3)]])
            (use abort(1) k(2) ab(2) block(1) al len klen in \<open>simp_all add: KVSRadixTree_FindOrCreate_def\<close>)
      qed
    qed
  qed
qed

section \<open>Opening a store\<close>

lemma Open_new_correct:
  assumes nv: "nvmm_ok nv" and ok: "nodes_ok nv m" and mg: "hm_opened mg"
    and bufs: "dom bufs \<subseteq> nv_live nv (fam_heap m)" "dom bufs \<inter> dom (fam_nodes m) = {}"
    and new: "KVSRadixTree_new nv mg 0 m bufs = (Inr r, s)"
  shows "r = 0 \<and> kvs_inv nv s \<and> contents s = (\<lambda>_. None)"
proof -
  obtain x m' where c: "RadixTree_create nv 0 m = (x, m')" by fastforce
  with new mg obtain root where x: "x = Inr root" "r = 0"
    and s: "s = \<lparr>kv_fam = m', kv_bufs = bufs, kv_root = root, kv_iters = []\<rparr>"
    by (auto simp: KVSRadixTree_new_def KVSRadixTree_Open_def split: if_splits sum.splits)
  note e = RadixTree_create_empty [OF nv ok c [unfolded x(1)]]
  from nv c show ?thesis
  proof (cases rule: RadixTree_create_cases)
    case (made p)
    have "kvs_inv nv s"
      by (rule kvs_invI) (use e nv bufs made(2,3) s in \<open>auto simp: fresh_block_def\<close>)
    with e x(2) s show ?thesis by (auto simp: contents_def)
  qed (simp add: x(1))
qed

text \<open>Reopening with the root that \<open>Location\<close> returned finds the same store.\<close>

lemma Open_existing_correct:
  assumes inv: "kvs_inv nv s" and new: "KVSRadixTree_new nv mg (kv_root s) (kv_fam s) (kv_bufs s) = (Inr r, s')"
  shows "r = 0 \<and> kvs_inv nv s' \<and> contents s' = contents s \<and> kv_root s' = kv_root s"
proof -
  have "kv_root s \<noteq> 0" using kvs_invD(4) [OF inv] by (rule tree_inv_root)
  with new have "r = 0" "kv_fam s' = kv_fam s" "kv_bufs s' = kv_bufs s" "kv_root s' = kv_root s"
    by (auto simp: KVSRadixTree_new_def KVSRadixTree_Open_def RadixTree_create_def split: if_splits)
  with kvs_inv_frame [OF inv, of s'] show ?thesis by simp
qed

lemma Maintenance_correct:
  assumes inv: "kvs_inv nv s"
  shows "kvs_inv nv (KVSRadixTree_Maintenance nv s)"
    "contents (KVSRadixTree_Maintenance nv s) = contents s"
proof -
  have "kv_live nv (KVSRadixTree_Maintenance nv s) = kv_live nv s"
    using nvmm_okD(6) [OF kvs_invD(1) [OF inv]]
    by (simp add: KVSRadixTree_Maintenance_def nvmm_offline_ok_def)
  with kvs_inv_frame [OF inv, of "KVSRadixTree_Maintenance nv s"]
  show "kvs_inv nv (KVSRadixTree_Maintenance nv s)"
    "contents (KVSRadixTree_Maintenance nv s) = contents s"
    by (simp_all add: KVSRadixTree_Maintenance_def)
qed

end
