(* ===== verification/RT_KVS_Interface.thy ===== *)
theory RT_KVS_Interface
  imports RT_Prelude
begin

text \<open>
  The contract of the abstract class \<open>KeyValueStore\<close> (\<open>src/include/radixtree/kvs.h\<close>) that
  its users rely on, as a locale: \<open>view\<close> is the map from keys to values a store stands for.
  \<open>Put\<close> returns 0 only when the value is stored and changes nothing else otherwise; \<open>Get\<close>
  returns 0 exactly for a stored key and then the stored bytes; \<open>Del\<close> removes the key.
  What follows for every sequence of calls is proved here once.
\<close>

datatype kv_cmd = CPut bytes bytes | CDel bytes

text \<open>A sequence of updates through the interface; the replies are the return codes.\<close>

fun kv_exec ::
  "(bytes \<Rightarrow> bytes \<Rightarrow> 's \<Rightarrow> ((fault + int) \<times> 's) option) \<Rightarrow>
   (bytes \<Rightarrow> 's \<Rightarrow> ((fault + int) \<times> 's) option) \<Rightarrow>
   kv_cmd list \<Rightarrow> 's \<Rightarrow> ((fault + int) list \<times> 's) option" where
  "kv_exec p d [] s = Some ([], s)"
| "kv_exec p d (c # cs) s =
     do {
       (r, s1) \<leftarrow> (case c of CPut k v \<Rightarrow> p k v s | CDel k \<Rightarrow> d k s);
       (rs, s2) \<leftarrow> kv_exec p d cs s1;
       Some (r # rs, s2)
     }"

text \<open>What a command with a given reply does to the map.\<close>

fun kv_apply :: "kv_cmd \<times> (fault + int) \<Rightarrow> (bytes \<Rightarrow> bytes option) \<Rightarrow> bytes \<Rightarrow> bytes option" where
  "kv_apply (CPut k v, r) f = (if r = Inr 0 then f(k \<mapsto> v) else f)"
| "kv_apply (CDel k, r) f = f(k := None)"

fun cmd_key :: "kv_cmd \<Rightarrow> bytes" where
  "cmd_key (CPut k v) = k"
| "cmd_key (CDel k) = k"

fun good_cmd :: "(bytes \<Rightarrow> bool) \<Rightarrow> (bytes \<Rightarrow> bool) \<Rightarrow> kv_cmd \<Rightarrow> bool" where
  "good_cmd gk gv (CPut k v) = (gk k \<and> gv v)"
| "good_cmd gk gv (CDel k) = gk k"

locale key_value_store =
  fixes ok :: "'s \<Rightarrow> bool" and view :: "'s \<Rightarrow> bytes \<Rightarrow> bytes option"
    and good_key :: "bytes \<Rightarrow> bool" and good_val :: "bytes \<Rightarrow> bool"
    and kv_put :: "bytes \<Rightarrow> bytes \<Rightarrow> 's \<Rightarrow> ((fault + int) \<times> 's) option"
    and kv_get :: "bytes \<Rightarrow> bytes \<Rightarrow> nat \<Rightarrow> 's \<Rightarrow> ((fault + int \<times> bytes \<times> nat) \<times> 's) option"
    and kv_del :: "bytes \<Rightarrow> 's \<Rightarrow> ((fault + int) \<times> 's) option"
  assumes put_law: "ok s \<Longrightarrow> good_key k \<Longrightarrow> good_val v \<Longrightarrow>
      \<exists>r s'. kv_put k v s = Some (r, s') \<and> ok s' \<and>
        view s' = (if r = Inr 0 then (view s)(k \<mapsto> v) else view s)"
    and get_law: "ok s \<Longrightarrow> good_key k \<Longrightarrow> view s k = Some v \<Longrightarrow>
      length v \<le> cap \<Longrightarrow> length v \<le> length buf \<Longrightarrow>
      kv_get k buf cap s = Some (Inr (0, memcpy buf v, length v), s)"
    and get_none: "ok s \<Longrightarrow> good_key k \<Longrightarrow> view s k = None \<Longrightarrow> 8 \<le> length buf \<Longrightarrow>
      \<exists>c b n. kv_get k buf cap s = Some (Inr (c, b, n), s) \<and> c \<noteq> 0"
    and del_law: "ok s \<Longrightarrow> good_key k \<Longrightarrow>
      \<exists>c s'. kv_del k s = Some (Inr c, s') \<and> ok s' \<and> view s' = (view s)(k := None) \<and>
        (c = 0 \<longleftrightarrow> view s k \<noteq> None)"
begin

text \<open>Every sequence of updates returns and acts on the map command by command.\<close>

lemma exec_refines:
  assumes "ok s" "\<And>c. c \<in> set cs \<Longrightarrow> good_cmd good_key good_val c"
  shows "\<exists>rs s'. kv_exec kv_put kv_del cs s = Some (rs, s') \<and> ok s' \<and> length rs = length cs \<and>
    view s' = fold kv_apply (zip cs rs) (view s)"
  using assms
proof (induction cs arbitrary: s)
  case (Cons c cs)
  have "\<exists>r s1. (case c of CPut k v \<Rightarrow> kv_put k v s | CDel k \<Rightarrow> kv_del k s) = Some (r, s1) \<and>
      ok s1 \<and> view s1 = kv_apply (c, r) (view s)"
    using Cons.prems(2) [of c] put_law [OF Cons.prems(1)] del_law [OF Cons.prems(1)]
    by (cases c) fastforce+
  then obtain r s1 where c: "(case c of CPut k v \<Rightarrow> kv_put k v s | CDel k \<Rightarrow> kv_del k s) = Some (r, s1)"
    and s1: "ok s1" "view s1 = kv_apply (c, r) (view s)" by blast
  from Cons.IH [OF s1(1)] Cons.prems(2) obtain rs s2 where
    "kv_exec kv_put kv_del cs s1 = Some (rs, s2)" "ok s2" "length rs = length cs"
    "view s2 = fold kv_apply (zip cs rs) (view s1)" by fastforce
  with c s1(2) show ?case by auto
qed simp

text \<open>Commands on other keys do not disturb a key.\<close>

lemma fold_other:
  "(\<And>c. c \<in> set cs \<Longrightarrow> cmd_key c \<noteq> k) \<Longrightarrow> length rs = length cs \<Longrightarrow>
   fold kv_apply (zip cs rs) f k = f k"
proof (induction cs arbitrary: rs f)
  case (Cons c cs)
  then obtain r rs' where rs: "rs = r # rs'" by (cases rs) auto
  have "kv_apply (c, r) f k = f k" using Cons.prems(1) [of c] by (cases c) auto
  with Cons rs show ?case by auto
qed simp

text \<open>A stored value is read back after any updates of other keys.\<close>

lemma put_then_get:
  assumes "ok s" "good_key k" "good_val v" "kv_put k v s = Some (Inr 0, s1)"
    and "\<And>c. c \<in> set cs \<Longrightarrow> good_cmd good_key good_val c" "\<And>c. c \<in> set cs \<Longrightarrow> cmd_key c \<noteq> k"
    and "length v \<le> cap" "length v \<le> length buf"
  shows "\<exists>rs s2. kv_exec kv_put kv_del cs s1 = Some (rs, s2) \<and>
    kv_get k buf cap s2 = Some (Inr (0, memcpy buf v, length v), s2)"
proof -
  from put_law [OF assms(1-3)] assms(4) have s1: "ok s1" "view s1 = (view s)(k \<mapsto> v)" by auto
  from exec_refines [OF s1(1) assms(5)] obtain rs s2 where
    s2: "kv_exec kv_put kv_del cs s1 = Some (rs, s2)" "ok s2" "length rs = length cs"
    "view s2 = fold kv_apply (zip cs rs) (view s1)" by blast
  have "view s2 k = Some v" using fold_other [of cs k rs "view s1"] assms(6) s2(3,4) s1(2) by simp
  with get_law [OF s2(2) assms(2) _ assms(7,8)] s2(1) show ?thesis by blast
qed

lemma del_then_get:
  assumes "ok s" "good_key k" "kv_del k s = Some (Inr c, s1)" "8 \<le> length buf"
  shows "\<exists>e b n. kv_get k buf cap s1 = Some (Inr (e, b, n), s1) \<and> e \<noteq> 0"
proof -
  from del_law [OF assms(1,2)] assms(3) have "ok s1" "view s1 k = None" by auto
  with get_none assms(2,4) show ?thesis by blast
qed

end

section \<open>Stores that may abort\<close>

text \<open>
  A weaker contract: \<open>Get\<close> and \<open>Del\<close> may work on the store's own structures, and so run out
  of memory and abort on a failed assertion. Even then nothing of the map is lost, which a
  store in persistent memory needs for the next process that opens it.
\<close>

locale aborting_store =
  fixes ok :: "'s \<Rightarrow> bool" and view :: "'s \<Rightarrow> bytes \<Rightarrow> bytes option"
    and good_key :: "bytes \<Rightarrow> bool" and good_val :: "bytes \<Rightarrow> bool"
    and kv_put :: "bytes \<Rightarrow> bytes \<Rightarrow> 's \<Rightarrow> ((fault + int) \<times> 's) option"
    and kv_get :: "bytes \<Rightarrow> bytes \<Rightarrow> nat \<Rightarrow> 's \<Rightarrow> ((fault + int \<times> bytes \<times> nat) \<times> 's) option"
    and kv_del :: "bytes \<Rightarrow> 's \<Rightarrow> ((fault + int) \<times> 's) option"
  assumes put_returns: "ok s \<Longrightarrow> good_key k \<Longrightarrow> good_val v \<Longrightarrow>
      \<exists>r s'. kv_put k v s = Some (r, s') \<and> ok s' \<and>
        view s' = (if r = Inr 0 then (view s)(k \<mapsto> v) else view s)"
    and get_returns: "ok s \<Longrightarrow> good_key k \<Longrightarrow> 8 \<le> length buf \<Longrightarrow>
      (\<And>v. view s k = Some v \<Longrightarrow> length v \<le> cap \<and> length v \<le> length buf) \<Longrightarrow>
      \<exists>r s'. kv_get k buf cap s = Some (r, s') \<and> ok s' \<and> view s' = view s \<and>
        (isl r \<or> (case view s k of
                     None \<Rightarrow> fst (projr r) \<noteq> 0
                   | Some v \<Rightarrow> r = Inr (0, memcpy buf v, length v)))"
    and del_returns: "ok s \<Longrightarrow> good_key k \<Longrightarrow>
      \<exists>r s'. kv_del k s = Some (r, s') \<and> ok s' \<and>
        (if isl r then view s' = view s
         else view s' = (view s)(k := None) \<and> (r = Inr 0 \<longleftrightarrow> view s k \<noteq> None))"
begin

text \<open>
  Every sequence of updates returns; the map at the end is what the updates that did not
  abort make of it.
\<close>

lemma exec_keeps_map:
  assumes "ok s" "\<And>c. c \<in> set cs \<Longrightarrow> good_cmd good_key good_val c"
  shows "\<exists>rs s'. kv_exec kv_put kv_del cs s = Some (rs, s') \<and> ok s' \<and> length rs = length cs \<and>
    view s' = fold kv_apply (filter (\<lambda>(c, r). \<not> isl r) (zip cs rs)) (view s)"
  using assms
proof (induction cs arbitrary: s)
  case (Cons c cs)
  have "\<exists>r s1. (case c of CPut k v \<Rightarrow> kv_put k v s | CDel k \<Rightarrow> kv_del k s) = Some (r, s1) \<and>
      ok s1 \<and> view s1 = (if isl r then view s else kv_apply (c, r) (view s))"
  proof (cases c)
    case (CPut k v)
    from put_returns [OF Cons.prems(1), of k v] Cons.prems(2) [of c] CPut obtain r s1 where
      "kv_put k v s = Some (r, s1)" "ok s1" "view s1 = (if r = Inr 0 then (view s)(k \<mapsto> v) else view s)" by auto
    with CPut show ?thesis by auto
  next
    case (CDel k)
    from del_returns [OF Cons.prems(1), of k] Cons.prems(2) [of c] CDel show ?thesis by fastforce
  qed
  then obtain r s1 where c: "(case c of CPut k v \<Rightarrow> kv_put k v s | CDel k \<Rightarrow> kv_del k s) = Some (r, s1)"
    and s1: "ok s1" "view s1 = (if isl r then view s else kv_apply (c, r) (view s))" by blast
  from Cons.IH [OF s1(1)] Cons.prems(2) obtain rs s2 where
    "kv_exec kv_put kv_del cs s1 = Some (rs, s2)" "ok s2" "length rs = length cs"
    "view s2 = fold kv_apply (filter (\<lambda>(c, r). \<not> isl r) (zip cs rs)) (view s1)" by fastforce
  with c s1(2) show ?case by auto
qed simp

end

sublocale key_value_store \<subseteq> aborting_store ok view good_key good_val kv_put kv_get kv_del
proof unfold_locales
  show "\<exists>r s'. kv_put k v s = Some (r, s') \<and> ok s' \<and> view s' = (if r = Inr 0 then (view s)(k \<mapsto> v) else view s)"
    if "ok s" "good_key k" "good_val v" for s k v using put_law [OF that] .
  show "\<exists>r s'. kv_get k buf cap s = Some (r, s') \<and> ok s' \<and> view s' = view s \<and>
      (isl r \<or> (case view s k of None \<Rightarrow> fst (projr r) \<noteq> 0 | Some v \<Rightarrow> r = Inr (0, memcpy buf v, length v)))"
    if "ok s" "good_key k" "8 \<le> length buf"
      "\<And>v. view s k = Some v \<Longrightarrow> length v \<le> cap \<and> length v \<le> length buf" for s k buf cap
  proof (cases "view s k")
    case None
    with get_none [OF that(1,2) None that(3)] that(1) show ?thesis by fastforce
  next
    case (Some v)
    with get_law [OF that(1,2) Some] that(1,4) show ?thesis by simp
  qed
  show "\<exists>r s'. kv_del k s = Some (r, s') \<and> ok s' \<and>
      (if isl r then view s' = view s else view s' = (view s)(k := None) \<and> (r = Inr 0 \<longleftrightarrow> view s k \<noteq> None))"
    if "ok s" "good_key k" for s k using del_law [OF that] by fastforce
qed

end
