(* ===== verification/RT_KVS_Tiny.thy ===== *)
theory RT_KVS_Tiny
  imports RT_KVS_Correct RT_KVS_Interface
begin

text \<open>
  \<open>class KVSRadixTreeTiny\<close> (\<open>src/src/kvs_radix_tree_tiny.cc\<close>): a store whose values are
  exactly eight bytes, kept in the pointer word of the tree's value cell. Both stores over
  the radix tree are interpreted as \<open>key_value_store\<close> here.
\<close>

section \<open>Eight bytes as a 64-bit word\<close>

text \<open>\<open>CHAR2UINT64\<close> on a little-endian machine.\<close>

definition CHAR2UINT64 :: "bytes \<Rightarrow> u64" where
  "CHAR2UINT64 bs = foldr (\<lambda>b acc. ucast b OR push_bit 8 acc) (take 8 bs) 0"

definition UINT64_bytes :: "u64 \<Rightarrow> bytes" where
  "UINT64_bytes w = map (\<lambda>i. ucast (drop_bit (8 * i) w)) [0..<8]"

lemma length_UINT64_bytes [simp]: "length (UINT64_bytes w) = 8"
  by (simp add: UINT64_bytes_def)

lemma drop_byte: "drop_bit 8 (ucast b OR push_bit 8 w :: u64) = take_bit 56 w" for b :: byte
  by (rule bit_word_eqI) (auto simp: bit_simps dest: bit_imp_le_length)

lemma low_byte: "(ucast (ucast b OR push_bit 8 w :: u64) :: byte) = b" for b :: byte
  by (rule bit_word_eqI) (auto simp: bit_simps)

lemma ucast_drop_take: "8 * i + 8 \<le> n \<Longrightarrow>
    (ucast (drop_bit (8 * i) (take_bit n w)) :: byte) = ucast (drop_bit (8 * i) w)" for w :: u64
  by (rule bit_word_eqI) (auto simp: bit_simps)

lemma word_bytes:
  "length bs = n \<Longrightarrow> n \<le> 8 \<Longrightarrow> i < n \<Longrightarrow>
   (ucast (drop_bit (8 * i) (foldr (\<lambda>b acc. ucast b OR push_bit 8 acc) bs 0 :: u64)) :: byte) = bs ! i"
proof (induction bs arbitrary: i n)
  case (Cons b bs)
  let ?w = "foldr (\<lambda>b acc. ucast b OR push_bit 8 acc) bs 0 :: u64"
  show ?case
  proof (cases i)
    case 0
    then show ?thesis by (simp add: low_byte)
  next
    case (Suc j)
    with Cons.prems have j: "j < length bs" "8 * j + 8 \<le> 56" by auto
    have "drop_bit (8 * i) (ucast b OR push_bit 8 ?w) = drop_bit (8 * j) (drop_bit 8 (ucast b OR push_bit 8 ?w))"
      by (simp add: Suc add.commute)
    also have "\<dots> = drop_bit (8 * j) (take_bit 56 ?w)" by (simp only: drop_byte)
    finally show ?thesis using Cons.IH [of "length bs" j] Cons.prems j ucast_drop_take [OF j(2)] Suc
      by simp
  qed
qed simp

lemma UINT64_roundtrip: "length bs = 8 \<Longrightarrow> UINT64_bytes (CHAR2UINT64 bs) = bs"
  by (rule nth_equalityI) (auto simp: UINT64_bytes_def CHAR2UINT64_def word_bytes)

section \<open>The store\<close>

record 'h tiny =
  ty_fam :: "'h fam"
  ty_root :: Gptr
  ty_iters :: "Iter list"

definition tiny_kMaxValLen :: nat where
  "tiny_kMaxValLen = 8"

type_synonym ('h, 'r) tiny_out = "((fault + 'r) \<times> 'h tiny) option"

text \<open>
  Reading or writing eight bytes of a caller's buffer that is shorter is an access outside of
  it: nothing checks the length from below.
\<close>

definition KVSRadixTreeTiny_Put :: "'h nvmm \<Rightarrow> bytes \<Rightarrow> bytes \<Rightarrow> 'h tiny \<Rightarrow> ('h, int) tiny_out" where
  "KVSRadixTreeTiny_Put nv key val s =
     (if kMaxKeyLen < length key \<or> tiny_kMaxValLen < length val then Some (Inr (- 1), s)
      else if length val < 8 then Some (Inl OutOfBounds, s)
      else map_option (\<lambda>(r, m). (map_sum id (\<lambda>_. 0) r, s\<lparr>ty_fam := m\<rparr>))
             (put nv (ty_root s) key (CHAR2UINT64 val) UPDATE (ty_fam s)))"

definition KVSRadixTreeTiny_Get ::
  "'h nvmm \<Rightarrow> bytes \<Rightarrow> bytes \<Rightarrow> nat \<Rightarrow> 'h tiny \<Rightarrow> ('h, int \<times> bytes \<times> nat) tiny_out" where
  "KVSRadixTreeTiny_Get nv key val val_len s =
     (if kMaxKeyLen < length key then Some (Inr (- 1, val, val_len), s)
      else map_option
        (\<lambda>(r, m). (case r of
            Inl f \<Rightarrow> Inl f
          | Inr v \<Rightarrow>
              if length val < 8 then Inl OutOfBounds
              else Inr (if IsValid v then 0 else - 2, memcpy val (UINT64_bytes (tg_nomark v)),
                        tiny_kMaxValLen), s\<lparr>ty_fam := m\<rparr>))
        (get nv (ty_root s) key (ty_fam s)))"

definition KVSRadixTreeTiny_Del :: "'h nvmm \<Rightarrow> bytes \<Rightarrow> 'h tiny \<Rightarrow> ('h, int) tiny_out" where
  "KVSRadixTreeTiny_Del nv key s =
     (if kMaxKeyLen < length key then Some (Inr (- 1), s)
      else map_option
        (\<lambda>(r, m). (map_sum id (\<lambda>old. if IsValid old then 0 else - 2) r, s\<lparr>ty_fam := m\<rparr>))
        (destroy nv (ty_root s) key (ty_fam s)))"

text \<open>\<open>FindOrCreate\<close> of the tiny store does nothing and returns 0.\<close>

definition KVSRadixTreeTiny_FindOrCreate ::
  "bytes \<Rightarrow> bytes \<Rightarrow> bytes \<Rightarrow> nat \<Rightarrow> 'h tiny \<Rightarrow> ('h, int \<times> bytes \<times> nat) tiny_out" where
  "KVSRadixTreeTiny_FindOrCreate key val ret_val ret_len s = Some (Inr (0, ret_val, ret_len), s)"

definition tiny_copy :: "TagGptr \<Rightarrow> bytes \<Rightarrow> fault + bytes \<times> nat" where
  "tiny_copy v val =
     (if length val < 8 then Inl OutOfBounds
      else Inr (memcpy val (UINT64_bytes (tg_nomark v)), tiny_kMaxValLen))"

definition KVSRadixTreeTiny_Scan ::
  "'h nvmm \<Rightarrow> int \<Rightarrow> bytes \<Rightarrow> nat \<Rightarrow> bytes \<Rightarrow> nat \<Rightarrow> bytes \<Rightarrow> bool \<Rightarrow> bytes \<Rightarrow> bool \<Rightarrow> 'h tiny \<Rightarrow>
   ('h, scan_reply) tiny_out" where
  "KVSRadixTreeTiny_Scan nv handle key key_len val val_len bkey binc ekey einc s =
     (let reply = (\<lambda>c h k kl v l. \<lparr>sr_code = c, sr_handle = h, sr_key = k, sr_key_len = kl,
                                   sr_val = v, sr_val_len = l\<rparr>)
      in if kMaxKeyLen < length bkey \<or> kMaxKeyLen < length ekey \<or> kMaxKeyLen < key_len \<or>
            tiny_kMaxValLen < val_len
         then Some (Inr (reply (- 1) handle key key_len val val_len), s)
         else map_option
           (\<lambda>((r, it), m). case r of
              Inl f \<Rightarrow> (Inl f, s\<lparr>ty_fam := m\<rparr>)
            | Inr None \<Rightarrow> (Inr (reply (- 2) handle key key_len val val_len), s\<lparr>ty_fam := m\<rparr>)
            | Inr (Some (k, v)) \<Rightarrow>
                (case tiny_copy v val of
                   Inl f \<Rightarrow> (Inl f, s\<lparr>ty_fam := m\<rparr>)
                 | Inr (data, l) \<Rightarrow>
                     (Inr (reply 0 (int (length (ty_iters s))) (memcpy key k) (length k) data l),
                      s\<lparr>ty_fam := m, ty_iters := ty_iters s @ [it]\<rparr>)))
           (scan nv (ty_root s) Iter_new bkey binc ekey einc (ty_fam s)))"

definition KVSRadixTreeTiny_GetNext ::
  "'h nvmm \<Rightarrow> int \<Rightarrow> bytes \<Rightarrow> nat \<Rightarrow> bytes \<Rightarrow> nat \<Rightarrow> 'h tiny \<Rightarrow> ('h, scan_reply) tiny_out" where
  "KVSRadixTreeTiny_GetNext nv handle key key_len val val_len s =
     (let reply = (\<lambda>c k kl v l. \<lparr>sr_code = c, sr_handle = handle, sr_key = k, sr_key_len = kl,
                                 sr_val = v, sr_val_len = l\<rparr>)
      in if kMaxKeyLen < key_len \<or> tiny_kMaxValLen < val_len \<or> handle < 0 \<or>
            int (length (ty_iters s)) \<le> handle
         then Some (Inr (reply (- 1) key key_len val val_len), s)
         else map_option
           (\<lambda>((r, it), m).
              (let s' = s\<lparr>ty_fam := m, ty_iters := (ty_iters s)[nat handle := it]\<rparr>
               in case r of
                    Inl f \<Rightarrow> (Inl f, s')
                  | Inr None \<Rightarrow> (Inr (reply (- 2) key key_len val val_len), s')
                  | Inr (Some (k, v)) \<Rightarrow>
                      (map_sum id (\<lambda>(data, l). reply 0 (memcpy key k) (length k) data l) (tiny_copy v val), s')))
           (get_next nv (ty_iters s ! nat handle) (ty_fam s)))"

section \<open>The operations for consistent DRAM caching\<close>

definition KVSRadixTreeTiny_PutC ::
  "'h nvmm \<Rightarrow> bytes \<Rightarrow> bytes \<Rightarrow> Gptr \<Rightarrow> TagGptr \<Rightarrow> 'h tiny \<Rightarrow> ('h, int \<times> Gptr \<times> TagGptr) tiny_out" where
  "KVSRadixTreeTiny_PutC nv key val kp vp s =
     (if kMaxKeyLen < length key \<or> tiny_kMaxValLen < length val then Some (Inr (- 1, kp, vp), s)
      else if length val < 8 then Some (Inl OutOfBounds, s)
      else map_option
        (\<lambda>(r, m). (map_sum id (\<lambda>pr. (0, put_key pr, put_new pr)) r, s\<lparr>ty_fam := m\<rparr>))
        (putC nv (ty_root s) key (CHAR2UINT64 val) (ty_fam s)))"

definition KVSRadixTreeTiny_Put_ptr ::
  "Gptr \<Rightarrow> TagGptr \<Rightarrow> bytes \<Rightarrow> 'h tiny \<Rightarrow> ('h, int \<times> TagGptr) tiny_out" where
  "KVSRadixTreeTiny_Put_ptr key_ptr vp val s =
     (if tiny_kMaxValLen < length val then Some (Inr (- 1, vp), s)
      else if length val < 8 then Some (Inl OutOfBounds, s)
      else map_option (\<lambda>(r, m). (map_sum id (\<lambda>(old, new). (0, new)) r, s\<lparr>ty_fam := m\<rparr>))
             (putC_ptr key_ptr (CHAR2UINT64 val) (ty_fam s)))"

definition KVSRadixTreeTiny_GetC ::
  "'h nvmm \<Rightarrow> bytes \<Rightarrow> bytes \<Rightarrow> nat \<Rightarrow> Gptr \<Rightarrow> TagGptr \<Rightarrow> 'h tiny \<Rightarrow>
   ('h, (int \<times> bytes \<times> nat) \<times> Gptr \<times> TagGptr) tiny_out" where
  "KVSRadixTreeTiny_GetC nv key val val_len kp vp s =
     (if kMaxKeyLen < length key then Some (Inr ((- 1, val, val_len), kp, vp), s)
      else map_option
        (\<lambda>(r, m). (case r of
            Inl f \<Rightarrow> Inl f
          | Inr (a, v) \<Rightarrow>
              if gptr_valid a \<and> IsValid v
              then map_sum id (\<lambda>(data, l). ((0, data, l), a, v)) (tiny_copy v val)
              else Inr ((0, val, val_len), a, v), s\<lparr>ty_fam := m\<rparr>))
        (getC nv (ty_root s) key (ty_fam s)))"

definition KVSRadixTreeTiny_Get_ptr ::
  "Gptr \<Rightarrow> TagGptr \<Rightarrow> bytes \<Rightarrow> nat \<Rightarrow> bool \<Rightarrow> 'h tiny \<Rightarrow> fault + (int \<times> bytes \<times> nat) \<times> TagGptr" where
  "KVSRadixTreeTiny_Get_ptr key_ptr vp val val_len get_value s =
     (case getC_ptr key_ptr (ty_fam s) of
        Inl f \<Rightarrow> Inl f
      | Inr cur \<Rightarrow>
          if TagGptr_eq cur vp \<and> \<not> get_value then Inr ((0, val, val_len), vp)
          else map_sum id (\<lambda>(data, l). ((0, data, l), cur)) (tiny_copy cur val))"

definition KVSRadixTreeTiny_DelC ::
  "'h nvmm \<Rightarrow> bytes \<Rightarrow> Gptr \<Rightarrow> TagGptr \<Rightarrow> 'h tiny \<Rightarrow> ('h, int \<times> Gptr \<times> TagGptr) tiny_out" where
  "KVSRadixTreeTiny_DelC nv key kp vp s =
     (if kMaxKeyLen < length key then Some (Inr (- 1, kp, vp), s)
      else map_option (\<lambda>(r, m). (map_sum id (\<lambda>(a, old, new). (0, a, new)) r, s\<lparr>ty_fam := m\<rparr>))
             (destroyC nv (ty_root s) key (ty_fam s)))"

definition KVSRadixTreeTiny_Del_ptr :: "Gptr \<Rightarrow> 'h tiny \<Rightarrow> ('h, int \<times> TagGptr) tiny_out" where
  "KVSRadixTreeTiny_Del_ptr key_ptr s =
     map_option (\<lambda>(r, m). (map_sum id (\<lambda>(old, new). (0, new)) r, s\<lparr>ty_fam := m\<rparr>))
       (destroyC_ptr key_ptr (ty_fam s))"

section \<open>Correctness\<close>

abbreviation ty_cell :: "'h tiny \<Rightarrow> bytes \<Rightarrow> TagGptr" where
  "ty_cell s \<equiv> tree_val (fam_nodes (ty_fam s)) (ty_root s)"

definition tiny_inv :: "'h nvmm \<Rightarrow> 'h tiny \<Rightarrow> bool" where
  "tiny_inv nv s \<longleftrightarrow> nvmm_ok nv \<and> fam_inv nv (ty_root s) (ty_fam s)"

definition tiny_contents :: "'h tiny \<Rightarrow> bytes \<Rightarrow> bytes option" where
  "tiny_contents s k =
     (if IsValid (ty_cell s k) then Some (UINT64_bytes (tg_nomark (ty_cell s k))) else None)"

text \<open>A value the tiny store can tell from no value: eight bytes that are not all zero.\<close>

definition tiny_val :: "bytes \<Rightarrow> bool" where
  "tiny_val v \<longleftrightarrow> length v = 8 \<and> CHAR2UINT64 v \<noteq> 0"

lemma tiny_invD:
  assumes "tiny_inv nv s"
  shows "nvmm_ok nv" "fam_inv nv (ty_root s) (ty_fam s)" "tree_inv (fam_nodes (ty_fam s)) (ty_root s)"
  using assms by (simp_all add: tiny_inv_def fam_inv_def)

lemma tiny_Put_correct:
  assumes inv: "tiny_inv nv s" and key: "key_ok key" and v: "tiny_val val"
  shows "\<exists>r s'. KVSRadixTreeTiny_Put nv key val s = Some (r, s') \<and> tiny_inv nv s' \<and>
    (r = Inr 0 \<or> r = Inl AssertFail) \<and>
    tiny_contents s' = (if r = Inr 0 then (tiny_contents s)(key \<mapsto> val) else tiny_contents s)"
proof -
  note d = tiny_invD [OF inv]
  have len: "length val = 8" "\<not> tiny_kMaxValLen < length val"
    using v by (simp_all add: tiny_val_def tiny_kMaxValLen_def)
  from d(1,2) key show ?thesis
  proof (cases rule: put_correct [where w = "CHAR2UINT64 val" and update = UPDATE])
    case (stored m)
    note w = put_post_cell [OF stored(2)]
    have g: "tg_gptr (put_value UPDATE (CHAR2UINT64 val) (fam_nodes (ty_fam s)) (ty_root s) key) =
        CHAR2UINT64 val" by (simp add: put_value_gptr)
    have "tiny_contents (s\<lparr>ty_fam := m\<rparr>) = (tiny_contents s)(key \<mapsto> val)"
      using w(3) g v UINT64_roundtrip [OF len(1)]
      by (auto simp: tiny_contents_def fun_eq_iff IsValid_def gptr_valid_def tg_nomark_def tiny_val_def)
    with stored(1) w(1) d(1) len key_ok_len(1) [OF key] show ?thesis
      by (simp add: KVSRadixTreeTiny_Put_def tiny_inv_def)
  next
    case (abort m)
    note w = same_tree_cell [OF abort(3)]
    have "tiny_contents (s\<lparr>ty_fam := m\<rparr>) = tiny_contents s"
      using w(2) by (intro ext) (simp add: tiny_contents_def)
    with abort(1) w(1) d(1) len key_ok_len(1) [OF key] show ?thesis
      by (simp add: KVSRadixTreeTiny_Put_def tiny_inv_def)
  qed
qed

lemma tiny_Get_correct:
  assumes inv: "tiny_inv nv s" and key: "key_ok key" and buf: "8 \<le> length val"
  shows "KVSRadixTreeTiny_Get nv key val val_len s = Some (Inr
    (case tiny_contents s key of
       None \<Rightarrow> (- 2, memcpy val (UINT64_bytes 0), 8)
     | Some data \<Rightarrow> (0, memcpy val data, length data)), s)"
  using get_correct [OF tiny_invD(1,3) [OF inv] key] key_ok_len(1) [OF key] buf
  by (auto simp: KVSRadixTreeTiny_Get_def tiny_contents_def tiny_kMaxValLen_def tg_nomark_def
      IsValid_def gptr_valid_def)

lemma tiny_Del_correct:
  assumes inv: "tiny_inv nv s" and key: "key_ok key"
  shows "\<exists>s'. KVSRadixTreeTiny_Del nv key s =
      Some (Inr (if tiny_contents s key = None then - 2 else 0), s') \<and>
    tiny_inv nv s' \<and> tiny_contents s' = (tiny_contents s)(key := None)"
proof -
  note d = tiny_invD [OF inv]
  obtain m where m: "destroy nv (ty_root s) key (ty_fam s) = Some (Inr (ty_cell s key), m)"
    "if \<exists>a. key_at (fam_nodes (ty_fam s)) (ty_root s) key a
     then value_written nv (ty_root s) key (bump 0 (ty_cell s key)) (ty_fam s) m else m = ty_fam s"
    using destroy_correct [OF d(1,2) key] by blast
  have "fam_inv nv (ty_root s) m \<and> tiny_contents (s\<lparr>ty_fam := m\<rparr>) = (tiny_contents s)(key := None)"
  proof (cases "\<exists>a. key_at (fam_nodes (ty_fam s)) (ty_root s) key a")
    case True
    with m(2) have "value_written nv (ty_root s) key (bump 0 (ty_cell s key)) (ty_fam s) m" by simp
    from value_written_cell [OF this] show ?thesis
      by (auto simp: tiny_contents_def fun_eq_iff bump_def)
  next
    case False
    then have "ty_cell s key = TagGptr_default" by (simp add: tree_val_none)
    with m(2) False d(2) show ?thesis by (auto simp: tiny_contents_def fun_eq_iff)
  qed
  with m(1) d(1) key_ok_len(1) [OF key] show ?thesis
    by (auto simp: KVSRadixTreeTiny_Del_def tiny_inv_def tiny_contents_def)
qed

section \<open>Both stores meet the interface\<close>

interpretation radix_kvs: key_value_store "kvs_inv nv" contents key_ok "\<lambda>_. True"
  "KVSRadixTree_Put nv" "KVSRadixTree_Get nv" "KVSRadixTree_Del nv" for nv
proof unfold_locales
  fix s :: "'a kvs" and k v
  assume "kvs_inv nv s" "key_ok k"
  then show "\<exists>r s'. KVSRadixTree_Put nv k v s = Some (r, s') \<and> kvs_inv nv s' \<and>
      contents s' = (if r = Inr 0 then (contents s)(k \<mapsto> v) else contents s)"
    by (rule Put_correct [where val = v]) auto
next
  fix s :: "'a kvs" and k v cap and buf :: bytes
  assume "kvs_inv nv s" "key_ok k" "contents s k = Some v" "length v \<le> cap" "length v \<le> length buf"
  then show "KVSRadixTree_Get nv k buf cap s = Some (Inr (0, memcpy buf v, length v), s)"
    by (simp add: Get_correct)
next
  fix s :: "'a kvs" and k cap and buf :: bytes
  assume "kvs_inv nv s" "key_ok k" "contents s k = None"
  then show "\<exists>c b n. KVSRadixTree_Get nv k buf cap s = Some (Inr (c, b, n), s) \<and> c \<noteq> 0"
    by (simp add: Get_correct)
next
  fix s :: "'a kvs" and k
  assume "kvs_inv nv s" "key_ok k"
  from Del_correct [OF this] show "\<exists>c s'. KVSRadixTree_Del nv k s = Some (Inr c, s') \<and> kvs_inv nv s' \<and>
      contents s' = (contents s)(k := None) \<and> (c = 0) = (contents s k \<noteq> None)" by auto
qed

interpretation tiny_kvs: key_value_store "tiny_inv nv" tiny_contents key_ok tiny_val
  "KVSRadixTreeTiny_Put nv" "KVSRadixTreeTiny_Get nv" "KVSRadixTreeTiny_Del nv" for nv
proof unfold_locales
  fix s :: "'a tiny" and k v
  assume "tiny_inv nv s" "key_ok k" "tiny_val v"
  from tiny_Put_correct [OF this]
  show "\<exists>r s'. KVSRadixTreeTiny_Put nv k v s = Some (r, s') \<and> tiny_inv nv s' \<and>
      tiny_contents s' = (if r = Inr 0 then (tiny_contents s)(k \<mapsto> v) else tiny_contents s)" by blast
next
  fix s :: "'a tiny" and k v cap and buf :: bytes
  assume s: "tiny_inv nv s" "key_ok k" "tiny_contents s k = Some v" "length v \<le> length buf"
  then have "length v = 8" by (auto simp: tiny_contents_def split: if_splits)
  with s show "KVSRadixTreeTiny_Get nv k buf cap s = Some (Inr (0, memcpy buf v, length v), s)"
    by (simp add: tiny_Get_correct)
next
  fix s :: "'a tiny" and k cap and buf :: bytes
  assume "tiny_inv nv s" "key_ok k" "tiny_contents s k = None" "8 \<le> length buf"
  then show "\<exists>c b n. KVSRadixTreeTiny_Get nv k buf cap s = Some (Inr (c, b, n), s) \<and> c \<noteq> 0"
    by (simp add: tiny_Get_correct)
next
  fix s :: "'a tiny" and k
  assume "tiny_inv nv s" "key_ok k"
  from tiny_Del_correct [OF this] show "\<exists>c s'. KVSRadixTreeTiny_Del nv k s = Some (Inr c, s') \<and>
      tiny_inv nv s' \<and> tiny_contents s' = (tiny_contents s)(k := None) \<and>
      (c = 0) = (tiny_contents s k \<noteq> None)" by auto
qed

end
