(* ===== verification/RT_KVS_Scan.thy ===== *)
theory RT_KVS_Scan
  imports RT_KVS_Tiny
begin

text \<open>
  Range scans through the store: \<open>Scan\<close> and \<open>GetNext\<close> of \<open>KVSRadixTree\<close>. A scan followed by
  \<open>GetNext\<close> until it returns -2 delivers exactly the pairs of the range, in key order.
\<close>

section \<open>The pairs of a range\<close>

definition kv_range :: "'h kvs \<Rightarrow> Iter \<Rightarrow> (bytes \<times> bytes) list" where
  "kv_range s it =
     map (\<lambda>(k, v). (k, the (contents s k)))
       (scan_entries (fam_nodes (kv_fam s)) (kv_root s) it)"

lemma kv_range_spec:
  assumes inv: "kvs_inv nv s"
  shows "sorted_wrt lex_less (map fst (kv_range s it))"
    "(k, d) \<in> set (kv_range s it) \<longleftrightarrow> contents s k = Some d \<and> in_range it k"
proof -
  note spec = scan_entries_spec [OF kvs_invD(4) [OF inv]]
  show "sorted_wrt lex_less (map fst (kv_range s it))"
    using spec(1) [of it] by (simp add: kv_range_def comp_def case_prod_beta)
  have "(k, d) \<in> set (kv_range s it) \<longleftrightarrow>
      (\<exists>v. (k, v) \<in> set (scan_entries (fam_nodes (kv_fam s)) (kv_root s) it) \<and> d = the (contents s k))"
    by (force simp: kv_range_def)
  also have "\<dots> \<longleftrightarrow> IsValid (kv_cell s k) \<and> in_range it k \<and> d = the (contents s k)"
    unfolding spec(2) by auto
  finally show "(k, d) \<in> set (kv_range s it) \<longleftrightarrow> contents s k = Some d \<and> in_range it k"
    using contents_None [OF inv, of k] by auto
qed

definition pair_at :: "'h kvs \<Rightarrow> Gptr \<Rightarrow> bytes \<times> bytes" where
  "pair_at s a = (pfx_at (fam_nodes (kv_fam s)) a, the (contents s (pfx_at (fam_nodes (kv_fam s)) a)))"

lemma kv_range_nodes:
  "kv_range s it = map (pair_at s) (range_nodes (fam_nodes (kv_fam s)) (kv_root s) it)"
  by (simp add: kv_range_def scan_entries_def entry_at_def pair_at_def)

lemma node_buffer:
  assumes inv: "kvs_inv nv s" and a: "reach (fam_nodes (kv_fam s)) (kv_root s) a"
    "has_value (fam_nodes (kv_fam s)) a"
  shows "copy_out s (tg_masked (value_at (fam_nodes (kv_fam s)) a)) val val_len =
    Inr (if val_len < length (snd (pair_at s a)) then (- 1, val, length (snd (pair_at s a)))
         else (0, memcpy val (snd (pair_at s a)), length (snd (pair_at s a))))"
proof -
  let ?ns = "fam_nodes (kv_fam s)" and ?k = "pfx_at (fam_nodes (kv_fam s)) a"
  obtain n where n: "?ns a = Some n" by (rule reach_node [OF kvs_invD(4) [OF inv] a(1)])
  have cell: "kv_cell s ?k = value_at ?ns a"
    using tree_val_reach [OF kvs_invD(4) [OF inv] a(1) n] n by (simp add: pfx_at_def value_at_def)
  with a(2) have "IsValid (kv_cell s ?k)" by (simp add: has_value_def)
  then obtain d where "tg_masked (kv_cell s ?k) = tg_gptr (kv_cell s ?k)"
    "kv_bufs s (tg_gptr (kv_cell s ?k)) = Some d" "contents s ?k = Some d"
    by (rule kvs_inv_cell [OF inv])
  then show ?thesis unfolding cell by (simp add: copy_out_def pair_at_def)
qed

lemma deliver_nodes:
  assumes inv: "tree_inv ns root" and it: "iter_ok ns root it" and a: "a \<in> set (to_deliver ns it)"
  shows "reach ns root a \<and> has_value ns a"
proof -
  from a have v: "has_value ns a" and r: "a \<in> set (remaining ns it)" by (simp_all add: to_deliver_def)
  from r it have "it_node it \<noteq> 0" and ch: "chain ns root (it_node it) (path it)"
    by (auto simp: iter_ok_def remaining_def split: if_splits)
  then obtain n where n: "ns (it_node it) = Some n" by (auto elim: chain_node [OF inv])
  have sub: "reach ns g x" if "ns g = Some m" "x \<in> set (kids ns m i 256)" for g m i x
  proof -
    have "x \<in> set (subtree ns g)"
      using that kids_cut [of 0 i 256 ns m] by (cases "i \<le> 256") (auto simp: subtree_node [OF inv that(1)])
    then show ?thesis using set_subtree [OF inv, of g] that(1) tree_inv_nonnull [OF inv that(1)] by auto
  qed
  from r n \<open>it_node it \<noteq> 0\<close> consider "a \<in> set (subtree ns (it_node it))"
    | i where "a \<in> set (kids ns n i 256)" | "a \<in> set (rests ns (path it))"
    by (auto simp: remaining_def split: if_splits)
  then have "reach ns root a"
  proof cases
    case 1
    then have "reach ns (it_node it) a"
      using set_subtree [OF inv, of "it_node it"] n \<open>it_node it \<noteq> 0\<close> by auto
    then show ?thesis using chain_reach [OF ch] by (rule reach_trans)
  next
    case 2
    from sub [OF n this] chain_reach [OF ch] show ?thesis by (rule reach_trans)
  next
    case 3
    then obtain g i where gi: "(g, i) \<in> set (path it)" "a \<in> set (later ns g (i + 1))"
      by (auto simp: rests_def)
    then obtain m where "ns g = Some m" "a \<in> set (kids ns m (i + 1) 256)"
      by (cases "ns g") (auto simp: later_def)
    with chain_slot [OF inv ch gi(1)] sub show ?thesis by (blast intro: reach_trans)
  qed
  with v show ?thesis by simp
qed

section \<open>Scan and GetNext\<close>

definition end_fine :: "'h kvs \<Rightarrow> bytes \<Rightarrow> bool \<Rightarrow> bool" where
  "end_fine s ekey einc \<longleftrightarrow>
     ekey = OPEN_BOUNDARY_STR \<and> \<not> einc \<or> end_ok (fam_nodes (kv_fam s)) (kv_root s) ekey"

text \<open>An iterator of the store that still has to deliver the pairs \<open>ps\<close>.\<close>

definition iter_pairs :: "'h kvs \<Rightarrow> Iter \<Rightarrow> (bytes \<times> bytes) list \<Rightarrow> bool" where
  "iter_pairs s it ps \<longleftrightarrow>
     iter_ok (fam_nodes (kv_fam s)) (kv_root s) it \<and>
     (end_key_open it \<or> end_ok (fam_nodes (kv_fam s)) (kv_root s) (end_key it)) \<and>
     map (pair_at s) (to_deliver (fam_nodes (kv_fam s)) it) = ps"

lemma Scan_correct:
  assumes inv: "kvs_inv nv s" and k: "key_ok bkey" "key_ok ekey" and fine: "end_fine s ekey einc"
    and len: "key_len \<le> kMaxKeyLen" "val_len \<le> kMaxValLen"
    and ps_def: "ps = kv_range s (scan_init bkey binc ekey einc Iter_new)"
  shows "\<exists>it. KVSRadixTree_Scan nv handle key key_len val val_len bkey binc ekey einc s = Some
    (case ps of
       [] \<Rightarrow> (Inr \<lparr>sr_code = - 2, sr_handle = handle, sr_key = key, sr_key_len = key_len,
                   sr_val = val, sr_val_len = val_len\<rparr>, s)
     | (kk, d) # _ \<Rightarrow>
         if val_len < length d
         then (Inr \<lparr>sr_code = - 1, sr_handle = handle, sr_key = memcpy key kk,
                    sr_key_len = length kk, sr_val = val, sr_val_len = length d\<rparr>, s)
         else (Inr \<lparr>sr_code = 0, sr_handle = int (length (kv_iters s)), sr_key = memcpy key kk,
                    sr_key_len = length kk, sr_val = memcpy val d, sr_val_len = length d\<rparr>,
               s\<lparr>kv_iters := kv_iters s @ [it]\<rparr>)) \<and>
    iter_pairs s it (tl ps)"
proof -
  let ?ns = "fam_nodes (kv_fam s)" and ?it = "scan_init bkey binc ekey einc Iter_new"
  note d = kvs_invD [OF inv]
  obtain r it where y: "scan nv (kv_root s) Iter_new bkey binc ekey einc (kv_fam s) =
      Some ((Inr r, it), kv_fam s)" "iter_ok ?ns (kv_root s) it"
    "end_key_open it \<or> end_ok ?ns (kv_root s) (end_key it)"
    "r = (case range_nodes ?ns (kv_root s) ?it of [] \<Rightarrow> None | a # _ \<Rightarrow> Some (entry_at ?ns a))"
    "to_deliver ?ns it = tl (range_nodes ?ns (kv_root s) ?it)"
    using scan_correct [OF d(1,4) k d(3), where einc = einc and binc = binc and ?it0.0 = Iter_new] fine
    unfolding scan_yields_def end_fine_def by auto
  have ip: "iter_pairs s it (tl ps)"
    using y(2,3,5) by (simp add: iter_pairs_def ps_def kv_range_nodes map_tl)
  have lens: "\<not> kMaxKeyLen < length bkey" "\<not> kMaxKeyLen < length ekey" "\<not> kMaxKeyLen < key_len"
    "\<not> kMaxValLen < val_len" using key_ok_len(1) k len by simp_all
  show ?thesis
  proof (cases "range_nodes ?ns (kv_root s) ?it")
    case Nil
    with y(1,4) lens ip show ?thesis
      by (auto simp: KVSRadixTree_Scan_def ps_def kv_range_nodes intro!: exI [of _ it])
  next
    case (Cons a as)
    then have "a \<in> set (range_nodes ?ns (kv_root s) ?it)" by simp
    then have "reach ?ns (kv_root s) a" "has_value ?ns a"
      using tree_nodes(1) [OF d(4)] by (auto simp: range_nodes_def)
    note buf = node_buffer [OF inv this, of val val_len]
    have ps: "ps = pair_at s a # map (pair_at s) as" using Cons by (simp add: ps_def kv_range_nodes)
    have "fst (pair_at s a) = pfx_at ?ns a" by (simp add: pair_at_def)
    with y(1,4) Cons buf lens ip show ?thesis
      by (intro exI [of _ it]) (auto simp: KVSRadixTree_Scan_def ps entry_at_def split: prod.splits)
  qed
qed

lemma GetNext_correct:
  assumes inv: "kvs_inv nv s" and h: "0 \<le> handle" "nat handle < length (kv_iters s)"
    and it: "iter_pairs s (kv_iters s ! nat handle) ps"
    and len: "key_len \<le> kMaxKeyLen" "val_len \<le> kMaxValLen"
  shows "\<exists>it'. KVSRadixTree_GetNext nv handle key key_len val val_len s = Some
    (Inr (case ps of
       [] \<Rightarrow> \<lparr>sr_code = - 2, sr_handle = handle, sr_key = key, sr_key_len = key_len,
              sr_val = val, sr_val_len = val_len\<rparr>
     | (kk, d) # _ \<Rightarrow>
         if val_len < length d
         then \<lparr>sr_code = - 1, sr_handle = handle, sr_key = memcpy key kk,
               sr_key_len = length kk, sr_val = val, sr_val_len = length d\<rparr>
         else \<lparr>sr_code = 0, sr_handle = handle, sr_key = memcpy key kk,
               sr_key_len = length kk, sr_val = memcpy val d, sr_val_len = length d\<rparr>),
     s\<lparr>kv_iters := (kv_iters s)[nat handle := it']\<rparr>) \<and> iter_pairs s it' (tl ps)"
proof -
  let ?ns = "fam_nodes (kv_fam s)" and ?it = "kv_iters s ! nat handle"
  note d = kvs_invD [OF inv]
  from it have io: "iter_ok ?ns (kv_root s) ?it"
    "end_key_open ?it \<or> end_ok ?ns (kv_root s) (end_key ?it)"
    "ps = map (pair_at s) (to_deliver ?ns ?it)" by (auto simp: iter_pairs_def)
  obtain r it' where y: "get_next nv ?it (kv_fam s) = Some ((Inr r, it'), kv_fam s)"
    "iter_ok ?ns (kv_root s) it'" "end_key_open it' \<or> end_ok ?ns (kv_root s) (end_key it')"
    "r = (case to_deliver ?ns ?it of [] \<Rightarrow> None | a # _ \<Rightarrow> Some (entry_at ?ns a))"
    "to_deliver ?ns it' = tl (to_deliver ?ns ?it)"
    using next_value_yields [OF d(1,4) io(1,2), folded get_next_def] unfolding scan_yields_def by auto
  have ip: "iter_pairs s it' (tl ps)" using y(2,3,5) io(3) by (simp add: iter_pairs_def map_tl)
  have lens: "\<not> kMaxKeyLen < key_len" "\<not> kMaxValLen < val_len" "\<not> handle < 0"
    "\<not> int (length (kv_iters s)) \<le> handle" using h len by auto
  show ?thesis
  proof (cases "to_deliver ?ns ?it")
    case Nil
    with y(1,4) lens ip io(3) show ?thesis
      by (intro exI [of _ it']) (simp add: KVSRadixTree_GetNext_def Let_def)
  next
    case (Cons a as)
    then have "a \<in> set (to_deliver ?ns ?it)" by simp
    from deliver_nodes [OF d(4) io(1) this] have "reach ?ns (kv_root s) a" "has_value ?ns a" by simp_all
    note buf = node_buffer [OF inv this, of val val_len]
    have ps: "ps = pair_at s a # map (pair_at s) as" using Cons io(3) by simp
    have "fst (pair_at s a) = pfx_at ?ns a" by (simp add: pair_at_def)
    with y(1,4) Cons buf lens ip show ?thesis
      by (intro exI [of _ it']) (auto simp: KVSRadixTree_GetNext_def Let_def ps entry_at_def split: prod.splits)
  qed
qed

section \<open>A whole scan\<close>

text \<open>
  What a user of the interface does: call \<open>Scan\<close>, then \<open>GetNext\<close> with the handle while the
  return code is 0; buffers of \<open>cap\<close> bytes for the values and of the maximal size for keys.
\<close>

definition reply_pair :: "scan_reply \<Rightarrow> bytes \<times> bytes" where
  "reply_pair r = (take (sr_key_len r) (sr_key r), take (sr_val_len r) (sr_val r))"

fun collect :: "'h nvmm \<Rightarrow> nat \<Rightarrow> int \<Rightarrow> nat \<Rightarrow> 'h kvs \<Rightarrow> (bytes \<times> bytes) list" where
  "collect nv 0 handle cap s = []"
| "collect nv (Suc n) handle cap s =
     (case KVSRadixTree_GetNext nv handle (replicate kMaxKeyLen 0) kMaxKeyLen (replicate cap 0) cap s of
        Some (Inr r, s') \<Rightarrow> if sr_code r = 0 then reply_pair r # collect nv n handle cap s' else []
      | _ \<Rightarrow> [])"

definition scan_all ::
  "'h nvmm \<Rightarrow> nat \<Rightarrow> nat \<Rightarrow> bytes \<Rightarrow> bool \<Rightarrow> bytes \<Rightarrow> bool \<Rightarrow> 'h kvs \<Rightarrow> (bytes \<times> bytes) list" where
  "scan_all nv n cap bkey binc ekey einc s =
     (case KVSRadixTree_Scan nv 0 (replicate kMaxKeyLen 0) kMaxKeyLen (replicate cap 0) cap
             bkey binc ekey einc s of
        Some (Inr r, s') \<Rightarrow> if sr_code r = 0 then reply_pair r # collect nv n (sr_handle r) cap s' else []
      | _ \<Rightarrow> [])"

lemma reply_pair_copy:
  "reply_pair \<lparr>sr_code = c, sr_handle = h, sr_key = memcpy key kk, sr_key_len = length kk,
               sr_val = memcpy val d, sr_val_len = length d\<rparr> = (kk, d)"
  by (simp add: reply_pair_def take_memcpy)

lemma pair_at_iters [simp]: "pair_at (s\<lparr>kv_iters := x\<rparr>) = pair_at s"
  by (simp add: pair_at_def contents_def fun_eq_iff)

lemma iter_pairs_iters [simp]: "iter_pairs (s\<lparr>kv_iters := x\<rparr>) it ps = iter_pairs s it ps"
  by (simp add: iter_pairs_def)

lemma kvs_inv_iters [simp]: "kvs_inv nv (s\<lparr>kv_iters := x\<rparr>) = kvs_inv nv s"
  by (simp add: kvs_inv_def)

lemma collect_correct:
  assumes "kvs_inv nv s" "0 \<le> handle" "nat handle < length (kv_iters s)"
    "iter_pairs s (kv_iters s ! nat handle) ps" "length ps \<le> n"
    "\<And>k d. (k, d) \<in> set ps \<Longrightarrow> length d \<le> cap" "cap \<le> kMaxValLen"
  shows "collect nv n handle cap s = ps"
  using assms
proof (induction n arbitrary: s ps)
  case (Suc n)
  obtain it' where g: "KVSRadixTree_GetNext nv handle (replicate kMaxKeyLen 0) kMaxKeyLen
      (replicate cap 0) cap s = Some (Inr (case ps of
       [] \<Rightarrow> \<lparr>sr_code = - 2, sr_handle = handle, sr_key = replicate kMaxKeyLen 0,
              sr_key_len = kMaxKeyLen, sr_val = replicate cap 0, sr_val_len = cap\<rparr>
     | (kk, d) # _ \<Rightarrow>
         if cap < length d
         then \<lparr>sr_code = - 1, sr_handle = handle, sr_key = memcpy (replicate kMaxKeyLen 0) kk,
               sr_key_len = length kk, sr_val = replicate cap 0, sr_val_len = length d\<rparr>
         else \<lparr>sr_code = 0, sr_handle = handle, sr_key = memcpy (replicate kMaxKeyLen 0) kk,
               sr_key_len = length kk, sr_val = memcpy (replicate cap 0) d, sr_val_len = length d\<rparr>),
      s\<lparr>kv_iters := (kv_iters s)[nat handle := it']\<rparr>)" "iter_pairs s it' (tl ps)"
    using GetNext_correct [OF Suc.prems(1-4), of kMaxKeyLen cap] Suc.prems(7) by blast
  show ?case
  proof (cases ps)
    case Nil
    with g(1) show ?thesis by simp
  next
    case (Cons p qs)
    obtain kk d where p: "p = (kk, d)" by fastforce
    let ?s = "s\<lparr>kv_iters := (kv_iters s)[nat handle := it']\<rparr>"
    have "collect nv n handle cap ?s = qs"
      by (rule Suc.IH) (use Suc.prems g(2) Cons in auto)
    moreover have "\<not> cap < length d" using Suc.prems(6) [of kk d] Cons p by simp
    ultimately show ?thesis using g(1) Cons p by (simp add: reply_pair_copy)
  qed
qed simp

lemma scan_all_correct:
  assumes inv: "kvs_inv nv s" and k: "key_ok bkey" "key_ok ekey" and fine: "end_fine s ekey einc"
    and n: "length (kv_range s (scan_init bkey binc ekey einc Iter_new)) \<le> Suc n"
    and cap: "\<And>k d. contents s k = Some d \<Longrightarrow> length d \<le> cap" "cap \<le> kMaxValLen"
  shows "scan_all nv n cap bkey binc ekey einc s = kv_range s (scan_init bkey binc ekey einc Iter_new)"
proof -
  let ?ps = "kv_range s (scan_init bkey binc ekey einc Iter_new)"
  have fits: "length d \<le> cap" if "(k, d) \<in> set ?ps" for k d
    using that kv_range_spec(2) [OF inv] cap(1) by blast
  note sc = Scan_correct [OF inv k fine order_refl cap(2) refl, of 0 "replicate kMaxKeyLen 0" "replicate cap 0" binc]
  show ?thesis
  proof (cases ?ps)
    case Nil
    with sc cap(2) show ?thesis by (auto simp: scan_all_def)
  next
    case (Cons p qs)
    obtain kk d where p: "p = (kk, d)" by fastforce
    have "\<not> cap < length d" using fits [of kk d] Cons p by simp
    with sc cap(2) Cons p obtain it where it: "iter_pairs s it qs"
      "KVSRadixTree_Scan nv 0 (replicate kMaxKeyLen 0) kMaxKeyLen (replicate cap 0) cap bkey binc ekey einc s =
        Some (Inr \<lparr>sr_code = 0, sr_handle = int (length (kv_iters s)),
          sr_key = memcpy (replicate kMaxKeyLen 0) kk, sr_key_len = length kk,
          sr_val = memcpy (replicate cap 0) d, sr_val_len = length d\<rparr>, s\<lparr>kv_iters := kv_iters s @ [it]\<rparr>)"
      by auto
    have "collect nv n (int (length (kv_iters s))) cap (s\<lparr>kv_iters := kv_iters s @ [it]\<rparr>) = qs"
      by (rule collect_correct) (use inv it(1) n Cons fits cap(2) in auto)
    with it(2) Cons p show ?thesis by (simp add: scan_all_def reply_pair_copy)
  qed
qed

end
