(* ===== verification/RT_KVS_Cached.thy ===== *)
theory RT_KVS_Cached
  imports RT_KVS_Scan
begin

text \<open>
  The operations of \<open>KVSRadixTree\<close> for consistent DRAM caching: what they do to the contents,
  and why a cached value may be used as long as its version did not change. A cache keeps the
  node pointer \<open>key_ptr\<close> of a key, the value cell \<open>val_ptr\<close> and the bytes; \<open>Get\<close> through the
  pointer compares the cell with the cached one.
\<close>

section \<open>Versions\<close>

text \<open>
  The contract of versioned cells: a step keeps the slots of the keys and either leaves a key
  alone or gives its cell the next version. The version is a 64-bit word: it is only good for
  fewer than \<open>2 ^ 64\<close> steps.
\<close>

locale versioned_cells =
  fixes vstep :: "'s \<Rightarrow> 's \<Rightarrow> bool" and slot :: "'s \<Rightarrow> bytes \<Rightarrow> Gptr \<Rightarrow> bool"
    and cell :: "'s \<Rightarrow> bytes \<Rightarrow> TagGptr" and view :: "'s \<Rightarrow> bytes \<Rightarrow> bytes option"
  assumes slot_stays: "vstep s s' \<Longrightarrow> slot s k a \<Longrightarrow> slot s' k a"
    and step_law: "vstep s s' \<Longrightarrow> slot s k a \<Longrightarrow>
      cell s' k = cell s k \<and> view s' k = view s k \<or> tg_tag (cell s' k) = tg_tag (cell s k) + 1"
begin

lemma slot_stays_n: "(vstep ^^ n) s s' \<Longrightarrow> slot s k a \<Longrightarrow> slot s' k a"
  by (induction n arbitrary: s') (auto intro: slot_stays)

lemma version_counts:
  assumes "(vstep ^^ n) s s'" "slot s k a"
  shows "\<exists>j \<le> n. tg_tag (cell s' k) = tg_tag (cell s k) + of_nat j \<and>
    (j = 0 \<longrightarrow> cell s' k = cell s k \<and> view s' k = view s k)"
  using assms(1)
proof (induction n arbitrary: s')
  case (Suc n)
  then obtain s1 where s1: "(vstep ^^ n) s s1" "vstep s1 s'" by auto
  from Suc.IH [OF s1(1)] obtain j where j: "j \<le> n" "tg_tag (cell s1 k) = tg_tag (cell s k) + of_nat j"
    "j = 0 \<longrightarrow> cell s1 k = cell s k \<and> view s1 k = view s k" by blast
  from step_law [OF s1(2) slot_stays_n [OF s1(1) assms(2)]] show ?case
  proof
    assume "cell s' k = cell s1 k \<and> view s' k = view s1 k"
    with j show ?thesis by (intro exI [of _ j]) auto
  next
    assume "tg_tag (cell s' k) = tg_tag (cell s1 k) + 1"
    with j show ?thesis by (intro exI [of _ "Suc j"]) auto
  qed
qed auto

text \<open>An unchanged cell means an unchanged value.\<close>

lemma unchanged:
  assumes "(vstep ^^ n) s s'" "slot s k a" "n < 2 ^ 64" "cell s' k = cell s k"
  shows "view s' k = view s k"
proof -
  obtain j where j: "j \<le> n" "tg_tag (cell s' k) = tg_tag (cell s k) + of_nat j"
    "j = 0 \<longrightarrow> cell s' k = cell s k \<and> view s' k = view s k"
    using version_counts [OF assms(1,2)] by blast
  from j(2) assms(4) have "of_nat j = (0 :: u64)" by simp
  with j(1) assms(3) have "j = 0" by (auto simp: word_of_nat_eq_0_iff dest: dvd_imp_le)
  with j(3) show ?thesis by simp
qed

end

section \<open>The operations by key\<close>

lemma kv_node_valid:
  assumes "kvs_inv nv s" "kv_node s key a"
  shows "gptr_valid a" "a \<noteq> 0"
  using tree_inv_nonnull [OF kvs_invD(4) [OF assms(1)], of a] assms(2)
  by (auto simp: key_at_def gptr_valid_def)

text \<open>\<open>PutC\<close> does what \<open>Put\<close> does and returns the node and the cell of the key.\<close>

lemma PutC_correct:
  assumes inv: "kvs_inv nv s" and key: "key_ok key"
  obtains (stored) a s' where "KVSRadixTree_PutC nv key val kp vp s = Some (Inr (0, a, kv_cell s' key), s')"
      "kvs_inv nv s'" "contents s' = (contents s)(key \<mapsto> val)" "versioned s s'" "kv_node s' key a"
  | (refused) s' where "KVSRadixTree_PutC nv key val kp vp s = Some (Inr (- 1, kp, vp), s')"
      "kvs_inv nv s'" "contents s' = contents s" "versioned s s'"
  | (abort) s' where "KVSRadixTree_PutC nv key val kp vp s = Some (Inl AssertFail, s')"
      "kvs_inv nv s'" "contents s' = contents s" "versioned s s'"
proof -
  note nv = kvs_invD(1) [OF inv] and klen = key_ok_len(1) [OF key]
  obtain r s1 where al: "alloc_value nv val s = (r, s1)" by fastforce
  show thesis
  proof (cases "kMaxValLen < length val")
    case True
    with refused [OF _ inv refl versioned_refl] show thesis by (simp add: KVSRadixTree_PutC_def)
  next
    case len: False
    from nv al show thesis
    proof (cases rule: alloc_value_cases)
      case none
      with kvs_inv_frame [OF inv none(2-5)] refused [of s1] klen len al show thesis
        by (simp add: KVSRadixTree_PutC_def)
    next
      case (block p)
      note ab = alloc_value_block [OF inv block(2,3)]
      from kvs_invD(1,2) [OF ab(1)] key show thesis
      proof (cases rule: putC_correct [where w = p])
        case (stored a m)
        let ?s = "free_old nv (kv_cell s1 key) (s1\<lparr>kv_fam := m\<rparr>)"
        let ?v = "put_value UPDATE p (fam_nodes (kv_fam s1)) (kv_root s1) key"
        have g: "tg_gptr ?v = p" using put_value_gptr [of UPDATE p] by simp
        have t: "tg_tag ?v = tg_tag (kv_cell s1 key) + 1" if "kv_node s1 key b" for b
          using put_value_tag [OF that] by simp
        note st = store_value [OF inv block(2,3) key g t stored(3)]
        have a: "kv_node ?s key a" "kv_cell ?s key = ?v"
          using stored(2) put_post_cell(3) [OF stored(3)] by (simp_all add: free_old_frame)
        have "gptr_valid a" by (rule kv_node_valid(1) [OF st(1) a(1)])
        with that(1) [OF _ st a(1)] a(2) stored(1) block(1) al len klen show thesis
          by (simp add: KVSRadixTree_PutC_def)
      next
        case (abort m)
        note k = cell_keep [OF ab(1) same_tree_post [OF abort(3)]]
        show thesis
          by (rule that(3) [OF _ k(1) _ versioned_alloc [OF block(2,3) inv k(3)]])
            (use abort(1) k(2) ab(2) block(1) al len klen in \<open>simp_all add: KVSRadixTree_PutC_def\<close>)
      qed
    qed
  qed
qed

text \<open>
  \<open>GetC\<close> of a key with a node: the node, the cell, and the bytes when there is a value. A
  missing value is reported with the code 0 and a null cell.
\<close>

lemma copy_out_cell:
  assumes "kvs_inv nv s" "contents s key = Some data"
  shows "IsValid (kv_cell s key)"
    "copy_out s (tg_masked (kv_cell s key)) val val_len =
       Inr (if val_len < length data then (- 1, val, length data) else (0, memcpy val data, length data))"
proof -
  show v: "IsValid (kv_cell s key)" using assms contents_None [OF assms(1), of key] by simp
  from kvs_inv_cell [OF assms(1) this] obtain d where
    "tg_masked (kv_cell s key) = tg_gptr (kv_cell s key)"
    "kv_bufs s (tg_gptr (kv_cell s key)) = Some d" "contents s key = Some d" .
  with assms(2) show "copy_out s (tg_masked (kv_cell s key)) val val_len =
       Inr (if val_len < length data then (- 1, val, length data) else (0, memcpy val data, length data))"
    by (simp add: copy_out_def)
qed

lemma GetC_correct:
  assumes inv: "kvs_inv nv s" and key: "key_ok key" and a: "kv_node s key a"
  shows "KVSRadixTree_GetC nv key val val_len kp vp s = Some (Inr
    (case contents s key of
       None \<Rightarrow> (0, val, val_len)
     | Some data \<Rightarrow> if val_len < length data then (- 1, val, length data)
                     else (0, memcpy val data, length data), a, kv_cell s key), s)"
proof (cases "contents s key")
  case None
  with contents_None [OF inv, of key] getC_found [OF kvs_invD(1,4) [OF inv] key a] key_ok_len(1) [OF key]
  show ?thesis by (simp add: KVSRadixTree_GetC_def)
next
  case (Some data)
  with copy_out_cell [OF inv Some] getC_found [OF kvs_invD(1,4) [OF inv] key a] key_ok_len(1) [OF key]
    kv_node_valid [OF inv a]
  show ?thesis by (simp add: KVSRadixTree_GetC_def)
qed

lemma GetC_state:
  assumes inv: "kvs_inv nv s" and key: "key_ok key"
    and g: "KVSRadixTree_GetC nv key val val_len kp vp s = Some (r, s')"
  shows "s' = s"
proof -
  from getC_found [OF kvs_invD(1,4) [OF inv] key] getC_absent [OF kvs_invD(1,4) [OF inv] key]
    getC_out_of_bounds [OF kvs_invD(1,4) [OF inv] key]
  obtain x where "getC nv (kv_root s) key (kv_fam s) = Some (x, kv_fam s)" by blast
  with g key_ok_len(1) [OF key] show ?thesis by (auto simp: KVSRadixTree_GetC_def)
qed

lemma destroyC_none:
  assumes "nvmm_ok nv" "tree_inv (fam_nodes m) root" "key_ok key" "\<And>a. \<not> key_at (fam_nodes m) root key a"
  shows "destroyC nv root key m = Some (Inr destroy_none, m) \<or> destroyC nv root key m = Some (Inl OutOfBounds, m)"
  using destroyC_walk.walk_none [OF assms(1,2)] destroyC_walk.walk_short [OF assms(1,2,4)] assms(3)
  by (simp add: destroyC_def) blast

lemma DelC_correct:
  assumes inv: "kvs_inv nv s" and key: "key_ok key"
  shows "\<exists>r s'. KVSRadixTree_DelC nv key kp vp s = Some (r, s') \<and> kvs_inv nv s' \<and>
    contents s' = (contents s)(key := None) \<and> versioned s s' \<and>
    (\<forall>a. kv_node s key a \<longrightarrow> r = Inr (0, a, kv_cell s' key))"
proof (cases "\<exists>a. kv_node s key a")
  case True
  then obtain a where a: "kv_node s key a" by blast
  note d = kvs_invD [OF inv]
  obtain m where m: "destroyC nv (kv_root s) key (kv_fam s) =
      Some (Inr (a, kv_cell s key, bump 0 (kv_cell s key)), m)"
    "value_written nv (kv_root s) key (bump 0 (kv_cell s key)) (kv_fam s) m"
    using destroyC_found [OF d(1,2) key a] by blast
  let ?s = "free_old nv (kv_cell s key) (s\<lparr>kv_fam := m\<rparr>)"
  have "kv_cell ?s key = bump 0 (kv_cell s key)"
    using value_written_cell(3) [OF m(2)] by (simp add: free_old_frame)
  with m(1) clear_value [OF inv key m(2)] key_ok_len(1) [OF key] kv_node_valid [OF inv a]
    key_at_unique [OF d(4) a]
  show ?thesis by (simp add: KVSRadixTree_DelC_def)
next
  case False
  then have "contents s key = None" by (simp add: contents_def tree_val_none)
  then have c: "(contents s)(key := None) = contents s" by auto
  from destroyC_none [OF kvs_invD(1,4) [OF inv] key] False key_ok_len(1) [OF key]
  have "\<exists>r. KVSRadixTree_DelC nv key kp vp s = Some (r, s)"
    by (auto simp: KVSRadixTree_DelC_def destroy_none_def gptr_valid_def)
  with inv c False show ?thesis by auto
qed

section \<open>The operations through a node pointer\<close>

lemma putC_ptr_correct:
  assumes "fam_inv nv root m" "key_at (fam_nodes m) root key a"
  shows "\<exists>m'. putC_ptr a p m = Some (Inr (tree_val (fam_nodes m) root key,
      bump p (tree_val (fam_nodes m) root key)), m') \<and>
    value_written nv root key (bump p (tree_val (fam_nodes m) root key)) m m'"
  using update_ptr_correct [OF assms, of p] by (simp add: putC_ptr_def)

lemma Put_ptr_correct:
  assumes inv: "kvs_inv nv s" and key: "key_ok key" and a: "kv_node s key a"
  obtains (stored) s' where "KVSRadixTree_Put_ptr nv a vp val s = Some (Inr (0, kv_cell s' key), s')"
      "kvs_inv nv s'" "contents s' = (contents s)(key \<mapsto> val)" "versioned s s'"
  | (refused) s' where "KVSRadixTree_Put_ptr nv a vp val s = Some (Inr (- 1, vp), s')"
      "kvs_inv nv s'" "contents s' = contents s" "versioned s s'"
proof -
  note nv = kvs_invD(1) [OF inv]
  obtain r s1 where al: "alloc_value nv val s = (r, s1)" by fastforce
  show thesis
  proof (cases "kMaxValLen < length val")
    case True
    with refused [OF _ inv refl versioned_refl] show thesis by (simp add: KVSRadixTree_Put_ptr_def)
  next
    case len: False
    from nv al show thesis
    proof (cases rule: alloc_value_cases)
      case none
      with kvs_inv_frame [OF inv none(2-5)] refused [of s1] len al show thesis
        by (simp add: KVSRadixTree_Put_ptr_def)
    next
      case (block p)
      note ab = alloc_value_block [OF inv block(2,3)]
      from a block(2) have a1: "kv_node s1 key a" by (simp add: value_block_def)
      obtain m where m: "putC_ptr a p (kv_fam s1) = Some (Inr (kv_cell s1 key, bump p (kv_cell s1 key)), m)"
        "value_written nv (kv_root s1) key (bump p (kv_cell s1 key)) (kv_fam s1) m"
        using putC_ptr_correct [OF kvs_invD(2) [OF ab(1)] a1, of p] by blast
      let ?s = "free_old nv (kv_cell s1 key) (s1\<lparr>kv_fam := m\<rparr>)"
      have st: "kvs_inv nv ?s" "contents ?s = (contents s)(key \<mapsto> val)" "versioned s ?s"
        by (rule store_value [OF inv block(2,3) key _ _ value_written_post [OF m(2)]]; simp add: bump_def)+
      have "kv_cell ?s key = bump p (kv_cell s1 key)"
        using value_written_cell(3) [OF m(2)] by (simp add: free_old_frame)
      with that(1) [OF _ st] m(1) block(1) al len show thesis by (simp add: KVSRadixTree_Put_ptr_def)
    qed
  qed
qed

lemma Del_ptr_correct:
  assumes inv: "kvs_inv nv s" and key: "key_ok key" and a: "kv_node s key a"
  shows "\<exists>s'. KVSRadixTree_Del_ptr nv a s = Some (Inr (0, kv_cell s' key), s') \<and> kvs_inv nv s' \<and>
    contents s' = (contents s)(key := None) \<and> versioned s s'"
proof -
  obtain m where m: "update_ptr a 0 (kv_fam s) = Some (Inr (kv_cell s key, bump 0 (kv_cell s key)), m)"
    "value_written nv (kv_root s) key (bump 0 (kv_cell s key)) (kv_fam s) m"
    using update_ptr_correct [OF kvs_invD(2) [OF inv] a, of 0] by blast
  have "kv_cell (free_old nv (kv_cell s key) (s\<lparr>kv_fam := m\<rparr>)) key = bump 0 (kv_cell s key)"
    using value_written_cell(3) [OF m(2)] by (simp add: free_old_frame)
  with m(1) clear_value [OF inv key m(2)] show ?thesis
    by (simp add: KVSRadixTree_Del_ptr_def destroyC_ptr_def)
qed

text \<open>
  \<open>Get\<close> through the pointer: nothing is copied when the cell is the cached one and the value is
  not asked for; else the current value and its cell, or the null cell with code 0.
\<close>

lemma Get_ptr_correct:
  assumes inv: "kvs_inv nv s" and a: "kv_node s key a" and len: "val_len \<le> kMaxValLen"
  shows "KVSRadixTree_Get_ptr a vp val val_len get_value s = Inr
    (if kv_cell s key = vp \<and> \<not> get_value then ((0, val, val_len), vp)
     else case contents s key of
       None \<Rightarrow> ((0, val, val_len), kv_cell s key)
     | Some data \<Rightarrow> if val_len < length data then ((- 1, val, length data), vp)
                     else ((0, memcpy val data, length data), kv_cell s key))"
proof (cases "contents s key")
  case None
  with contents_None [OF inv, of key] getC_ptr_correct [OF kvs_invD(4) [OF inv] a] len
  show ?thesis by (simp add: KVSRadixTree_Get_ptr_def)
next
  case (Some data)
  with copy_out_cell [OF inv Some] getC_ptr_correct [OF kvs_invD(4) [OF inv] a] len
  show ?thesis by (simp add: KVSRadixTree_Get_ptr_def)
qed

section \<open>All calls\<close>

text \<open>
  One call of any operation that can change the store, with whatever it returns. A call
  through a pointer uses the node pointer of a key.
\<close>

inductive kvs_call :: "'h nvmm \<Rightarrow> 'h kvs \<Rightarrow> 'h kvs \<Rightarrow> bool" for nv :: "'h nvmm" where
  call_Put: "key_ok key \<Longrightarrow> KVSRadixTree_Put nv key val s = Some (r, s') \<Longrightarrow> kvs_call nv s s'"
| call_Del: "key_ok key \<Longrightarrow> KVSRadixTree_Del nv key s = Some (r, s') \<Longrightarrow> kvs_call nv s s'"
| call_FindOrCreate: "key_ok key \<Longrightarrow>
    KVSRadixTree_FindOrCreate nv key val ret_val ret_len s = Some (r, s') \<Longrightarrow> kvs_call nv s s'"
| call_PutC: "key_ok key \<Longrightarrow> KVSRadixTree_PutC nv key val kp vp s = Some (r, s') \<Longrightarrow> kvs_call nv s s'"
| call_GetC: "key_ok key \<Longrightarrow>
    KVSRadixTree_GetC nv key val val_len kp vp s = Some (r, s') \<Longrightarrow> kvs_call nv s s'"
| call_DelC: "key_ok key \<Longrightarrow> KVSRadixTree_DelC nv key kp vp s = Some (r, s') \<Longrightarrow> kvs_call nv s s'"
| call_Put_ptr: "key_ok key \<Longrightarrow> kv_node s key a \<Longrightarrow>
    KVSRadixTree_Put_ptr nv a vp val s = Some (r, s') \<Longrightarrow> kvs_call nv s s'"
| call_Del_ptr: "key_ok key \<Longrightarrow> kv_node s key a \<Longrightarrow>
    KVSRadixTree_Del_ptr nv a s = Some (r, s') \<Longrightarrow> kvs_call nv s s'"
| call_Maintenance: "s' = KVSRadixTree_Maintenance nv s \<Longrightarrow> kvs_call nv s s'"

inductive_cases kvs_callE: "kvs_call nv s s'"

lemma Maintenance_versioned: "kvs_inv nv s \<Longrightarrow> versioned s (KVSRadixTree_Maintenance nv s)"
  using Maintenance_correct(2) [of nv s]
  by (intro versioned_quiet) (simp_all add: KVSRadixTree_Maintenance_def)

lemma kvs_call_versioned:
  assumes "kvs_call nv s s'" "kvs_inv nv s"
  shows "kvs_inv nv s' \<and> versioned s s'"
  using assms
proof (cases rule: kvs_call.cases)
  case (call_Put key val r)
  from assms(2) call_Put(1) show ?thesis
    by (cases rule: Put_correct [where val = val]) (use call_Put(2) in auto)
next
  case (call_Del key r)
  with Del_correct [OF assms(2)] show ?thesis by fastforce
next
  case (call_FindOrCreate key val ret_val ret_len r)
  from assms(2) call_FindOrCreate(1) show ?thesis
    by (cases rule: FindOrCreate_correct [where val = val and ret_val = ret_val and ret_len = ret_len])
      (use call_FindOrCreate(2) in auto)
next
  case (call_PutC key val kp vp r)
  from assms(2) call_PutC(1) show ?thesis
    by (cases rule: PutC_correct [where val = val and kp = kp and vp = vp]) (use call_PutC(2) in auto)
next
  case (call_GetC key val val_len kp vp r)
  from GetC_state [OF assms(2) this] assms(2) show ?thesis by simp
next
  case (call_DelC key kp vp r)
  with DelC_correct [OF assms(2)] show ?thesis by (metis option.sel prod.sel(2))
next
  case (call_Put_ptr key a vp val r)
  from assms(2) call_Put_ptr(1,2) show ?thesis
    by (cases rule: Put_ptr_correct [where val = val and vp = vp]) (use call_Put_ptr(3) in auto)
next
  case (call_Del_ptr key a r)
  with Del_ptr_correct [OF assms(2)] show ?thesis by fastforce
next
  case call_Maintenance
  with Maintenance_correct(1) [OF assms(2)] Maintenance_versioned [OF assms(2)] show ?thesis by simp
qed

text \<open>The calls from a well-formed store are versioned steps.\<close>

definition kvs_step :: "'h nvmm \<Rightarrow> 'h kvs \<Rightarrow> 'h kvs \<Rightarrow> bool" where
  "kvs_step nv s s' \<longleftrightarrow> kvs_inv nv s \<and> kvs_call nv s s'"

lemma kvs_calls:
  "(kvs_call nv ^^ n) s s' \<Longrightarrow> kvs_inv nv s \<Longrightarrow> kvs_inv nv s' \<and> (kvs_step nv ^^ n) s s'"
  by (induction n arbitrary: s') (use kvs_call_versioned in \<open>fastforce simp: kvs_step_def\<close>)+

interpretation kvs_cells: versioned_cells "kvs_step nv" kv_node kv_cell contents for nv
proof unfold_locales
  fix s s' :: "'a kvs" and k a
  assume "kvs_step nv s s'" and a: "kv_node s k a"
  then have "versioned s s'" using kvs_call_versioned [of nv s s'] by (simp add: kvs_step_def)
  with a show "kv_node s' k a"
    "kv_cell s' k = kv_cell s k \<and> contents s' k = contents s k \<or>
     tg_tag (kv_cell s' k) = tg_tag (kv_cell s k) + 1"
    unfolding versioned_def by blast+
qed

end
