(* ===== verification/RT_Demo.thy ===== *)
theory RT_Demo
  imports RT_KVS_Cached
begin

text \<open>
  A small concrete tree and a small concrete store on the bump allocator, on which the
  theorems are applied: the keys \<open>a\<close> and \<open>ab\<close> below an empty root.
\<close>

section \<open>A tree\<close>

definition demo_root :: Node where
  "demo_root = zero_node\<lparr>child := (\<lambda>_. 0)(97 := 128)\<rparr>"

definition demo_a :: Node where
  "demo_a = (leaf_node [97] 256)\<lparr>child := (\<lambda>_. 0)(98 := 192)\<rparr>"

definition demo_ab :: Node where
  "demo_ab = leaf_node [97, 98] 320"

definition demo_fam :: "bump_heap fam" where
  "demo_fam =
     \<lparr>fam_nodes = [64 \<mapsto> demo_root, 128 \<mapsto> demo_a, 192 \<mapsto> demo_ab],
      fam_heap = \<lparr>bump_next = 5, bump_live = [320, 256, 192, 128, 64]\<rparr>\<rparr>"

lemma demo_keys [simp]: "key_ok [97]" "key_ok [97, 98]" "key_ok [98]" "key_ok [0]"
  by (simp_all add: key_ok_def MAX_KEY_LEN_def)

lemma demo_pfx: "pfx demo_root = []" "pfx demo_a = [97]" "pfx demo_ab = [97, 98]"
  by (simp_all add: demo_root_def demo_a_def demo_ab_def pfx_def zero_node_def leaf_node_def
      memcpy_def MAX_KEY_LEN_def)

lemma demo_child: "child demo_root = (\<lambda>_. 0)(97 := 128)" "child demo_a = (\<lambda>_. 0)(98 := 192)"
  "child demo_ab = (\<lambda>_. 0)"
  by (simp_all add: demo_root_def demo_a_def demo_ab_def zero_node_def leaf_node_def)

lemma demo_sizes:
  "length (node_key demo_root) = MAX_KEY_LEN" "length (node_key demo_a) = MAX_KEY_LEN"
  "length (node_key demo_ab) = MAX_KEY_LEN" "prefix_size demo_root = 0" "prefix_size demo_a = 1"
  "prefix_size demo_ab = 2"
  by (simp_all add: demo_root_def demo_a_def demo_ab_def zero_node_def leaf_node_def memcpy_def
      MAX_KEY_LEN_def)

lemma demo_inv: "fam_inv bump_nvmm 64 demo_fam" "tree_inv (fam_nodes demo_fam) 64"
proof -
  have "node_ok (fam_nodes demo_fam) demo_root" "node_ok (fam_nodes demo_fam) demo_a"
    "node_ok (fam_nodes demo_fam) demo_ab"
    by (auto simp: node_ok_def demo_sizes demo_child demo_pfx MAX_KEY_LEN_def demo_fam_def
        split: if_splits)
  then show "tree_inv (fam_nodes demo_fam) 64"
    by (auto simp: tree_inv_def demo_fam_def demo_sizes split: if_splits)
  then show "fam_inv bump_nvmm 64 demo_fam"
    by (auto simp: fam_inv_def demo_fam_def bump_nvmm_def)
qed

lemma demo_key_at:
  "key_at (fam_nodes demo_fam) 64 [97] 128" "key_at (fam_nodes demo_fam) 64 [97, 98] 192"
proof -
  have r: "reach (fam_nodes demo_fam) 64 128"
    using reach_edge [of "fam_nodes demo_fam" 64 demo_root 97] by (simp add: demo_fam_def demo_child)
  moreover have "reach (fam_nodes demo_fam) 128 192"
    using reach_edge [of "fam_nodes demo_fam" 128 demo_a 98] by (simp add: demo_fam_def demo_child)
  ultimately have "reach (fam_nodes demo_fam) 64 192" using reach_trans by blast
  with r show "key_at (fam_nodes demo_fam) 64 [97] 128" "key_at (fam_nodes demo_fam) 64 [97, 98] 192"
    by (simp_all add: key_at_def demo_fam_def demo_pfx)
qed

lemma demo_serves: "nvmm_serves bump_nvmm 2 (fam_heap demo_fam)"
  by code_simp

section \<open>A store\<close>

definition demo_mgr :: heap_mgr where
  "demo_mgr = \<lparr>hm_found = False, hm_created = True, hm_found_after = True, hm_opened = True\<rparr>"

definition demo_store0 :: "bump_heap kvs" where
  "demo_store0 = snd (KVSRadixTree_new bump_nvmm demo_mgr 0 bump_fam Map.empty)"

lemma demo_store0_new: "KVSRadixTree_new bump_nvmm demo_mgr 0 bump_fam Map.empty = (Inr 0, demo_store0)"
  by (simp add: demo_store0_def KVSRadixTree_new_def KVSRadixTree_Open_def demo_mgr_def
      RadixTree_create_def bump_nvmm_def bump_alloc_def bump_fam_def gptr_valid_def Let_def)

lemma bump_fam_nodes_ok: "nodes_ok bump_nvmm bump_fam"
  by (simp add: nodes_ok_def bump_fam_def)

lemma demo_store0_inv: "kvs_inv bump_nvmm demo_store0" "contents demo_store0 = (\<lambda>_. None)"
  using Open_new_correct [OF bump_nvmm_ok bump_fam_nodes_ok _ _ _ demo_store0_new]
  by (auto simp: demo_mgr_def)

text \<open>A store over the tree above, with a value buffer for each of its two keys.\<close>

definition demo_store :: "bump_heap kvs" where
  "demo_store =
     \<lparr>kv_fam = demo_fam, kv_bufs = [256 \<mapsto> [1, 2, 3], 320 \<mapsto> [4]], kv_root = 64, kv_iters = []\<rparr>"

lemma demo_cells:
  "tree_val (fam_nodes demo_fam) 64 [97] = mk_TagGptr 256 0"
  "tree_val (fam_nodes demo_fam) 64 [97, 98] = mk_TagGptr 320 0"
  "tree_val (fam_nodes demo_fam) 64 [] = TagGptr_default"
proof -
  have "key_at (fam_nodes demo_fam) 64 [] 64"
    by (simp add: key_at_def demo_fam_def demo_pfx reach.reach_refl)
  from tree_val_at [OF demo_inv(2) this, of demo_root] tree_val_at [OF demo_inv(2) demo_key_at(1), of demo_a]
    tree_val_at [OF demo_inv(2) demo_key_at(2), of demo_ab]
  show "tree_val (fam_nodes demo_fam) 64 [97] = mk_TagGptr 256 0"
    "tree_val (fam_nodes demo_fam) 64 [97, 98] = mk_TagGptr 320 0"
    "tree_val (fam_nodes demo_fam) 64 [] = TagGptr_default"
    by (simp_all add: demo_fam_def demo_root_def demo_a_def demo_ab_def zero_node_def)
qed

lemma demo_valid: "IsValid (tree_val (fam_nodes demo_fam) 64 k) \<Longrightarrow> k = [97] \<or> k = [97, 98]"
proof -
  assume v: "IsValid (tree_val (fam_nodes demo_fam) 64 k)"
  have "\<exists>a. key_at (fam_nodes demo_fam) 64 k a"
    using v tree_val_none [of "fam_nodes demo_fam" 64 k] by fastforce
  then have "k = [] \<or> k = [97] \<or> k = [97, 98]"
    by (auto simp: key_at_def demo_fam_def demo_pfx split: if_splits)
  with v demo_cells(3) show ?thesis by auto
qed

lemma demo_store_inv: "kvs_inv bump_nvmm demo_store"
proof (rule kvs_invI)
  let ?c = "kv_cell demo_store"
  have c: "?c [97] = mk_TagGptr 256 0" "?c [97, 98] = mk_TagGptr 320 0"
    using demo_cells by (simp_all add: demo_store_def)
  have v: "k = [97] \<or> k = [97, 98]" if "IsValid (?c k)" for k
    using demo_valid [of k] that by (simp add: demo_store_def)
  show "\<not> IsValid (?c [])" using v by blast
  show "\<not> bit (tg_gptr (?c k)) 0 \<and> tg_gptr (?c k) \<in> dom (kv_bufs demo_store)" if "IsValid (?c k)" for k
    using v [OF that] c by (auto simp: demo_store_def)
  show "k = k'" if k: "IsValid (?c k)" "tg_gptr (?c k) = tg_gptr (?c k')" for k k'
  proof -
    have "IsValid (?c k')" using k by (simp add: IsValid_def)
    with v [of k] v [of k'] k c show ?thesis by auto
  qed
qed (use bump_nvmm_ok demo_inv in \<open>auto simp: demo_store_def demo_fam_def bump_nvmm_def split: if_splits\<close>)

lemma demo_store_node: "kv_node demo_store [97] 128" "kv_node demo_store [97, 98] 192"
  using demo_key_at by (simp_all add: demo_store_def)

lemma demo_store_contents:
  "contents demo_store = [[97] \<mapsto> [1, 2, 3], [97, 98] \<mapsto> [4]]"
proof
  fix k
  show "contents demo_store k = [[97] \<mapsto> [1, 2, 3], [97, 98] \<mapsto> [4]] k"
    using demo_valid [of k] demo_cells
    by (auto simp: contents_def demo_store_def tg_masked_def gptr_mask_even)
qed

end
