(* ===== verification/RT_Tree_Spec.thy ===== *)
theory RT_Tree_Spec
  imports RT_Demo
begin

text \<open>
  What the radix tree promises to a caller that runs alone, as theorems on the operations of
  \<open>src/src/radix_tree.cc\<close>, each with an application to a concrete tree.
\<close>

section \<open>put, get, destroy\<close>

text \<open>
  C1. \<open>put\<close> on a well-formed tree with room for two nodes returns the cell the key had, and
  afterwards the tree is well formed, holds the new cell at the key (version 0 for a new node,
  one more than before otherwise, and in \<open>FIND_OR_CREATE\<close> mode a valid old cell is kept),
  holds what it held at every other key, and every key node is where it was.
\<close>

theorem put_functional:
  assumes "nvmm_ok nv" "fam_inv nv root m" "key_ok key" "nvmm_serves nv 2 (fam_heap m)"
  shows "\<exists>m'. put nv root key value update m = Some (Inr (tree_val (fam_nodes m) root key), m') \<and>
    fam_inv nv root m' \<and>
    tree_val (fam_nodes m') root = (tree_val (fam_nodes m) root)
      (key := if \<nexists>a. key_at (fam_nodes m) root key a then mk_TagGptr value 0
              else if update = FIND_OR_CREATE \<and> IsValid (tree_val (fam_nodes m) root key)
              then tree_val (fam_nodes m) root key
              else mk_TagGptr value (tg_tag (tree_val (fam_nodes m) root key) + 1)) \<and>
    (\<forall>k a. key_at (fam_nodes m) root k a \<longrightarrow> key_at (fam_nodes m') root k a)"
proof -
  from assms(1-3) show ?thesis
  proof (cases rule: put_correct [where w = "value" and update = update])
    case (stored m')
    then show ?thesis unfolding put_post_def put_value_def bump_def Let_def by blast
  qed (use assms(4) in simp)
qed

theorem put_functional_witness:
  "\<exists>m'. put bump_nvmm 64 [98] 384 UPDATE demo_fam =
      Some (Inr (tree_val (fam_nodes demo_fam) 64 [98]), m') \<and>
    fam_inv bump_nvmm 64 m' \<and>
    tree_val (fam_nodes m') 64 = (tree_val (fam_nodes demo_fam) 64)
      ([98] := if \<nexists>a. key_at (fam_nodes demo_fam) 64 [98] a then mk_TagGptr 384 0
              else if UPDATE = FIND_OR_CREATE \<and> IsValid (tree_val (fam_nodes demo_fam) 64 [98])
              then tree_val (fam_nodes demo_fam) 64 [98]
              else mk_TagGptr 384 (tg_tag (tree_val (fam_nodes demo_fam) 64 [98]) + 1)) \<and>
    (\<forall>k a. key_at (fam_nodes demo_fam) 64 k a \<longrightarrow> key_at (fam_nodes m') 64 k a)"
  by (rule put_functional [OF bump_nvmm_ok demo_inv(1) demo_keys(3) demo_serves])

text \<open>
  C2. Whatever the heap does, \<open>put\<close> returns: with the old cell, or with a failed assertion
  when the heap has no room, and then the tree is well formed, holds what it held and has the
  same key nodes.
\<close>

theorem put_always_returns:
  assumes "nvmm_ok nv" "fam_inv nv root m" "key_ok key"
  shows "\<exists>r m'. put nv root key value update m = Some (r, m') \<and> fam_inv nv root m' \<and>
    (r = Inr (tree_val (fam_nodes m) root key) \<or>
     r = Inl AssertFail \<and> \<not> nvmm_serves nv 2 (fam_heap m) \<and>
     tree_val (fam_nodes m') root = tree_val (fam_nodes m) root \<and>
     key_at (fam_nodes m') root = key_at (fam_nodes m) root)"
  using assms
  by (cases rule: put_correct [where w = "value" and update = update])
    (auto simp: put_post_def same_tree_def)

theorem put_always_returns_witness:
  "\<exists>r m'. put bump_nvmm 64 [97] 384 FIND_OR_CREATE demo_fam = Some (r, m') \<and> fam_inv bump_nvmm 64 m' \<and>
    (r = Inr (tree_val (fam_nodes demo_fam) 64 [97]) \<or>
     r = Inl AssertFail \<and> \<not> nvmm_serves bump_nvmm 2 (fam_heap demo_fam) \<and>
     tree_val (fam_nodes m') 64 = tree_val (fam_nodes demo_fam) 64 \<and>
     key_at (fam_nodes m') 64 = key_at (fam_nodes demo_fam) 64)"
  by (rule put_always_returns [OF bump_nvmm_ok demo_inv(1) demo_keys(1)])

text \<open>
  C3. \<open>get\<close> returns the cell of the key, the null cell with version 0 for a key without a
  node, and does not change the memory.
\<close>

theorem get_functional:
  assumes "nvmm_ok nv" "tree_inv (fam_nodes m) root" "key_ok key"
  shows "get nv root key m = Some (Inr (tree_val (fam_nodes m) root key), m)"
  using assms by (rule get_correct)

theorem get_functional_witness:
  "get bump_nvmm 64 [97, 98] demo_fam = Some (Inr (mk_TagGptr 320 0), demo_fam)"
  using get_functional [OF bump_nvmm_ok demo_inv(2) demo_keys(2)]
    tree_val_at [OF demo_inv(2) demo_key_at(2), of demo_ab]
  by (simp add: demo_fam_def demo_ab_def)

text \<open>
  C4. Round trip: what \<open>put\<close> stored under a key is what \<open>get\<close> reads there, any other key
  reads as before, and after \<open>destroy\<close> the key reads as null.
\<close>

theorem put_get_destroy_roundtrip:
  assumes "nvmm_ok nv" "fam_inv nv root m" "key_ok key" "key_ok key'"
    and "put nv root key value UPDATE m = Some (Inr old, m1)" "value \<noteq> 0"
  shows "\<exists>v m2. get nv root key m1 = Some (Inr v, m1) \<and> tg_gptr v = value \<and> IsValid v \<and>
    (key' \<noteq> key \<longrightarrow> map_option fst (get nv root key' m1) = map_option fst (get nv root key' m)) \<and>
    destroy nv root key m1 = Some (Inr v, m2) \<and>
    (\<exists>v'. get nv root key m2 = Some (Inr v', m2) \<and> \<not> IsValid v')"
proof -
  from assms(1-3) have post: "put_post nv root key (put_value UPDATE value (fam_nodes m) root key) m m1"
    by (cases rule: put_correct [where w = "value" and update = UPDATE]) (use assms(5) in auto)
  let ?v = "put_value UPDATE value (fam_nodes m) root key"
  note p = put_post_cell [OF post]
  note g = get_correct [OF assms(1) fam_invD(1) [OF p(1)]]
  have v: "tg_gptr ?v = value" "IsValid ?v"
    using assms(6) by (simp_all add: put_value_gptr IsValid_def gptr_valid_def)
  have cell: "tree_val (fam_nodes m1) root key = ?v" using p(3) by simp
  obtain m2 where m2: "destroy nv root key m1 = Some (Inr ?v, m2)"
    "if \<exists>a. key_at (fam_nodes m1) root key a
     then value_written nv root key (bump 0 ?v) m1 m2 else m2 = m1"
    using destroy_correct [OF assms(1) p(1) assms(3), unfolded cell] by blast
  have "\<exists>a. key_at (fam_nodes m1) root key a"
    using v(2) p(3) tree_val_none [of "fam_nodes m1" root key] by fastforce
  with m2(2) have w: "value_written nv root key (bump 0 ?v) m1 m2" by simp
  note w' = value_written_cell [OF this]
  from w'(3) get_correct [OF assms(1) fam_invD(1) [OF w'(1)] assms(3)]
  have "get nv root key m2 = Some (Inr (bump 0 ?v), m2)" by simp
  moreover have "\<not> IsValid (bump 0 ?v)" by (simp add: bump_def)
  ultimately show ?thesis
    using g [OF assms(3)] g [OF assms(4)] v m2(1) p(3)
      get_correct [OF assms(1) fam_invD(1) [OF assms(2)] assms(4)] by auto
qed

lemma demo_put: "\<exists>m1. put bump_nvmm 64 [97] 384 UPDATE demo_fam = Some (Inr (mk_TagGptr 256 0), m1)"
proof -
  have "tree_val (fam_nodes demo_fam) 64 [97] = mk_TagGptr 256 0"
    using tree_val_at [OF demo_inv(2) demo_key_at(1), of demo_a]
    by (simp add: demo_fam_def demo_a_def)
  with bump_nvmm_ok demo_inv(1) demo_keys(1) show ?thesis
    by (cases rule: put_correct [where w = 384 and update = UPDATE]) (use demo_serves in auto)
qed

theorem put_get_destroy_roundtrip_witness:
  "\<exists>m1 v m2. put bump_nvmm 64 [97] 384 UPDATE demo_fam = Some (Inr (mk_TagGptr 256 0), m1) \<and>
    get bump_nvmm 64 [97] m1 = Some (Inr v, m1) \<and> tg_gptr v = 384 \<and>
    destroy bump_nvmm 64 [97] m1 = Some (Inr v, m2) \<and>
    (\<exists>v'. get bump_nvmm 64 [97] m2 = Some (Inr v', m2) \<and> \<not> IsValid v')"
proof -
  obtain m1 where m1: "put bump_nvmm 64 [97] 384 UPDATE demo_fam = Some (Inr (mk_TagGptr 256 0), m1)"
    using demo_put by blast
  from put_get_destroy_roundtrip [OF bump_nvmm_ok demo_inv(1) demo_keys(1) demo_keys(2) m1] m1
  show ?thesis by auto
qed

text \<open>
  C5. \<open>destroy\<close> returns the old cell. The node of the key stays; its cell becomes null with
  the next version, and nothing else changes. Without a node nothing changes.
\<close>

theorem destroy_functional:
  assumes "nvmm_ok nv" "fam_inv nv root m" "key_ok key"
  shows "\<exists>m'. destroy nv root key m = Some (Inr (tree_val (fam_nodes m) root key), m') \<and>
    fam_inv nv root m' \<and> key_at (fam_nodes m') root = key_at (fam_nodes m) root \<and>
    tree_val (fam_nodes m') root = (if \<exists>a. key_at (fam_nodes m) root key a
      then (tree_val (fam_nodes m) root)
        (key := mk_TagGptr 0 (tg_tag (tree_val (fam_nodes m) root key) + 1))
      else tree_val (fam_nodes m) root)"
proof -
  obtain m' where m': "destroy nv root key m = Some (Inr (tree_val (fam_nodes m) root key), m')"
    "if \<exists>a. key_at (fam_nodes m) root key a
     then value_written nv root key (bump 0 (tree_val (fam_nodes m) root key)) m m' else m' = m"
    using destroy_correct [OF assms] by blast
  then show ?thesis using assms(2) by (auto simp: value_written_def bump_def split: if_splits)
qed

theorem destroy_functional_witness:
  "\<exists>m'. destroy bump_nvmm 64 [97] demo_fam = Some (Inr (tree_val (fam_nodes demo_fam) 64 [97]), m') \<and>
    fam_inv bump_nvmm 64 m' \<and> key_at (fam_nodes m') 64 = key_at (fam_nodes demo_fam) 64 \<and>
    tree_val (fam_nodes m') 64 = (if \<exists>a. key_at (fam_nodes demo_fam) 64 [97] a
      then (tree_val (fam_nodes demo_fam) 64)
        ([97] := mk_TagGptr 0 (tg_tag (tree_val (fam_nodes demo_fam) 64 [97]) + 1))
      else tree_val (fam_nodes demo_fam) 64)"
  by (rule destroy_functional [OF bump_nvmm_ok demo_inv(1) demo_keys(1)])

section \<open>The operations for the DRAM cache\<close>

text \<open>
  C6. The node pointer that \<open>putC\<close> returns is a shortcut to the key for good: after any further
  \<open>put\<close> of any key, reading through the pointer is reading the key, and updating through it
  is updating the key and nothing else.
\<close>

theorem key_ptr_shortcut:
  assumes "nvmm_ok nv" "fam_inv nv root m" "key_ok key" "key_ok key'"
    and "putC nv root key value m = Some (Inr r, m1)"
    and "put nv root key' value' update m1 = Some (Inr old, m2)"
  shows "getC_ptr (put_key r) m2 = Inr (tree_val (fam_nodes m2) root key) \<and>
    get nv root key m2 = Some (Inr (tree_val (fam_nodes m2) root key), m2) \<and>
    (\<exists>m3 new. putC_ptr (put_key r) w m2 = Some (Inr (tree_val (fam_nodes m2) root key, new), m3) \<and>
       fam_inv nv root m3 \<and> tg_gptr new = w \<and>
       tree_val (fam_nodes m3) root = (tree_val (fam_nodes m2) root)(key := new))"
proof -
  from assms(1-3) have a1: "key_at (fam_nodes m1) root key (put_key r)" and i1: "fam_inv nv root m1"
    by (cases rule: putC_correct [where w = "value"], use assms(5) in \<open>auto simp: put_post_def\<close>)+
  from assms(1) i1 assms(4) have a2: "key_at (fam_nodes m2) root key (put_key r)"
    and i2: "fam_inv nv root m2"
    by (cases rule: put_correct [where w = value' and update = update],
        use assms(6) a1 in \<open>auto simp: put_post_def\<close>)+
  let ?c = "tree_val (fam_nodes m2) root key"
  obtain m3 where m3: "update_ptr (put_key r) w m2 = Some (Inr (?c, bump w ?c), m3)"
    "value_written nv root key (bump w ?c) m2 m3"
    using update_ptr_correct [OF i2 a2] by blast
  from getC_ptr_correct [OF fam_invD(1) [OF i2] a2] get_correct [OF assms(1) fam_invD(1) [OF i2] assms(3)]
    m3(1) value_written_cell [OF m3(2)] show ?thesis
    by (auto simp: putC_ptr_def bump_def)
qed

lemma demo_putC:
  "\<exists>r m1 old m2. putC bump_nvmm 64 [97] 384 demo_fam = Some (Inr r, m1) \<and>
    put bump_nvmm 64 [97, 98] 448 FIND_OR_CREATE m1 = Some (Inr old, m2)"
proof -
  have s: "\<exists>r m1. putC bump_nvmm 64 [97] 384 demo_fam = Some (Inr r, m1) \<and> fam_inv bump_nvmm 64 m1 \<and>
      key_at (fam_nodes m1) 64 [97, 98] 192 \<and>
      tree_val (fam_nodes m1) 64 [97, 98] = tree_val (fam_nodes demo_fam) 64 [97, 98]"
    by (rule putC_correct [OF bump_nvmm_ok demo_inv(1) demo_keys(1), of 384])
      (use demo_serves demo_key_at(2) in \<open>auto simp: put_post_def\<close>)
  then obtain r m1 where m1: "putC bump_nvmm 64 [97] 384 demo_fam = Some (Inr r, m1)"
    "fam_inv bump_nvmm 64 m1" "key_at (fam_nodes m1) 64 [97, 98] 192" by blast
  have "\<exists>m2. put bump_nvmm 64 [97, 98] 448 FIND_OR_CREATE m1 =
      Some (Inr (tree_val (fam_nodes m1) 64 [97, 98]), m2)"
  proof -
    obtain r' m' where r: "run (put_step bump_nvmm [97, 98] 448 FIND_OR_CREATE) (put_init 64) m1 = Some (r', m')"
      "put_effect bump_nvmm 64 [97, 98] 448 FIND_OR_CREATE m1 r' m'"
      using put_run [OF bump_nvmm_ok m1(2) demo_keys(2)] by blast
    from m1(3) have ex: "\<exists>a. key_at (fam_nodes m1) 64 [97, 98] a" by blast
    from r(2) obtain a v where
      "r' = Inr \<lparr>put_key = a, put_old = tree_val (fam_nodes m1) 64 [97, 98], put_new = v\<rparr>"
      unfolding put_effect_def if_P [OF ex] Let_def by blast
    with r(1) show ?thesis by (simp add: put_def)
  qed
  with m1(1) show ?thesis by blast
qed

theorem key_ptr_shortcut_witness:
  "\<exists>r m1 old m2. putC bump_nvmm 64 [97] 384 demo_fam = Some (Inr r, m1) \<and>
    put bump_nvmm 64 [97, 98] 448 FIND_OR_CREATE m1 = Some (Inr old, m2) \<and>
    getC_ptr (put_key r) m2 = Inr (tree_val (fam_nodes m2) 64 [97])"
proof -
  obtain r m1 old m2 where m: "putC bump_nvmm 64 [97] 384 demo_fam = Some (Inr r, m1)"
    "put bump_nvmm 64 [97, 98] 448 FIND_OR_CREATE m1 = Some (Inr old, m2)" using demo_putC by blast
  from key_ptr_shortcut [OF bump_nvmm_ok demo_inv(1) demo_keys(1,2) m] m show ?thesis by blast
qed

text \<open>
  C7. \<open>getC\<close> by key, on every tree: the node and its cell for a key with a node; the null pair
  when no prefix of the tree extends the key; and for a key without a node that is a proper
  prefix of some node's prefix it reads the key buffer past its end, where \<open>get\<close> returns null.
\<close>

theorem getC_exactly:
  assumes "nvmm_ok nv" "tree_inv (fam_nodes m) root" "key_ok key"
  shows "getC nv root key m = Some
    (if \<exists>a. key_at (fam_nodes m) root key a
     then Inr (THE a. key_at (fam_nodes m) root key a, tree_val (fam_nodes m) root key)
     else if \<exists>a n. reach (fam_nodes m) root a \<and> fam_nodes m a = Some n \<and> prefix key (pfx n)
     then Inl OutOfBounds
     else Inr (0, TagGptr_default), m)"
proof (cases "\<exists>a. key_at (fam_nodes m) root key a")
  case True
  then obtain a where a: "key_at (fam_nodes m) root key a" by blast
  from getC_found [OF assms a] key_at_the [OF assms(2) a] True show ?thesis by simp
next
  case False
  show ?thesis
  proof (cases "\<exists>a. extends (fam_nodes m) root key a")
    case True
    with False getC_out_of_bounds [OF assms] show ?thesis by (auto simp: extends_def)
  next
    case none: False
    with False getC_absent [OF assms] show ?thesis by (auto simp: extends_def)
  qed
qed

text \<open>A tree whose only key is \<open>ab\<close>; the key \<open>a\<close> ends inside of the node's prefix.\<close>

definition demo_fam2 :: "bump_heap fam" where
  "demo_fam2 =
     \<lparr>fam_nodes = [64 \<mapsto> zero_node\<lparr>child := (\<lambda>_. 0)(97 := 192)\<rparr>, 192 \<mapsto> demo_ab],
      fam_heap = \<lparr>bump_next = 3, bump_live = [192, 64]\<rparr>\<rparr>"

lemma demo2_inv: "tree_inv (fam_nodes demo_fam2) 64" "fam_inv bump_nvmm 64 demo_fam2"
proof -
  have "node_ok (fam_nodes demo_fam2) (zero_node\<lparr>child := (\<lambda>_. 0)(97 := 192)\<rparr>)"
    "node_ok (fam_nodes demo_fam2) demo_ab"
    by (auto simp: node_ok_def demo_sizes demo_child demo_pfx MAX_KEY_LEN_def demo_fam2_def zero_node_def
        pfx_def [of "\<lparr>node_key = _, prefix_size = 0, child = _, node_value = _\<rparr>"] split: if_splits)
  then show "tree_inv (fam_nodes demo_fam2) 64"
    by (auto simp: tree_inv_def demo_fam2_def zero_node_def split: if_splits)
  then show "fam_inv bump_nvmm 64 demo_fam2" by (auto simp: fam_inv_def demo_fam2_def bump_nvmm_def)
qed

theorem getC_exactly_witness:
  "getC bump_nvmm 64 [97] demo_fam2 = Some (Inl OutOfBounds, demo_fam2) \<and>
   getC bump_nvmm 64 [97, 98] demo_fam2 = Some (Inr (192, mk_TagGptr 320 0), demo_fam2)"
proof -
  have r: "reach (fam_nodes demo_fam2) 64 x \<longleftrightarrow> x = 64 \<or> x = 192" for x
    using reach_inner [of "fam_nodes demo_fam2" 64 "zero_node\<lparr>child := (\<lambda>_. 0)(97 := 192)\<rparr>" "{192}" x]
      reach_leaf [of "fam_nodes demo_fam2" 192 demo_ab x]
    by (auto simp: demo_fam2_def demo_child zero_node_def split: if_splits)
  have n: "fam_nodes demo_fam2 64 = Some (zero_node\<lparr>child := (\<lambda>_. 0)(97 := 192)\<rparr>)"
    "fam_nodes demo_fam2 192 = Some demo_ab" "pfx (zero_node\<lparr>child := (\<lambda>_. 0)(97 := 192)\<rparr>) = []"
    by (simp_all add: demo_fam2_def pfx_def zero_node_def)
  have k: "\<not> key_at (fam_nodes demo_fam2) 64 [97] a" "key_at (fam_nodes demo_fam2) 64 [97, 98] 192" for a
    using r n demo_pfx by (auto simp: key_at_def)
  have "\<exists>a n. reach (fam_nodes demo_fam2) 64 a \<and> fam_nodes demo_fam2 a = Some n \<and> prefix [97] (pfx n)"
    using r n demo_pfx(3) by (intro exI [of _ 192] exI [of _ demo_ab]) simp
  with getC_exactly [OF bump_nvmm_ok demo2_inv(1) demo_keys(1)] k(1)
  have "getC bump_nvmm 64 [97] demo_fam2 = Some (Inl OutOfBounds, demo_fam2)" by simp
  moreover have "getC bump_nvmm 64 [97, 98] demo_fam2 = Some (Inr (192, mk_TagGptr 320 0), demo_fam2)"
    using getC_exactly [OF bump_nvmm_ok demo2_inv(1) demo_keys(2)] k(2)
      key_at_the [OF demo2_inv(1) k(2)] tree_val_at [OF demo2_inv(1) k(2) n(2)]
    by (auto simp: demo_ab_def)
  ultimately show ?thesis by simp
qed

section \<open>Constructor, list, structure\<close>

text \<open>
  C8. The constructor with root 0, on any well-formed memory, either asserts or makes a
  well-formed tree in which every key reads as the null cell; with a root it changes nothing.
\<close>

theorem create_empty_tree:
  assumes "nvmm_ok nv" "nodes_ok nv m" "RadixTree_create nv root m = (r, m')"
  shows "(root \<noteq> 0 \<longrightarrow> r = Inr root \<and> m' = m) \<and>
    (root = 0 \<longrightarrow> r = Inl AssertFail \<and> fam_nodes m' = fam_nodes m \<or>
       (\<exists>p. r = Inr p \<and> fam_inv nv p m' \<and> (\<forall>k. tree_val (fam_nodes m') p k = TagGptr_default)))"
proof (cases "root = 0")
  case True
  with assms(3) have c: "RadixTree_create nv 0 m = (r, m')" by simp
  from assms(1) c show ?thesis
    by (cases rule: RadixTree_create_cases) (use True RadixTree_create_empty [OF assms(1,2)] c in auto)
next
  case False
  with assms(3) show ?thesis by (simp add: RadixTree_create_def)
qed

theorem create_empty_tree_witness:
  "\<exists>m'. RadixTree_create bump_nvmm 0 bump_fam = (Inr 64, m') \<and> fam_inv bump_nvmm 64 m' \<and>
    (\<forall>k. tree_val (fam_nodes m') 64 k = TagGptr_default)"
proof -
  have "fst (RadixTree_create bump_nvmm 0 bump_fam) = Inr 64" by code_simp
  then obtain m' where m': "RadixTree_create bump_nvmm 0 bump_fam = (Inr 64, m')"
    by (cases "RadixTree_create bump_nvmm 0 bump_fam") simp
  from create_empty_tree [OF bump_nvmm_ok bump_fam_nodes_ok m'] m' show ?thesis by auto
qed

text \<open>
  C9. \<open>list\<close> returns; it calls the visitor exactly once for every key whose value is valid, in
  lexicographic order of the keys, and its counters are the numbers of values and of nodes.
\<close>

theorem list_complete:
  assumes "tree_inv (fam_nodes m) root"
  shows "\<exists>acc. list_tree root m = Some (Inr acc) \<and>
    sorted_wrt lex_less (map fst (la_calls acc)) \<and>
    (\<forall>k p. (k, p) \<in> set (la_calls acc) \<longleftrightarrow>
       IsValid (tree_val (fam_nodes m) root k) \<and> p = tg_nomark (tree_val (fam_nodes m) root k)) \<and>
    la_value_cnt acc = length (la_calls acc) \<and>
    la_node_cnt acc = card {a. reach (fam_nodes m) root a} \<and> la_level acc = 0"
proof -
  let ?ns = "fam_nodes m"
  obtain acc where acc: "list_tree root m = Some (Inr acc)" "la_level acc = 0"
    "la_node_cnt acc = length (subtree ?ns root)" "la_value_cnt acc = length (la_calls acc)"
    "la_calls acc = map (\<lambda>a. (pfx_at ?ns a, tg_nomark (value_at ?ns a)))
       (filter (has_value ?ns) (subtree ?ns root))"
    by (rule list_tree_spec [OF assms])
  note t = tree_nodes [OF assms]
  have "sorted_wrt lex_less (map fst (la_calls acc))"
    using sorted_wrt_filter [OF t(2)] by (simp add: acc(5) comp_def sorted_wrt_map)
  moreover have "(k, p) \<in> set (la_calls acc) \<longleftrightarrow>
      (\<exists>v. (k, v) \<in> set (map (\<lambda>a. (pfx_at ?ns a, value_at ?ns a)) (filter (has_value ?ns) (subtree ?ns root)))
        \<and> p = tg_nomark v)" for k p
    unfolding acc(5) by force
  then have "(k, p) \<in> set (la_calls acc) \<longleftrightarrow>
      IsValid (tree_val ?ns root k) \<and> p = tg_nomark (tree_val ?ns root k)" for k p
    unfolding valued_nodes [OF assms] by auto
  moreover have "la_node_cnt acc = card {a. reach ?ns root a}"
    using acc(3) t(1,3) distinct_card by metis
  ultimately show ?thesis using acc(1,2,4) by blast
qed

theorem list_complete_witness:
  "\<exists>acc. list_tree 64 demo_fam = Some (Inr acc) \<and>
    sorted_wrt lex_less (map fst (la_calls acc)) \<and>
    (\<forall>k p. (k, p) \<in> set (la_calls acc) \<longleftrightarrow>
       IsValid (tree_val (fam_nodes demo_fam) 64 k) \<and> p = tg_nomark (tree_val (fam_nodes demo_fam) 64 k)) \<and>
    la_value_cnt acc = length (la_calls acc) \<and>
    la_node_cnt acc = card {a. reach (fam_nodes demo_fam) 64 a} \<and> la_level acc = 0"
  by (rule list_complete [OF demo_inv(2)])



section \<open>Range scans\<close>


lemma demo_root_unused: "\<not> IsValid (tree_val (fam_nodes demo_fam) 64 [])"
proof -
  have "key_at (fam_nodes demo_fam) 64 [] 64"
    by (simp add: key_at_def demo_fam_def demo_pfx reach.reach_refl)
  from tree_val_at [OF demo_inv(2) this, of demo_root] show ?thesis
    by (simp add: demo_fam_def demo_root_def zero_node_def)
qed


text \<open>
  C12. The end key's byte is widened from the signed type \<open>char\<close>: a scan from the open begin
  key to an end key that starts with the byte 255 finds nothing, whatever the tree holds.
\<close>

theorem scan_end_255_finds_nothing:
  assumes "nvmm_ok nv" "tree_inv (fam_nodes m) root" "\<not> IsValid (tree_val (fam_nodes m) root [])"
    and "length rest < MAX_KEY_LEN" "\<not> end_key_inclusive it0"
  shows "\<exists>it. scan nv root it0 [0] False (255 # rest) True m = Some ((Inr None, it), m)"
proof -
  obtain n where n: "fam_nodes m root = Some n" "prefix_size n = 0" "pfx n = []" "root \<noteq> 0"
    by (rule tree_inv_root [OF assms(2)])
  have "key_at (fam_nodes m) root [] root" using n by (simp add: key_at_def reach.reach_refl)
  from tree_val_at [OF assms(2) this n(1)] assms(3) have nv0: "\<not> IsValid (node_value n)" by simp
  let ?it = "scan_init [0] False (255 # rest) True it0"
  let ?it1 = "?it\<lparr>it_node := root, next_pos := 0, it_value := TagGptr_default\<rparr>"
  have f: "begin_key_open ?it" "\<not> end_key_open ?it" "path ?it = []" "it_key ?it = []"
    "end_key ?it = 255 # rest"
    using assms(5) by (simp_all add: scan_init_def OPEN_BOUNDARY_STR_def)
  have k: "key_ok [0]" "key_ok (255 # rest)" using assms(4) by (simp_all add: key_ok_def MAX_KEY_LEN_def)
  have low: "run (lower_step nv) ?it1 m = Some ((Inr True, ?it1), m)"
    by (rule run_Ret) (use n f in \<open>simp add: lower_step_def Let_def\<close>)
  have hi: "upper_end 255 = 0" by code_simp
  have cmp: "nv_memcmp nv (255 # rest) (node_key n) 0 = 0"
    using nv_memcmp_iff(1) [OF assms(1)] by simp
  have "search_children n 1 0 = Exhausted" by (simp add: search_children_def)
  then have "\<exists>it. next_step nv ?it1 m = (Ret (Inr False, it), m)"
    using n f nv0 hi cmp by (simp add: next_step_def next_border_def Let_def)
  then obtain it where "next_step nv ?it1 m = (Ret (Inr False, it), m)" by blast
  from run_Ret [of "next_step nv", OF this]
  have "lower_bound nv root ?it m = Some ((Inr False, it), m)"
    using f low by (simp add: lower_bound_def next_value_def)
  then have "scan nv root it0 [0] False (255 # rest) True m = Some ((Inr None, it), m)"
    using k f(1) by (simp add: scan_def Let_def scan_result_def)
  then show ?thesis by blast
qed

theorem scan_end_255_finds_nothing_witness:
  "(\<exists>it. scan bump_nvmm 64 Iter_new [0] False [255] True demo_fam = Some ((Inr None, it), demo_fam)) \<and>
   lex_less [97, 98] [255] \<and> IsValid (tree_val (fam_nodes demo_fam) 64 [97, 98])"
proof -
  have "\<exists>it. scan bump_nvmm 64 Iter_new [0] False [255] True demo_fam = Some ((Inr None, it), demo_fam)"
    using scan_end_255_finds_nothing [OF bump_nvmm_ok demo_inv(2) demo_root_unused, of "[]" Iter_new]
    by (simp add: MAX_KEY_LEN_def Iter_new_def)
  moreover have "lex_less [97, 98] [255]" by code_simp
  moreover have "IsValid (tree_val (fam_nodes demo_fam) 64 [97, 98])"
    using tree_val_at [OF demo_inv(2) demo_key_at(2), of demo_ab] by (simp add: demo_fam_def demo_ab_def)
  ultimately show ?thesis by blast
qed


end
