(* ===== verification/RT_KVS_Spec.thy ===== *)
theory RT_KVS_Spec
  imports RT_Demo
begin

text \<open>
  What the key-value stores over the radix tree promise to a caller that runs alone, as
  theorems on the operations of \<open>src/src/kvs_radix_tree.cc\<close> and
  \<open>src/src/kvs_radix_tree_tiny.cc\<close>, each with an application to a concrete store.
\<close>

section \<open>The stores are maps\<close>

text \<open>
  C14. A store made by the constructor in fresh memory is the empty map, and every sequence of
  \<open>Put\<close> and \<open>Del\<close> calls on it returns and acts on the map call by call: a \<open>Put\<close> that returns
  0 stores the value, any other \<open>Put\<close> changes nothing, a \<open>Del\<close> removes the key. \<open>Get\<close> then
  reads that map, with the codes 0, -1 (buffer too small, the needed size is returned) and -2.
\<close>

theorem store_refines_map:
  assumes "nvmm_ok nv" "nodes_ok nv m" "hm_opened mg"
    and "KVSRadixTree_new nv mg 0 m Map.empty = (Inr r, s)"
    and "\<And>c. c \<in> set cs \<Longrightarrow> key_ok (cmd_key c)" "key_ok key"
  shows "\<exists>rs s'. kv_exec (KVSRadixTree_Put nv) (KVSRadixTree_Del nv) cs s = Some (rs, s') \<and>
    length rs = length cs \<and> kvs_inv nv s' \<and>
    KVSRadixTree_Get nv key buf cap s' = Some (Inr
      (case fold kv_apply (zip cs rs) (\<lambda>_. None) key of
         None \<Rightarrow> (- 2, buf, cap)
       | Some data \<Rightarrow> if cap < length data then (- 1, buf, length data)
                       else (0, memcpy buf data, length data)), s')"
proof -
  from Open_new_correct [OF assms(1-3) _ _ assms(4)]
  have s: "kvs_inv nv s" "contents s = (\<lambda>_. None)" by simp_all
  have "good_cmd key_ok (\<lambda>_. True) c" if "c \<in> set cs" for c using assms(5) [OF that] by (cases c) simp_all
  from radix_kvs.exec_refines [OF s(1) this] obtain rs s' where
    s': "kv_exec (KVSRadixTree_Put nv) (KVSRadixTree_Del nv) cs s = Some (rs, s')" "kvs_inv nv s'"
      "length rs = length cs" "contents s' = fold kv_apply (zip cs rs) (contents s)" by blast
  with Get_correct [OF s'(2) assms(6), of buf cap] s(2) show ?thesis by auto
qed

theorem store_refines_map_witness:
  "\<exists>rs s'. kv_exec (KVSRadixTree_Put bump_nvmm) (KVSRadixTree_Del bump_nvmm)
      [CPut [97] [1, 2], CPut [97, 98] [3], CDel [97]] demo_store0 = Some (rs, s') \<and>
    length rs = length [CPut [97] [1, 2], CPut [97, 98] [3], CDel [97]] \<and> kvs_inv bump_nvmm s' \<and>
    KVSRadixTree_Get bump_nvmm [97, 98] [0, 0] 2 s' = Some (Inr
      (case fold kv_apply (zip [CPut [97] [1, 2], CPut [97, 98] [3], CDel [97]] rs) (\<lambda>_. None) [97, 98] of
         None \<Rightarrow> (- 2, [0, 0], 2)
       | Some data \<Rightarrow> if 2 < length data then (- 1, [0, 0], length data)
                       else (0, memcpy [0, 0] data, length data)), s')"
  by (rule store_refines_map [OF bump_nvmm_ok bump_fam_nodes_ok _ demo_store0_new])
    (auto simp: demo_mgr_def)



section \<open>Scans\<close>



section \<open>Consistent caching\<close>




section \<open>Opening again, bad arguments\<close>





section \<open>The tiny store\<close>

text \<open>
  C20. The tiny store is a map to values of eight bytes that are not all zero: any sequence of
  \<open>Put\<close> and \<open>Del\<close> calls returns and acts on the map call by call, and \<open>Get\<close> reads it.
\<close>

theorem tiny_store_refines_map:
  assumes "tiny_inv nv s" "\<And>c. c \<in> set cs \<Longrightarrow> good_cmd key_ok tiny_val c" "key_ok key" "8 \<le> length buf"
  shows "\<exists>rs s'. kv_exec (KVSRadixTreeTiny_Put nv) (KVSRadixTreeTiny_Del nv) cs s = Some (rs, s') \<and>
    length rs = length cs \<and> tiny_inv nv s' \<and>
    KVSRadixTreeTiny_Get nv key buf cap s' = Some (Inr
      (case fold kv_apply (zip cs rs) (tiny_contents s) key of
         None \<Rightarrow> (- 2, memcpy buf (UINT64_bytes 0), 8)
       | Some data \<Rightarrow> (0, memcpy buf data, length data)), s')"
proof -
  from tiny_kvs.exec_refines [OF assms(1,2)] obtain rs s' where
    s': "kv_exec (KVSRadixTreeTiny_Put nv) (KVSRadixTreeTiny_Del nv) cs s = Some (rs, s')" "tiny_inv nv s'"
      "length rs = length cs" "tiny_contents s' = fold kv_apply (zip cs rs) (tiny_contents s)" by blast
  from s'(1-3) tiny_Get_correct [OF s'(2) assms(3,4), of cap] show ?thesis by (auto simp: s'(4))
qed

definition demo_tiny :: "bump_heap tiny" where
  "demo_tiny = \<lparr>ty_fam = demo_fam, ty_root = 64, ty_iters = []\<rparr>"

lemma demo_tiny_inv: "tiny_inv bump_nvmm demo_tiny"
  using bump_nvmm_ok demo_inv by (simp add: tiny_inv_def demo_tiny_def)

theorem tiny_store_refines_map_witness:
  "\<exists>rs s'. kv_exec (KVSRadixTreeTiny_Put bump_nvmm) (KVSRadixTreeTiny_Del bump_nvmm)
      [CPut [97] [1, 2, 3, 4, 5, 6, 7, 8], CDel [97, 98]] demo_tiny = Some (rs, s') \<and>
    length rs = length [CPut [97] [1, 2, 3, 4, 5, 6, 7, 8], CDel [97, 98]] \<and> tiny_inv bump_nvmm s' \<and>
    KVSRadixTreeTiny_Get bump_nvmm [97] (replicate 8 0) 8 s' = Some (Inr
      (case fold kv_apply (zip [CPut [97] [1, 2, 3, 4, 5, 6, 7, 8], CDel [97, 98]] rs) (tiny_contents demo_tiny) [97] of
         None \<Rightarrow> (- 2, memcpy (replicate 8 0) (UINT64_bytes 0), 8)
       | Some data \<Rightarrow> (0, memcpy (replicate 8 0) data, length data)), s')"
proof -
  have "tiny_val [1, 2, 3, 4, 5, 6, 7, 8]" unfolding tiny_val_def by code_simp
  then show ?thesis by (intro tiny_store_refines_map demo_tiny_inv) auto
qed

text \<open>
  C21. Eight zero bytes are not a value of the tiny store: \<open>Put\<close> of them returns 0, as for any
  value, and afterwards \<open>Get\<close> returns -2, as for a key that was deleted.
\<close>

theorem tiny_zero_value_lost:
  assumes "tiny_inv nv s" "key_ok key" "KVSRadixTreeTiny_Put nv key (replicate 8 0) s = Some (r, s')"
    and "8 \<le> length buf"
  shows "r = Inl AssertFail \<or>
    r = Inr 0 \<and> KVSRadixTreeTiny_Get nv key buf cap s' = Some (Inr (- 2, memcpy buf (UINT64_bytes 0), 8), s')"
proof -
  note d = tiny_invD [OF assms(1)]
  have z: "CHAR2UINT64 (replicate 8 0) = 0" by code_simp
  from d(1,2) assms(2) show ?thesis
  proof (cases rule: put_correct [where w = 0 and update = UPDATE])
    case (stored m)
    then have s': "r = Inr 0" "s' = s\<lparr>ty_fam := m\<rparr>"
      using assms(3) z key_ok_len(1) [OF assms(2)] by (auto simp: KVSRadixTreeTiny_Put_def tiny_kMaxValLen_def)
    note w = put_post_cell [OF stored(2)]
    have "tg_gptr (ty_cell s' key) = 0"
      using w(3) s'(2) put_value_gptr [of UPDATE 0 "fam_nodes (ty_fam s)" "ty_root s" key] by simp
    then have "tiny_contents s' key = None" by (simp add: tiny_contents_def IsValid_def gptr_valid_def)
    moreover have "tiny_inv nv s'" using w(1) d(1) s'(2) by (simp add: tiny_inv_def)
    ultimately show ?thesis using tiny_Get_correct [OF _ assms(2,4), of nv s' cap] s'(1) by simp
  next
    case (abort m)
    with assms(3) z key_ok_len(1) [OF assms(2)] show ?thesis
      by (auto simp: KVSRadixTreeTiny_Put_def tiny_kMaxValLen_def)
  qed
qed

lemma demo_tiny_zero: "\<exists>s'. KVSRadixTreeTiny_Put bump_nvmm [97] (replicate 8 0) demo_tiny = Some (Inr 0, s')"
proof -
  have z: "CHAR2UINT64 (replicate 8 0) = 0" by code_simp
  from bump_nvmm_ok demo_inv(1) demo_keys(1) show ?thesis
    by (cases rule: put_correct [where w = 0 and update = UPDATE])
      (use demo_serves z in \<open>auto simp: KVSRadixTreeTiny_Put_def tiny_kMaxValLen_def demo_tiny_def
        kMaxKeyLen_def MAX_KEY_LEN_def\<close>)
qed

theorem tiny_zero_value_lost_witness:
  "\<exists>s'. KVSRadixTreeTiny_Put bump_nvmm [97] (replicate 8 0) demo_tiny = Some (Inr 0, s') \<and>
    KVSRadixTreeTiny_Get bump_nvmm [97] (replicate 8 1) 8 s' =
      Some (Inr (- 2, memcpy (replicate 8 1) (UINT64_bytes 0), 8), s')"
proof -
  obtain s' where s': "KVSRadixTreeTiny_Put bump_nvmm [97] (replicate 8 0) demo_tiny = Some (Inr 0, s')"
    using demo_tiny_zero by blast
  from tiny_zero_value_lost [OF demo_tiny_inv demo_keys(1) s', of "replicate 8 1" 8] s' show ?thesis by auto
qed

end
