(* ===== verification/SO_Keys.thy ===== *)
theory SO_Keys
  imports RT_Common
begin

text \<open>
  The arithmetic of the split-ordered list (\<open>src/src/split_ordered.cc\<close>): the bit-reversal
  macros, the keys of regular and of dummy nodes, the parent of a bucket, and the order they
  put on the list: a bucket's dummy comes before every key of the bucket, and before the
  dummies of the buckets that split off from it.
\<close>

section \<open>Bit reversal\<close>

text \<open>\<open>REVERSE_BYTE\<close>: the argument is cut to 32 bits, the constants are 64 bits wide.\<close>

definition REVERSE_BYTE :: "u64 \<Rightarrow> u64" where
  "REVERSE_BYTE x =
     (let b = ucast (ucast x :: 32 word) :: u64
      in drop_bit 16 (((b * 0x0802 AND 0x22110) OR (b * 0x8020 AND 0x88440)) * 0x10101) AND 0xff)"

definition REVERSE :: "u64 \<Rightarrow> u64" where
  "REVERSE x =
     push_bit 56 (REVERSE_BYTE (x AND 0xff)) OR
     push_bit 48 (REVERSE_BYTE (drop_bit 8 x AND 0xff)) OR
     push_bit 40 (REVERSE_BYTE (drop_bit 16 x AND 0xff)) OR
     push_bit 32 (REVERSE_BYTE (drop_bit 24 x AND 0xff)) OR
     push_bit 24 (REVERSE_BYTE (drop_bit 32 x AND 0xff)) OR
     push_bit 16 (REVERSE_BYTE (drop_bit 40 x AND 0xff)) OR
     push_bit 8 (REVERSE_BYTE (drop_bit 48 x AND 0xff)) OR
     REVERSE_BYTE (drop_bit 56 x AND 0xff)"

definition MSB :: u64 where
  "MSB = push_bit 63 1"

text \<open>\<open>CityHash64\<close> is a library: a parameter \<open>city\<close>.\<close>

definition Hash64 :: "(bytes \<Rightarrow> u64) \<Rightarrow> bytes \<Rightarrow> u64" where
  "Hash64 city key = city key AND NOT MSB"

definition so_regularkey :: "u64 \<Rightarrow> u64" where
  "so_regularkey lkey = REVERSE (lkey OR MSB)"

definition so_dummykey :: "u64 \<Rightarrow> u64" where
  "so_dummykey lkey = REVERSE lkey"

definition get_parent :: "u64 \<Rightarrow> u64" where
  "get_parent bucket =
     (let t = bucket;
          t = t OR drop_bit 1 t;
          t = t OR drop_bit 2 t;
          t = t OR drop_bit 4 t;
          t = t OR drop_bit 8 t;
          t = t OR drop_bit 16 t;
          t = t OR drop_bit 32 t
      in bucket AND drop_bit 1 t)"

section \<open>The macro reverses the bits\<close>

lemma reverse_all_bytes:
  "list_all (\<lambda>n. uint (REVERSE_BYTE (of_int n)) = horner_sum of_bool 2 (map (bit n) (rev [0..<8])))
     (map int [0..<256])"
  by code_simp

lemma mask8: "(0xff :: u64) = mask 8"
  by (simp add: mask_eq_exp_minus_1)

lemma REVERSE_BYTE_high: "8 \<le> i \<Longrightarrow> \<not> bit (REVERSE_BYTE x) i"
  by (simp add: REVERSE_BYTE_def bit_and_iff mask8 bit_mask_iff Let_def)

lemma REVERSE_BYTE_bit: "bit (REVERSE_BYTE (drop_bit n x AND 0xff)) i \<longleftrightarrow> i < 8 \<and> bit x (n + 7 - i)"
proof (cases "i < 8")
  case True
  let ?w = "drop_bit n x AND 0xff"
  have u: "uint ?w \<in> set (map int [0..<256])"
  proof -
    have "?w = take_bit 8 (drop_bit n x)" by (simp add: mask8 take_bit_eq_mask)
    then have "uint ?w = take_bit 8 (uint (drop_bit n x))" by (simp add: unsigned_take_bit_eq)
    then have "0 \<le> uint ?w" "uint ?w < 256" by (simp_all add: take_bit_eq_mod)
    then show ?thesis by (simp add: image_int_atLeastLessThan)
  qed
  have "uint (REVERSE_BYTE (of_int (uint ?w))) = horner_sum of_bool 2 (map (bit (uint ?w)) (rev [0..<8]))"
    using reverse_all_bytes u unfolding list_all_iff by blast
  then have "bit (uint (REVERSE_BYTE ?w)) i = bit (uint ?w) (7 - i)"
    using True by (simp add: bit_horner_sum_bit_iff rev_nth)
  then have "bit (REVERSE_BYTE ?w) i = bit (uint ?w) (7 - i)"
    using True by (simp add: bit_uint_iff)
  also have "\<dots> = bit ?w (7 - i)" using True by (auto simp: bit_uint_iff)
  also have "\<dots> = bit x (n + 7 - i)"
    using True by (auto simp: bit_and_iff bit_drop_bit_eq mask8 bit_mask_iff)
  finally show ?thesis using True by simp
qed (simp add: REVERSE_BYTE_high)

lemma REVERSE_part:
  assumes "n + k = 56"
  shows "bit (push_bit n (REVERSE_BYTE (drop_bit k x AND 0xff))) i \<longleftrightarrow> n \<le> i \<and> i < n + 8 \<and> bit x (63 - i)"
proof (cases "n \<le> i \<and> i < n + 8")
  case True
  with assms have "k + 7 - (i - n) = 63 - i" "i < 64" by simp_all
  with True show ?thesis by (auto simp: bit_push_bit_iff REVERSE_BYTE_bit)
qed (auto simp: bit_push_bit_iff REVERSE_BYTE_bit)

lemma bit_REVERSE: "bit (REVERSE x) i \<longleftrightarrow> i < 64 \<and> bit x (63 - i)"
proof -
  have p0: "bit (push_bit 56 (REVERSE_BYTE (drop_bit 0 x AND 0xff))) i \<longleftrightarrow>
      56 \<le> i \<and> i < 56 + 8 \<and> bit x (63 - i)" by (rule REVERSE_part) simp
  have p1: "bit (push_bit 48 (REVERSE_BYTE (drop_bit 8 x AND 0xff))) i \<longleftrightarrow>
      48 \<le> i \<and> i < 48 + 8 \<and> bit x (63 - i)" by (rule REVERSE_part) simp
  have p2: "bit (push_bit 40 (REVERSE_BYTE (drop_bit 16 x AND 0xff))) i \<longleftrightarrow>
      40 \<le> i \<and> i < 40 + 8 \<and> bit x (63 - i)" by (rule REVERSE_part) simp
  have p3: "bit (push_bit 32 (REVERSE_BYTE (drop_bit 24 x AND 0xff))) i \<longleftrightarrow>
      32 \<le> i \<and> i < 32 + 8 \<and> bit x (63 - i)" by (rule REVERSE_part) simp
  have p4: "bit (push_bit 24 (REVERSE_BYTE (drop_bit 32 x AND 0xff))) i \<longleftrightarrow>
      24 \<le> i \<and> i < 24 + 8 \<and> bit x (63 - i)" by (rule REVERSE_part) simp
  have p5: "bit (push_bit 16 (REVERSE_BYTE (drop_bit 40 x AND 0xff))) i \<longleftrightarrow>
      16 \<le> i \<and> i < 16 + 8 \<and> bit x (63 - i)" by (rule REVERSE_part) simp
  have p6: "bit (push_bit 8 (REVERSE_BYTE (drop_bit 48 x AND 0xff))) i \<longleftrightarrow>
      8 \<le> i \<and> i < 8 + 8 \<and> bit x (63 - i)" by (rule REVERSE_part) simp
  have p7: "bit (push_bit 0 (REVERSE_BYTE (drop_bit 56 x AND 0xff))) i \<longleftrightarrow>
      0 \<le> i \<and> i < 0 + 8 \<and> bit x (63 - i)" by (rule REVERSE_part) simp
  have "REVERSE x = push_bit 56 (REVERSE_BYTE (drop_bit 0 x AND 0xff)) OR
     push_bit 48 (REVERSE_BYTE (drop_bit 8 x AND 0xff)) OR
     push_bit 40 (REVERSE_BYTE (drop_bit 16 x AND 0xff)) OR
     push_bit 32 (REVERSE_BYTE (drop_bit 24 x AND 0xff)) OR
     push_bit 24 (REVERSE_BYTE (drop_bit 32 x AND 0xff)) OR
     push_bit 16 (REVERSE_BYTE (drop_bit 40 x AND 0xff)) OR
     push_bit 8 (REVERSE_BYTE (drop_bit 48 x AND 0xff)) OR
     push_bit 0 (REVERSE_BYTE (drop_bit 56 x AND 0xff))"
    by (simp only: REVERSE_def drop_bit_0 push_bit_0_id id_apply)
  then have "bit (REVERSE x) i \<longleftrightarrow> 56 \<le> i \<and> i < 56 + 8 \<and> bit x (63 - i) \<or> 48 \<le> i \<and> i < 48 + 8 \<and> bit x (63 - i) \<or> 40 \<le> i \<and> i < 40 + 8 \<and> bit x (63 - i) \<or> 32 \<le> i \<and> i < 32 + 8 \<and> bit x (63 - i) \<or> 24 \<le> i \<and> i < 24 + 8 \<and> bit x (63 - i) \<or> 16 \<le> i \<and> i < 16 + 8 \<and> bit x (63 - i) \<or> 8 \<le> i \<and> i < 8 + 8 \<and> bit x (63 - i) \<or> 0 \<le> i \<and> i < 0 + 8 \<and> bit x (63 - i)"
    by (simp only: bit_or_iff p0 p1 p2 p3 p4 p5 p6 p7 disj_assoc)
  moreover have "i < 64 \<longleftrightarrow> 56 \<le> i \<and> i < 56 + 8 \<or> 48 \<le> i \<and> i < 48 + 8 \<or> 40 \<le> i \<and> i < 40 + 8 \<or> 32 \<le> i \<and> i < 32 + 8 \<or> 24 \<le> i \<and> i < 24 + 8 \<or> 16 \<le> i \<and> i < 16 + 8 \<or> 8 \<le> i \<and> i < 8 + 8 \<or> 0 \<le> i \<and> i < 0 + 8"
    by linarith
  ultimately show ?thesis by blast
qed

lemma REVERSE_inj [simp]: "REVERSE a = REVERSE b \<longleftrightarrow> a = b"
proof
  assume eq: "REVERSE a = REVERSE b"
  show "a = b"
  proof (rule bit_word_eqI)
    fix i assume "i < LENGTH(64)"
    then have "bit (REVERSE a) (63 - i) = bit a i" "bit (REVERSE b) (63 - i) = bit b i"
      by (auto simp: bit_REVERSE)
    with eq show "bit a i = bit b i" by simp
  qed
qed simp

lemma REVERSE_and: "REVERSE (a AND b) = REVERSE a AND REVERSE b"
  by (rule bit_word_eqI) (auto simp: bit_REVERSE bit_and_iff)

lemma REVERSE_0 [simp]: "REVERSE 0 = 0"
  by (rule bit_word_eqI) (simp add: bit_REVERSE)

section \<open>The order of the keys\<close>

lemma bit_MSB [simp]: "bit MSB i \<longleftrightarrow> i = 63"
  unfolding MSB_def bit_push_bit_iff bit_1_iff by auto

lemma bit_Hash64 [simp]: "bit (Hash64 city key) i \<longleftrightarrow> bit (city key) i \<and> i < 63"
proof -
  have "i < 64" if "bit (city key) i" using that bit_imp_le_length by fastforce
  moreover have "i < 63 \<longleftrightarrow> i < 64 \<and> i \<noteq> 63" by linarith
  ultimately show ?thesis unfolding Hash64_def bit_and_iff bit_not_iff bit_MSB by auto
qed

text \<open>Regular keys are odd, dummy keys of buckets are even.\<close>

lemma so_key_parity: "bit (so_regularkey l) 0" "\<not> bit b 63 \<Longrightarrow> \<not> bit (so_dummykey b) 0"
  by (simp_all add: so_regularkey_def so_dummykey_def bit_REVERSE bit_or_iff)

lemma so_keys_differ: "\<not> bit b 63 \<Longrightarrow> so_dummykey b \<noteq> so_regularkey l"
  using so_key_parity [of l] so_key_parity(2) [of b] by metis

lemma so_regularkey_inj:
  assumes "\<not> bit a 63" "\<not> bit b 63"
  shows "so_regularkey a = so_regularkey b \<longleftrightarrow> a = b"
proof
  assume "so_regularkey a = so_regularkey b"
  then have "a OR MSB = b OR MSB" by (simp add: so_regularkey_def)
  then have "bit a i = bit b i" for i using assms by (cases "i = 63") (metis bit_or_iff bit_MSB)+
  then show "a = b" by (simp add: bit_eq_iff)
qed simp

text \<open>The dummy of a bucket comes before every key that falls into the bucket.\<close>

lemma dummy_before_regular:
  assumes "k < 64"
  shows "so_dummykey (take_bit k l) < so_regularkey l"
proof -
  have "take_bit k l = (l OR MSB) AND mask k"
    by (rule bit_word_eqI) (use assms in \<open>auto simp: bit_take_bit_iff bit_and_iff bit_or_iff bit_mask_iff\<close>)
  then have "so_dummykey (take_bit k l) = so_regularkey l AND REVERSE (mask k)"
    by (simp add: so_dummykey_def so_regularkey_def REVERSE_and)
  then have "so_dummykey (take_bit k l) \<le> so_regularkey l" by (simp add: word_and_le2)
  moreover have "\<not> bit (take_bit k l) 63" using assms by (simp add: bit_take_bit_iff)
  ultimately show ?thesis using so_keys_differ [of "take_bit k l" l] by simp
qed

text \<open>\<open>get_parent\<close> removes the highest bit.\<close>

lemma spread_bits:
  fixes t b :: u64
  assumes "\<And>i. bit t i \<longleftrightarrow> (\<exists>d < n. bit b (i + d))"
  shows "bit (t OR drop_bit n t) i \<longleftrightarrow> (\<exists>d < n + n. bit b (i + d))"
proof
  assume "bit (t OR drop_bit n t) i"
  then consider d where "d < n" "bit b (i + d)" | d where "d < n" "bit b (n + i + d)"
    using assms by (auto simp: bit_or_iff bit_drop_bit_eq)
  then show "\<exists>d < n + n. bit b (i + d)"
  proof cases
    case (1 d)
    then show ?thesis by (intro exI [of _ d]) simp
  next
    case (2 d)
    then show ?thesis by (intro exI [of _ "n + d"]) (simp add: ac_simps)
  qed
next
  assume "\<exists>d < n + n. bit b (i + d)"
  then obtain d where d: "d < n + n" "bit b (i + d)" by blast
  show "bit (t OR drop_bit n t) i"
  proof (cases "d < n")
    case True
    with d assms show ?thesis by (auto simp: bit_or_iff)
  next
    case False
    with d have "d - n < n" "bit b (n + i + (d - n))" by simp_all
    with assms [of "n + i"] show ?thesis by (auto simp: bit_or_iff bit_drop_bit_eq)
  qed
qed

lemma bit_get_parent: "bit (get_parent b) i \<longleftrightarrow> bit b i \<and> (\<exists>j > i. bit b j)"
proof -
  have "\<exists>t. get_parent b = b AND drop_bit 1 t \<and> (\<forall>i. bit t i \<longleftrightarrow> (\<exists>d < 64. bit b (i + d)))"
  proof -
    define t1 where "t1 = b OR drop_bit 1 b"
    define t2 where "t2 = t1 OR drop_bit 2 t1"
    define t4 where "t4 = t2 OR drop_bit 4 t2"
    define t8 where "t8 = t4 OR drop_bit 8 t4"
    define t16 where "t16 = t8 OR drop_bit 16 t8"
    define t32 where "t32 = t16 OR drop_bit 32 t16"
    have "bit t1 i \<longleftrightarrow> (\<exists>d < 2. bit b (i + d))" for i
      using spread_bits [of b 1 b i] unfolding t1_def by (simp add: numeral_2_eq_2)
    then have "bit t2 i \<longleftrightarrow> (\<exists>d < 2 + 2. bit b (i + d))" for i
      unfolding t2_def by (intro spread_bits) simp
    then have "bit t4 i \<longleftrightarrow> (\<exists>d < 4 + 4. bit b (i + d))" for i
      unfolding t4_def by (intro spread_bits) simp
    then have "bit t8 i \<longleftrightarrow> (\<exists>d < 8 + 8. bit b (i + d))" for i
      unfolding t8_def by (intro spread_bits) simp
    then have "bit t16 i \<longleftrightarrow> (\<exists>d < 16 + 16. bit b (i + d))" for i
      unfolding t16_def by (intro spread_bits) simp
    then have "bit t32 i \<longleftrightarrow> (\<exists>d < 32 + 32. bit b (i + d))" for i
      unfolding t32_def by (intro spread_bits) simp
    moreover have "get_parent b = b AND drop_bit 1 t32"
      unfolding get_parent_def Let_def t32_def t16_def t8_def t4_def t2_def t1_def ..
    ultimately show ?thesis by auto
  qed
  then obtain t where t: "get_parent b = b AND drop_bit 1 t" "\<And>i. bit t i \<longleftrightarrow> (\<exists>d < 64. bit b (i + d))" by blast
  have "(\<exists>d < 64. bit b (Suc i + d)) \<longleftrightarrow> (\<exists>j > i. bit b j)"
  proof
    assume "\<exists>j > i. bit b j"
    then obtain j where j: "i < j" "bit b j" by blast
    then have "j < 64" using bit_imp_le_length by fastforce
    with j show "\<exists>d < 64. bit b (Suc i + d)" by (intro exI [of _ "j - Suc i"]) auto
  qed (metis add_Suc less_add_Suc1)
  with t show ?thesis by (auto simp: bit_and_iff bit_drop_bit_eq)
qed

lemma highest_bit:
  fixes b :: u64
  assumes "b \<noteq> 0"
  shows "\<exists>i. bit b i \<and> (\<forall>j. bit b j \<longrightarrow> j \<le> i)"
proof -
  have ex: "\<exists>i. bit b i" using assms by (auto simp: bit_eq_iff)
  have bd: "\<And>i. bit b i \<Longrightarrow> i \<le> 64" using bit_imp_le_length by fastforce
  from ex bd have "bit b (GREATEST i. bit b i)" by (rule GreatestI_ex_nat)
  with Greatest_le_nat [of "bit b" _ 64] bd show ?thesis by blast
qed

lemma get_parent_less: "b \<noteq> 0 \<Longrightarrow> get_parent b < b"
proof -
  assume "b \<noteq> 0"
  then obtain i where i: "bit b i" "\<And>j. bit b j \<Longrightarrow> j \<le> i" using highest_bit by blast
  then have "\<not> bit (get_parent b) i" by (auto simp: bit_get_parent dest: leD)
  with i(1) have "get_parent b \<noteq> b" by metis
  moreover have "get_parent b \<le> b" by (simp add: get_parent_def Let_def word_and_le2)
  ultimately show ?thesis by simp
qed

lemma parent_before_child:
  assumes "b \<noteq> 0"
  shows "so_dummykey (get_parent b) < so_dummykey b"
proof -
  define m where "m = REVERSE (drop_bit 1 (let t = b; t = t OR drop_bit 1 t; t = t OR drop_bit 2 t;
    t = t OR drop_bit 4 t; t = t OR drop_bit 8 t; t = t OR drop_bit 16 t in t OR drop_bit 32 t))"
  have "so_dummykey (get_parent b) = so_dummykey b AND m"
    unfolding so_dummykey_def get_parent_def m_def Let_def REVERSE_and ..
  then have "so_dummykey (get_parent b) \<le> so_dummykey b" by (simp add: word_and_le2)
  moreover have "so_dummykey (get_parent b) \<noteq> so_dummykey b"
    using get_parent_less [OF assms] by (simp add: so_dummykey_def)
  ultimately show ?thesis by simp
qed

end
