(* ===== verification/SO_List.thy ===== *)
theory SO_List
  imports SO_Keys RT_Heap "HOL-Library.Monad_Syntax"
begin

text \<open>
  The split-ordered list, \<open>class SplitOrderedList\<close> of \<open>src/src/split_ordered.cc\<close>: one linked
  list sorted by bit-reversed keys, and a table of buckets that point to dummy nodes inside
  of the list. Deleted nodes are first marked in the lowest bit of their \<open>next\<close> cell and then
  unlinked. All accesses go through tagged 128-bit cells.
\<close>

section \<open>Memory\<close>

record so_node =
  byte_key :: bytes
  byte_key_size :: nat
  so_key :: u64
  so_value :: u64
  so_next :: TagGptr

definition BYTE_KEY_LEN :: nat where
  "BYTE_KEY_LEN = 40"

text \<open>\<open>sizeof\<close> of \<open>Node\<close>, of \<open>Descriptor\<close> and of a table entry.\<close>

definition SO_NODE_SIZE :: nat where
  "SO_NODE_SIZE = 80"

definition SO_DESCRIPTOR_SIZE :: nat where
  "SO_DESCRIPTOR_SIZE = 24"

definition hard_max_buckets :: u64 where
  "hard_max_buckets = 1024 * 1024"

text \<open>A node in a fresh block: heap blocks are zero filled.\<close>

definition so_zero :: so_node where
  "so_zero = \<lparr>byte_key = replicate BYTE_KEY_LEN 0, byte_key_size = 0, so_key = 0, so_value = 0,
              so_next = TagGptr_default\<rparr>"

text \<open>The nodes, the bucket table, and \<open>count\<close> and \<open>size\<close> of the descriptor.\<close>

record 'h so_mem =
  so_nodes :: "Gptr \<rightharpoonup> so_node"
  so_table :: "u64 \<Rightarrow> TagGptr"
  so_count :: u64
  so_size :: u64
  so_heap :: 'h

text \<open>A pointer to a tagged cell: \<open>&table[b]\<close> or \<open>&node->next\<close>.\<close>

datatype so_slot = TableSlot u64 | NextSlot Gptr

fun load_slot :: "so_slot \<Rightarrow> 'h so_mem \<Rightarrow> fault + TagGptr" where
  "load_slot (TableSlot b) m = (if b < hard_max_buckets then Inr (so_table m b) else Inl OutOfBounds)"
| "load_slot (NextSlot a) m =
     (case so_nodes m a of None \<Rightarrow> Inl AssertFail | Some n \<Rightarrow> Inr (so_next n))"

fun store_slot :: "so_slot \<Rightarrow> TagGptr \<Rightarrow> 'h so_mem \<Rightarrow> 'h so_mem" where
  "store_slot (TableSlot b) t m = m\<lparr>so_table := (so_table m)(b := t)\<rparr>"
| "store_slot (NextSlot a) t m =
     (case so_nodes m a of
        None \<Rightarrow> m
      | Some n \<Rightarrow> m\<lparr>so_nodes := (so_nodes m)(a \<mapsto> n\<lparr>so_next := t\<rparr>)\<rparr>)"

definition cas_slot :: "so_slot \<Rightarrow> TagGptr \<Rightarrow> TagGptr \<Rightarrow> 'h so_mem \<Rightarrow> fault + TagGptr \<times> 'h so_mem" where
  "cas_slot p old new m =
     (case load_slot p m of
        Inl f \<Rightarrow> Inl f
      | Inr seen \<Rightarrow> Inr (seen, if seen = old then store_slot p new m else m))"

definition so_free :: "'h nvmm \<Rightarrow> Gptr \<Rightarrow> 'h so_mem \<Rightarrow> 'h so_mem" where
  "so_free nv p m = m\<lparr>so_nodes := (so_nodes m)(p := None), so_heap := nv_free nv p (so_heap m)\<rparr>"

text \<open>\<open>TagGptr(0, cur.gptr(), cur.tag())\<close>\<close>

definition unmarked :: "TagGptr \<Rightarrow> TagGptr" where
  "unmarked t = mk_TagGptr_mark 0 (tg_masked t) (tg_tag t)"

section \<open>ListFind\<close>

text \<open>
  The locals: at the head of the outer loop only \<open>next_tgptr\<close> is carried over; in the inner
  loop the previous cell, the current and the next pointer. The result is the value (0 when
  the key is absent) and the out parameters.
\<close>

datatype find_local = FStart TagGptr | FWalk so_slot TagGptr TagGptr

record find_result =
  fr_value :: u64
  fr_prev :: so_slot
  fr_cur :: TagGptr
  fr_next :: TagGptr

type_synonym 'h find_out = "(find_local, fault + find_result) outcome \<times> 'h so_mem"

definition find_ret :: "u64 \<Rightarrow> so_slot \<Rightarrow> TagGptr \<Rightarrow> TagGptr \<Rightarrow> 'h so_mem \<Rightarrow> 'h find_out" where
  "find_ret v prev cur nxt m =
     (Ret (Inr \<lparr>fr_value = v, fr_prev = prev, fr_cur = cur, fr_next = nxt\<rparr>), m)"

text \<open>A node that is marked is unlinked from its predecessor; whoever unlinks it frees it.\<close>

definition find_unlink :: "'h nvmm \<Rightarrow> so_slot \<Rightarrow> TagGptr \<Rightarrow> TagGptr \<Rightarrow> 'h so_mem \<Rightarrow> 'h find_out" where
  "find_unlink nv prev cur nxt m =
     (case cas_slot prev (unmarked cur) (mk_TagGptr_mark 0 (tg_masked nxt) (tg_tag cur + 1)) m of
        Inl f \<Rightarrow> (Ret (Inl f), m)
      | Inr (seen, m') \<Rightarrow>
          if seen = unmarked cur then (Next (FWalk prev nxt nxt), so_free nv (tg_masked cur) m')
          else (Next (FStart nxt), m'))"

fun ListFind_step ::
  "'h nvmm \<Rightarrow> so_slot \<Rightarrow> bytes \<Rightarrow> u64 \<Rightarrow> (find_local, 'h so_mem, fault + find_result) stepper" where
  "ListFind_step nv head bkey key (FStart nxt) m =
     (case load_slot head m of
        Inl f \<Rightarrow> (Ret (Inl f), m)
      | Inr cur \<Rightarrow> (Next (FWalk head cur nxt), m))"
| "ListFind_step nv head bkey key (FWalk prev cur nxt) m =
     (if tg_masked cur = 0 then find_ret 0 prev cur nxt m
      else case so_nodes m (tg_masked cur) of
        None \<Rightarrow> (Ret (Inl AssertFail), m)
      | Some n \<Rightarrow>
          (case load_slot prev m of
             Inl f \<Rightarrow> (Ret (Inl f), m)
           | Inr seen \<Rightarrow>
               if seen \<noteq> unmarked cur then (Next (FStart (so_next n)), m)
               else if tg_mark (so_next n) \<noteq> 0 then find_unlink nv prev cur (so_next n) m
               else if key < so_key n then find_ret 0 prev cur (so_next n) m
               else if so_key n = key \<and> memcmp (byte_key n) bkey (byte_key_size n) = 0
               then find_ret (so_value n) prev cur (so_next n) m
               else (Next (FWalk (NextSlot (tg_masked cur)) (so_next n) (so_next n)), m)))"

definition ListFind ::
  "'h nvmm \<Rightarrow> so_slot \<Rightarrow> bytes \<Rightarrow> u64 \<Rightarrow> 'h so_mem \<Rightarrow> ((fault + find_result) \<times> 'h so_mem) option" where
  "ListFind nv head bkey key m = run (ListFind_step nv head bkey key) (FStart TagGptr_default) m"

section \<open>ListInsert and ListDelete\<close>

text \<open>The results are the C++ return values 0 and 1 as \<open>bool\<close>, with \<open>*ocur_tgptr\<close>.\<close>

partial_function (option) ListInsert ::
  "'h nvmm \<Rightarrow> so_slot \<Rightarrow> Gptr \<Rightarrow> 'h so_mem \<Rightarrow> ((fault + bool \<times> TagGptr) \<times> 'h so_mem) option" where
  "ListInsert nv head node m =
     (case so_nodes m node of
        None \<Rightarrow> Some (Inl AssertFail, m)
      | Some n \<Rightarrow>
          (case ListFind nv head (byte_key n) (so_key n) m of
             None \<Rightarrow> None
           | Some (Inl f, m1) \<Rightarrow> Some (Inl f, m1)
           | Some (Inr r, m1) \<Rightarrow>
               if fr_value r \<noteq> 0 then Some (Inr (False, fr_cur r), m1)
               else (let m2 = store_slot (NextSlot node) (mk_TagGptr_mark 0 (tg_masked (fr_cur r)) 0) m1
                     in case cas_slot (fr_prev r) (unmarked (fr_cur r))
                               (mk_TagGptr_mark 0 node (tg_tag (fr_cur r) + 1)) m2 of
                          Inl f \<Rightarrow> Some (Inl f, m2)
                        | Inr (seen, m3) \<Rightarrow>
                            if seen = unmarked (fr_cur r) then Some (Inr (True, fr_cur r), m3)
                            else ListInsert nv head node m3)))"

declare ListInsert.simps [code]

text \<open>
  \<open>ocur\<close> says whether the caller passes \<open>ocur_tgptr\<close>; then the caller frees the node. Its
  content on return is meaningful only when this call unlinked the node itself.
\<close>

partial_function (option) ListDelete ::
  "'h nvmm \<Rightarrow> so_slot \<Rightarrow> bytes \<Rightarrow> u64 \<Rightarrow> bool \<Rightarrow> 'h so_mem \<Rightarrow>
   ((fault + bool \<times> TagGptr) \<times> 'h so_mem) option" where
  "ListDelete nv head bkey key ocur m =
     (case ListFind nv head bkey key m of
        None \<Rightarrow> None
      | Some (Inl f, m1) \<Rightarrow> Some (Inl f, m1)
      | Some (Inr r, m1) \<Rightarrow>
          if fr_value r = 0 then Some (Inr (False, TagGptr_default), m1)
          else (case cas_slot (NextSlot (tg_masked (fr_cur r))) (unmarked (fr_next r))
                       (mk_TagGptr_mark 1 (tg_masked (fr_next r)) (tg_tag (fr_next r) + 1)) m1 of
                  Inl f \<Rightarrow> Some (Inl f, m1)
                | Inr (seen, m2) \<Rightarrow>
                    if seen \<noteq> unmarked (fr_next r) then ListDelete nv head bkey key ocur m2
                    else (case cas_slot (fr_prev r) (unmarked (fr_cur r))
                                 (mk_TagGptr_mark 0 (tg_masked (fr_next r)) (tg_tag (fr_cur r) + 1)) m2 of
                            Inl f \<Rightarrow> Some (Inl f, m2)
                          | Inr (seen', m3) \<Rightarrow>
                              if seen' = unmarked (fr_cur r)
                              then Some (Inr (True, fr_cur r),
                                         if ocur then m3 else so_free nv (tg_masked (fr_cur r)) m3)
                              else map_option (\<lambda>(x, m4). (map_sum id (\<lambda>_. (True, TagGptr_default)) x, m4))
                                     (ListFind nv head bkey key m3))))"

declare ListDelete.simps [code]

section \<open>Buckets\<close>

definition store_table :: "u64 \<Rightarrow> TagGptr \<Rightarrow> 'h so_mem \<Rightarrow> (fault + unit) \<times> 'h so_mem" where
  "store_table b t m =
     (if b < hard_max_buckets then (Inr (), store_slot (TableSlot b) t m) else (Inl OutOfBounds, m))"

text \<open>Allocate the dummy of a bucket, insert it from the bucket's parent, set the table.\<close>

definition dummy_node :: "u64 \<Rightarrow> so_node" where
  "dummy_node bucket = so_zero\<lparr>so_key := so_dummykey bucket\<rparr>"

definition add_dummy :: "'h nvmm \<Rightarrow> u64 \<Rightarrow> 'h so_mem \<Rightarrow> ((fault + unit) \<times> 'h so_mem) option" where
  "add_dummy nv bucket m =
     (let (p, h) = nv_alloc nv SO_NODE_SIZE (so_heap m); m1 = m\<lparr>so_heap := h\<rparr>
      in if p = 0 then Some (Inl AssertFail, m1)
         else (let m2 = m1\<lparr>so_nodes := (so_nodes m1)(p \<mapsto> dummy_node bucket)\<rparr>
               in case ListInsert nv (TableSlot (get_parent bucket)) p m2 of
                    None \<Rightarrow> None
                  | Some (Inl f, m3) \<Rightarrow> Some (Inl f, m3)
                  | Some (Inr (True, _), m3) \<Rightarrow> Some (store_table bucket (mk_TagGptr_mark 0 p 0) m3)
                  | Some (Inr (False, cur), m3) \<Rightarrow>
                      Some (store_table bucket (unmarked cur) (so_free nv p m3))))"

partial_function (option) InitializeBucket ::
  "'h nvmm \<Rightarrow> u64 \<Rightarrow> 'h so_mem \<Rightarrow> ((fault + unit) \<times> 'h so_mem) option" where
  "InitializeBucket nv bucket m =
     (case load_slot (TableSlot (get_parent bucket)) m of
        Inl f \<Rightarrow> Some (Inl f, m)
      | Inr t \<Rightarrow>
          Option.bind
            (if t = TagGptr_default then InitializeBucket nv (get_parent bucket) m else Some (Inr (), m))
            (\<lambda>(r, m1). case r of Inl f \<Rightarrow> Some (Inl f, m1) | Inr _ \<Rightarrow> add_dummy nv bucket m1))"

declare InitializeBucket.simps [code]

text \<open>\<open>if (table[bucket] == TagGptr()) InitializeBucket(op, bucket);\<close>\<close>

definition need_bucket :: "'h nvmm \<Rightarrow> u64 \<Rightarrow> 'h so_mem \<Rightarrow> ((fault + unit) \<times> 'h so_mem) option" where
  "need_bucket nv bucket m =
     (case load_slot (TableSlot bucket) m of
        Inl f \<Rightarrow> Some (Inl f, m)
      | Inr t \<Rightarrow> if t = TagGptr_default then InitializeBucket nv bucket m else Some (Inr (), m))"

section \<open>Construction\<close>

text \<open>
  A new list: descriptor, table and the dummy of bucket 0, whose key is the only member that
  is written: the others rely on zero-filled blocks. Opening an existing list does nothing.
\<close>

definition SplitOrderedList_create ::
  "'h nvmm \<Rightarrow> Gptr \<Rightarrow> 'h so_mem \<Rightarrow> (fault + Gptr) \<times> 'h so_mem" where
  "SplitOrderedList_create nv descriptor m =
     (if descriptor \<noteq> 0 then (Inr descriptor, m)
      else
        (let (d, h1) = nv_alloc nv SO_DESCRIPTOR_SIZE (so_heap m)
         in if d = 0 then (Inl AssertFail, m\<lparr>so_heap := h1\<rparr>)
            else
              (let (t, h2) = nv_alloc nv (unat hard_max_buckets * 16) h1;
                   m2 = m\<lparr>so_heap := h2, so_count := 0, so_size := 2\<rparr>
               in if t = 0 then (Inl AssertFail, m2)
                  else
                    (let (p, h3) = nv_alloc nv SO_NODE_SIZE h2
                     in if p = 0 then (Inl AssertFail, m2\<lparr>so_heap := h3\<rparr>)
                        else (Inr d,
                              m2\<lparr>so_heap := h3, so_table := (\<lambda>_. TagGptr_default)(0 := mk_TagGptr_mark 0 p 0),
                                so_nodes := (so_nodes m)(p \<mapsto> dummy_node 0)\<rparr>)))))"

section \<open>The operations\<close>

definition regular_node :: "(bytes \<Rightarrow> u64) \<Rightarrow> bytes \<Rightarrow> nat \<Rightarrow> u64 \<Rightarrow> so_node" where
  "regular_node city bkey len v =
     \<lparr>byte_key = memcpy (replicate BYTE_KEY_LEN 0) (take len bkey), byte_key_size = len,
      so_key = so_regularkey (Hash64 city (take len bkey)), so_value = v, so_next = TagGptr_default\<rparr>"

text \<open>
  The common start of the insertions: a new node, its bucket, and \<open>ListInsert\<close>. The result
  is the new node and what \<open>ListInsert\<close> returned. \<open>byte_key\<close> is a buffer of 40 bytes.
\<close>

definition insert_new ::
  "(bytes \<Rightarrow> u64) \<Rightarrow> 'h nvmm \<Rightarrow> bytes \<Rightarrow> nat \<Rightarrow> u64 \<Rightarrow> 'h so_mem \<Rightarrow>
   ((fault + Gptr \<times> bool \<times> TagGptr) \<times> 'h so_mem) option" where
  "insert_new city nv bkey len v m =
     (let (p, h) = nv_alloc nv SO_NODE_SIZE (so_heap m); m1 = m\<lparr>so_heap := h\<rparr>;
          bucket = Hash64 city (take len bkey) mod so_size m
      in if p = 0 then Some (Inl AssertFail, m1)
         else if BYTE_KEY_LEN < len then Some (Inl OutOfBounds, m1)
         else do {
           (r, m2) \<leftarrow> need_bucket nv bucket (m1\<lparr>so_nodes := (so_nodes m1)(p \<mapsto> regular_node city bkey len v)\<rparr>);
           (case r of
              Inl f \<Rightarrow> Some (Inl f, m2)
            | Inr _ \<Rightarrow> map_option (\<lambda>(x, m3). (map_sum id (\<lambda>(b, cur). (p, b, cur)) x, m3))
                         (ListInsert nv (TableSlot bucket) p m2))
         })"

text \<open>
  After an insertion: count it, and double the number of buckets when the load was above
  0.75. The quotient of the code is a quotient of doubles, exact for counts below \<open>2 ^ 53\<close>
  because the size is a power of two.
\<close>

definition grow :: "'h so_mem \<Rightarrow> 'h so_mem" where
  "grow m =
     (let csize = so_size m; m1 = m\<lparr>so_count := so_count m + 1\<rparr>
      in if 3 * unat csize < 4 * unat (so_count m) \<and> 2 * csize \<le> hard_max_buckets
         then m1\<lparr>so_size := 2 * csize\<rparr> else m1)"

definition SplitOrderedList_Insert ::
  "(bytes \<Rightarrow> u64) \<Rightarrow> 'h nvmm \<Rightarrow> bytes \<Rightarrow> nat \<Rightarrow> u64 \<Rightarrow> 'h so_mem \<Rightarrow> ((fault + int) \<times> 'h so_mem) option" where
  "SplitOrderedList_Insert city nv bkey len v m =
     map_option
       (\<lambda>(r, m1). case r of
          Inl f \<Rightarrow> (Inl f, m1)
        | Inr (p, ins, _) \<Rightarrow> if ins then (Inr 1, grow m1) else (Inr 0, so_free nv p m1))
       (insert_new city nv bkey len v m)"

text \<open>\<open>FindOrInsert\<close> also returns the value in place.\<close>

definition SplitOrderedList_FindOrInsert ::
  "(bytes \<Rightarrow> u64) \<Rightarrow> 'h nvmm \<Rightarrow> bytes \<Rightarrow> nat \<Rightarrow> u64 \<Rightarrow> 'h so_mem \<Rightarrow> ((fault + int \<times> u64) \<times> 'h so_mem) option" where
  "SplitOrderedList_FindOrInsert city nv bkey len v m =
     map_option
       (\<lambda>(r, m1). case r of
          Inl f \<Rightarrow> (Inl f, m1)
        | Inr (p, ins, cur) \<Rightarrow>
            if ins then (Inr (1, v), grow m1)
            else (case so_nodes m1 (tg_masked cur) of
                    None \<Rightarrow> (Inl AssertFail, m1)
                  | Some n \<Rightarrow> (Inr (0, so_value n), so_free nv p m1)))
       (insert_new city nv bkey len v m)"

text \<open>
  \<open>InsertOrUpdate\<close> overwrites the value of a node that is there; \<open>*old_gptr\<close> is then the new
  node, which is not linked, and 0 after an insertion.
\<close>

definition SplitOrderedList_InsertOrUpdate ::
  "(bytes \<Rightarrow> u64) \<Rightarrow> 'h nvmm \<Rightarrow> bytes \<Rightarrow> nat \<Rightarrow> u64 \<Rightarrow> 'h so_mem \<Rightarrow>
   ((fault + int \<times> Gptr) \<times> 'h so_mem) option" where
  "SplitOrderedList_InsertOrUpdate city nv bkey len v m =
     map_option
       (\<lambda>(r, m1). case r of
          Inl f \<Rightarrow> (Inl f, m1)
        | Inr (p, ins, cur) \<Rightarrow>
            if ins then (Inr (1, 0), grow m1)
            else (case so_nodes m1 (tg_masked cur) of
                    None \<Rightarrow> (Inl AssertFail, m1)
                  | Some n \<Rightarrow>
                      (Inr (1, gptr_mask p),
                       m1\<lparr>so_nodes := (so_nodes m1)(tg_masked cur \<mapsto> n\<lparr>so_value := v\<rparr>)\<rparr>)))
       (insert_new city nv bkey len v m)"

definition SplitOrderedList_Find ::
  "(bytes \<Rightarrow> u64) \<Rightarrow> 'h nvmm \<Rightarrow> bytes \<Rightarrow> nat \<Rightarrow> 'h so_mem \<Rightarrow> ((fault + u64) \<times> 'h so_mem) option" where
  "SplitOrderedList_Find city nv bkey len m =
     (let lkey = Hash64 city (take len bkey); bucket = lkey mod so_size m
      in do {
        (r, m1) \<leftarrow> need_bucket nv bucket m;
        (case r of
           Inl f \<Rightarrow> Some (Inl f, m1)
         | Inr _ \<Rightarrow> map_option (\<lambda>(x, m2). (map_sum id fr_value x, m2))
                      (ListFind nv (TableSlot bucket) bkey (so_regularkey lkey) m1))
      })"

text \<open>\<open>Delete\<close> leaves freeing the node to the caller, through \<open>*ocur_ptr\<close>.\<close>

definition SplitOrderedList_Delete ::
  "(bytes \<Rightarrow> u64) \<Rightarrow> 'h nvmm \<Rightarrow> bytes \<Rightarrow> nat \<Rightarrow> 'h so_mem \<Rightarrow> ((fault + int \<times> Gptr) \<times> 'h so_mem) option" where
  "SplitOrderedList_Delete city nv bkey len m =
     (let lkey = Hash64 city (take len bkey); bucket = lkey mod so_size m
      in do {
        (r, m1) \<leftarrow> need_bucket nv bucket m;
        (case r of
           Inl f \<Rightarrow> Some (Inl f, m1)
         | Inr _ \<Rightarrow>
             map_option
               (\<lambda>(x, m2). case x of
                  Inl f \<Rightarrow> (Inl f, m2)
                | Inr (del, cur) \<Rightarrow>
                    if del then (Inr (1, tg_masked cur), m2\<lparr>so_count := so_count m2 - 1\<rparr>)
                    else (Inr (0, 0), m2))
               (ListDelete nv (TableSlot bucket) bkey (so_regularkey lkey) True m1))
      })"

text \<open>\<open>foreach\<close>: the calls of the visitor, dummies included.\<close>

definition foreach_step ::
  "(TagGptr \<times> (bytes \<times> nat \<times> u64) list, 'h so_mem, fault + (bytes \<times> nat \<times> u64) list) stepper" where
  "foreach_step = (\<lambda>(cur, acc) m.
     if tg_masked cur = 0 then (Ret (Inr (rev acc)), m)
     else case so_nodes m (tg_masked cur) of
       None \<Rightarrow> (Ret (Inl AssertFail), m)
     | Some n \<Rightarrow> (Next (so_next n, (byte_key n, byte_key_size n, so_value n) # acc), m))"

definition SplitOrderedList_foreach ::
  "'h so_mem \<Rightarrow> ((fault + (bytes \<times> nat \<times> u64) list) \<times> 'h so_mem) option" where
  "SplitOrderedList_foreach m = run foreach_step (so_table m 0, []) m"

end
