(* ===== verification/SO_Path.thy ===== *)
theory SO_Path
  imports SO_List
begin

text \<open>
  The list in memory: \<open>so_path ns t as\<close> says that the cell \<open>t\<close> leads through the nodes \<open>as\<close> to
  the end of the list and that no cell on the way carries a mark. Linking and unlinking a
  node, and what \<open>ListFind\<close>, \<open>ListInsert\<close> and \<open>ListDelete\<close> do on such a list when nobody else
  changes it: in particular they return.
\<close>

section \<open>Cells and paths\<close>

definition clean :: "TagGptr \<Rightarrow> bool" where
  "clean t \<longleftrightarrow> \<not> bit (tg_gptr t) 0"

lemma clean_simps:
  assumes "clean t"
  shows "tg_masked t = tg_gptr t" "tg_mark t = 0" "unmarked t = t"
proof -
  have e: "gptr_mask (tg_gptr t) = tg_gptr t" using assms by (simp add: clean_def gptr_mask_even)
  then show "tg_masked t = tg_gptr t" by (simp add: tg_masked_def)
  have "tg_gptr t AND 1 = 0"
    using assms by (intro bit_word_eqI) (auto simp: clean_def bit_simps intro: Nat.gr0I)
  then show "tg_mark t = 0" by (simp add: tg_mark_def)
  show "unmarked t = t" using e by (simp add: unmarked_def mk_TagGptr_mark_def tg_masked_def)
qed

lemma clean_mark0 [simp]:
  assumes "\<not> bit p 0"
  shows "clean (mk_TagGptr_mark 0 p t)" "tg_gptr (mk_TagGptr_mark 0 p t) = p"
  using assms by (simp_all add: clean_def mk_TagGptr_mark_def gptr_mask_even)

fun so_path :: "(Gptr \<rightharpoonup> so_node) \<Rightarrow> TagGptr \<Rightarrow> Gptr list \<Rightarrow> bool" where
  "so_path ns t [] \<longleftrightarrow> clean t \<and> tg_gptr t = 0"
| "so_path ns t (a # as) \<longleftrightarrow>
     clean t \<and> tg_gptr t = a \<and> a \<noteq> 0 \<and> (\<exists>n. ns a = Some n \<and> so_path ns (so_next n) as)"

lemma so_path_clean: "so_path ns t as \<Longrightarrow> clean t"
  by (cases as) simp_all

lemma so_path_unique: "so_path ns t as \<Longrightarrow> so_path ns t bs \<Longrightarrow> as = bs"
proof (induction as arbitrary: t bs)
  case Nil
  then show ?case by (cases bs) simp_all
next
  case (Cons a as)
  then obtain b bs' where bs: "bs = b # bs'" by (cases bs) simp_all
  from Cons.prems(1) obtain n where n: "tg_gptr t = a" "ns a = Some n" "so_path ns (so_next n) as" by auto
  with Cons.prems(2) bs have "b = a" "so_path ns (so_next n) bs'" by auto
  with Cons.IH [OF n(3)] bs show ?case by simp
qed

lemma so_path_node: "so_path ns t as \<Longrightarrow> a \<in> set as \<Longrightarrow> \<exists>n. ns a = Some n"
  by (induction as arbitrary: t) auto

lemma so_path_cong:
  "(\<And>a. a \<in> set as \<Longrightarrow> ns a = ns' a) \<Longrightarrow> so_path ns t as = so_path ns' t as"
  by (induction as arbitrary: t) auto

text \<open>Only the pointers count: other members may change.\<close>

lemma so_path_cong_next:
  "(\<And>a. a \<in> set as \<Longrightarrow> map_option so_next (ns a) = map_option so_next (ns' a)) \<Longrightarrow>
   so_path ns t as = so_path ns' t as"
proof (induction as arbitrary: t)
  case (Cons a as)
  from Cons.prems [of a] have "map_option so_next (ns a) = map_option so_next (ns' a)" by simp
  with Cons show ?case by (cases "ns a"; cases "ns' a") auto
qed simp

lemma so_path_append:
  "so_path ns t (as @ a # bs) \<Longrightarrow>
   \<exists>n. ns a = Some n \<and> so_path ns (so_next n) bs \<and> a \<noteq> 0"
  by (induction as arbitrary: t) auto

lemma so_path_suffix:
  assumes "so_path ns t (as @ a # bs)" "clean s" "tg_gptr s = a"
  shows "so_path ns s (a # bs)"
  using so_path_append [OF assms(1)] assms(2,3) by auto

lemma so_path_link:
  assumes "so_path ns t (xs @ a # ys)" "distinct (xs @ a # ys)" "ns a = Some n"
    and "p \<notin> set (xs @ a # ys)" "p \<noteq> 0"
    and "clean c" "tg_gptr c = p" "clean (so_next np)" "tg_gptr (so_next np) = tg_gptr (so_next n)"
    and "\<And>x. x \<noteq> a \<Longrightarrow> x \<noteq> p \<Longrightarrow> ns' x = ns x" "ns' a = Some (n\<lparr>so_next := c\<rparr>)" "ns' p = Some np"
  shows "so_path ns' t (xs @ a # p # ys)"
  using assms(1,2,4)
proof (induction xs arbitrary: t)
  case Nil
  from Nil assms(3) have a: "clean t" "tg_gptr t = a" "a \<noteq> 0" "so_path ns (so_next n) ys" "a \<noteq> p" by auto
  have "so_path ns' (so_next np) ys = so_path ns (so_next np) ys"
  proof (rule so_path_cong)
    fix x assume "x \<in> set ys"
    with Nil.prems assms(10) [of x] show "ns' x = ns x" by auto
  qed
  moreover have "so_path ns (so_next np) ys"
    using a(4) assms(8,9) by (cases ys) auto
  ultimately show ?case using a assms(5-9,11,12) by simp
next
  case (Cons x xs)
  with assms(10) [of x] show ?case by auto
qed

lemma so_path_unlink:
  assumes "so_path ns t (xs @ a # d # ys)" "distinct (xs @ a # d # ys)" "ns a = Some n" "ns d = Some nd"
    and "clean c" "tg_gptr c = tg_gptr (so_next nd)"
    and "\<And>x. x \<noteq> a \<Longrightarrow> x \<noteq> d \<Longrightarrow> ns' x = ns x" "ns' a = Some (n\<lparr>so_next := c\<rparr>)"
  shows "so_path ns' t (xs @ a # ys)"
  using assms(1,2)
proof (induction xs arbitrary: t)
  case Nil
  with assms(3,4) have a: "clean t" "tg_gptr t = a" "a \<noteq> 0" "so_path ns (so_next nd) ys" by auto
  then have "so_path ns c ys" using assms(5,6) by (cases ys) auto
  moreover have "so_path ns' c ys = so_path ns c ys"
  proof (rule so_path_cong)
    fix x assume "x \<in> set ys"
    with Nil.prems(2) have "x \<noteq> a" "x \<noteq> d" by auto
    then show "ns' x = ns x" by (rule assms(7))
  qed
  ultimately show ?case using a assms(8) by simp
next
  case (Cons x xs)
  with assms(7) [of x] show ?case by auto
qed

section \<open>ListFind alone\<close>

definition matches :: "bytes \<Rightarrow> u64 \<Rightarrow> so_node \<Rightarrow> bool" where
  "matches bkey key n \<longleftrightarrow> so_key n = key \<and> memcmp (byte_key n) bkey (byte_key_size n) = 0"

definition stops :: "bytes \<Rightarrow> u64 \<Rightarrow> so_node \<Rightarrow> bool" where
  "stops bkey key n \<longleftrightarrow> key < so_key n \<or> matches bkey key n"

definition slot_after :: "so_slot \<Rightarrow> Gptr list \<Rightarrow> so_slot" where
  "slot_after s ps = (if ps = [] then s else NextSlot (last ps))"

text \<open>
  Where the search ends: before the first node that stops it. \<open>found\<close> describes the result.
\<close>

definition found :: "bytes \<Rightarrow> u64 \<Rightarrow> 'h so_mem \<Rightarrow> so_slot \<Rightarrow> Gptr list \<Rightarrow> Gptr list \<Rightarrow> find_result \<Rightarrow> bool" where
  "found bkey key m s ps qs r \<longleftrightarrow>
     (\<forall>a \<in> set ps. \<forall>n. so_nodes m a = Some n \<longrightarrow> \<not> stops bkey key n) \<and>
     fr_prev r = slot_after s ps \<and> load_slot (fr_prev r) m = Inr (fr_cur r) \<and>
     so_path (so_nodes m) (fr_cur r) qs \<and>
     (case qs of
        [] \<Rightarrow> fr_value r = 0
      | a # _ \<Rightarrow> \<exists>n. so_nodes m a = Some n \<and> stops bkey key n \<and> fr_next r = so_next n \<and>
          fr_value r = (if matches bkey key n then so_value n else 0))"

lemma ListFind_walk:
  assumes "so_path (so_nodes m) t as" "load_slot s m = Inr t"
  shows "\<exists>ps qs r. as = ps @ qs \<and> found bkey key m s ps qs r \<and>
    run (ListFind_step nv head bkey key) (FWalk s t nxt) m = Some (Inr r, m)"
  using assms
proof (induction as arbitrary: s t nxt)
  case Nil
  then have t: "tg_masked t = 0" "clean t" by (simp_all add: clean_simps)
  let ?r = "\<lparr>fr_value = 0, fr_prev = s, fr_cur = t, fr_next = nxt\<rparr>"
  have "run (ListFind_step nv head bkey key) (FWalk s t nxt) m = Some (Inr ?r, m)"
    by (rule run_Ret) (simp add: t find_ret_def)
  moreover have "found bkey key m s [] [] ?r"
    using Nil by (simp add: found_def slot_after_def)
  ultimately show ?case by (intro exI [of _ "[]"] exI [of _ ?r]) simp
next
  case (Cons a as)
  then obtain n where n: "so_nodes m a = Some n" "so_path (so_nodes m) (so_next n) as" "a \<noteq> 0"
    and t: "clean t" "tg_gptr t = a" by auto
  note c = clean_simps [OF t(1)]
  have nc: "tg_mark (so_next n) = 0" using clean_simps [OF so_path_clean [OF n(2)]] by simp
  show ?case
  proof (cases "stops bkey key n")
    case True
    let ?r = "\<lparr>fr_value = (if matches bkey key n then so_value n else 0), fr_prev = s, fr_cur = t,
      fr_next = so_next n\<rparr>"
    have "run (ListFind_step nv head bkey key) (FWalk s t nxt) m = Some (Inr ?r, m)"
      by (rule run_Ret) (use True n t c nc Cons.prems in \<open>auto simp: stops_def matches_def find_ret_def\<close>)
    moreover have "found bkey key m s [] (a # as) ?r"
      using True Cons.prems n by (simp add: found_def slot_after_def)
    ultimately show ?thesis by (intro exI [of _ "[]"] exI [of _ "a # as"] exI [of _ ?r]) simp
  next
    case False
    have st: "ListFind_step nv head bkey key (FWalk s t nxt) m =
        (Next (FWalk (NextSlot a) (so_next n) (so_next n)), m)"
      using False n t c nc Cons.prems by (auto simp: stops_def matches_def)
    have "load_slot (NextSlot a) m = Inr (so_next n)" using n by simp
    from Cons.IH [OF n(2) this, of "so_next n"] obtain ps qs r where
      r: "as = ps @ qs" "found bkey key m (NextSlot a) ps qs r"
      "run (ListFind_step nv head bkey key) (FWalk (NextSlot a) (so_next n) (so_next n)) m = Some (Inr r, m)"
      by blast
    have "found bkey key m s (a # ps) qs r"
      using r(2) False n(1) by (auto simp: found_def slot_after_def)
    with r(1,3) run_Next [of "ListFind_step nv head bkey key", OF st] show ?thesis
      by (intro exI [of _ "a # ps"] exI [of _ qs] exI [of _ r]) simp
  qed
qed

lemma ListFind_alone:
  assumes "so_path (so_nodes m) t as" "load_slot head m = Inr t"
  obtains ps qs r where "as = ps @ qs" "found bkey key m head ps qs r"
    "ListFind nv head bkey key m = Some (Inr r, m)"
proof -
  have "ListFind_step nv head bkey key (FStart TagGptr_default) m = (Next (FWalk head t TagGptr_default), m)"
    using assms(2) by simp
  from run_Next [of "ListFind_step nv head bkey key", OF this] ListFind_walk [OF assms] that show thesis
    unfolding ListFind_def by metis
qed

section \<open>ListInsert and ListDelete alone\<close>

text \<open>Both start at a node that does not stop the search: the dummy of the bucket.\<close>

lemma found_prev:
  assumes "found bkey key m s ps qs r" "so_path (so_nodes m) t (ps @ qs)" "ps \<noteq> []"
  obtains nl where "so_nodes m (last ps) = Some nl" "fr_prev r = NextSlot (last ps)" "fr_cur r = so_next nl"
    "clean (fr_cur r)"
proof -
  from assms(3) have "last ps \<in> set (ps @ qs)" by simp
  from so_path_node [OF assms(2) this] obtain nl where nl: "so_nodes m (last ps) = Some nl" by blast
  have "fr_prev r = NextSlot (last ps)" "load_slot (fr_prev r) m = Inr (fr_cur r)" "clean (fr_cur r)"
    using assms(1,3) so_path_clean by (auto simp: found_def slot_after_def)
  with nl that show thesis by simp
qed

lemma found_prefix:
  assumes "found bkey key m s ps qs r" "ps @ qs = a # as" "so_nodes m a = Some n" "\<not> stops bkey key n"
  shows "ps \<noteq> []"
  using assms by (auto simp: found_def)

definition linked :: "'h so_mem \<Rightarrow> Gptr \<Rightarrow> so_node \<Rightarrow> Gptr \<Rightarrow> so_node \<Rightarrow> 'h so_mem" where
  "linked m p n a na =
     m\<lparr>so_nodes := (so_nodes m)
        (p \<mapsto> n\<lparr>so_next := mk_TagGptr_mark 0 (tg_gptr (so_next na)) 0\<rparr>,
         a \<mapsto> na\<lparr>so_next := mk_TagGptr_mark 0 p (tg_tag (so_next na) + 1)\<rparr>)\<rparr>"

lemma ListInsert_alone:
  assumes path: "so_path (so_nodes m) t as" and head: "load_slot head m = Inr t"
    and p: "so_nodes m p = Some n" "p \<notin> set as" "\<not> bit p 0" "p \<noteq> 0"
    and first: "as = a0 # as0" "so_nodes m a0 = Some n0" "\<not> stops (byte_key n) (so_key n) n0"
  obtains (dup) ps a qs na cur where "as = ps @ a # qs" "so_nodes m a = Some na"
      "matches (byte_key n) (so_key n) na" "so_value na \<noteq> 0" "tg_masked cur = a"
      "ListInsert nv head p m = Some (Inr (False, cur), m)"
  | (added) ps qs nl cur where "as = ps @ qs" "ps \<noteq> []" "so_nodes m (last ps) = Some nl"
      "\<And>a na. a \<in> set ps \<Longrightarrow> so_nodes m a = Some na \<Longrightarrow> \<not> stops (byte_key n) (so_key n) na"
      "\<And>a qs' na. qs = a # qs' \<Longrightarrow> so_nodes m a = Some na \<Longrightarrow> stops (byte_key n) (so_key n) na \<and>
         (matches (byte_key n) (so_key n) na \<longrightarrow> so_value na = 0)"
      "ListInsert nv head p m = Some (Inr (True, cur), linked m p n (last ps) nl)"
proof -
  obtain ps qs r where f: "as = ps @ qs" "found (byte_key n) (so_key n) m head ps qs r"
    "ListFind nv head (byte_key n) (so_key n) m = Some (Inr r, m)"
    by (rule ListFind_alone [OF path head])
  have ps: "ps \<noteq> []" by (rule found_prefix [OF f(2) _ first(2,3)]) (simp add: f(1) [symmetric] first(1))
  obtain nl where nl: "so_nodes m (last ps) = Some nl" "fr_prev r = NextSlot (last ps)"
    "fr_cur r = so_next nl" "clean (fr_cur r)"
    using found_prev [OF f(2) path [unfolded f(1)] ps] by metis
  note c = clean_simps [OF nl(4)]
  show thesis
  proof (cases "fr_value r = 0")
    case False
    then obtain a qs' where qs: "qs = a # qs'" using f(2) by (cases qs) (auto simp: found_def)
    with False f(2) obtain na where na: "so_nodes m a = Some na" "matches (byte_key n) (so_key n) na"
      "so_value na \<noteq> 0" by (auto simp: found_def split: if_splits)
    have "tg_masked (fr_cur r) = a" using f(2) qs c by (simp add: found_def)
    with dup [OF _ na] f(1,3) qs p(1) False show thesis by (simp add: ListInsert.simps)
  next
    case True
    have ne: "last ps \<noteq> p" using p(2) ps f(1) by auto
    have "ListInsert nv head p m = Some (Inr (True, fr_cur r), linked m p n (last ps) nl)"
      using True f(3) p(1) nl(1-3) c ne
      by (simp add: ListInsert.simps cas_slot_def linked_def fun_upd_twist)
    moreover have "stops (byte_key n) (so_key n) na \<and> (matches (byte_key n) (so_key n) na \<longrightarrow> so_value na = 0)"
      if "qs = a # qs'" "so_nodes m a = Some na" for a qs' na
      using that True f(2) by (auto simp: found_def split: if_splits)
    ultimately show thesis using added [OF f(1) ps nl(1)] f(2) by (auto simp: found_def)
  qed
qed

definition unlinked :: "'h so_mem \<Rightarrow> Gptr \<Rightarrow> so_node \<Rightarrow> Gptr \<Rightarrow> so_node \<Rightarrow> 'h so_mem" where
  "unlinked m d nd a na =
     m\<lparr>so_nodes := (so_nodes m)
        (d \<mapsto> nd\<lparr>so_next := mk_TagGptr_mark 1 (tg_gptr (so_next nd)) (tg_tag (so_next nd) + 1)\<rparr>,
         a \<mapsto> na\<lparr>so_next := mk_TagGptr_mark 0 (tg_gptr (so_next nd)) (tg_tag (so_next na) + 1)\<rparr>)\<rparr>"

lemma ListDelete_alone:
  assumes path: "so_path (so_nodes m) t as" and head: "load_slot head m = Inr t" and dist: "distinct as"
    and first: "as = a0 # as0" "so_nodes m a0 = Some n0" "\<not> stops bkey key n0"
  obtains (none) ps qs where "as = ps @ qs"
      "\<And>a na. a \<in> set ps \<Longrightarrow> so_nodes m a = Some na \<Longrightarrow> \<not> stops bkey key na"
      "\<And>a qs' na. qs = a # qs' \<Longrightarrow> so_nodes m a = Some na \<Longrightarrow> stops bkey key na \<and>
         (matches bkey key na \<longrightarrow> so_value na = 0)"
      "ListDelete nv head bkey key True m = Some (Inr (False, TagGptr_default), m)"
  | (deleted) ps d qs nd nl cur where "as = ps @ d # qs" "ps \<noteq> []" "so_nodes m d = Some nd"
      "so_nodes m (last ps) = Some nl" "matches bkey key nd" "so_value nd \<noteq> 0" "tg_masked cur = d"
      "\<And>a na. a \<in> set ps \<Longrightarrow> so_nodes m a = Some na \<Longrightarrow> \<not> stops bkey key na"
      "ListDelete nv head bkey key True m = Some (Inr (True, cur), unlinked m d nd (last ps) nl)"
proof -
  obtain ps qs r where f: "as = ps @ qs" "found bkey key m head ps qs r"
    "ListFind nv head bkey key m = Some (Inr r, m)"
    by (rule ListFind_alone [OF path head])
  have ps: "ps \<noteq> []" by (rule found_prefix [OF f(2) _ first(2,3)]) (simp add: f(1) [symmetric] first(1))
  obtain nl where nl: "so_nodes m (last ps) = Some nl" "fr_prev r = NextSlot (last ps)"
    "fr_cur r = so_next nl" "clean (fr_cur r)"
    using found_prev [OF f(2) path [unfolded f(1)] ps] by metis
  note c = clean_simps [OF nl(4)]
  have before: "\<not> stops bkey key na" if "a \<in> set ps" "so_nodes m a = Some na" for a na
    using that f(2) by (auto simp: found_def)
  show thesis
  proof (cases "fr_value r = 0")
    case True
    then have none_ret: "ListDelete nv head bkey key True m = Some (Inr (False, TagGptr_default), m)"
      using f(3) by (simp add: ListDelete.simps)
    have at: "stops bkey key na \<and> (matches bkey key na \<longrightarrow> so_value na = 0)"
      if "qs = a # qs'" "so_nodes m a = Some na" for a qs' na
      using that True f(2) by (auto simp: found_def split: if_splits)
    show thesis by (rule none [OF f(1) _ _ none_ret]) (erule (1) before, erule (1) at)
  next
    case False
    then obtain d qs' where qs: "qs = d # qs'" using f(2) by (cases qs) (auto simp: found_def)
    with False f(2) obtain nd where nd: "so_nodes m d = Some nd" "matches bkey key nd"
      "so_value nd \<noteq> 0" "fr_next r = so_next nd" by (auto simp: found_def split: if_splits)
    have cur: "tg_gptr (fr_cur r) = d" using f(2) qs by (simp add: found_def)
    have "clean (so_next nd)"
      using path f(1) qs so_path_append [of "so_nodes m" t ps d qs'] nd(1) so_path_clean by fastforce
    note cn = clean_simps [OF this]
    have ne: "last ps \<noteq> d" using dist f(1) qs ps by auto
    have "ListDelete nv head bkey key True m = Some (Inr (True, fr_cur r), unlinked m d nd (last ps) nl)"
      using False f(3) nl(1-3) nd(1,4) c cn cur ne
      by (simp add: ListDelete.simps cas_slot_def unlinked_def fun_upd_twist)
    with deleted [OF f(1) [unfolded qs] ps nd(1) nl(1) nd(2,3)] c cur before show thesis by simp
  qed
qed

end
