(* ===== verification/SO_Correct.thy ===== *)
theory SO_Correct
  imports SO_Path
begin

text \<open>
  The invariant of a split-ordered list that one process works on, the map from byte keys to
  values it stands for, and the operations of \<open>SplitOrderedList\<close> against that map. The
  comparison of keys (\<open>memcmp\<close> over the stored key's length only) is exact under \<open>no_clash\<close>:
  keys with equal hashes have equal lengths, which holds for any keys of one length.
\<close>

section \<open>The invariant\<close>

text \<open>A node without its pointer, the key it holds, and the two kinds of nodes.\<close>

definition body :: "'h so_mem \<Rightarrow> Gptr \<Rightarrow> so_node" where
  "body m a = (the (so_nodes m a))\<lparr>so_next := TagGptr_default\<rparr>"

definition ukey :: "so_node \<Rightarrow> bytes" where
  "ukey n = take (byte_key_size n) (byte_key n)"

definition is_reg :: "so_node \<Rightarrow> bool" where
  "is_reg n \<longleftrightarrow> so_value n \<noteq> 0"

definition so_node_ok :: "(bytes \<Rightarrow> u64) \<Rightarrow> bytes set \<Rightarrow> so_node \<Rightarrow> bool" where
  "so_node_ok city K n \<longleftrightarrow>
     (if is_reg n
      then byte_key_size n \<le> BYTE_KEY_LEN \<and> length (byte_key n) = BYTE_KEY_LEN \<and>
        so_key n = so_regularkey (Hash64 city (ukey n)) \<and> ukey n \<in> K
      else \<not> bit (so_key n) 0)"

definition dummy_of :: "u64 \<Rightarrow> so_node \<Rightarrow> bool" where
  "dummy_of b n \<longleftrightarrow> so_key n = so_dummykey b \<and> byte_key_size n = 0 \<and> so_value n = 0"

definition entries :: "so_node list \<Rightarrow> (bytes \<times> u64) list" where
  "entries ns = map (\<lambda>n. (ukey n, so_value n)) (filter is_reg ns)"

definition table_ok :: "'h so_mem \<Rightarrow> Gptr list \<Rightarrow> bool" where
  "table_ok m as \<longleftrightarrow>
     (\<forall>b. so_table m b \<noteq> TagGptr_default \<longrightarrow> b < hard_max_buckets \<and> clean (so_table m b) \<and>
        tg_gptr (so_table m b) \<in> set as \<and> dummy_of b (body m (tg_gptr (so_table m b))))"

definition so_inv :: "(bytes \<Rightarrow> u64) \<Rightarrow> 'h nvmm \<Rightarrow> bytes set \<Rightarrow> 'h so_mem \<Rightarrow> Gptr list \<Rightarrow> bool" where
  "so_inv city nv K m as \<longleftrightarrow>
     so_path (so_nodes m) (so_table m 0) as \<and> as \<noteq> [] \<and> distinct as \<and> set as \<subseteq> nv_live nv (so_heap m) \<and>
     dom (so_nodes m) \<subseteq> nv_live nv (so_heap m) \<and>
     sorted (map (so_key \<circ> body m) as) \<and> (\<forall>a \<in> set as. so_node_ok city K (body m a)) \<and>
     distinct (map fst (entries (map (body m) as))) \<and> table_ok m as \<and>
     (\<exists>k. 1 \<le> k \<and> k \<le> 20 \<and> so_size m = 2 ^ k)"

definition so_view :: "'h so_mem \<Rightarrow> Gptr list \<Rightarrow> bytes \<Rightarrow> u64 option" where
  "so_view m as = map_of (entries (map (body m) as))"

definition no_clash :: "(bytes \<Rightarrow> u64) \<Rightarrow> bytes set \<Rightarrow> bool" where
  "no_clash city K \<longleftrightarrow>
     (\<forall>k \<in> K. \<forall>k' \<in> K. Hash64 city k = Hash64 city k' \<longrightarrow> length k = length k')"

text \<open>The buffer \<open>ByteKey\<close> with the key at its start.\<close>

definition holds_key :: "bytes \<Rightarrow> bytes \<Rightarrow> bool" where
  "holds_key bkey k \<longleftrightarrow> length bkey = BYTE_KEY_LEN \<and> length k \<le> BYTE_KEY_LEN \<and> take (length k) bkey = k"

lemma body_simps [simp]:
  assumes "so_nodes m a = Some n"
  shows "so_key (body m a) = so_key n" "so_value (body m a) = so_value n" "ukey (body m a) = ukey n"
    "byte_key (body m a) = byte_key n" "byte_key_size (body m a) = byte_key_size n"
    "is_reg (body m a) = is_reg n" "matches bk k (body m a) = matches bk k n"
    "stops bk k (body m a) = stops bk k n" "dummy_of b (body m a) = dummy_of b n"
  using assms by (simp_all add: body_def ukey_def is_reg_def matches_def stops_def dummy_of_def)

lemma body_next [simp]: "ukey (n\<lparr>so_next := t\<rparr>) = ukey n" "is_reg (n\<lparr>so_next := t\<rparr>) = is_reg n"
  "so_node_ok city K (n\<lparr>so_next := t\<rparr>) = so_node_ok city K n" "dummy_of b (n\<lparr>so_next := t\<rparr>) = dummy_of b n"
  by (simp_all add: ukey_def is_reg_def so_node_ok_def dummy_of_def)

lemma entries_append [simp]: "entries (xs @ ys) = entries xs @ entries ys"
  and entries_Cons: "entries (n # ns) = (if is_reg n then [(ukey n, so_value n)] else []) @ entries ns"
  and entries_Nil [simp]: "entries [] = []"
  by (simp_all add: entries_def)

lemma matches_key:
  assumes "no_clash city K" "k \<in> K" "holds_key bkey k" "so_node_ok city K n"
  shows "matches bkey (so_regularkey (Hash64 city k)) n \<longleftrightarrow> is_reg n \<and> ukey n = k"
proof (cases "is_reg n")
  case True
  with assms(4) have n: "byte_key_size n \<le> BYTE_KEY_LEN" "length (byte_key n) = BYTE_KEY_LEN"
    "so_key n = so_regularkey (Hash64 city (ukey n))" "ukey n \<in> K" by (simp_all add: so_node_ok_def)
  then have len: "length (ukey n) = byte_key_size n" by (simp add: ukey_def)
  have "matches bkey (so_regularkey (Hash64 city k)) n \<longleftrightarrow>
      Hash64 city (ukey n) = Hash64 city k \<and> ukey n = take (byte_key_size n) bkey"
    using n assms(3) by (simp add: matches_def so_regularkey_inj memcmp_eq_0 holds_key_def ukey_def)
  moreover have "byte_key_size n = length k" if "Hash64 city (ukey n) = Hash64 city k"
    using assms(1,2) n(4) that len unfolding no_clash_def by metis
  ultimately show ?thesis using True assms(3) len by (auto simp: holds_key_def)
next
  case False
  with assms(4) so_key_parity(1) [of "Hash64 city k"] show ?thesis by (auto simp: so_node_ok_def matches_def)
qed

lemma map_of_mid:
  "k \<notin> set (map fst (xs @ ys)) \<Longrightarrow> map_of (xs @ (k, v) # ys) = (map_of (xs @ ys))(k \<mapsto> v)"
  by (induction xs) (auto simp: fun_upd_twist)

lemma map_of_mid_del:
  "distinct (map fst (xs @ (k, v) # ys)) \<Longrightarrow> map_of (xs @ ys) = (map_of (xs @ (k, v) # ys))(k := None)"
proof (induction xs)
  case Nil
  then show ?case by (auto simp: map_of_eq_None_iff)
next
  case (Cons x xs)
  then show ?case by (cases x) (auto simp: fun_upd_twist)
qed

section \<open>Changing the list\<close>

text \<open>What lies before and behind the place where a search stopped.\<close>

definition around :: "u64 \<Rightarrow> 'h so_mem \<Rightarrow> Gptr list \<Rightarrow> Gptr list \<Rightarrow> bool" where
  "around key m xs ys \<longleftrightarrow>
     (\<forall>a \<in> set xs. so_key (body m a) \<le> key) \<and> (\<forall>a \<in> set ys. key \<le> so_key (body m a))"

lemma so_path_aligned: "so_path ns t as \<Longrightarrow> a \<in> set as \<Longrightarrow> a \<noteq> 0 \<and> \<not> bit a 0"
  by (induction as arbitrary: t) (auto simp: clean_def)

lemma so_inv_nodes:
  assumes "so_inv city nv K m as" "a \<in> set as"
  obtains n where "so_nodes m a = Some n" "a \<noteq> 0" "\<not> bit a 0" "so_node_ok city K n" "a \<in> nv_live nv (so_heap m)"
proof -
  have p: "so_path (so_nodes m) (so_table m 0) as" using assms(1) by (simp add: so_inv_def)
  note so_path_aligned [OF p assms(2)]
  moreover obtain n where n: "so_nodes m a = Some n" using so_path_node [OF p assms(2)] by blast
  moreover have "so_node_ok city K (body m a)" "a \<in> nv_live nv (so_heap m)"
    using assms by (auto simp: so_inv_def)
  moreover have "so_node_ok city K (body m a) = so_node_ok city K n" using n by (simp add: body_def)
  ultimately show thesis using that by blast
qed

lemma around_split:
  assumes "so_inv city nv K m as" "as = xs @ d # ys" "d # ys = ps @ qs" "ps \<noteq> []"
    and "\<And>a n. a \<in> set ps \<Longrightarrow> so_nodes m a = Some n \<Longrightarrow> \<not> stops bkey key n"
    and "\<And>a qs' n. qs = a # qs' \<Longrightarrow> so_nodes m a = Some n \<Longrightarrow> stops bkey key n"
  shows "around key m (xs @ ps) qs"
proof -
  have as: "as = xs @ ps @ qs" using assms(2,3) by simp
  have srt: "sorted (map (so_key \<circ> body m) (xs @ ps @ qs))" using assms(1) as by (simp add: so_inv_def)
  have ps: "so_key (body m a) \<le> key" if am: "a \<in> set ps" for a
  proof -
    obtain n where "so_nodes m a = Some n" by (rule so_inv_nodes [OF assms(1), of a]) (use am as in auto)
    with assms(5) [OF am this] show ?thesis by (simp add: stops_def not_less)
  qed
  moreover have "so_key (body m a) \<le> key" if "a \<in> set xs" for a
    using srt that ps [of d] assms(3,4) by (cases ps) (auto simp: sorted_append intro: order_trans)
  moreover have "key \<le> so_key (body m a)" if "a \<in> set qs" for a
  proof -
    from that obtain q qs' where qs: "qs = q # qs'" by (cases qs) auto
    obtain n where n: "so_nodes m q = Some n" by (rule so_inv_nodes [OF assms(1), of q]) (use as qs in auto)
    from assms(6) [OF qs n] have "key \<le> so_key (body m q)" using n by (auto simp: stops_def matches_def)
    moreover have "so_key (body m q) \<le> so_key (body m a)"
      using srt that qs by (auto simp: sorted_append)
    ultimately show ?thesis by simp
  qed
  ultimately show ?thesis by (auto simp: around_def)
qed

lemma body_linked:
  assumes "so_nodes m a = Some na" "a \<noteq> p"
  shows "body (linked m p n a na) p = n\<lparr>so_next := TagGptr_default\<rparr>"
    and "x \<noteq> p \<Longrightarrow> body (linked m p n a na) x = body m x"
  using assms by (auto simp: body_def linked_def)

lemma linked_rest [simp]:
  "so_table (linked m p n a na) = so_table m" "so_size (linked m p n a na) = so_size m"
  "so_count (linked m p n a na) = so_count m" "so_heap (linked m p n a na) = so_heap m"
  by (simp_all add: linked_def)

lemma so_path_linked:
  assumes inv: "so_inv city nv K m (xs @ ys)" and xs: "xs \<noteq> []" "so_nodes m (last xs) = Some nl"
    and p: "p \<notin> set (xs @ ys)" "p \<noteq> 0" "\<not> bit p 0"
  shows "so_path (so_nodes (linked m p n (last xs) nl)) (so_table m 0) (xs @ p # ys)"
proof -
  obtain zs l where eq: "xs = zs @ [l]" using xs(1) by (cases xs rule: rev_cases) auto
  then have l: "last xs = l" by simp
  have path: "so_path (so_nodes m) (so_table m 0) (zs @ l # ys)" "distinct (zs @ l # ys)"
    using inv eq by (simp_all add: so_inv_def)
  have nx: "\<not> bit (tg_gptr (so_next nl)) 0"
    using so_path_append [OF path(1)] xs(2) so_path_clean l by (auto simp: clean_def)
  have "so_path (so_nodes (linked m p n l nl)) (so_table m 0) (zs @ l # p # ys)"
  proof (rule so_path_link [OF path])
    show "so_nodes m l = Some nl" using xs(2) l by simp
    show "p \<notin> set (zs @ l # ys)" using p(1) eq by simp
    then have "p \<noteq> l" by auto
    then show "so_nodes (linked m p n l nl) p =
        Some (n\<lparr>so_next := mk_TagGptr_mark 0 (tg_gptr (so_next nl)) 0\<rparr>)" by (simp add: linked_def)
    show "so_nodes (linked m p n l nl) l =
        Some (nl\<lparr>so_next := mk_TagGptr_mark 0 p (tg_tag (so_next nl) + 1)\<rparr>)" by (simp add: linked_def)
  qed (use p nx in \<open>simp_all add: linked_def\<close>)
  then show ?thesis using eq l by simp
qed

lemma table_ok_cong:
  assumes "table_ok m as" "so_table m' = so_table m" "set as \<subseteq> set bs"
    and "\<And>a. a \<in> set as \<Longrightarrow> body m' a = body m a"
  shows "table_ok m' bs"
  using assms unfolding table_ok_def by auto

lemma so_inv_link:
  assumes inv: "so_inv city nv K m (xs @ ys)" and xs: "xs \<noteq> []" "so_nodes m (last xs) = Some nl"
    and p: "p \<notin> set (xs @ ys)" "p \<noteq> 0" "\<not> bit p 0" "p \<in> nv_live nv (so_heap m)"
    and n: "so_node_ok city K n" "is_reg n \<Longrightarrow> so_view m (xs @ ys) (ukey n) = None"
    and around: "around (so_key n) m xs ys"
  shows "so_inv city nv K (linked m p n (last xs) nl) (xs @ p # ys)"
    and "so_view (linked m p n (last xs) nl) (xs @ p # ys) =
      (if is_reg n then (so_view m (xs @ ys))(ukey n \<mapsto> so_value n) else so_view m (xs @ ys))"
proof -
  let ?m = "linked m p n (last xs) nl"
  have ne: "last xs \<noteq> p" using p(1) xs(1) by auto
  have bp: "body ?m p = n\<lparr>so_next := TagGptr_default\<rparr>" by (rule body_linked(1) [OF xs(2) ne])
  have old: "body ?m a = body m a" if "a \<in> set (xs @ ys)" for a
    using body_linked(2) [OF xs(2) ne, of a] that p(1) by auto
  have bods: "map (body ?m) xs = map (body m) xs" "map (body ?m) ys = map (body m) ys"
    using old by simp_all
  have keys: "map (so_key \<circ> body ?m) xs = map (so_key \<circ> body m) xs"
    "map (so_key \<circ> body ?m) ys = map (so_key \<circ> body m) ys" using old by simp_all
  have srt: "sorted (map (so_key \<circ> body ?m) (xs @ p # ys))"
    using inv around by (auto simp: keys so_inv_def sorted_append around_def bp old)
  have ents: "entries (map (body ?m) (xs @ p # ys)) =
      entries (map (body m) xs) @ (if is_reg n then [(ukey n, so_value n)] else []) @ entries (map (body m) ys)"
    by (simp add: bods bp entries_Cons)
  have new: "ukey n \<notin> set (map fst (entries (map (body m) xs) @ entries (map (body m) ys)))" if "is_reg n"
    using n(2) [OF that] by (auto simp: so_view_def map_add_def map_of_eq_None_iff split: option.splits)
  show "so_view ?m (xs @ p # ys) =
      (if is_reg n then (so_view m (xs @ ys))(ukey n \<mapsto> so_value n) else so_view m (xs @ ys))"
    unfolding so_view_def ents using map_of_mid [OF new] by simp
  have tab: "table_ok ?m (xs @ p # ys)"
    by (rule table_ok_cong [of m "xs @ ys"]) (use inv old in \<open>auto simp: so_inv_def\<close>)
  have "distinct (map fst (entries (map (body ?m) (xs @ p # ys))))"
    unfolding ents using inv new by (auto simp: so_inv_def)
  moreover have "dom (so_nodes ?m) \<subseteq> nv_live nv (so_heap m)"
    using inv p(4) xs(2) by (auto simp: so_inv_def linked_def)
  ultimately show "so_inv city nv K ?m (xs @ p # ys)"
    using inv so_path_linked [OF inv xs p(1-3)] srt tab p n(1) old bp by (auto simp: so_inv_def)
qed

lemma body_unlinked:
  assumes "so_nodes m a = Some na" "a \<noteq> d" "x \<noteq> d"
  shows "body (unlinked m d nd a na) x = body m x"
  using assms by (auto simp: body_def unlinked_def)

lemma unlinked_rest [simp]:
  "so_table (unlinked m d nd a na) = so_table m" "so_size (unlinked m d nd a na) = so_size m"
  "so_count (unlinked m d nd a na) = so_count m" "so_heap (unlinked m d nd a na) = so_heap m"
  by (simp_all add: unlinked_def)

text \<open>Unlinking a regular node; dummies stay, so the table stays right.\<close>

lemma so_inv_unlink:
  assumes inv: "so_inv city nv K m (xs @ d # ys)" and xs: "xs \<noteq> []" "so_nodes m (last xs) = Some nl"
    and d: "so_nodes m d = Some nd" "is_reg nd"
  shows "so_inv city nv K (unlinked m d nd (last xs) nl) (xs @ ys)"
    and "so_view (unlinked m d nd (last xs) nl) (xs @ ys) = (so_view m (xs @ d # ys))(ukey nd := None)"
proof -
  obtain zs l where eq: "xs = zs @ [l]" using xs(1) by (cases xs rule: rev_cases) auto
  then have l: "last xs = l" by simp
  let ?m = "unlinked m d nd l nl"
  have path: "so_path (so_nodes m) (so_table m 0) (zs @ l # d # ys)" "distinct (zs @ l # d # ys)"
    using inv eq by (simp_all add: so_inv_def)
  have ne: "l \<noteq> d" using path(2) by auto
  have old: "body ?m a = body m a" if "a \<in> set (xs @ ys)" for a
    by (rule body_unlinked) (use that path(2) eq xs(2) l in auto)
  have nx: "\<not> bit (tg_gptr (so_next nd)) 0"
    using so_path_append [of "so_nodes m" "so_table m 0" "zs @ [l]" d ys] path(1) d(1) so_path_clean
    by (auto simp: clean_def)
  have p': "so_path (so_nodes ?m) (so_table m 0) (zs @ l # ys)"
    by (rule so_path_unlink [OF path, where n = nl and nd = nd
          and c = "mk_TagGptr_mark 0 (tg_gptr (so_next nd)) (tg_tag (so_next nl) + 1)"])
      (use xs(2) l d(1) nx in \<open>auto simp: unlinked_def\<close>)
  have ents: "entries (map (body ?m) (xs @ ys)) = entries (map (body m) xs) @ entries (map (body m) ys)"
    "entries (map (body m) (xs @ d # ys)) =
      entries (map (body m) xs) @ (ukey nd, so_value nd) # entries (map (body m) ys)"
    using old d by (simp_all add: entries_Cons cong: map_cong)
  have dist: "distinct (map fst (entries (map (body m) (xs @ d # ys))))" using inv by (simp add: so_inv_def)
  show "so_view (unlinked m d nd (last xs) nl) (xs @ ys) = (so_view m (xs @ d # ys))(ukey nd := None)"
    unfolding so_view_def l ents by (rule map_of_mid_del) (use dist [unfolded ents(2)] in simp)
  have tab: "table_ok ?m (xs @ ys)" unfolding table_ok_def
  proof (intro allI impI)
    fix b assume "so_table ?m b \<noteq> TagGptr_default"
    then have b: "b < hard_max_buckets" "clean (so_table m b)" "tg_gptr (so_table m b) \<in> set (xs @ d # ys)"
      "dummy_of b (body m (tg_gptr (so_table m b)))"
      using inv by (simp_all add: so_inv_def table_ok_def)
    then have "tg_gptr (so_table m b) \<noteq> d" using d by (auto simp: dummy_of_def is_reg_def)
    with b old show "b < hard_max_buckets \<and> clean (so_table ?m b) \<and> tg_gptr (so_table ?m b) \<in> set (xs @ ys) \<and>
        dummy_of b (body ?m (tg_gptr (so_table ?m b)))" by auto
  qed
  have keys: "map (so_key \<circ> body ?m) (xs @ ys) = map (so_key \<circ> body m) (xs @ ys)" using old by simp
  have "sorted (map (so_key \<circ> body ?m) (xs @ ys))"
    unfolding keys using inv by (auto simp: so_inv_def sorted_append)
  moreover have "distinct (map fst (entries (map (body ?m) (xs @ ys))))"
    unfolding ents(1) using dist [unfolded ents(2)] by simp
  moreover have "dom (so_nodes ?m) \<subseteq> nv_live nv (so_heap m)"
    using inv d(1) xs(2) l by (auto simp: so_inv_def unlinked_def)
  ultimately show "so_inv city nv K (unlinked m d nd (last xs) nl) (xs @ ys)"
    using inv p' tab old eq l by (auto simp: so_inv_def)
qed

text \<open>Overwriting the value of a regular node in place.\<close>

lemma so_inv_update:
  assumes inv: "so_inv city nv K m (xs @ d # ys)" and d: "so_nodes m d = Some nd" "is_reg nd" and v: "v \<noteq> 0"
  defines "m' \<equiv> m\<lparr>so_nodes := (so_nodes m)(d \<mapsto> nd\<lparr>so_value := v\<rparr>)\<rparr>"
  shows "so_inv city nv K m' (xs @ d # ys)"
    and "so_view m' (xs @ d # ys) = (so_view m (xs @ d # ys))(ukey nd \<mapsto> v)"
proof -
  have notin: "d \<notin> set xs" "d \<notin> set ys" using inv by (auto simp: so_inv_def)
  have old: "body m' a = body m a" if "a \<noteq> d" for a using that by (simp add: body_def m'_def)
  have bd: "body m' d = (body m d)\<lparr>so_value := v\<rparr>" using d by (simp add: body_def m'_def)
  have bods: "map (body m') xs = map (body m) xs" "map (body m') ys = map (body m) ys"
    using notin by (auto intro!: old)
  have ents: "entries (map (body m') (xs @ d # ys)) =
      entries (map (body m) xs) @ (ukey nd, v) # entries (map (body m) ys)"
    "entries (map (body m) (xs @ d # ys)) =
      entries (map (body m) xs) @ (ukey nd, so_value nd) # entries (map (body m) ys)"
    using d v by (simp_all add: entries_Cons bods bd is_reg_def ukey_def)
  have dist: "distinct (map fst (entries (map (body m) (xs @ d # ys))))" using inv by (simp add: so_inv_def)
  show "so_view m' (xs @ d # ys) = (so_view m (xs @ d # ys))(ukey nd \<mapsto> v)"
  proof -
    have "map_of (entries (map (body m) xs) @ (ukey nd, w) # entries (map (body m) ys)) =
        (map_of (entries (map (body m) xs) @ entries (map (body m) ys)))(ukey nd \<mapsto> w)" for w
      by (rule map_of_mid) (use dist [unfolded ents] in simp)
    then show ?thesis unfolding so_view_def ents by simp
  qed
  have "so_path (so_nodes m') (so_table m 0) (xs @ d # ys)"
    by (subst so_path_cong_next [of _ _ "so_nodes m"]) (use inv d in \<open>auto simp: m'_def so_inv_def\<close>)
  moreover have "table_ok m' (xs @ d # ys)" unfolding table_ok_def
  proof (intro allI impI)
    fix b assume "so_table m' b \<noteq> TagGptr_default"
    then have b: "b < hard_max_buckets" "clean (so_table m b)" "tg_gptr (so_table m b) \<in> set (xs @ d # ys)"
      "dummy_of b (body m (tg_gptr (so_table m b)))"
      using inv by (simp_all add: so_inv_def table_ok_def m'_def)
    then have "tg_gptr (so_table m b) \<noteq> d" using d by (auto simp: dummy_of_def is_reg_def)
    with b old show "b < hard_max_buckets \<and> clean (so_table m' b) \<and> tg_gptr (so_table m' b) \<in> set (xs @ d # ys) \<and>
        dummy_of b (body m' (tg_gptr (so_table m' b)))" by (auto simp: m'_def)
  qed
  moreover have keys: "map (so_key \<circ> body m') (xs @ d # ys) = map (so_key \<circ> body m) (xs @ d # ys)"
    using notin bd by (auto intro!: arg_cong [of _ _ so_key] old)
  moreover have "so_node_ok city K (body m' a)" if "a \<in> set (xs @ d # ys)" for a
  proof (cases "a = d")
    case True
    then show ?thesis using inv d v by (auto simp: so_inv_def so_node_ok_def bd is_reg_def ukey_def)
  next
    case False
    with that inv old show ?thesis by (auto simp: so_inv_def)
  qed
  moreover have "distinct (map fst (entries (map (body m') (xs @ d # ys))))"
    using dist unfolding ents by simp
  moreover have "dom (so_nodes m') \<subseteq> nv_live nv (so_heap m)"
    using inv d(1) by (auto simp: so_inv_def m'_def)
  moreover have rest: "so_table m' = so_table m" "so_heap m' = so_heap m" "so_size m' = so_size m"
    by (simp_all add: m'_def)
  ultimately show "so_inv city nv K m' (xs @ d # ys)"
    using inv unfolding so_inv_def keys rest by blast
qed

section \<open>Buckets\<close>

text \<open>
  What initialising buckets changes: nothing that can be seen from outside. Memory that is
  neither free nor part of the list stays as it is.
\<close>

definition so_frame :: "'h nvmm \<Rightarrow> 'h so_mem \<Rightarrow> Gptr list \<Rightarrow> 'h so_mem \<Rightarrow> Gptr list \<Rightarrow> bool" where
  "so_frame nv m as m' as' \<longleftrightarrow>
     (\<forall>x. x \<in> nv_live nv (so_heap m) \<and> x \<notin> set as \<longrightarrow>
        x \<in> nv_live nv (so_heap m') \<and> x \<notin> set as' \<and> so_nodes m' x = so_nodes m x)"

definition so_same ::
  "(bytes \<Rightarrow> u64) \<Rightarrow> 'h nvmm \<Rightarrow> bytes set \<Rightarrow> 'h so_mem \<Rightarrow> Gptr list \<Rightarrow> 'h so_mem \<Rightarrow> Gptr list \<Rightarrow> bool" where
  "so_same city nv K m as m' as' \<longleftrightarrow>
     so_inv city nv K m' as' \<and> so_frame nv m as m' as' \<and> so_view m' as' = so_view m as \<and>
     so_size m' = so_size m \<and> so_count m' = so_count m"

lemma so_frame_refl: "so_frame nv m as m as"
  and so_frame_trans: "so_frame nv m as m1 as1 \<Longrightarrow> so_frame nv m1 as1 m2 as2 \<Longrightarrow> so_frame nv m as m2 as2"
  by (auto simp: so_frame_def)

lemma so_same_refl: "so_inv city nv K m as \<Longrightarrow> so_same city nv K m as m as"
  and so_same_trans: "so_same city nv K m as m1 as1 \<Longrightarrow> so_same city nv K m1 as1 m2 as2 \<Longrightarrow>
    so_same city nv K m as m2 as2"
  by (auto simp: so_same_def so_frame_refl intro: so_frame_trans)

text \<open>The list does not depend on the heap, as long as its nodes are live.\<close>

lemma body_heap [simp]: "body (m\<lparr>so_heap := h\<rparr>) = body m" "body (m\<lparr>so_table := t\<rparr>) = body m"
  "body (m\<lparr>so_count := c\<rparr>) = body m" "body (m\<lparr>so_size := c\<rparr>) = body m"
  by (simp_all add: body_def fun_eq_iff)

lemma so_heap_irrelevant [simp]:
  "so_view (m\<lparr>so_heap := h\<rparr>) = so_view m" "table_ok (m\<lparr>so_heap := h\<rparr>) = table_ok m"
  by (simp_all add: so_view_def table_ok_def fun_eq_iff)

lemma so_inv_heap:
  "so_inv city nv K m as \<Longrightarrow> set as \<subseteq> nv_live nv h \<Longrightarrow> dom (so_nodes m) \<subseteq> nv_live nv h \<Longrightarrow>
   so_inv city nv K (m\<lparr>so_heap := h\<rparr>) as"
  by (simp add: so_inv_def)

text \<open>A node that is not on the list may be written.\<close>

lemma off_list:
  fixes m :: "'h so_mem" and x :: "so_node option"
  assumes "p \<notin> set as"
  defines "m' \<equiv> m\<lparr>so_nodes := (so_nodes m)(p := x)\<rparr>"
  shows "so_inv city nv K m as \<Longrightarrow> x = None \<or> p \<in> nv_live nv (so_heap m) \<Longrightarrow> so_inv city nv K m' as" "so_view m' as = so_view m as"
proof -
  have b: "body m' a = body m a" if "a \<in> set as" for a
    using that assms(1) by (auto simp: body_def m'_def)
  then have maps: "map (body m') as = map (body m) as" "map (so_key \<circ> body m') as = map (so_key \<circ> body m) as"
    by auto
  then show "so_view m' as = so_view m as" unfolding so_view_def by (simp only:)
  have "so_path (so_nodes m') (so_table m 0) as = so_path (so_nodes m) (so_table m 0) as"
    by (rule so_path_cong) (use assms(1) in \<open>auto simp: m'_def\<close>)
  moreover have "table_ok m' as = table_ok m as"
    using b by (auto simp: table_ok_def m'_def)
  moreover have "so_table m' = so_table m" "so_heap m' = so_heap m" "so_size m' = so_size m"
    by (simp_all add: m'_def)
  moreover have "(\<forall>a \<in> set as. so_node_ok city K (body m' a)) = (\<forall>a \<in> set as. so_node_ok city K (body m a))"
    using b by simp
  ultimately have eq: "so_inv city nv K m' as \<longleftrightarrow> dom (so_nodes m') \<subseteq> nv_live nv (so_heap m) \<and> so_inv city nv K m as"
    if "dom (so_nodes m) \<subseteq> nv_live nv (so_heap m)" using that unfolding so_inv_def by (auto simp only: maps)
  assume inv: "so_inv city nv K m as" and x: "x = None \<or> p \<in> nv_live nv (so_heap m)"
  from inv have dom: "dom (so_nodes m) \<subseteq> nv_live nv (so_heap m)" by (simp add: so_inv_def)
  with x have "dom (so_nodes m') \<subseteq> nv_live nv (so_heap m)" by (auto simp: m'_def split: if_splits)
  with eq [OF dom] inv show "so_inv city nv K m' as" by simp
qed

lemma so_alloc:
  assumes nv: "nvmm_ok nv" and inv: "so_inv city nv K m as" and al: "nv_alloc nv sz (so_heap m) = (p, h)"
  shows "so_same city nv K m as (m\<lparr>so_heap := h\<rparr>) as"
    and "p \<noteq> 0 \<Longrightarrow> p \<notin> set as \<and> \<not> bit p 0 \<and> p \<in> nv_live nv h \<and> p \<notin> nv_live nv (so_heap m)"
proof -
  have l: "if p = 0 then nv_live nv h = nv_live nv (so_heap m)
      else p \<notin> nv_live nv (so_heap m) \<and> \<not> bit p 0 \<and> nv_live nv h = insert p (nv_live nv (so_heap m))"
    using nv al unfolding nvmm_ok_def nvmm_alloc_ok_def by blast
  have "set as \<subseteq> nv_live nv (so_heap m)" using inv by (simp add: so_inv_def)
  with l show "p \<noteq> 0 \<Longrightarrow> p \<notin> set as \<and> \<not> bit p 0 \<and> p \<in> nv_live nv h \<and> p \<notin> nv_live nv (so_heap m)"
    by auto
  have "set as \<subseteq> nv_live nv h" "dom (so_nodes m) \<subseteq> nv_live nv h"
    using l inv by (auto simp: so_inv_def split: if_splits)
  with inv l show "so_same city nv K m as (m\<lparr>so_heap := h\<rparr>) as"
    by (auto simp: so_same_def so_frame_def intro!: so_inv_heap split: if_splits)
qed

text \<open>A fresh block may be written.\<close>

lemma off_list_same:
  assumes "so_same city nv K m as m1 as" "p \<notin> set as" "p \<notin> nv_live nv (so_heap m)" "p \<in> nv_live nv (so_heap m1)"
  shows "so_same city nv K m as (m1\<lparr>so_nodes := (so_nodes m1)(p \<mapsto> n)\<rparr>) as"
proof -
  have inv: "so_inv city nv K m1 as" using assms(1) by (simp add: so_same_def)
  note o = off_list(1) [OF assms(2) inv, of "Some n"] off_list(2) [OF assms(2), of m1 "Some n"]
  with assms show ?thesis by (auto simp: so_same_def so_frame_def)
qed

text \<open>A bucket's entry leads to its dummy and on to the end of the list.\<close>

lemma bucket_path:
  assumes inv: "so_inv city nv K m as" and b: "so_table m b \<noteq> TagGptr_default"
  obtains xs d ys n0 where "as = xs @ d # ys" "load_slot (TableSlot b) m = Inr (so_table m b)"
    "so_path (so_nodes m) (so_table m b) (d # ys)" "so_nodes m d = Some n0" "dummy_of b n0"
proof -
  from inv b have t: "b < hard_max_buckets" "clean (so_table m b)" "tg_gptr (so_table m b) \<in> set as"
    "dummy_of b (body m (tg_gptr (so_table m b)))" by (simp_all add: so_inv_def table_ok_def)
  from t(3) obtain xs ys where as: "as = xs @ tg_gptr (so_table m b) # ys" by (meson split_list)
  obtain n0 where n0: "so_nodes m (tg_gptr (so_table m b)) = Some n0" by (rule so_inv_nodes [OF inv t(3)])
  have "so_path (so_nodes m) (so_table m 0) (xs @ tg_gptr (so_table m b) # ys)"
    using inv as by (simp add: so_inv_def)
  from so_path_suffix [OF this t(2) refl] that [OF as _ _ n0] t n0 show thesis by simp
qed

lemma table_ok_set:
  assumes "table_ok m as" "b < hard_max_buckets" "clean t" "tg_gptr t \<in> set as" "dummy_of b (body m (tg_gptr t))"
  shows "table_ok (store_slot (TableSlot b) t m) as"
  using assms by (simp add: table_ok_def body_def)

lemma bucket_small: "b < hard_max_buckets \<Longrightarrow> \<not> bit b 63"
proof -
  assume "b < hard_max_buckets"
  then have "unat b < 2 ^ 20" by (simp add: hard_max_buckets_def word_less_nat_alt)
  then have "\<not> bit (unat b) 63" by (simp add: bit_iff_odd)
  then show ?thesis by (simp add: bit_unsigned_iff)
qed

lemma get_parent_le: "get_parent b \<le> b"
  by (cases "b = 0") (auto simp: get_parent_def dest: get_parent_less intro: less_imp_le)

lemma add_dummy_ok:
  assumes nv: "nvmm_ok nv" and inv: "so_inv city nv K m as" and b: "b < hard_max_buckets" "b \<noteq> 0"
    and par: "so_table m (get_parent b) \<noteq> TagGptr_default"
  shows "\<exists>r m' as'. add_dummy nv b m = Some (r, m') \<and> so_same city nv K m as m' as' \<and>
    (r = Inr () \<and> so_table m' b \<noteq> TagGptr_default \<or> r = Inl AssertFail)"
proof (cases "nv_alloc nv SO_NODE_SIZE (so_heap m)")
  case (Pair p h)
  note al = so_alloc [OF nv inv Pair]
  show ?thesis
  proof (cases "p = 0")
    case True
    with al(1) Pair show ?thesis by (auto simp: add_dummy_def)
  next
    case False
    note p = al(2) [OF False]
    let ?n = "dummy_node b"
    define m2 where "m2 = m\<lparr>so_heap := h, so_nodes := (so_nodes m)(p \<mapsto> ?n)\<rparr>"
    have m2: "so_nodes m2 p = Some ?n" "so_table m2 = so_table m" "so_heap m2 = h" by (simp_all add: m2_def)
    have same2: "so_same city nv K m as m2 as"
      using off_list_same [OF al(1), of p ?n] p by (simp add: m2_def)
    then have inv2: "so_inv city nv K m2 as" by (simp add: so_same_def)
    obtain xs d ys n0 where bp: "as = xs @ d # ys"
      "load_slot (TableSlot (get_parent b)) m2 = Inr (so_table m2 (get_parent b))"
      "so_path (so_nodes m2) (so_table m2 (get_parent b)) (d # ys)" "so_nodes m2 d = Some n0"
      "dummy_of (get_parent b) n0"
      by (rule bucket_path [OF inv2 par [folded m2(2)]])
    have nstop: "\<not> stops (byte_key ?n) (so_key ?n) n0"
      using bp(5) parent_before_child [OF b(2)] by (auto simp: stops_def matches_def dummy_of_def dummy_node_def)
    have even: "\<not> bit (so_key ?n) 0" "so_node_ok city K ?n" "\<not> is_reg ?n" "dummy_of b ?n"
      using so_key_parity(2) [OF bucket_small [OF b(1)]]
      by (simp_all add: dummy_node_def so_node_ok_def is_reg_def so_zero_def dummy_of_def)
    have pn: "p \<notin> set (d # ys)" "\<not> bit p 0" using p bp(1) by auto
    from bp(3,2) m2(1) pn False refl [of "d # ys"] bp(4) nstop show ?thesis
    proof (cases rule: ListInsert_alone [where nv = nv])
      case (dup ps a qs na cur)
      then have am: "a \<in> set as" using bp(1) by (metis Un_iff in_set_conv_decomp set_append)
      obtain na' where "so_nodes m2 a = Some na'" "so_node_ok city K na'" by (rule so_inv_nodes [OF inv2 am])
      with dup have "so_node_ok city K na" by simp
      with dup even(1) so_key_parity(1) show ?thesis by (auto simp: so_node_ok_def is_reg_def matches_def)
    next
      case (added ps qs nl cur)
      let ?m3 = "linked m2 p ?n (last ps) nl"
      let ?t = "mk_TagGptr_mark 0 p 0"
      have as: "as = (xs @ ps) @ qs" using bp(1) added(1) by simp
      have l: "last (xs @ ps) = last ps" using added(2) by simp
      have ar: "around (so_key ?n) m2 (xs @ ps) qs"
        by (rule around_split [OF inv2 bp(1) added(1,2), of "byte_key ?n"]) (use added(4,5) in blast)+
      note lk = so_inv_link [OF inv2 [unfolded as], of nl p ?n, unfolded l, OF _ added(3) _ False _ _ even(2) _ ar]
      have inv3: "so_inv city nv K ?m3 ((xs @ ps) @ p # qs)"
        and view3: "so_view ?m3 ((xs @ ps) @ p # qs) = so_view m2 as"
        using lk p added(2) as even(3) m2(3) by simp_all
      have body3: "body ?m3 p = ?n\<lparr>so_next := TagGptr_default\<rparr>"
        by (rule body_linked(1) [OF added(3)]) (use added(1,2) pn in auto)
      let ?m4 = "store_slot (TableSlot b) ?t ?m3"
      have "table_ok ?m4 ((xs @ ps) @ p # qs)"
        by (rule table_ok_set) (use inv3 b p body3 even(4) in \<open>auto simp: so_inv_def\<close>)
      then have inv4: "so_inv city nv K ?m4 ((xs @ ps) @ p # qs)"
        using inv3 b(2) by (simp add: so_inv_def)
      moreover have "so_view ?m4 ((xs @ ps) @ p # qs) = so_view m as"
        using view3 same2 by (simp add: so_view_def so_same_def)
      moreover have "so_frame nv m as ?m4 ((xs @ ps) @ p # qs)"
        using same2 p as added(2) by (auto simp: so_same_def so_frame_def linked_def m2(3))
      moreover have "?t \<noteq> TagGptr_default"
        using False p by (auto simp: mk_TagGptr_mark_def TagGptr_default_def gptr_mask_even)
      moreover have "add_dummy nv b m = Some (Inr (), ?m4)"
        using Pair False added(6) b by (simp add: add_dummy_def m2_def store_table_def)
      ultimately show ?thesis using same2 by (auto simp: so_same_def intro!: exI [of _ "(xs @ ps) @ p # qs"])
    qed
  qed
qed

end
