(* ===== verification/SO_Ops.thy ===== *)
theory SO_Ops
  imports SO_Correct
begin

text \<open>
  The operations of \<open>SplitOrderedList\<close> against the map the list stands for: bucket
  initialisation returns and is invisible, and \<open>Find\<close>, \<open>Insert\<close>, \<open>FindOrInsert\<close>,
  \<open>InsertOrUpdate\<close> and \<open>Delete\<close> act on one key. A failed allocation ends an operation in a
  failed assertion, with the map unchanged.
\<close>

section \<open>Bucket initialisation\<close>

lemma InitializeBucket_ok:
  assumes nv: "nvmm_ok nv"
  shows "so_inv city nv K m as \<Longrightarrow> b < hard_max_buckets \<Longrightarrow> b \<noteq> 0 \<Longrightarrow>
    \<exists>r m' as'. InitializeBucket nv b m = Some (r, m') \<and> so_same city nv K m as m' as' \<and>
      (r = Inr () \<and> so_table m' b \<noteq> TagGptr_default \<or> r = Inl AssertFail)"
proof (induction "unat b" arbitrary: b m as rule: less_induct)
  case less
  let ?p = "get_parent b"
  have p: "?p < b" "?p < hard_max_buckets" using get_parent_less [OF less.prems(3)] less.prems(2) by auto
  have "\<exists>r m1 as1. (if so_table m ?p = TagGptr_default then InitializeBucket nv ?p m else Some (Inr (), m)) =
      Some (r, m1) \<and> so_same city nv K m as m1 as1 \<and>
      (r = Inr () \<and> so_table m1 ?p \<noteq> TagGptr_default \<or> r = Inl AssertFail)"
  proof (cases "so_table m ?p = TagGptr_default")
    case True
    have "?p \<noteq> 0"
    proof
      assume "?p = 0"
      with True have "so_table m 0 = TagGptr_default" by simp
      with less.prems(1) show False
        by (cases as) (auto simp: so_inv_def TagGptr_default_def)
    qed
    with less.hyps [OF _ less.prems(1) p(2)] p(1) True show ?thesis by (simp add: word_less_nat_alt)
  next
    case False
    with so_same_refl [OF less.prems(1)] show ?thesis by auto
  qed
  then obtain r m1 as1 where r: "(if so_table m ?p = TagGptr_default then InitializeBucket nv ?p m
      else Some (Inr (), m)) = Some (r, m1)" "so_same city nv K m as m1 as1"
    "r = Inr () \<and> so_table m1 ?p \<noteq> TagGptr_default \<or> r = Inl AssertFail" by blast
  then have inv1: "so_inv city nv K m1 as1" by (simp add: so_same_def)
  from r(3) show ?case
  proof
    assume r1: "r = Inr () \<and> so_table m1 ?p \<noteq> TagGptr_default"
    with add_dummy_ok [OF nv inv1 less.prems(2,3)] obtain r' m' as' where
      a: "add_dummy nv b m1 = Some (r', m')" "so_same city nv K m1 as1 m' as'"
      "r' = Inr () \<and> so_table m' b \<noteq> TagGptr_default \<or> r' = Inl AssertFail" by blast
    have "InitializeBucket nv b m = Some (r', m')"
      using r(1) r1 a(1) p(2) by (subst InitializeBucket.simps) simp
    with a(3) so_same_trans [OF r(2) a(2)] show ?thesis by blast
  next
    assume "r = Inl AssertFail"
    moreover from this have "InitializeBucket nv b m = Some (Inl AssertFail, m1)"
      using r(1) p(2) by (subst InitializeBucket.simps) simp
    ultimately show ?thesis using r(2) by blast
  qed
qed

lemma need_bucket_ok:
  assumes nv: "nvmm_ok nv" and inv: "so_inv city nv K m as" and b: "b < hard_max_buckets"
  obtains (ready) m' as' where "need_bucket nv b m = Some (Inr (), m')" "so_same city nv K m as m' as'"
      "so_table m' b \<noteq> TagGptr_default"
  | (abort) m' as' where "need_bucket nv b m = Some (Inl AssertFail, m')" "so_same city nv K m as m' as'"
proof (cases "so_table m b = TagGptr_default")
  case True
  have "b \<noteq> 0"
  proof
    assume "b = 0"
    with True inv show False by (cases as) (auto simp: so_inv_def TagGptr_default_def)
  qed
  from InitializeBucket_ok [OF nv inv b this] obtain r m' as' where
    "InitializeBucket nv b m = Some (r, m')" "so_same city nv K m as m' as'"
    "r = Inr () \<and> so_table m' b \<noteq> TagGptr_default \<or> r = Inl AssertFail" by blast
  with True b ready abort show thesis by (auto simp: need_bucket_def)
next
  case False
  with b ready [OF _ so_same_refl [OF inv]] show thesis by (simp add: need_bucket_def)
qed

text \<open>The bucket of a key.\<close>

lemma bucket_of_key:
  assumes "so_inv city nv K m as"
  shows "l mod so_size m < hard_max_buckets" "so_dummykey (l mod so_size m) < so_regularkey l"
proof -
  obtain k where k: "1 \<le> k" "k \<le> 20" "so_size m = 2 ^ k" using assms by (auto simp: so_inv_def)
  have tb: "l mod so_size m = take_bit k l" by (simp add: k(3) take_bit_eq_mod)
  then show "so_dummykey (l mod so_size m) < so_regularkey l" using dummy_before_regular [of k l] k by simp
  have "unat (take_bit k l) < 2 ^ k" by (simp add: unsigned_take_bit_eq)
  also have "(2::nat) ^ k \<le> 2 ^ 20" using k by (intro power_increasing) simp_all
  finally show "l mod so_size m < hard_max_buckets"
    unfolding tb by (simp add: word_less_nat_alt hard_max_buckets_def)
qed

section \<open>Searching for a key\<close>

text \<open>No node before the bucket's dummy and none behind the stopping place holds the key.\<close>

lemma view_Some:
  assumes "so_inv city nv K m as" "a \<in> set as" "so_nodes m a = Some n" "is_reg n"
  shows "so_view m as (ukey n) = Some (so_value n)"
proof -
  have "(ukey (body m a), so_value (body m a)) \<in> set (entries (map (body m) as))"
    unfolding entries_def set_map by (rule imageI) (use assms(2-4) in auto)
  then have "(ukey n, so_value n) \<in> set (entries (map (body m) as))" using assms(3) by simp
  with assms(1) show ?thesis by (simp add: so_view_def so_inv_def)
qed

lemma view_None:
  assumes "\<And>a n. a \<in> set as \<Longrightarrow> so_nodes m a = Some n \<Longrightarrow> \<not> (is_reg n \<and> ukey n = k)"
    and "so_inv city nv K m as"
  shows "so_view m as k = None"
proof (rule ccontr)
  assume "so_view m as k \<noteq> None"
  then obtain a where a: "a \<in> set as" "is_reg (body m a)" "ukey (body m a) = k"
    by (auto simp: so_view_def entries_def dest!: map_of_SomeD)
  obtain n where "so_nodes m a = Some n" by (rule so_inv_nodes [OF assms(2) a(1)])
  with assms(1) a show False by auto
qed

lemma absent:
  assumes cl: "no_clash city K" "k \<in> K" "holds_key bkey k" and inv: "so_inv city nv K m as"
    and as: "as = xs @ d # ys" "d # ys = ps @ qs" "so_nodes m d = Some n0"
    and d: "so_key n0 < so_regularkey (Hash64 city k)"
    and before: "\<And>a n. a \<in> set ps \<Longrightarrow> so_nodes m a = Some n \<Longrightarrow>
      \<not> stops bkey (so_regularkey (Hash64 city k)) n"
    and at: "\<And>a qs' n. qs = a # qs' \<Longrightarrow> so_nodes m a = Some n \<Longrightarrow>
      stops bkey (so_regularkey (Hash64 city k)) n \<and>
      (matches bkey (so_regularkey (Hash64 city k)) n \<longrightarrow> so_value n = 0)"
  shows "so_view m as k = None"
proof (rule view_None [OF _ inv])
  let ?key = "so_regularkey (Hash64 city k)"
  have srt: "sorted (map (so_key \<circ> body m) as)" using inv by (simp add: so_inv_def)
  fix a n assume a: "a \<in> set as" "so_nodes m a = Some n"
  obtain n' where "so_nodes m a = Some n'" "so_node_ok city K n'" by (rule so_inv_nodes [OF inv a(1)])
  with a have ok: "so_node_ok city K n" by simp
  note mk = matches_key [OF cl ok]
  consider "a \<in> set xs" | "a \<in> set ps" | q qs' where "qs = q # qs'" "a \<in> set qs"
    using a(1) as(1,2) by (cases qs) auto
  then show "\<not> (is_reg n \<and> ukey n = k)"
  proof cases
    case 1
    then have "so_key n \<le> so_key n0" using srt as(1,3) a(2) by (auto simp: sorted_append)
    with d mk show ?thesis by (auto simp: matches_def)
  next
    case 2
    with before [OF 2 a(2)] mk show ?thesis by (auto simp: stops_def)
  next
    case 3
    from as 3 have q: "q \<in> set as" by auto
    obtain nq where nq: "so_nodes m q = Some nq" "so_node_ok city K nq" by (rule so_inv_nodes [OF inv q])
    from at [OF 3(1) nq(1)] matches_key [OF cl nq(2)] have "?key < so_key nq"
      by (auto simp: stops_def is_reg_def)
    moreover have "so_key nq \<le> so_key n"
      using srt as(1,2) 3 a(2) nq(1) by (auto simp: sorted_append)
    ultimately show ?thesis using mk by (auto simp: matches_def)
  qed
qed

section \<open>Find\<close>

lemma Find_ok:
  assumes nv: "nvmm_ok nv" and inv: "so_inv city nv K m as"
    and cl: "no_clash city K" "k \<in> K" "holds_key bkey k"
  shows "\<exists>r m' as'. SplitOrderedList_Find city nv bkey (length k) m = Some (r, m') \<and>
    so_same city nv K m as m' as' \<and>
    (r = Inr (case so_view m as k of None \<Rightarrow> 0 | Some v \<Rightarrow> v) \<or> r = Inl AssertFail)"
proof -
  let ?l = "Hash64 city k"
  have tk: "take (length k) bkey = k" using cl(3) by (simp add: holds_key_def)
  note bk = bucket_of_key [OF inv, of ?l]
  from nv inv bk(1) show ?thesis
  proof (cases rule: need_bucket_ok)
    case (abort m' as')
    then show ?thesis by (auto simp: SplitOrderedList_Find_def tk Let_def)
  next
    case (ready m1 as1)
    then have inv1: "so_inv city nv K m1 as1" and v1: "so_view m1 as1 = so_view m as" by (simp_all add: so_same_def)
    obtain xs d ys n0 where bp: "as1 = xs @ d # ys"
      "load_slot (TableSlot (?l mod so_size m)) m1 = Inr (so_table m1 (?l mod so_size m))"
      "so_path (so_nodes m1) (so_table m1 (?l mod so_size m)) (d # ys)" "so_nodes m1 d = Some n0"
      "dummy_of (?l mod so_size m) n0"
      by (rule bucket_path [OF inv1 ready(3)])
    then have d0: "so_key n0 < so_regularkey ?l" using bk(2) by (simp add: dummy_of_def)
    obtain ps qs r where f: "d # ys = ps @ qs" "found bkey (so_regularkey ?l) m1 (TableSlot (?l mod so_size m)) ps qs r"
      "ListFind nv (TableSlot (?l mod so_size m)) bkey (so_regularkey ?l) m1 = Some (Inr r, m1)"
      by (rule ListFind_alone [OF bp(3,2)])
    have "fr_value r = (case so_view m1 as1 k of None \<Rightarrow> 0 | Some v \<Rightarrow> v)"
    proof (cases "fr_value r = 0")
      case True
      have "so_view m1 as1 k = None"
        by (rule absent [OF cl inv1 bp(1) f(1) bp(4) d0]) (use f(2) True in \<open>auto simp: found_def split: if_splits\<close>)
      with True show ?thesis by simp
    next
      case False
      then obtain a qs' where qs: "qs = a # qs'" using f(2) by (cases qs) (auto simp: found_def)
      with False f(2) obtain n where n: "so_nodes m1 a = Some n" "matches bkey (so_regularkey ?l) n"
        "fr_value r = so_value n" by (auto simp: found_def split: if_splits)
      have am: "a \<in> set as1" using bp(1) f(1) qs by (metis Un_iff list.set_intros(1) set_append)
      obtain n' where "so_nodes m1 a = Some n'" "so_node_ok city K n'" by (rule so_inv_nodes [OF inv1 am])
      with n(1) matches_key [OF cl] n(2) have "is_reg n" "ukey n = k" by auto
      with view_Some [OF inv1 am n(1)] n(3) show ?thesis by simp
    qed
    with f(3) ready(1,2) v1 show ?thesis by (auto simp: SplitOrderedList_Find_def tk Let_def)
  qed
qed

section \<open>Inserting\<close>

text \<open>What an insertion leaves behind, apart from the map.\<close>

definition so_next_inv ::
  "(bytes \<Rightarrow> u64) \<Rightarrow> 'h nvmm \<Rightarrow> bytes set \<Rightarrow> 'h so_mem \<Rightarrow> Gptr list \<Rightarrow> 'h so_mem \<Rightarrow> Gptr list \<Rightarrow> bool" where
  "so_next_inv city nv K m as m' as' \<longleftrightarrow>
     so_inv city nv K m' as' \<and> so_frame nv m as m' as' \<and> so_size m' = so_size m \<and> so_count m' = so_count m"

lemma regular_node_ok:
  assumes "holds_key bkey k" "k \<in> K" "v \<noteq> 0"
  shows "so_node_ok city K (regular_node city bkey (length k) v)" "is_reg (regular_node city bkey (length k) v)"
    "ukey (regular_node city bkey (length k) v) = k" "so_value (regular_node city bkey (length k) v) = v"
    "so_key (regular_node city bkey (length k) v) = so_regularkey (Hash64 city k)"
    "holds_key (byte_key (regular_node city bkey (length k) v)) k"
proof -
  have tk: "take (length k) bkey = k" "length k \<le> BYTE_KEY_LEN" using assms(1) by (simp_all add: holds_key_def)
  show u: "ukey (regular_node city bkey (length k) v) = k"
    using tk by (simp add: ukey_def regular_node_def memcpy_def)
  show "is_reg (regular_node city bkey (length k) v)" "so_value (regular_node city bkey (length k) v) = v"
    "so_key (regular_node city bkey (length k) v) = so_regularkey (Hash64 city k)"
    using tk assms(3) by (simp_all add: is_reg_def regular_node_def)
  with u tk assms(2) show "so_node_ok city K (regular_node city bkey (length k) v)"
    by (simp add: so_node_ok_def) (simp add: regular_node_def length_memcpy)
  show "holds_key (byte_key (regular_node city bkey (length k) v)) k"
    using tk by (simp add: holds_key_def regular_node_def memcpy_def)
qed

lemma insert_new_ok:
  assumes nv: "nvmm_ok nv" and inv: "so_inv city nv K m as"
    and cl: "no_clash city K" "k \<in> K" "holds_key bkey k" and v: "v \<noteq> 0"
  obtains (abort) m' as' where "insert_new city nv bkey (length k) v m = Some (Inl AssertFail, m')"
      "so_same city nv K m as m' as'"
  | (dup) p cur m' xs a ys na where "insert_new city nv bkey (length k) v m = Some (Inr (p, False, cur), m')"
      "so_same city nv K m as m' (xs @ a # ys)" "so_nodes m' a = Some na" "is_reg na" "ukey na = k"
      "tg_masked cur = a" "p \<noteq> 0" "\<not> bit p 0" "p \<notin> set (xs @ a # ys)" "p \<notin> nv_live nv (so_heap m)"
  | (new) p cur m' as' where "insert_new city nv bkey (length k) v m = Some (Inr (p, True, cur), m')"
      "so_next_inv city nv K m as m' as'" "so_view m as k = None" "so_view m' as' = (so_view m as)(k \<mapsto> v)"
proof (cases "nv_alloc nv SO_NODE_SIZE (so_heap m)")
  case (Pair p h)
  note al = so_alloc [OF nv inv Pair]
  have tk: "take (length k) bkey = k" and kl: "length k \<le> BYTE_KEY_LEN" using cl(3) by (simp_all add: holds_key_def)
  show thesis
  proof (cases "p = 0")
    case True
    with al(1) Pair abort show thesis by (auto simp: insert_new_def)
  next
    case False
    note p = al(2) [OF False]
    let ?n = "regular_node city bkey (length k) v"
    let ?l = "Hash64 city k"
    let ?b = "?l mod so_size m"
    note rn = regular_node_ok [OF cl(3,2) v, of city]
    define m1 where "m1 = m\<lparr>so_heap := h, so_nodes := (so_nodes m)(p \<mapsto> ?n)\<rparr>"
    have m1: "so_nodes m1 p = Some ?n" "so_heap m1 = h" "so_size m1 = so_size m" by (simp_all add: m1_def)
    have same1: "so_same city nv K m as m1 as"
      using off_list_same [OF al(1), of p ?n] p by (simp add: m1_def)
    then have inv1: "so_inv city nv K m1 as" by (simp add: so_same_def)
    note bk = bucket_of_key [OF inv1, of ?l, unfolded m1(3)]
    have ins: "insert_new city nv bkey (length k) v m = do {
        (r, m2) \<leftarrow> need_bucket nv ?b m1;
        (case r of
           Inl f \<Rightarrow> Some (Inl f, m2)
         | Inr _ \<Rightarrow> map_option (\<lambda>(x, m3). (map_sum id (\<lambda>(b, cur). (p, b, cur)) x, m3))
                      (ListInsert nv (TableSlot ?b) p m2)) }"
      using Pair False kl by (simp add: insert_new_def tk m1_def Let_def)
    from nv inv1 bk(1) show thesis
    proof (cases rule: need_bucket_ok)
      case (abort m' as')
      with that(1) so_same_trans [OF same1 abort(2)] ins show thesis by simp
    next
      case (ready m2 as2)
      note same2 = so_same_trans [OF same1 ready(2)]
      have inv2: "so_inv city nv K m2 as2" using same2 by (simp add: so_same_def)
      have p2: "so_nodes m2 p = Some ?n" "p \<notin> set as2" "p \<in> nv_live nv (so_heap m2)"
        using ready(2) p m1 by (auto simp: so_same_def so_frame_def)
      obtain xs d ys n0 where bp: "as2 = xs @ d # ys"
        "load_slot (TableSlot ?b) m2 = Inr (so_table m2 ?b)"
        "so_path (so_nodes m2) (so_table m2 ?b) (d # ys)" "so_nodes m2 d = Some n0" "dummy_of ?b n0"
        by (rule bucket_path [OF inv2 ready(3)])
      then have d0: "so_key n0 < so_regularkey ?l" using bk(2) by (simp add: dummy_of_def)
      have nstop: "\<not> stops (byte_key ?n) (so_key ?n) n0" using d0 rn(5) by (auto simp: stops_def matches_def)
      have pn: "p \<notin> set (d # ys)" "\<not> bit p 0" using p p2 bp(1) by auto
      note cl' = cl(1,2) rn(6)
      from bp(3,2) p2(1) pn False refl [of "d # ys"] bp(4) nstop show thesis
      proof (cases rule: ListInsert_alone [where nv = nv])
        case (dup ps a qs na cur)
        have as2: "as2 = (xs @ ps) @ a # qs" using bp(1) dup(1) by simp
        obtain n' where "so_nodes m2 a = Some n'" "so_node_ok city K n'"
          by (rule so_inv_nodes [OF inv2, of a]) (use as2 in auto)
        with dup(2,3) matches_key [OF cl'] rn(5) have reg: "is_reg na" "ukey na = k" by auto
        show thesis
          by (rule that(2) [OF _ same2 [unfolded as2] dup(2) reg dup(5) False pn(2)])
            (use ins ready(1) dup(6) p p2(2) as2 in auto)
      next
        case (added ps qs nl cur)
        have as2: "as2 = (xs @ ps) @ qs" using bp(1) added(1) by simp
        have l: "last (xs @ ps) = last ps" using added(2) by simp
        have ar: "around (so_key ?n) m2 (xs @ ps) qs"
          by (rule around_split [OF inv2 bp(1) added(1,2), of "byte_key ?n"]) (use added(4,5) in blast)+
        have none: "so_view m2 as2 k = None"
          by (rule absent [OF cl' inv2 bp(1) added(1) bp(4) d0]) (use added(4,5) rn(5) in auto)
        note lk = so_inv_link [OF inv2 [unfolded as2], of nl p ?n, unfolded l, OF _ added(3) _ False pn(2) p2(3) rn(1) _ ar]
        have inv3: "so_inv city nv K (linked m2 p ?n (last ps) nl) ((xs @ ps) @ p # qs)"
          and view3: "so_view (linked m2 p ?n (last ps) nl) ((xs @ ps) @ p # qs) = (so_view m2 as2)(k \<mapsto> v)"
          using lk p2(2) added(2) as2 rn(2-4) none by simp_all
        have "so_frame nv m as (linked m2 p ?n (last ps) nl) ((xs @ ps) @ p # qs)"
          using same2 p as2 added(2) by (auto simp: so_same_def so_frame_def linked_def)
        with inv3 same2 have "so_next_inv city nv K m as (linked m2 p ?n (last ps) nl) ((xs @ ps) @ p # qs)"
          by (simp add: so_next_inv_def so_same_def)
        with that(3) [OF _ this] ins ready(1) added(6) none view3 same2 show thesis by (simp add: so_same_def)
      qed
    qed
  qed
qed

section \<open>The operations as map operations\<close>

text \<open>The invariant between operations; \<open>count\<close> is the number of keys modulo \<open>2 ^ 64\<close>.\<close>

definition so_ok :: "(bytes \<Rightarrow> u64) \<Rightarrow> 'h nvmm \<Rightarrow> bytes set \<Rightarrow> 'h so_mem \<Rightarrow> bool" where
  "so_ok city nv K m \<longleftrightarrow>
     (\<exists>as. so_inv city nv K m as \<and> so_count m = of_nat (card (dom (so_view m as))))"

definition so_map :: "'h so_mem \<Rightarrow> bytes \<Rightarrow> u64 option" where
  "so_map m = so_view m (THE as. so_path (so_nodes m) (so_table m 0) as)"

text \<open>Memory of others is left alone.\<close>

definition so_keeps :: "'h nvmm \<Rightarrow> 'h so_mem \<Rightarrow> 'h so_mem \<Rightarrow> bool" where
  "so_keeps nv m m' \<longleftrightarrow>
     (\<forall>x. x \<in> nv_live nv (so_heap m) \<and> so_nodes m x = None \<longrightarrow>
        x \<in> nv_live nv (so_heap m') \<and> so_nodes m' x = None)"

lemma so_map_eq: "so_inv city nv K m as \<Longrightarrow> so_map m = so_view m as"
proof -
  assume "so_inv city nv K m as"
  then have p: "so_path (so_nodes m) (so_table m 0) as" by (simp add: so_inv_def)
  then have "(THE as. so_path (so_nodes m) (so_table m 0) as) = as"
    by (rule the_equality) (rule so_path_unique [OF _ p])
  then show ?thesis by (simp add: so_map_def)
qed

lemma so_okE:
  assumes "so_ok city nv K m"
  obtains as where "so_inv city nv K m as" "so_count m = of_nat (card (dom (so_map m)))" "so_map m = so_view m as"
  using assms so_map_eq unfolding so_ok_def by metis

lemma so_result:
  assumes "so_inv city nv K m as" "so_inv city nv K m' as'" "so_frame nv m as m' as'"
    and "so_count m' = of_nat (card (dom (so_view m' as')))"
  shows "so_ok city nv K m' \<and> so_keeps nv m m' \<and> so_map m' = so_view m' as'"
proof -
  have "x \<notin> set as" if "so_nodes m x = None" for x
    using so_inv_nodes [OF assms(1), of x] that by auto
  with assms show ?thesis by (auto simp: so_ok_def so_keeps_def so_frame_def so_map_eq)
qed

lemma so_result_same:
  assumes "so_ok city nv K m" "so_inv city nv K m as" "so_same city nv K m as m' as'"
  shows "so_ok city nv K m' \<and> so_keeps nv m m' \<and> so_map m' = so_map m"
proof -
  have c: "so_count m = of_nat (card (dom (so_map m)))" using assms(1) by (rule so_okE)
  have "so_inv city nv K m' as'" "so_frame nv m as m' as'" "so_view m' as' = so_map m" "so_count m' = so_count m"
    using assms(3) so_map_eq [OF assms(2)] by (auto simp: so_same_def)
  with so_result [OF assms(2)] c show ?thesis by metis
qed

lemma finite_dom_view: "finite (dom (so_view m as))"
  by (simp add: so_view_def finite_dom_map_of)

lemma so_free_off_list:
  assumes nv: "nvmm_ok nv" and inv: "so_inv city nv K m as" and p: "p \<notin> set as"
  shows "so_inv city nv K (so_free nv p m) as" "so_view (so_free nv p m) as = so_view m as"
    "so_count (so_free nv p m) = so_count m" "so_size (so_free nv p m) = so_size m"
    "nv_live nv (so_heap (so_free nv p m)) = nv_live nv (so_heap m) - {p}"
    "so_nodes (so_free nv p m) = (so_nodes m)(p := None)"
proof -
  have l: "nv_live nv (nv_free nv p (so_heap m)) = nv_live nv (so_heap m) - {p}"
    using nv by (simp add: nvmm_ok_def nvmm_free_ok_def)
  let ?m = "m\<lparr>so_nodes := (so_nodes m)(p := None)\<rparr>"
  note o = off_list(1) [OF p inv, of None] off_list(2) [OF p, of m None]
  have eq: "so_free nv p m = ?m\<lparr>so_heap := nv_free nv p (so_heap m)\<rparr>" by (simp add: so_free_def)
  have "set as \<subseteq> nv_live nv (nv_free nv p (so_heap m))" "dom (so_nodes ?m) \<subseteq> nv_live nv (nv_free nv p (so_heap m))"
    using l inv p by (auto simp: so_inv_def)
  with o(1) show "so_inv city nv K (so_free nv p m) as" unfolding eq by (intro so_inv_heap) simp_all
  show "so_view (so_free nv p m) as = so_view m as" unfolding eq using o(2) by simp
  show "nv_live nv (so_heap (so_free nv p m)) = nv_live nv (so_heap m) - {p}"
    by (simp add: so_free_def l)
qed (simp_all add: so_free_def)

text \<open>The new node of a failed insertion is given back.\<close>

lemma so_same_free:
  assumes nv: "nvmm_ok nv" and same: "so_same city nv K m as m' as'"
    and p: "p \<notin> set as'" "p \<notin> nv_live nv (so_heap m)"
  shows "so_same city nv K m as (so_free nv p m') as'"
proof -
  have "so_inv city nv K m' as'" using same by (simp add: so_same_def)
  note f = so_free_off_list [OF nv this p(1)]
  from same p(2) have "so_frame nv m as (so_free nv p m') as'"
    by (auto simp: so_same_def so_frame_def f)
  with same f show ?thesis by (simp add: so_same_def)
qed

text \<open>Growing keeps the size a power of two within the bound.\<close>

lemma grow_size:
  assumes "1 \<le> k" "k \<le> 20" "so_size m = 2 ^ k"
  shows "\<exists>k'. 1 \<le> k' \<and> k' \<le> 20 \<and> so_size (grow m) = 2 ^ k'"
proof (cases "2 * so_size m \<le> hard_max_buckets")
  case True
  have "k \<noteq> 20" using True assms(3) by (auto simp: hard_max_buckets_def)
  with assms show ?thesis
    by (auto simp: grow_def Let_def intro!: exI [of _ "if so_size (grow m) = so_size m then k else Suc k"])
next
  case False
  with assms show ?thesis by (auto simp: grow_def Let_def)
qed

lemma grow_inv:
  assumes "so_inv city nv K m as"
  shows "so_inv city nv K (grow m) as" "so_view (grow m) as = so_view m as" "so_count (grow m) = so_count m + 1"
    "so_nodes (grow m) = so_nodes m" "so_heap (grow m) = so_heap m"
proof -
  have g: "so_nodes (grow m) = so_nodes m" "so_table (grow m) = so_table m" "so_heap (grow m) = so_heap m"
    "body (grow m) = body m" "so_count (grow m) = so_count m + 1"
    by (auto simp: grow_def Let_def body_def fun_eq_iff)
  then have v: "so_view (grow m) as = so_view m as" "table_ok (grow m) as = table_ok m as"
    by (simp_all add: so_view_def table_ok_def)
  from assms grow_size g v show "so_inv city nv K (grow m) as" by (auto simp: so_inv_def)
  from g v show "so_view (grow m) as = so_view m as" "so_count (grow m) = so_count m + 1"
    "so_nodes (grow m) = so_nodes m" "so_heap (grow m) = so_heap m" by simp_all
qed

lemma grow_result:
  assumes ok: "so_ok city nv K m" and inv: "so_inv city nv K m as" and nx: "so_next_inv city nv K m as m' as'"
    and v: "so_view m as k = None" "so_view m' as' = (so_view m as)(k \<mapsto> v)"
  shows "so_ok city nv K (grow m') \<and> so_keeps nv m (grow m') \<and> so_map (grow m') = (so_map m)(k \<mapsto> v)"
proof -
  have c: "so_count m = of_nat (card (dom (so_map m)))" using ok by (rule so_okE)
  have m': "so_inv city nv K m' as'" "so_frame nv m as m' as'" "so_count m' = so_count m"
    using nx by (simp_all add: so_next_inv_def)
  note g = grow_inv [OF m'(1)]
  have "card (dom ((so_view m as)(k \<mapsto> v))) = Suc (card (dom (so_view m as)))"
    using v(1) finite_dom_view [of m as] by (simp add: domIff)
  then have "so_count (grow m') = of_nat (card (dom (so_view (grow m') as')))"
    unfolding g(2) v(2) using g(3) m'(3) c so_map_eq [OF inv] by simp
  moreover have "so_frame nv m as (grow m') as'" using m'(2) by (simp add: so_frame_def g)
  ultimately show ?thesis using so_result [OF inv g(1)] g(2) v(2) so_map_eq [OF inv] by auto
qed

lemma Insert_correct:
  assumes nv: "nvmm_ok nv" and ok: "so_ok city nv K m"
    and cl: "no_clash city K" "k \<in> K" "holds_key bkey k" and v: "v \<noteq> 0"
  shows "\<exists>r m'. SplitOrderedList_Insert city nv bkey (length k) v m = Some (r, m') \<and>
    so_ok city nv K m' \<and> so_keeps nv m m' \<and>
    (r = Inl AssertFail \<and> so_map m' = so_map m \<or>
     so_map m k = None \<and> r = Inr 1 \<and> so_map m' = (so_map m)(k \<mapsto> v) \<or>
     so_map m k \<noteq> None \<and> r = Inr 0 \<and> so_map m' = so_map m)"
proof -
  obtain as where inv: "so_inv city nv K m as" and sm: "so_map m = so_view m as" using ok by (rule so_okE)
  from nv inv cl v show ?thesis
  proof (cases rule: insert_new_ok)
    case (abort m' as')
    with so_result_same [OF ok inv abort(2)] show ?thesis by (simp add: SplitOrderedList_Insert_def)
  next
    case (dup p cur m' xs a ys na)
    from view_Some [of city nv K m' "xs @ a # ys" a na] dup(2-5) sm have "so_map m k \<noteq> None"
      by (auto simp: so_same_def)
    with so_result_same [OF ok inv so_same_free [OF nv dup(2,9,10)]] dup(1) show ?thesis
      by (simp add: SplitOrderedList_Insert_def)
  next
    case (new p cur m' as')
    with grow_result [OF ok inv new(2-4)] sm show ?thesis by (simp add: SplitOrderedList_Insert_def)
  qed
qed

lemma FindOrInsert_correct:
  assumes nv: "nvmm_ok nv" and ok: "so_ok city nv K m"
    and cl: "no_clash city K" "k \<in> K" "holds_key bkey k" and v: "v \<noteq> 0"
  shows "\<exists>r m'. SplitOrderedList_FindOrInsert city nv bkey (length k) v m = Some (r, m') \<and>
    so_ok city nv K m' \<and> so_keeps nv m m' \<and>
    (r = Inl AssertFail \<and> so_map m' = so_map m \<or>
     so_map m k = None \<and> r = Inr (1, v) \<and> so_map m' = (so_map m)(k \<mapsto> v) \<or>
     (\<exists>old. so_map m k = Some old \<and> r = Inr (0, old) \<and> so_map m' = so_map m))"
proof -
  obtain as where inv: "so_inv city nv K m as" and sm: "so_map m = so_view m as" using ok by (rule so_okE)
  from nv inv cl v show ?thesis
  proof (cases rule: insert_new_ok)
    case (abort m' as')
    with so_result_same [OF ok inv abort(2)] show ?thesis by (simp add: SplitOrderedList_FindOrInsert_def)
  next
    case (dup p cur m' xs a ys na)
    from view_Some [of city nv K m' "xs @ a # ys" a na] dup(2-5) sm have "so_map m k = Some (so_value na)"
      by (auto simp: so_same_def)
    with so_result_same [OF ok inv so_same_free [OF nv dup(2,9,10)]] dup(1,3,6) show ?thesis
      by (simp add: SplitOrderedList_FindOrInsert_def)
  next
    case (new p cur m' as')
    with grow_result [OF ok inv new(2-4)] sm show ?thesis by (simp add: SplitOrderedList_FindOrInsert_def)
  qed
qed

text \<open>
  \<open>InsertOrUpdate\<close>: after an update the new node is still allocated and reported through
  \<open>old_gptr\<close>; giving it back (as the store does) keeps everything.
\<close>

lemma InsertOrUpdate_correct:
  assumes nv: "nvmm_ok nv" and ok: "so_ok city nv K m"
    and cl: "no_clash city K" "k \<in> K" "holds_key bkey k" and v: "v \<noteq> 0"
  obtains (abort) m' where "SplitOrderedList_InsertOrUpdate city nv bkey (length k) v m = Some (Inl AssertFail, m')"
      "so_ok city nv K m'" "so_keeps nv m m'" "so_map m' = so_map m"
  | (inserted) m' where "SplitOrderedList_InsertOrUpdate city nv bkey (length k) v m = Some (Inr (1, 0), m')"
      "so_map m k = None" "so_ok city nv K m'" "so_keeps nv m m'" "so_map m' = (so_map m)(k \<mapsto> v)"
  | (updated) p m' where "SplitOrderedList_InsertOrUpdate city nv bkey (length k) v m = Some (Inr (1, p), m')"
      "so_map m k \<noteq> None" "p \<noteq> 0" "so_ok city nv K (so_free nv p m')" "so_keeps nv m (so_free nv p m')"
      "so_map (so_free nv p m') = (so_map m)(k \<mapsto> v)"
proof -
  obtain as where inv: "so_inv city nv K m as" and sm: "so_map m = so_view m as"
    and c: "so_count m = of_nat (card (dom (so_map m)))" using ok by (rule so_okE)
  note d = SplitOrderedList_InsertOrUpdate_def
  from nv inv cl v show thesis
  proof (cases rule: insert_new_ok)
    case (abort m' as')
    with so_result_same [OF ok inv abort(2)] that(1) show thesis by (simp add: d)
  next
    case (new p cur m' as')
    with grow_result [OF ok inv new(2-4)] sm that(2) show thesis by (simp add: d)
  next
    case (dup p cur m' xs a ys na)
    let ?as = "xs @ a # ys"
    have inv': "so_inv city nv K m' ?as" and v': "so_view m' ?as = so_map m"
      using dup(2) sm by (simp_all add: so_same_def)
    have k: "so_map m k \<noteq> None" using view_Some [OF inv' _ dup(3,4)] dup(5) v' by simp
    define m2 where "m2 = m'\<lparr>so_nodes := (so_nodes m')(a \<mapsto> na\<lparr>so_value := v\<rparr>)\<rparr>"
    have u: "so_inv city nv K m2 ?as" "so_view m2 ?as = (so_map m)(k \<mapsto> v)"
      using so_inv_update [OF inv' dup(3,4) v] dup(5) v' by (simp_all add: m2_def)
    have m2: "so_heap m2 = so_heap m'" "x \<noteq> a \<Longrightarrow> so_nodes m2 x = so_nodes m' x" for x by (simp_all add: m2_def)
    note f = so_free_off_list [OF nv u(1) dup(9)]
    have "so_frame nv m as (so_free nv p m2) ?as"
      using dup(2,10) by (auto simp: so_same_def so_frame_def f m2)
    moreover have "so_count (so_free nv p m2) = of_nat (card (dom ((so_map m)(k \<mapsto> v))))"
      using k c dup(2) f(3) by (simp add: so_same_def m2_def domIff insert_absorb)
    ultimately have res: "so_ok city nv K (so_free nv p m2) \<and> so_keeps nv m (so_free nv p m2) \<and>
        so_map (so_free nv p m2) = (so_map m)(k \<mapsto> v)"
      using so_result [OF inv f(1)] f(2) u(2) by simp
    have "SplitOrderedList_InsertOrUpdate city nv bkey (length k) v m = Some (Inr (1, p), m2)"
      using dup(1,3,6,8) by (simp add: d m2_def gptr_mask_even)
    with that(3) [OF this k dup(7)] res show thesis by simp
  qed
qed

section \<open>Delete\<close>

text \<open>The node is unlinked and returned; the caller gives it back.\<close>

lemma Delete_correct:
  assumes nv: "nvmm_ok nv" and ok: "so_ok city nv K m"
    and cl: "no_clash city K" "k \<in> K" "holds_key bkey k"
  obtains (abort) m' where "SplitOrderedList_Delete city nv bkey (length k) m = Some (Inl AssertFail, m')"
      "so_ok city nv K m'" "so_keeps nv m m'" "so_map m' = so_map m"
  | (none) m' where "SplitOrderedList_Delete city nv bkey (length k) m = Some (Inr (0, 0), m')"
      "so_map m k = None" "so_ok city nv K m'" "so_keeps nv m m'" "so_map m' = so_map m"
  | (deleted) d m' where "SplitOrderedList_Delete city nv bkey (length k) m = Some (Inr (1, d), m')"
      "so_map m k \<noteq> None" "so_ok city nv K (so_free nv d m')" "so_keeps nv m (so_free nv d m')"
      "so_map (so_free nv d m') = (so_map m)(k := None)"
proof -
  obtain as where inv: "so_inv city nv K m as" and sm: "so_map m = so_view m as"
    and c: "so_count m = of_nat (card (dom (so_map m)))" using ok by (rule so_okE)
  let ?l = "Hash64 city k"
  let ?b = "?l mod so_size m"
  have tk: "take (length k) bkey = k" using cl(3) by (simp add: holds_key_def)
  note bk = bucket_of_key [OF inv, of ?l]
  note d = SplitOrderedList_Delete_def
  from nv inv bk(1) show thesis
  proof (cases rule: need_bucket_ok)
    case (abort m' as')
    with so_result_same [OF ok inv abort(2)] that(1) show thesis by (simp add: d tk Let_def)
  next
    case (ready m1 as1)
    then have inv1: "so_inv city nv K m1 as1" and v1: "so_view m1 as1 = so_map m" by (simp_all add: so_same_def sm)
    obtain xs a ys n0 where bp: "as1 = xs @ a # ys" "load_slot (TableSlot ?b) m1 = Inr (so_table m1 ?b)"
      "so_path (so_nodes m1) (so_table m1 ?b) (a # ys)" "so_nodes m1 a = Some n0" "dummy_of ?b n0"
      by (rule bucket_path [OF inv1 ready(3)])
    then have d0: "so_key n0 < so_regularkey ?l" using bk(2) by (simp add: dummy_of_def)
    have nstop: "\<not> stops bkey (so_regularkey ?l) n0" using d0 by (auto simp: stops_def matches_def)
    have dist: "distinct (a # ys)" using inv1 bp(1) by (auto simp: so_inv_def)
    from bp(3,2) dist refl [of "a # ys"] bp(4) nstop show thesis
    proof (cases rule: ListDelete_alone [where nv = nv])
      case (none ps qs)
      have "so_view m1 as1 k = None"
        by (rule absent [OF cl inv1 bp(1) none(1) bp(4) d0]) (use none(2,3) in auto)
      with that(2) so_result_same [OF ok inv ready(2)] ready(1) none(4) v1 show thesis
        by (simp add: d tk Let_def)
    next
      case (deleted ps dl qs nd nl cur)
      have as1: "as1 = (xs @ ps) @ dl # qs" using bp(1) deleted(1) by simp
      have l: "last (xs @ ps) = last ps" using deleted(2) by simp
      obtain n' where "so_nodes m1 dl = Some n'" "so_node_ok city K n'"
        by (rule so_inv_nodes [OF inv1, of dl]) (use as1 in auto)
      with deleted(3,5) matches_key [OF cl] have reg: "is_reg nd" "ukey nd = k" by auto
      let ?m2 = "unlinked m1 dl nd (last ps) nl"
      let ?as2 = "(xs @ ps) @ qs"
      note un = so_inv_unlink [OF inv1 [unfolded as1], of nl nd, unfolded l, OF _ deleted(4,3) reg(1)]
      have inv2: "so_inv city nv K ?m2 ?as2" and v2: "so_view ?m2 ?as2 = (so_map m)(k := None)"
        using un deleted(2) reg(2) v1 as1 by simp_all
      define m3 where "m3 = ?m2\<lparr>so_count := so_count ?m2 - 1\<rparr>"
      have inv3: "so_inv city nv K m3 ?as2" and v3: "so_view m3 ?as2 = (so_map m)(k := None)"
        using inv2 v2 by (simp_all add: m3_def so_inv_def so_view_def table_ok_def)
      have m3: "so_heap m3 = so_heap m1" "x \<noteq> dl \<Longrightarrow> x \<notin> set ps \<Longrightarrow> so_nodes m3 x = so_nodes m1 x" for x
        using last_in_set [OF deleted(2)] by (auto simp: m3_def unlinked_def)
      have dl: "dl \<notin> set ?as2" using inv1 as1 by (auto simp: so_inv_def)
      note f = so_free_off_list [OF nv inv3 dl]
      have k: "so_map m k \<noteq> None" using view_Some [OF inv1 _ deleted(3) reg(1)] reg(2) v1 as1 by simp
      have fin: "finite (dom (so_map m))" unfolding sm by (rule finite_dom_view)
      have "dom ((so_map m)(k := None)) = dom (so_map m) - {k}" by simp
      with card_Suc_Diff1 [OF fin, of k] k have "card (dom (so_map m)) = Suc (card (dom ((so_map m)(k := None))))"
        by (simp only: domIff not_False_eq_True)
      then have "so_count (so_free nv dl m3) = of_nat (card (dom ((so_map m)(k := None))))"
        using c ready(2) f(3) by (simp add: so_same_def m3_def)
      moreover have "so_frame nv m as (so_free nv dl m3) ?as2"
        using ready(2) deleted(2) as1 by (auto simp: so_same_def so_frame_def f m3)
      ultimately have res: "so_ok city nv K (so_free nv dl m3) \<and> so_keeps nv m (so_free nv dl m3) \<and>
          so_map (so_free nv dl m3) = (so_map m)(k := None)"
        using so_result [OF inv f(1)] f(2) v3 by simp
      have "SplitOrderedList_Delete city nv bkey (length k) m = Some (Inr (1, dl), m3)"
        using ready(1) deleted(7,9) by (simp add: d tk Let_def m3_def)
      with that(3) [OF this k] res show thesis by simp
    qed
  qed
qed

section \<open>Creation and traversal\<close>

lemma create_correct:
  assumes nv: "nvmm_ok nv" and dom: "dom (so_nodes m) \<subseteq> nv_live nv (so_heap m)"
    and new: "SplitOrderedList_create nv 0 m = (Inr d, m')"
  shows "so_ok city nv K m'" "so_map m' = Map.empty" "d \<noteq> 0"
    "\<forall>x. x \<in> nv_live nv (so_heap m) \<and> so_nodes m x = None \<longrightarrow>
       x \<in> nv_live nv (so_heap m') \<and> so_nodes m' x = None"
proof -
  obtain d1 h1 where a1: "nv_alloc nv SO_DESCRIPTOR_SIZE (so_heap m) = (d1, h1)" by fastforce
  obtain t h2 where a2: "nv_alloc nv (unat hard_max_buckets * 16) h1 = (t, h2)" by fastforce
  obtain p h3 where a3: "nv_alloc nv SO_NODE_SIZE h2 = (p, h3)" by fastforce
  from new a1 a2 a3 have ne: "d1 \<noteq> 0" "t \<noteq> 0" "p \<noteq> 0" "d = d1"
    and m': "m' = m\<lparr>so_heap := h3, so_count := 0, so_size := 2,
      so_table := (\<lambda>_. TagGptr_default)(0 := mk_TagGptr_mark 0 p 0), so_nodes := (so_nodes m)(p \<mapsto> dummy_node 0)\<rparr>"
    by (auto simp: SplitOrderedList_create_def Let_def split: if_splits)
  have al: "p' \<notin> nv_live nv h \<and> \<not> bit p' 0 \<and> nv_live nv h' = insert p' (nv_live nv h)"
    if "nv_alloc nv sz h = (p', h')" "p' \<noteq> 0" for sz h p' h'
    using nv that unfolding nvmm_ok_def nvmm_alloc_ok_def by metis
  have l: "nv_live nv h3 = insert p (insert t (insert d1 (nv_live nv (so_heap m))))" "\<not> bit p 0" "p \<notin> nv_live nv (so_heap m)"
    using al [OF a1 ne(1)] al [OF a2 ne(2)] al [OF a3 ne(3)] by auto
  have b: "body m' p = dummy_node 0" by (simp add: body_def m' dummy_node_def so_zero_def)
  have dn: "so_node_ok city K (dummy_node 0)" "\<not> is_reg (dummy_node 0)" "dummy_of 0 (dummy_node 0)"
    by (simp_all add: so_node_ok_def is_reg_def dummy_of_def dummy_node_def so_zero_def so_dummykey_def)
  have path: "so_path (so_nodes m') (so_table m' 0) [p]"
    using ne(3) l(2) by (simp add: m' dummy_node_def so_zero_def clean_def TagGptr_default_def mk_TagGptr_mark_def gptr_mask_even)
  have tab: "table_ok m' [p]"
    using l(2) b dn(3) by (auto simp: table_ok_def m' body_def hard_max_buckets_def dummy_node_def so_zero_def)
  have ents: "entries (map (body m') [p]) = []" using b dn(2) by (simp add: entries_def)
  have "dom (so_nodes m') \<subseteq> nv_live nv (so_heap m')" "set [p] \<subseteq> nv_live nv (so_heap m')" "so_size m' = 2 ^ 1"
    using dom l by (auto simp: m')
  moreover have "sorted (map (so_key \<circ> body m') [p])" "distinct (map fst (entries (map (body m') [p])))"
    "\<forall>a \<in> set [p]. so_node_ok city K (body m' a)" using b dn ents by simp_all
  ultimately have inv: "so_inv city nv K m' [p]"
    using path tab unfolding so_inv_def
    by (metis distinct_singleton list.distinct(1) numeral_One one_le_numeral order_refl)
  moreover have "so_view m' [p] = Map.empty" using ents by (simp add: so_view_def)
  ultimately show "so_ok city nv K m'" "so_map m' = Map.empty"
    by (auto simp: so_ok_def so_map_eq m')
  show "d \<noteq> 0" using ne by simp
  show "\<forall>x. x \<in> nv_live nv (so_heap m) \<and> so_nodes m x = None \<longrightarrow>
      x \<in> nv_live nv (so_heap m') \<and> so_nodes m' x = None"
    using l by (auto simp: m')
qed

text \<open>\<open>foreach\<close> visits every node of the list once, in list order.\<close>

lemma foreach_walk:
  "so_path (so_nodes m) t as \<Longrightarrow>
   run foreach_step (t, acc) m =
     Some (Inr (rev acc @ map (\<lambda>a. (byte_key (body m a), byte_key_size (body m a), so_value (body m a))) as), m)"
proof (induction as arbitrary: t acc)
  case Nil
  then have "tg_masked t = 0" by (simp add: clean_simps)
  then show ?case by (simp add: run_Ret foreach_step_def)
next
  case (Cons a as)
  then obtain n where n: "so_nodes m a = Some n" "so_path (so_nodes m) (so_next n) as" "a \<noteq> 0"
    and t: "clean t" "tg_gptr t = a" by auto
  have "foreach_step (t, acc) m = (Next (so_next n, (byte_key n, byte_key_size n, so_value n) # acc), m)"
    using n t by (simp add: foreach_step_def clean_simps)
  from run_Next [of foreach_step, OF this] Cons.IH [OF n(2)] n(1) show ?case by simp
qed

lemma foreach_correct:
  assumes "so_inv city nv K m as"
  shows "SplitOrderedList_foreach m =
    Some (Inr (map (\<lambda>a. (byte_key (body m a), byte_key_size (body m a), so_value (body m a))) as), m)"
  using foreach_walk [of m "so_table m 0" as "[]"] assms by (simp add: SplitOrderedList_foreach_def so_inv_def)

end
