(* ===== verification/SO_KVS.thy ===== *)
theory SO_KVS
  imports SO_Ops RT_KVS_Tiny
begin

text \<open>
  The key-value store over the split-ordered list, \<open>class KVSSplitOrdered\<close> of
  \<open>src/src/kvs_split_ordered.cc\<close>, and its correctness: it is a map from keys of at most 40
  bytes, under the condition \<open>no_clash\<close> on the hash of the keys in use.
\<close>

section \<open>State and operations\<close>

record 'h sokv =
  sk_mem :: "'h so_mem"
  sk_vals :: "Gptr \<rightharpoonup> bytes"
  sk_desc :: Gptr

definition SO_kMaxKeyLen :: nat where
  "SO_kMaxKeyLen = BYTE_KEY_LEN"

type_synonym ('h, 'r) sokv_out = "((fault + 'r) \<times> 'h sokv) option"

definition KVSSplitOrdered_Open :: "'h nvmm \<Rightarrow> heap_mgr \<Rightarrow> 'h sokv \<Rightarrow> (fault + int) \<times> 'h sokv" where
  "KVSSplitOrdered_Open nv mg s =
     (if \<not> hm_found mg \<and> \<not> hm_created mg then (Inr (- 1), s)
      else if \<not> hm_found mg \<and> \<not> hm_found_after mg then (Inl AssertFail, s)
      else if \<not> hm_opened mg then (Inr (- 1), s)
      else (case SplitOrderedList_create nv (sk_desc s) (sk_mem s) of
              (Inl f, m) \<Rightarrow> (Inl f, s\<lparr>sk_mem := m\<rparr>)
            | (Inr d, m) \<Rightarrow> (Inr 0, s\<lparr>sk_mem := m, sk_desc := d\<rparr>)))"

definition KVSSplitOrdered_new ::
  "'h nvmm \<Rightarrow> heap_mgr \<Rightarrow> Gptr \<Rightarrow> 'h so_mem \<Rightarrow> (Gptr \<rightharpoonup> bytes) \<Rightarrow> (fault + int) \<times> 'h sokv" where
  "KVSSplitOrdered_new nv mg descriptor m vals =
     (case KVSSplitOrdered_Open nv mg \<lparr>sk_mem = m, sk_vals = vals, sk_desc = descriptor\<rparr> of
        (Inr r, s) \<Rightarrow> (if r = 0 then Inr 0 else Inl AssertFail, s)
      | (Inl f, s) \<Rightarrow> (Inl f, s))"

definition KVSSplitOrdered_Maintenance :: "'h nvmm \<Rightarrow> 'h sokv \<Rightarrow> 'h sokv" where
  "KVSSplitOrdered_Maintenance nv s =
     s\<lparr>sk_mem := (sk_mem s)\<lparr>so_heap := nv_offline_free nv (so_heap (sk_mem s))\<rparr>\<rparr>"

text \<open>The key in a zero-filled \<open>ByteKey\<close>; \<open>heap_->Free\<close> on whatever block the pointer names.\<close>

definition key_buf :: "bytes \<Rightarrow> bytes" where
  "key_buf key = memcpy (replicate BYTE_KEY_LEN 0) key"

definition so_free_block :: "'h nvmm \<Rightarrow> Gptr \<Rightarrow> 'h sokv \<Rightarrow> 'h sokv" where
  "so_free_block nv p s = s\<lparr>sk_mem := so_free nv p (sk_mem s), sk_vals := (sk_vals s)(p := None)\<rparr>"

definition KVSSplitOrdered_Put ::
  "(bytes \<Rightarrow> u64) \<Rightarrow> 'h nvmm \<Rightarrow> bytes \<Rightarrow> bytes \<Rightarrow> 'h sokv \<Rightarrow> ('h, int) sokv_out" where
  "KVSSplitOrdered_Put city nv key val s =
     (if SO_kMaxKeyLen < length key \<or> kMaxValLen < length val then Some (Inr (- 1), s)
      else
        (let (p, h) = nv_alloc nv ((length val + sizeof_ValBuf) mod 2 ^ 64) (so_heap (sk_mem s));
             s1 = s\<lparr>sk_mem := (sk_mem s)\<lparr>so_heap := h\<rparr>\<rparr>
         in if \<not> gptr_valid p then Some (Inr (- 1), s1)
            else
              (let s2 = s1\<lparr>sk_vals := (sk_vals s1)(p \<mapsto> val)\<rparr>
               in map_option
                    (\<lambda>(r, m). let s3 = s2\<lparr>sk_mem := m\<rparr>
                       in case r of
                            Inl f \<Rightarrow> (Inl f, s3)
                          | Inr (success, old) \<Rightarrow>
                              if success = 0 then (Inr (- 1), s3)
                              else (Inr 0, if old \<noteq> 0 then so_free_block nv old s3 else s3))
                    (SplitOrderedList_InsertOrUpdate city nv (key_buf key) (length key) p (sk_mem s2)))))"

definition KVSSplitOrdered_Get ::
  "(bytes \<Rightarrow> u64) \<Rightarrow> 'h nvmm \<Rightarrow> bytes \<Rightarrow> bytes \<Rightarrow> nat \<Rightarrow> 'h sokv \<Rightarrow> ('h, int \<times> bytes \<times> nat) sokv_out" where
  "KVSSplitOrdered_Get city nv key val val_len s =
     (if SO_kMaxKeyLen < length key then Some (Inr (- 1, val, val_len), s)
      else map_option
        (\<lambda>(r, m). (case r of
            Inl f \<Rightarrow> Inl f
          | Inr p \<Rightarrow>
              if p = 0 then Inr (- 1, val, val_len)
              else (case sk_vals s p of
                      None \<Rightarrow> Inl AssertFail
                    | Some data \<Rightarrow>
                        Inr (if val_len < length data then (- 1, val, length data)
                             else (0, memcpy val data, length data))), s\<lparr>sk_mem := m\<rparr>))
        (SplitOrderedList_Find city nv (key_buf key) (length key) (sk_mem s)))"

definition KVSSplitOrdered_Del ::
  "(bytes \<Rightarrow> u64) \<Rightarrow> 'h nvmm \<Rightarrow> bytes \<Rightarrow> 'h sokv \<Rightarrow> ('h, int) sokv_out" where
  "KVSSplitOrdered_Del city nv key s =
     (if SO_kMaxKeyLen < length key then Some (Inr (- 1), s)
      else map_option
        (\<lambda>(r, m). let s1 = s\<lparr>sk_mem := m\<rparr>
           in case r of
                Inl f \<Rightarrow> (Inl f, s1)
              | Inr (success, p) \<Rightarrow>
                  if success \<noteq> 0 then (Inr 0, so_free_block nv p s1) else (Inr (- 1), s1))
        (SplitOrderedList_Delete city nv (key_buf key) (length key) (sk_mem s)))"

text \<open>A stub in the source.\<close>

definition KVSSplitOrdered_FindOrCreate ::
  "bytes \<Rightarrow> bytes \<Rightarrow> bytes \<Rightarrow> nat \<Rightarrow> 'h sokv \<Rightarrow> ('h, int \<times> bytes \<times> nat) sokv_out" where
  "KVSSplitOrdered_FindOrCreate key val ret_val ret_len s = Some (Inr (0, ret_val, ret_len), s)"

section \<open>Correctness\<close>

definition sokv_inv :: "(bytes \<Rightarrow> u64) \<Rightarrow> 'h nvmm \<Rightarrow> bytes set \<Rightarrow> 'h sokv \<Rightarrow> bool" where
  "sokv_inv city nv K s \<longleftrightarrow>
     nvmm_ok nv \<and> no_clash city K \<and> so_ok city nv K (sk_mem s) \<and>
     (\<forall>p \<in> dom (sk_vals s). p \<noteq> 0 \<and> p \<in> nv_live nv (so_heap (sk_mem s)) \<and> so_nodes (sk_mem s) p = None) \<and>
     (\<forall>p \<in> ran (so_map (sk_mem s)). p \<in> dom (sk_vals s))"

definition sokv_contents :: "'h sokv \<Rightarrow> bytes \<Rightarrow> bytes option" where
  "sokv_contents s k = Option.bind (so_map (sk_mem s) k) (sk_vals s)"

definition sokv_key :: "bytes set \<Rightarrow> bytes \<Rightarrow> bool" where
  "sokv_key K k \<longleftrightarrow> k \<in> K \<and> length k \<le> SO_kMaxKeyLen"

lemma holds_key_buf: "length k \<le> SO_kMaxKeyLen \<Longrightarrow> holds_key (key_buf k) k"
  by (simp add: holds_key_def key_buf_def SO_kMaxKeyLen_def memcpy_def)

text \<open>A call that leaves the other blocks alone keeps the store, whatever it does to one key.\<close>

lemma sokv_step:
  assumes inv: "sokv_inv city nv K s" and m: "so_ok city nv K m'" "so_keeps nv (sk_mem s) m'"
    and map: "\<And>k p. so_map m' k = Some p \<Longrightarrow> p \<in> dom (sk_vals s)"
  shows "sokv_inv city nv K (s\<lparr>sk_mem := m'\<rparr>)"
  using assms by (auto simp: sokv_inv_def so_keeps_def ran_def)

lemma sokv_ptr:
  assumes "sokv_inv city nv K s" "so_map (sk_mem s) k = Some p"
  shows "p \<in> dom (sk_vals s)" "p \<noteq> 0"
proof -
  show "p \<in> dom (sk_vals s)" using assms by (auto simp: sokv_inv_def ran_def)
  with assms(1) show "p \<noteq> 0" unfolding sokv_inv_def by blast
qed

lemma sokv_none: "sokv_inv city nv K s \<Longrightarrow> sokv_contents s k = None \<longleftrightarrow> so_map (sk_mem s) k = None"
  by (auto simp: sokv_contents_def dest: sokv_ptr split: bind_splits)

lemma so_ok_heap:
  assumes "so_ok city nv K m" "nv_live nv (so_heap m) \<subseteq> nv_live nv h"
  shows "so_ok city nv K (m\<lparr>so_heap := h\<rparr>)" "so_map (m\<lparr>so_heap := h\<rparr>) = so_map m"
    "dom (so_nodes m) \<subseteq> nv_live nv (so_heap m)"
proof -
  obtain as where inv: "so_inv city nv K m as" and c: "so_count m = of_nat (card (dom (so_view m as)))"
    using assms(1) by (auto simp: so_ok_def)
  then show dom: "dom (so_nodes m) \<subseteq> nv_live nv (so_heap m)" by (simp add: so_inv_def)
  with inv assms(2) have inv': "so_inv city nv K (m\<lparr>so_heap := h\<rparr>) as"
    by (intro so_inv_heap) (auto simp: so_inv_def)
  with c show "so_ok city nv K (m\<lparr>so_heap := h\<rparr>)" by (auto simp: so_ok_def)
  show "so_map (m\<lparr>so_heap := h\<rparr>) = so_map m" using so_map_eq [OF inv'] so_map_eq [OF inv] by simp
qed

text \<open>Adding the buffer of a value.\<close>

lemma sokv_alloc:
  assumes inv: "sokv_inv city nv K s" and al: "nv_alloc nv sz (so_heap (sk_mem s)) = (p, h)"
  shows "sokv_inv city nv K (s\<lparr>sk_mem := (sk_mem s)\<lparr>so_heap := h\<rparr>\<rparr>)"
    "so_map ((sk_mem s)\<lparr>so_heap := h\<rparr>) = so_map (sk_mem s)"
    "p \<noteq> 0 \<Longrightarrow> p \<notin> dom (sk_vals s)"
    "p \<noteq> 0 \<Longrightarrow>
      sokv_inv city nv K (s\<lparr>sk_mem := (sk_mem s)\<lparr>so_heap := h\<rparr>, sk_vals := (sk_vals s)(p \<mapsto> val)\<rparr>)"
proof -
  have nv: "nvmm_ok nv" and ok: "so_ok city nv K (sk_mem s)" using inv by (simp_all add: sokv_inv_def)
  have l: "if p = 0 then nv_live nv h = nv_live nv (so_heap (sk_mem s))
      else p \<notin> nv_live nv (so_heap (sk_mem s)) \<and> \<not> bit p 0 \<and>
        nv_live nv h = insert p (nv_live nv (so_heap (sk_mem s)))"
    using nv al unfolding nvmm_ok_def nvmm_alloc_ok_def by blast
  then have sub: "nv_live nv (so_heap (sk_mem s)) \<subseteq> nv_live nv h" by (auto split: if_splits)
  note h = so_ok_heap [OF ok sub]
  show "so_map ((sk_mem s)\<lparr>so_heap := h\<rparr>) = so_map (sk_mem s)" by (rule h(2))
  show inv1: "sokv_inv city nv K (s\<lparr>sk_mem := (sk_mem s)\<lparr>so_heap := h\<rparr>\<rparr>)"
    using inv h sub by (auto simp: sokv_inv_def)
  show new: "p \<notin> dom (sk_vals s)" if "p \<noteq> 0" using that l inv by (auto simp: sokv_inv_def)
  show "sokv_inv city nv K (s\<lparr>sk_mem := (sk_mem s)\<lparr>so_heap := h\<rparr>, sk_vals := (sk_vals s)(p \<mapsto> val)\<rparr>)"
    if "p \<noteq> 0"
    using inv1 that l h(3) by (auto simp: sokv_inv_def)
qed

text \<open>
  The state after \<open>heap_->Free\<close> of a node: the buffers are not concerned.
\<close>

lemma sokv_free_node:
  assumes inv: "sokv_inv city nv K s" and ok: "so_ok city nv K (so_free nv p m')"
    and keeps: "so_keeps nv (sk_mem s) (so_free nv p m')"
    and ran: "ran (so_map (so_free nv p m')) \<subseteq> dom (sk_vals s)"
  shows "sokv_inv city nv K (so_free_block nv p (s\<lparr>sk_mem := m'\<rparr>))"
    "sk_vals (so_free_block nv p (s\<lparr>sk_mem := m'\<rparr>)) = sk_vals s"
    "sk_mem (so_free_block nv p (s\<lparr>sk_mem := m'\<rparr>)) = so_free nv p m'"
proof -
  have nv: "nvmm_ok nv" using inv by (simp add: sokv_inv_def)
  have "nv_live nv (so_heap (so_free nv p m')) = nv_live nv (so_heap m') - {p}"
    using nv by (simp add: so_free_def nvmm_ok_def nvmm_free_ok_def)
  then have "p \<notin> dom (sk_vals s)" using inv keeps by (auto simp: sokv_inv_def so_keeps_def)
  then show v: "sk_vals (so_free_block nv p (s\<lparr>sk_mem := m'\<rparr>)) = sk_vals s"
    by (auto simp: so_free_block_def)
  show m: "sk_mem (so_free_block nv p (s\<lparr>sk_mem := m'\<rparr>)) = so_free nv p m'" by (simp add: so_free_block_def)
  show "sokv_inv city nv K (so_free_block nv p (s\<lparr>sk_mem := m'\<rparr>))"
    using inv ok keeps ran unfolding sokv_inv_def v m by (auto simp: so_keeps_def)
qed

lemma SO_Put_correct:
  assumes inv: "sokv_inv city nv K s" and key: "sokv_key K k"
  shows "\<exists>r s'. KVSSplitOrdered_Put city nv k v s = Some (r, s') \<and> sokv_inv city nv K s' \<and>
    sokv_contents s' = (if r = Inr 0 then (sokv_contents s)(k \<mapsto> v) else sokv_contents s)"
proof (cases "kMaxValLen < length v")
  case True
  with inv show ?thesis by (simp add: KVSSplitOrdered_Put_def)
next
  case False
  have len: "\<not> SO_kMaxKeyLen < length k" and kK: "k \<in> K" using key by (auto simp: sokv_key_def)
  obtain p h where al: "nv_alloc nv ((length v + sizeof_ValBuf) mod 2 ^ 64) (so_heap (sk_mem s)) = (p, h)"
    by fastforce
  note a = sokv_alloc [OF inv al]
  note d = KVSSplitOrdered_Put_def
  show ?thesis
  proof (cases "p = 0")
    case True
    with False len al a(1,2) show ?thesis by (simp add: d gptr_valid_def sokv_contents_def fun_eq_iff)
  next
    case p: False
    define s2 where "s2 = s\<lparr>sk_mem := (sk_mem s)\<lparr>so_heap := h\<rparr>, sk_vals := (sk_vals s)(p \<mapsto> v)\<rparr>"
    have inv2: "sokv_inv city nv K s2" using a(4) [OF p, of v] by (simp add: s2_def)
    have m2: "so_map (sk_mem s2) = so_map (sk_mem s)" and v2: "sk_vals s2 = (sk_vals s)(p \<mapsto> v)"
      using a(2) by (simp_all add: s2_def)
    have ran: "q \<noteq> p \<and> q \<in> dom (sk_vals s)" if "so_map (sk_mem s) x = Some q" for x q
      using sokv_ptr(1) [OF inv that] a(3) [OF p] by auto
    have put: "KVSSplitOrdered_Put city nv k v s = map_option
        (\<lambda>(r, m). let s3 = s2\<lparr>sk_mem := m\<rparr>
           in case r of Inl f \<Rightarrow> (Inl f, s3)
            | Inr (success, old) \<Rightarrow> if success = 0 then (Inr (- 1), s3)
                else (Inr 0, if old \<noteq> 0 then so_free_block nv old s3 else s3))
        (SplitOrderedList_InsertOrUpdate city nv (key_buf k) (length k) p (sk_mem s2))"
      using False len al p by (simp add: d gptr_valid_def s2_def)
    have same: "sokv_contents s' = sokv_contents s"
      if "so_map (sk_mem s') = so_map (sk_mem s)" "sk_vals s' = sk_vals s2" for s' :: "'a sokv"
      using that ran v2 by (auto simp: sokv_contents_def fun_eq_iff split: bind_splits)
    have upd: "sokv_contents s' = (sokv_contents s)(k \<mapsto> v)"
      if "so_map (sk_mem s') = (so_map (sk_mem s))(k \<mapsto> p)" "sk_vals s' = sk_vals s2" for s' :: "'a sokv"
      using that ran v2 by (auto simp: sokv_contents_def fun_eq_iff split: bind_splits)
    have nv: "nvmm_ok nv" "so_ok city nv K (sk_mem s2)" "no_clash city K" "holds_key (key_buf k) k"
      using inv2 len holds_key_buf by (auto simp: sokv_inv_def)
    from nv(1-3) kK nv(4) p show ?thesis
    proof (cases rule: InsertOrUpdate_correct)
      case (abort m')
      have "sokv_inv city nv K (s2\<lparr>sk_mem := m'\<rparr>)"
        by (rule sokv_step [OF inv2 abort(2,3)]) (use abort(4) sokv_ptr(1) [OF inv2] in auto)
      with abort put m2 same [of "s2\<lparr>sk_mem := m'\<rparr>"] show ?thesis by simp
    next
      case (inserted m')
      have "sokv_inv city nv K (s2\<lparr>sk_mem := m'\<rparr>)"
        by (rule sokv_step [OF inv2 inserted(3,4)])
          (use inserted(5) sokv_ptr(1) [OF inv2] v2 in \<open>auto split: if_splits\<close>)
      with inserted put m2 upd [of "s2\<lparr>sk_mem := m'\<rparr>"] show ?thesis by simp
    next
      case (updated q m')
      have "ran (so_map (so_free nv q m')) \<subseteq> dom (sk_vals s2)"
        using updated(6) sokv_ptr(1) [OF inv2] v2 by (auto simp: ran_def split: if_splits)
      note f = sokv_free_node [OF inv2 updated(4,5) this]
      with updated put m2 upd [of "so_free_block nv q (s2\<lparr>sk_mem := m'\<rparr>)"] show ?thesis by simp
    qed
  qed
qed

lemma SO_Get_correct:
  assumes inv: "sokv_inv city nv K s" and key: "sokv_key K k"
  shows "\<exists>r s'. KVSSplitOrdered_Get city nv k buf cap s = Some (r, s') \<and> sokv_inv city nv K s' \<and>
    sokv_contents s' = sokv_contents s \<and>
    (r = Inl AssertFail \<or>
     r = Inr (case sokv_contents s k of
                None \<Rightarrow> (- 1, buf, cap)
              | Some data \<Rightarrow> if cap < length data then (- 1, buf, length data)
                             else (0, memcpy buf data, length data)))"
proof -
  have len: "\<not> SO_kMaxKeyLen < length k" and kK: "k \<in> K" using key by (auto simp: sokv_key_def)
  have nv: "nvmm_ok nv" "so_ok city nv K (sk_mem s)" "no_clash city K" "holds_key (key_buf k) k"
    using inv len holds_key_buf by (auto simp: sokv_inv_def)
  obtain as where as: "so_inv city nv K (sk_mem s) as" "so_map (sk_mem s) = so_view (sk_mem s) as"
    using nv(2) by (rule so_okE)
  from Find_ok [OF nv(1) as(1) nv(3) kK nv(4)] obtain r m' as' where
    f: "SplitOrderedList_Find city nv (key_buf k) (length k) (sk_mem s) = Some (r, m')"
    "so_same city nv K (sk_mem s) as m' as'"
    "r = Inr (case so_map (sk_mem s) k of None \<Rightarrow> 0 | Some v \<Rightarrow> v) \<or> r = Inl AssertFail"
    unfolding as(2) by blast
  note res = so_result_same [OF nv(2) as(1) f(2)]
  have inv': "sokv_inv city nv K (s\<lparr>sk_mem := m'\<rparr>)"
    by (rule sokv_step [OF inv]) (use res sokv_ptr(1) [OF inv] in auto)
  have c: "sokv_contents (s\<lparr>sk_mem := m'\<rparr>) = sokv_contents s" using res by (simp add: sokv_contents_def fun_eq_iff)
  show ?thesis
  proof (cases "so_map (sk_mem s) k")
    case None
    with f len inv' c sokv_none [OF inv, of k] show ?thesis by (auto simp: KVSSplitOrdered_Get_def)
  next
    case (Some p)
    from sokv_ptr [OF inv Some] obtain data where "sk_vals s p = Some data" "p \<noteq> 0" by auto
    with Some f len inv' c show ?thesis by (auto simp: KVSSplitOrdered_Get_def sokv_contents_def)
  qed
qed

lemma SO_Del_correct:
  assumes inv: "sokv_inv city nv K s" and key: "sokv_key K k"
  shows "\<exists>r s'. KVSSplitOrdered_Del city nv k s = Some (r, s') \<and> sokv_inv city nv K s' \<and>
    (if r = Inl AssertFail then sokv_contents s' = sokv_contents s
     else r = Inr (if sokv_contents s k = None then - 1 else 0) \<and>
       sokv_contents s' = (sokv_contents s)(k := None))"
proof -
  have len: "\<not> SO_kMaxKeyLen < length k" and kK: "k \<in> K" using key by (auto simp: sokv_key_def)
  have nv: "nvmm_ok nv" "so_ok city nv K (sk_mem s)" "no_clash city K" "holds_key (key_buf k) k"
    using inv len holds_key_buf by (auto simp: sokv_inv_def)
  note d = KVSSplitOrdered_Del_def
  have same: "sokv_inv city nv K (s\<lparr>sk_mem := m'\<rparr>) \<and> sokv_contents (s\<lparr>sk_mem := m'\<rparr>) = sokv_contents s"
    if "so_ok city nv K m'" "so_keeps nv (sk_mem s) m'" "so_map m' = so_map (sk_mem s)" for m'
    using sokv_step [OF inv that(1,2)] that(3) sokv_ptr(1) [OF inv] by (auto simp: sokv_contents_def fun_eq_iff)
  from nv(1-3) kK nv(4) show ?thesis
  proof (cases rule: Delete_correct)
    case (abort m')
    with same [of m'] len show ?thesis by (simp add: d)
  next
    case (none m')
    with same [of m'] len sokv_none [OF inv, of k] show ?thesis by (auto simp: d fun_eq_iff)
  next
    case (deleted q m')
    have "ran (so_map (so_free nv q m')) \<subseteq> dom (sk_vals s)"
      using deleted(5) sokv_ptr(1) [OF inv] by (auto simp: ran_def split: if_splits)
    note f = sokv_free_node [OF inv deleted(3,4) this]
    have "sokv_contents (so_free_block nv q (s\<lparr>sk_mem := m'\<rparr>)) = (sokv_contents s)(k := None)"
      using deleted(5) by (intro ext) (simp add: sokv_contents_def f(2,3))
    with f deleted(1,2) len sokv_none [OF inv, of k] show ?thesis by (auto simp: d)
  qed
qed

section \<open>Opening\<close>

lemma SO_new_empty:
  assumes nv: "nvmm_ok nv" "no_clash city K" and dom: "dom (so_nodes m) \<subseteq> nv_live nv (so_heap m)"
    and new: "KVSSplitOrdered_new nv mg 0 m Map.empty = (Inr r, s)"
  shows "r = 0" "sokv_inv city nv K s" "sokv_contents s = Map.empty" "sk_desc s \<noteq> 0"
proof -
  from new obtain d m' where c: "SplitOrderedList_create nv 0 m = (Inr d, m')"
    and s: "r = 0" "s = \<lparr>sk_mem = m', sk_vals = Map.empty, sk_desc = d\<rparr>"
    by (auto simp: KVSSplitOrdered_new_def KVSSplitOrdered_Open_def split: if_splits sum.splits prod.splits)
  note cc = create_correct(1) [OF nv(1) dom c, of city K] create_correct(2,3) [OF nv(1) dom c]
  show "r = 0" by (rule s(1))
  show "sokv_inv city nv K s" using cc(1,2) nv s by (simp add: sokv_inv_def)
  show "sokv_contents s = Map.empty" using cc(2) s by (simp add: sokv_contents_def fun_eq_iff)
  show "sk_desc s \<noteq> 0" using cc(3) s by simp
qed

lemma SO_reopen:
  assumes "sk_desc s \<noteq> 0" "KVSSplitOrdered_new nv mg (sk_desc s) (sk_mem s) (sk_vals s) = (Inr r, s')"
  shows "s' = s" "r = 0"
  using assms
  by (auto simp: KVSSplitOrdered_new_def KVSSplitOrdered_Open_def SplitOrderedList_create_def split: if_splits)

lemma SO_Maintenance:
  assumes "sokv_inv city nv K s"
  shows "sokv_inv city nv K (KVSSplitOrdered_Maintenance nv s)"
    "sokv_contents (KVSSplitOrdered_Maintenance nv s) = sokv_contents s"
proof -
  let ?h = "nv_offline_free nv (so_heap (sk_mem s))"
  have l: "nv_live nv ?h = nv_live nv (so_heap (sk_mem s))"
    using assms by (simp add: sokv_inv_def nvmm_ok_def nvmm_offline_ok_def)
  then have sub: "nv_live nv (so_heap (sk_mem s)) \<subseteq> nv_live nv ?h" by simp
  have "so_ok city nv K (sk_mem s)" using assms by (simp add: sokv_inv_def)
  note h = so_ok_heap [OF this sub]
  show "sokv_inv city nv K (KVSSplitOrdered_Maintenance nv s)"
    using assms h l by (simp add: sokv_inv_def KVSSplitOrdered_Maintenance_def)
  show "sokv_contents (KVSSplitOrdered_Maintenance nv s) = sokv_contents s"
    using h(2) by (simp add: sokv_contents_def KVSSplitOrdered_Maintenance_def fun_eq_iff)
qed

section \<open>The store meets the interface\<close>

interpretation split_ordered_kvs: aborting_store "sokv_inv city nv K" sokv_contents "sokv_key K" "\<lambda>_. True"
  "KVSSplitOrdered_Put city nv" "KVSSplitOrdered_Get city nv" "KVSSplitOrdered_Del city nv" for city nv K
proof unfold_locales
  fix s :: "'a sokv" and k v
  assume "sokv_inv city nv K s" "sokv_key K k"
  then show "\<exists>r s'. KVSSplitOrdered_Put city nv k v s = Some (r, s') \<and> sokv_inv city nv K s' \<and>
      sokv_contents s' = (if r = Inr 0 then (sokv_contents s)(k \<mapsto> v) else sokv_contents s)"
    by (rule SO_Put_correct)
next
  fix s :: "'a sokv" and k and buf :: bytes and cap :: nat
  assume s: "sokv_inv city nv K s" "sokv_key K k"
    and fit: "\<And>v. sokv_contents s k = Some v \<Longrightarrow> length v \<le> cap \<and> length v \<le> length buf"
  from SO_Get_correct [OF s, of buf cap] fit
  show "\<exists>r s'. KVSSplitOrdered_Get city nv k buf cap s = Some (r, s') \<and> sokv_inv city nv K s' \<and>
      sokv_contents s' = sokv_contents s \<and>
      (isl r \<or> (case sokv_contents s k of None \<Rightarrow> fst (projr r) \<noteq> 0
                 | Some v \<Rightarrow> r = Inr (0, memcpy buf v, length v)))"
    by (cases "sokv_contents s k") fastforce+
next
  fix s :: "'a sokv" and k
  assume "sokv_inv city nv K s" "sokv_key K k"
  from SO_Del_correct [OF this]
  show "\<exists>r s'. KVSSplitOrdered_Del city nv k s = Some (r, s') \<and> sokv_inv city nv K s' \<and>
      (if isl r then sokv_contents s' = sokv_contents s
       else sokv_contents s' = (sokv_contents s)(k := None) \<and> (r = Inr 0 \<longleftrightarrow> sokv_contents s k \<noteq> None))"
    by (fastforce split: if_splits)
qed

end
