(* ===== verification/KVS_Factory.thy ===== *)
theory KVS_Factory
  imports SO_KVS
begin

text \<open>
  The factory \<open>KeyValueStore::MakeKVS\<close> of \<open>src/src/kvs.cc\<close>, the virtual calls through the
  abstract class, and what opens and maintains the tiny store. Every store the factory makes
  meets the contract \<open>aborting_store\<close>.
\<close>

section \<open>Opening the tiny store\<close>

definition KVSRadixTreeTiny_Open :: "'h nvmm \<Rightarrow> heap_mgr \<Rightarrow> 'h tiny \<Rightarrow> (fault + int) \<times> 'h tiny" where
  "KVSRadixTreeTiny_Open nv mg s =
     (if \<not> hm_found mg \<and> \<not> hm_created mg then (Inr (- 1), s)
      else if \<not> hm_found mg \<and> \<not> hm_found_after mg then (Inl AssertFail, s)
      else if \<not> hm_opened mg then (Inr (- 1), s)
      else (case RadixTree_create nv (ty_root s) (ty_fam s) of
              (Inl f, m) \<Rightarrow> (Inl f, s\<lparr>ty_fam := m\<rparr>)
            | (Inr root, m) \<Rightarrow> (Inr 0, s\<lparr>ty_fam := m, ty_root := root\<rparr>)))"

definition KVSRadixTreeTiny_new :: "'h nvmm \<Rightarrow> heap_mgr \<Rightarrow> Gptr \<Rightarrow> 'h fam \<Rightarrow> (fault + int) \<times> 'h tiny" where
  "KVSRadixTreeTiny_new nv mg root m =
     (case KVSRadixTreeTiny_Open nv mg \<lparr>ty_fam = m, ty_root = root, ty_iters = []\<rparr> of
        (Inr r, s) \<Rightarrow> (if r = 0 then Inr 0 else Inl AssertFail, s)
      | (Inl f, s) \<Rightarrow> (Inl f, s))"

definition KVSRadixTreeTiny_Maintenance :: "'h nvmm \<Rightarrow> 'h tiny \<Rightarrow> 'h tiny" where
  "KVSRadixTreeTiny_Maintenance nv s =
     s\<lparr>ty_fam := (ty_fam s)\<lparr>fam_heap := nv_offline_free nv (fam_heap (ty_fam s))\<rparr>\<rparr>"

section \<open>MakeKVS\<close>

datatype IndexType = INVALID | RADIX_TREE | HASH_TABLE | RADIX_TREE_TINY

definition IndexType_of :: "string \<Rightarrow> IndexType" where
  "IndexType_of type_str =
     (if type_str = ''radixtree'' then RADIX_TREE
      else if type_str = ''radixtree_tiny'' then RADIX_TREE_TINY
      else if type_str = ''hashtable'' then HASH_TABLE
      else INVALID)"

datatype 'h KeyValueStore = RadixStore "'h kvs" | TinyStore "'h tiny" | HashStore "'h sokv"

text \<open>
  The persistent memory the factory finds: the nodes and buffers a store of either kind left
  there. A failed assertion of a constructor is a fault; the null pointer is \<open>None\<close>.
\<close>

record 'h pmem =
  pm_fam :: "'h fam"
  pm_bufs :: "Gptr \<rightharpoonup> bytes"
  pm_list :: "'h so_mem"
  pm_vals :: "Gptr \<rightharpoonup> bytes"

definition made :: "('s \<Rightarrow> 'h KeyValueStore) \<Rightarrow> (fault + int) \<times> 's \<Rightarrow> fault + 'h KeyValueStore option" where
  "made C x = (case fst x of Inl f \<Rightarrow> Inl f | Inr _ \<Rightarrow> Inr (Some (C (snd x))))"

definition MakeKVS_type ::
  "'h nvmm \<Rightarrow> heap_mgr \<Rightarrow> IndexType \<Rightarrow> Gptr \<Rightarrow> 'h pmem \<Rightarrow> fault + 'h KeyValueStore option" where
  "MakeKVS_type nv mg type location m =
     (case type of
        RADIX_TREE \<Rightarrow> made RadixStore (KVSRadixTree_new nv mg location (pm_fam m) (pm_bufs m))
      | RADIX_TREE_TINY \<Rightarrow> made TinyStore (KVSRadixTreeTiny_new nv mg location (pm_fam m))
      | HASH_TABLE \<Rightarrow> made HashStore (KVSSplitOrdered_new nv mg location (pm_list m) (pm_vals m))
      | INVALID \<Rightarrow> Inr None)"

definition MakeKVS ::
  "'h nvmm \<Rightarrow> heap_mgr \<Rightarrow> string \<Rightarrow> Gptr \<Rightarrow> 'h pmem \<Rightarrow> fault + 'h KeyValueStore option" where
  "MakeKVS nv mg type_str location m = MakeKVS_type nv mg (IndexType_of type_str) location m"

section \<open>Virtual calls\<close>

fun KeyValueStore_Put ::
  "(bytes \<Rightarrow> u64) \<Rightarrow> 'h nvmm \<Rightarrow> bytes \<Rightarrow> bytes \<Rightarrow> 'h KeyValueStore \<Rightarrow> ((fault + int) \<times> 'h KeyValueStore) option" where
  "KeyValueStore_Put city nv k v (RadixStore s) = map_option (map_prod id RadixStore) (KVSRadixTree_Put nv k v s)"
| "KeyValueStore_Put city nv k v (TinyStore s) = map_option (map_prod id TinyStore) (KVSRadixTreeTiny_Put nv k v s)"
| "KeyValueStore_Put city nv k v (HashStore s) = map_option (map_prod id HashStore) (KVSSplitOrdered_Put city nv k v s)"

fun KeyValueStore_Get ::
  "(bytes \<Rightarrow> u64) \<Rightarrow> 'h nvmm \<Rightarrow> bytes \<Rightarrow> bytes \<Rightarrow> nat \<Rightarrow> 'h KeyValueStore \<Rightarrow>
   ((fault + int \<times> bytes \<times> nat) \<times> 'h KeyValueStore) option" where
  "KeyValueStore_Get city nv k b n (RadixStore s) = map_option (map_prod id RadixStore) (KVSRadixTree_Get nv k b n s)"
| "KeyValueStore_Get city nv k b n (TinyStore s) = map_option (map_prod id TinyStore) (KVSRadixTreeTiny_Get nv k b n s)"
| "KeyValueStore_Get city nv k b n (HashStore s) = map_option (map_prod id HashStore) (KVSSplitOrdered_Get city nv k b n s)"

fun KeyValueStore_Del ::
  "(bytes \<Rightarrow> u64) \<Rightarrow> 'h nvmm \<Rightarrow> bytes \<Rightarrow> 'h KeyValueStore \<Rightarrow> ((fault + int) \<times> 'h KeyValueStore) option" where
  "KeyValueStore_Del city nv k (RadixStore s) = map_option (map_prod id RadixStore) (KVSRadixTree_Del nv k s)"
| "KeyValueStore_Del city nv k (TinyStore s) = map_option (map_prod id TinyStore) (KVSRadixTreeTiny_Del nv k s)"
| "KeyValueStore_Del city nv k (HashStore s) = map_option (map_prod id HashStore) (KVSSplitOrdered_Del city nv k s)"

fun KeyValueStore_Location :: "'h KeyValueStore \<Rightarrow> Gptr" where
  "KeyValueStore_Location (RadixStore s) = kv_root s"
| "KeyValueStore_Location (TinyStore s) = ty_root s"
| "KeyValueStore_Location (HashStore s) = sk_desc s"

fun KeyValueStore_MaxKeyLen :: "'h KeyValueStore \<Rightarrow> nat" where
  "KeyValueStore_MaxKeyLen (RadixStore s) = kMaxKeyLen"
| "KeyValueStore_MaxKeyLen (TinyStore s) = kMaxKeyLen"
| "KeyValueStore_MaxKeyLen (HashStore s) = SO_kMaxKeyLen"

section \<open>The contract\<close>

fun store_type :: "'h KeyValueStore \<Rightarrow> IndexType" where
  "store_type (RadixStore s) = RADIX_TREE"
| "store_type (TinyStore s) = RADIX_TREE_TINY"
| "store_type (HashStore s) = HASH_TABLE"

fun store_inv :: "(bytes \<Rightarrow> u64) \<Rightarrow> 'h nvmm \<Rightarrow> bytes set \<Rightarrow> 'h KeyValueStore \<Rightarrow> bool" where
  "store_inv city nv K (RadixStore s) = kvs_inv nv s"
| "store_inv city nv K (TinyStore s) = tiny_inv nv s"
| "store_inv city nv K (HashStore s) = (sokv_inv city nv K s \<and> sk_desc s \<noteq> 0)"

fun store_view :: "'h KeyValueStore \<Rightarrow> bytes \<Rightarrow> bytes option" where
  "store_view (RadixStore s) = contents s"
| "store_view (TinyStore s) = tiny_contents s"
| "store_view (HashStore s) = sokv_contents s"

text \<open>What the next process finds in memory.\<close>

fun store_mem :: "'h pmem \<Rightarrow> 'h KeyValueStore \<Rightarrow> 'h pmem" where
  "store_mem m (RadixStore s) = m\<lparr>pm_fam := kv_fam s, pm_bufs := kv_bufs s\<rparr>"
| "store_mem m (TinyStore s) = m\<lparr>pm_fam := ty_fam s\<rparr>"
| "store_mem m (HashStore s) = m\<lparr>pm_list := sk_mem s, pm_vals := sk_vals s\<rparr>"

text \<open>The keys and values a store of a given type can hold.\<close>

definition type_key :: "IndexType \<Rightarrow> bytes set \<Rightarrow> bytes \<Rightarrow> bool" where
  "type_key t K k = (case t of HASH_TABLE \<Rightarrow> sokv_key K k | _ \<Rightarrow> key_ok k)"

definition type_val :: "IndexType \<Rightarrow> bytes \<Rightarrow> bool" where
  "type_val t v = (case t of RADIX_TREE_TINY \<Rightarrow> tiny_val v | _ \<Rightarrow> True)"

lemma sk_desc_ops:
  "KVSSplitOrdered_Put city nv k v s = Some (r, s') \<Longrightarrow> sk_desc s' = sk_desc s"
  "KVSSplitOrdered_Get city nv k b n s = Some (q, s') \<Longrightarrow> sk_desc s' = sk_desc s"
  "KVSSplitOrdered_Del city nv k s = Some (r, s') \<Longrightarrow> sk_desc s' = sk_desc s"
  unfolding KVSSplitOrdered_Put_def KVSSplitOrdered_Get_def KVSSplitOrdered_Del_def Let_def
  by (auto split: if_split_asm prod.split_asm)
    (auto simp: so_free_block_def split: if_split_asm prod.split_asm sum.split_asm)

lemma map_call:
  assumes "\<exists>r s'. f = Some (r, s') \<and> P r s'"
  shows "\<exists>r t. map_option (map_prod id C) f = Some (r, t) \<and> (\<exists>s'. t = C s' \<and> P r s')"
  using assms by auto

interpretation any_kvs: aborting_store "\<lambda>s. store_inv city nv K s \<and> store_type s = t" store_view
  "type_key t K" "type_val t" "KeyValueStore_Put city nv" "KeyValueStore_Get city nv" "KeyValueStore_Del city nv"
  for city nv K t
proof unfold_locales
  fix s :: "'a KeyValueStore" and k v
  assume s: "store_inv city nv K s \<and> store_type s = t" and k: "type_key t K k" and v: "type_val t v"
  show "\<exists>r s'. KeyValueStore_Put city nv k v s = Some (r, s') \<and> (store_inv city nv K s' \<and> store_type s' = t) \<and>
      store_view s' = (if r = Inr 0 then (store_view s)(k \<mapsto> v) else store_view s)"
  proof (cases s)
    case (RadixStore x)
    with map_call [OF radix_kvs.put_returns [of nv x k v], of RadixStore] s k show ?thesis
      by (fastforce simp: type_key_def)
  next
    case (TinyStore x)
    with map_call [OF tiny_kvs.put_returns [of nv x k v], of TinyStore] s k v show ?thesis
      by (fastforce simp: type_key_def type_val_def)
  next
    case (HashStore x)
    with map_call [OF split_ordered_kvs.put_returns [of city nv K x k v], of HashStore] s k sk_desc_ops(1)
    show ?thesis by (fastforce simp: type_key_def)
  qed
next
  fix s :: "'a KeyValueStore" and k and buf :: bytes and cap :: nat
  assume s: "store_inv city nv K s \<and> store_type s = t" and k: "type_key t K k" and b: "8 \<le> length buf"
    and fit: "\<And>v. store_view s k = Some v \<Longrightarrow> length v \<le> cap \<and> length v \<le> length buf"
  show "\<exists>r s'. KeyValueStore_Get city nv k buf cap s = Some (r, s') \<and>
      (store_inv city nv K s' \<and> store_type s' = t) \<and> store_view s' = store_view s \<and>
      (isl r \<or> (case store_view s k of None \<Rightarrow> fst (projr r) \<noteq> 0 | Some v \<Rightarrow> r = Inr (0, memcpy buf v, length v)))"
  proof (cases s)
    case (RadixStore x)
    with map_call [OF radix_kvs.get_returns [of nv x k buf cap], of RadixStore] s k b fit show ?thesis
      by (fastforce simp: type_key_def)
  next
    case (TinyStore x)
    with map_call [OF tiny_kvs.get_returns [of nv x k buf cap], of TinyStore] s k b fit show ?thesis
      by (fastforce simp: type_key_def)
  next
    case (HashStore x)
    with map_call [OF split_ordered_kvs.get_returns [of city nv K x k buf cap], of HashStore] s k b fit sk_desc_ops(2)
    show ?thesis by (fastforce simp: type_key_def)
  qed
next
  fix s :: "'a KeyValueStore" and k
  assume s: "store_inv city nv K s \<and> store_type s = t" and k: "type_key t K k"
  show "\<exists>r s'. KeyValueStore_Del city nv k s = Some (r, s') \<and> (store_inv city nv K s' \<and> store_type s' = t) \<and>
      (if isl r then store_view s' = store_view s
       else store_view s' = (store_view s)(k := None) \<and> (r = Inr 0 \<longleftrightarrow> store_view s k \<noteq> None))"
  proof (cases s)
    case (RadixStore x)
    with map_call [OF radix_kvs.del_returns [of nv x k], of RadixStore] s k show ?thesis
      by (fastforce simp: type_key_def)
  next
    case (TinyStore x)
    with map_call [OF tiny_kvs.del_returns [of nv x k], of TinyStore] s k show ?thesis
      by (fastforce simp: type_key_def)
  next
    case (HashStore x)
    with map_call [OF split_ordered_kvs.del_returns [of city nv K x k], of HashStore] s k sk_desc_ops(3)
    show ?thesis by (fastforce simp: type_key_def)
  qed
qed

section \<open>New stores and stores opened again\<close>

lemma tiny_new_empty:
  assumes "nvmm_ok nv" "nodes_ok nv m" "KVSRadixTreeTiny_new nv mg 0 m = (Inr r, s)"
  shows "tiny_inv nv s" "tiny_contents s = Map.empty"
proof -
  obtain root m' where c: "RadixTree_create nv 0 m = (Inr root, m')"
    and s: "s = \<lparr>ty_fam = m', ty_root = root, ty_iters = []\<rparr>"
    using assms(3)
    by (auto simp: KVSRadixTreeTiny_new_def KVSRadixTreeTiny_Open_def split: if_splits sum.splits prod.splits)
  from RadixTree_create_empty [OF assms(1,2) c] s assms(1)
  show "tiny_inv nv s" "tiny_contents s = Map.empty"
    by (simp_all add: tiny_inv_def tiny_contents_def fun_eq_iff)
qed

lemma tiny_reopen:
  assumes "tiny_inv nv s" "KVSRadixTreeTiny_new nv mg (ty_root s) (ty_fam s) = (Inr r, s')"
  shows "tiny_inv nv s'" "tiny_contents s' = tiny_contents s" "ty_root s' = ty_root s"
proof -
  have "ty_root s \<noteq> 0" using tiny_invD(3) [OF assms(1)] by (rule tree_inv_root)
  with assms(2) have "ty_fam s' = ty_fam s" "ty_root s' = ty_root s"
    by (auto simp: KVSRadixTreeTiny_new_def KVSRadixTreeTiny_Open_def RadixTree_create_def split: if_splits)
  with assms(1) show "tiny_inv nv s'" "tiny_contents s' = tiny_contents s" "ty_root s' = ty_root s"
    by (simp_all add: tiny_inv_def tiny_contents_def fun_eq_iff)
qed

lemma tiny_Maintenance:
  assumes "tiny_inv nv s"
  shows "tiny_inv nv (KVSRadixTreeTiny_Maintenance nv s)"
    "tiny_contents (KVSRadixTreeTiny_Maintenance nv s) = tiny_contents s"
  using assms nvmm_okD(6) [OF tiny_invD(1) [OF assms]]
  by (auto simp: tiny_inv_def tiny_contents_def KVSRadixTreeTiny_Maintenance_def nvmm_offline_ok_def fam_inv_def
      fun_eq_iff)

text \<open>Memory that no store has used.\<close>

definition fresh_mem :: "'h nvmm \<Rightarrow> 'h pmem \<Rightarrow> bool" where
  "fresh_mem nv m \<longleftrightarrow>
     nodes_ok nv (pm_fam m) \<and> pm_bufs m = Map.empty \<and> pm_vals m = Map.empty \<and>
     dom (so_nodes (pm_list m)) \<subseteq> nv_live nv (so_heap (pm_list m))"

lemma MakeKVS_new:
  assumes "nvmm_ok nv" "no_clash city K" "fresh_mem nv m" "hm_opened mg"
    and "MakeKVS nv mg type_str 0 m = Inr (Some s)"
  shows "store_inv city nv K s" "store_type s = IndexType_of type_str" "store_view s = Map.empty"
proof -
  have "store_inv city nv K s \<and> store_type s = IndexType_of type_str \<and> store_view s = Map.empty"
  proof (cases "IndexType_of type_str")
    case INVALID
    with assms(5) show ?thesis by (simp add: MakeKVS_def MakeKVS_type_def)
  next
    case RADIX_TREE
    obtain x y where n: "KVSRadixTree_new nv mg 0 (pm_fam m) (pm_bufs m) = (x, y)" by fastforce
    with assms(5) RADIX_TREE obtain r where "x = Inr r" "s = RadixStore y"
      by (auto simp: MakeKVS_def MakeKVS_type_def made_def split: sum.splits)
    with Open_new_correct [OF assms(1) _ assms(4) _ _ n [unfolded \<open>x = Inr r\<close>]] assms(3) RADIX_TREE
    show ?thesis by (simp add: fresh_mem_def)
  next
    case HASH_TABLE
    obtain x y where n: "KVSSplitOrdered_new nv mg 0 (pm_list m) (pm_vals m) = (x, y)" by fastforce
    with assms(5) HASH_TABLE obtain r where "x = Inr r" "s = HashStore y"
      by (auto simp: MakeKVS_def MakeKVS_type_def made_def split: sum.splits)
    with SO_new_empty [OF assms(1,2), of "pm_list m" mg r y] assms(3) HASH_TABLE n
    show ?thesis by (auto simp: fresh_mem_def)
  next
    case RADIX_TREE_TINY
    obtain x y where n: "KVSRadixTreeTiny_new nv mg 0 (pm_fam m) = (x, y)" by fastforce
    with assms(5) RADIX_TREE_TINY obtain r where "x = Inr r" "s = TinyStore y"
      by (auto simp: MakeKVS_def MakeKVS_type_def made_def split: sum.splits)
    with tiny_new_empty [OF assms(1) _ n [unfolded \<open>x = Inr r\<close>]] assms(3) RADIX_TREE_TINY
    show ?thesis by (auto simp: fresh_mem_def)
  qed
  then show "store_inv city nv K s" "store_type s = IndexType_of type_str" "store_view s = Map.empty" by simp_all
qed

lemma MakeKVS_again:
  assumes inv: "store_inv city nv K s" and ty: "store_type s = IndexType_of type_str"
    and mk: "MakeKVS nv mg type_str (KeyValueStore_Location s) (store_mem m s) = Inr (Some s2)"
  shows "store_inv city nv K s2 \<and> store_view s2 = store_view s \<and>
    KeyValueStore_Location s2 = KeyValueStore_Location s"
proof (cases s)
  case (RadixStore x)
  obtain a y where n: "KVSRadixTree_new nv mg (kv_root x) (kv_fam x) (kv_bufs x) = (a, y)" by fastforce
  with mk ty [symmetric] RadixStore obtain r where "a = Inr r" "s2 = RadixStore y"
    by (auto simp: MakeKVS_def MakeKVS_type_def made_def split: sum.splits)
  with Open_existing_correct [of nv x mg r y] inv n RadixStore show ?thesis by simp
next
  case (TinyStore x)
  obtain a y where n: "KVSRadixTreeTiny_new nv mg (ty_root x) (ty_fam x) = (a, y)" by fastforce
  with mk ty [symmetric] TinyStore obtain r where "a = Inr r" "s2 = TinyStore y"
    by (auto simp: MakeKVS_def MakeKVS_type_def made_def split: sum.splits)
  with tiny_reopen [of nv x mg r y] inv n TinyStore show ?thesis by simp
next
  case (HashStore x)
  obtain a y where n: "KVSSplitOrdered_new nv mg (sk_desc x) (sk_mem x) (sk_vals x) = (a, y)" by fastforce
  with mk ty [symmetric] HashStore obtain r where "a = Inr r" "s2 = HashStore y"
    by (auto simp: MakeKVS_def MakeKVS_type_def made_def split: sum.splits)
  with SO_reopen [of x nv mg r y] inv n HashStore show ?thesis by simp
qed

end
