(* ===== verification/SO_Spec.thy ===== *)
theory SO_Spec
  imports KVS_Factory RT_Demo
begin

text \<open>
  What the split-ordered list and the stores made by the factory promise, as theorems on
  \<open>src/src/split_ordered.cc\<close>, \<open>src/src/kvs_split_ordered.cc\<close> and \<open>src/src/kvs.cc\<close>, each with
  an application to concrete data.
\<close>

section \<open>Keys of the list\<close>

text \<open>
  C22. The byte-wise bit tricks of \<open>REVERSE\<close> and \<open>REVERSE_BYTE\<close> compute the reversal of the 64
  bits, and so a bijection that undoes itself.
\<close>

theorem REVERSE_reverses_bits:
  "REVERSE x = horner_sum of_bool 2 (rev (map (bit x) [0..<64])) \<and> REVERSE (REVERSE x) = x"
proof
  show "REVERSE x = horner_sum of_bool 2 (rev (map (bit x) [0..<64]))"
    by (rule bit_word_eqI) (auto simp: bit_REVERSE bit_horner_sum_bit_iff rev_nth)
  show "REVERSE (REVERSE x) = x"
    by (rule bit_word_eqI) (auto simp: bit_REVERSE)
qed

text \<open>
  C23. The parent of a bucket is the bucket without its highest bit: a smaller bucket, whose
  dummy comes earlier in the list; and the dummy of the bucket a hash falls into, for any
  table size \<open>2 ^ k\<close>, comes before the hash's own node.
\<close>

theorem bucket_order:
  assumes "b \<noteq> 0" "k < 64"
  shows "(\<exists>i. bit b i \<and> (\<forall>j > i. \<not> bit b j) \<and> get_parent b = unset_bit i b) \<and> get_parent b < b \<and>
      so_dummykey (get_parent b) < so_dummykey b \<and> so_dummykey (l mod 2 ^ k) < so_regularkey l"
proof -
  obtain i where i: "bit b i" "\<And>j. bit b j \<Longrightarrow> j \<le> i" using highest_bit [OF assms(1)] by blast
  have "get_parent b = unset_bit i b"
    by (rule bit_word_eqI) (metis bit_get_parent bit_unset_bit_iff i leD le_neq_implies_less)
  with i have "\<exists>i. bit b i \<and> (\<forall>j > i. \<not> bit b j) \<and> get_parent b = unset_bit i b" by (meson leD)
  with get_parent_less [OF assms(1)] parent_before_child [OF assms(1)] dummy_before_regular [OF assms(2), of l]
  show ?thesis by (simp add: take_bit_eq_mod)
qed

theorem bucket_order_witness:
  "(\<exists>i. bit (13 :: u64) i \<and> (\<forall>j > i. \<not> bit (13 :: u64) j) \<and> get_parent 13 = unset_bit i 13) \<and> get_parent 13 < 13 \<and>
      so_dummykey (get_parent 13) < so_dummykey 13 \<and> so_dummykey (77 mod 2 ^ 4) < so_regularkey 77"
  by (rule bucket_order) simp_all

section \<open>The store over the list\<close>


definition so_mem0 :: "bump_heap so_mem" where
  "so_mem0 = \<lparr>so_nodes = Map.empty, so_table = (\<lambda>_. TagGptr_default), so_count = 0, so_size = 0,
              so_heap = \<lparr>bump_next = 0, bump_live = []\<rparr>\<rparr>"

definition demo_sokv :: "bump_heap sokv" where
  "demo_sokv = snd (KVSSplitOrdered_new bump_nvmm demo_mgr 0 so_mem0 Map.empty)"

lemma demo_sokv_new: "KVSSplitOrdered_new bump_nvmm demo_mgr 0 so_mem0 Map.empty = (Inr 0, demo_sokv)"
  by (simp add: demo_sokv_def KVSSplitOrdered_new_def KVSSplitOrdered_Open_def demo_mgr_def
      SplitOrderedList_create_def bump_nvmm_def bump_alloc_def so_mem0_def Let_def)

definition one_byte :: "bytes set" where
  "one_byte = {k. length k = 1}"

lemma one_byte_keys: "no_clash city one_byte" "sokv_key one_byte [b]"
  by (simp_all add: no_clash_def sokv_key_def SO_kMaxKeyLen_def BYTE_KEY_LEN_def one_byte_def)


text \<open>
  C25. Through every sequence of updates the number of buckets stays a power of two between 2 and
  the size of the allocated table, so that no bucket index leaves the table, and \<open>count\<close> is
  the number of keys modulo \<open>2 ^ 64\<close>.
\<close>

theorem table_stays_in_bounds:
  assumes "sokv_inv city nv K s" "\<And>c. c \<in> set cs \<Longrightarrow> sokv_key K (cmd_key c)"
    and "kv_exec (KVSSplitOrdered_Put city nv) (KVSSplitOrdered_Del city nv) cs s = Some (rs, s1)"
  shows "(\<exists>k. 1 \<le> k \<and> k \<le> 20 \<and> so_size (sk_mem s1) = 2 ^ k) \<and>
    (\<forall>l. l mod so_size (sk_mem s1) < hard_max_buckets) \<and>
    so_count (sk_mem s1) = of_nat (card (dom (sokv_contents s1)))"
proof -
  have "good_cmd (sokv_key K) (\<lambda>_. True) c" if "c \<in> set cs" for c using assms(2) [OF that] by (cases c) simp_all
  from split_ordered_kvs.exec_keeps_map [OF assms(1), of cs] this assms(3) have inv: "sokv_inv city nv K s1" by auto
  then have ok: "so_ok city nv K (sk_mem s1)" by (simp add: sokv_inv_def)
  obtain as where as: "so_inv city nv K (sk_mem s1) as" "so_count (sk_mem s1) = of_nat (card (dom (so_map (sk_mem s1))))"
    using ok by (rule so_okE)
  have "dom (sokv_contents s1) = dom (so_map (sk_mem s1))"
    using sokv_none [OF inv] by (simp add: dom_def set_eq_iff)
  with as bucket_of_key(1) [OF as(1)] show ?thesis by (simp add: so_inv_def)
qed

theorem table_stays_in_bounds_witness:
  "\<exists>rs s1. kv_exec (KVSSplitOrdered_Put (\<lambda>_. 7) bump_nvmm) (KVSSplitOrdered_Del (\<lambda>_. 7) bump_nvmm)
      [CPut [97] [1, 2]] demo_sokv = Some (rs, s1) \<and>
    (\<exists>k. 1 \<le> k \<and> k \<le> 20 \<and> so_size (sk_mem s1) = 2 ^ k) \<and>
    (\<forall>l. l mod so_size (sk_mem s1) < hard_max_buckets) \<and>
    so_count (sk_mem s1) = of_nat (card (dom (sokv_contents s1)))"
proof -
  have inv: "sokv_inv (\<lambda>_. 7) bump_nvmm one_byte demo_sokv"
    by (rule SO_new_empty(2) [OF bump_nvmm_ok one_byte_keys(1) _ demo_sokv_new]) (simp add: so_mem0_def)
  obtain rs s1 where e: "kv_exec (KVSSplitOrdered_Put (\<lambda>_. 7) bump_nvmm) (KVSSplitOrdered_Del (\<lambda>_. 7) bump_nvmm)
      [CPut [97] [1, 2]] demo_sokv = Some (rs, s1)"
    using split_ordered_kvs.exec_keeps_map [OF inv, of "[CPut [97] [1, 2]]"] one_byte_keys(2) by auto
  from table_stays_in_bounds [OF inv _ e] e one_byte_keys(2) show ?thesis by auto
qed




section \<open>Keys that the list confuses\<close>




section \<open>Stores made by the factory\<close>




end
