(* ===== verification/CL_Config.thy ===== *)
theory CL_Config
  imports RT_Prelude "HOL-Library.AList"
begin

text \<open>
  The configuration of a cluster, \<open>class Config\<close> of \<open>src/include/cluster/config.h\<close> and
  \<open>src/src/cluster/config.cc\<close>. A \<open>std::map\<close> is an association list with at most one entry for
  a key. YAML files are read and written by the library yaml-cpp; a file is modelled by the
  document it holds, whose members are present or not and have already been converted by
  \<open>as<T>()\<close>.
\<close>

section \<open>Data\<close>

type_synonym PartitionID = u64
type_synonym NodeID = u64
type_synonym ServerID = u64
type_synonym Port = u64
type_synonym Addr = string
type_synonym KVS = "(string \<times> string) list"

datatype ReplicationScheme = RS_INVALID | NO_REPLICATION | MASTER_SLAVE | DYNAMO | MODC

record Config =
  shelf_base :: string
  shelf_user :: string
  partition_cnt :: u64
  server_cnt :: u64
  node_cnt :: u64
  starting_port :: u64
  kvs_type :: string
  kvs_size :: u64
  cache_size :: u64
  server_thread :: u64
  partitions :: "(PartitionID \<times> KVS) list"
  servers :: "(ServerID \<times> Addr) list"
  replication_scheme :: ReplicationScheme
  replication_factor :: u64

text \<open>
  The constructor leaves three members uninitialised: their values are arguments.
\<close>

definition Config_new :: "u64 \<Rightarrow> u64 \<Rightarrow> u64 \<Rightarrow> Config" where
  "Config_new port thread factor =
     \<lparr>shelf_base = [], shelf_user = [], partition_cnt = 0, server_cnt = 0, node_cnt = 0, starting_port = port,
      kvs_type = [], kvs_size = 0, cache_size = 0, server_thread = thread, partitions = [], servers = [],
      replication_scheme = NO_REPLICATION, replication_factor = factor\<rparr>"

section \<open>Small operations\<close>

definition str2rs :: "string \<Rightarrow> ReplicationScheme" where
  "str2rs str =
     (if str = ''NO_REPLICATION'' \<or> str = ''no_replication'' then NO_REPLICATION
      else if str = ''MASTER_SLAVE'' \<or> str = ''master_slave'' then MASTER_SLAVE
      else if str = ''DYNAMO'' \<or> str = ''dynamo'' then DYNAMO
      else if str = ''MODC'' \<or> str = ''modc'' then MODC
      else RS_INVALID)"

fun rs2str :: "ReplicationScheme \<Rightarrow> string" where
  "rs2str NO_REPLICATION = ''NO_REPLICATION''"
| "rs2str MASTER_SLAVE = ''MASTER_SLAVE''"
| "rs2str DYNAMO = ''DYNAMO''"
| "rs2str MODC = ''MODC''"
| "rs2str RS_INVALID = ''INVALID''"

definition Config_IsValid :: "Config \<Rightarrow> bool" where
  "Config_IsValid c \<longleftrightarrow>
     0 < partition_cnt c \<and> 0 < node_cnt c \<and> 0 < server_cnt c \<and>
     of_nat (length (partitions c)) = partition_cnt c \<and> of_nat (length (servers c)) = server_cnt c \<and>
     replication_factor c \<le> server_cnt c \<and> replication_scheme c \<noteq> RS_INVALID"

definition SetReplicationFactor :: "u64 \<Rightarrow> Config \<Rightarrow> fault + Config" where
  "SetReplicationFactor f c =
     (case replication_scheme c of
        NO_REPLICATION \<Rightarrow> Inr (c\<lparr>replication_factor := 1\<rparr>)
      | MASTER_SLAVE \<Rightarrow>
          if \<not> (0 < partition_cnt c \<and> 0 < node_cnt c \<and> partition_cnt c \<le> node_cnt c) then Inl AssertFail
          else if \<not> f \<le> server_cnt c then Inl AssertFail
          else Inr (c\<lparr>replication_factor := node_cnt c div partition_cnt c\<rparr>)
      | RS_INVALID \<Rightarrow> Inl AssertFail
      | _ \<Rightarrow>
          if \<not> (0 < partition_cnt c \<and> 0 < node_cnt c \<and> f \<le> node_cnt c) then Inl AssertFail
          else if \<not> f \<le> server_cnt c then Inl AssertFail
          else Inr (c\<lparr>replication_factor := f\<rparr>))"

definition AddPartition :: "PartitionID \<Rightarrow> KVS \<Rightarrow> Config \<Rightarrow> int \<times> Config" where
  "AddPartition pid kvs c =
     (case map_of (partitions c) pid of
        None \<Rightarrow> (0, c\<lparr>partitions := AList.update pid kvs (partitions c)\<rparr>)
      | Some _ \<Rightarrow> (- 1, c))"

definition AddServer :: "ServerID \<Rightarrow> Addr \<Rightarrow> Config \<Rightarrow> int \<times> Config" where
  "AddServer sid ip c =
     (case map_of (servers c) sid of
        None \<Rightarrow> (0, c\<lparr>servers := AList.update sid ip (servers c)\<rparr>)
      | Some _ \<Rightarrow> (- 1, c))"

definition RemovePartition :: "PartitionID \<Rightarrow> Config \<Rightarrow> Config" where
  "RemovePartition pid c = c\<lparr>partitions := AList.delete pid (partitions c)\<rparr>"

definition RemoveServer :: "ServerID \<Rightarrow> Config \<Rightarrow> Config" where
  "RemoveServer sid c = c\<lparr>servers := AList.delete sid (servers c)\<rparr>"

text \<open>\<open>std::to_string\<close> of an unsigned number.\<close>

fun to_string :: "nat \<Rightarrow> string" where
  "to_string n =
     (if n < 10 then [char_of (48 + n)] else to_string (n div 10) @ [char_of (48 + n mod 10)])"

declare to_string.simps [simp del]

definition GetShelfBaseForPartition :: "PartitionID \<Rightarrow> Config \<Rightarrow> string" where
  "GetShelfBaseForPartition pid c = shelf_base c @ ''/'' @ to_string (unat pid)"

definition GetShelfUserForPartition :: "PartitionID \<Rightarrow> Config \<Rightarrow> string" where
  "GetShelfUserForPartition pid c = shelf_user c @ ''_'' @ to_string (unat pid)"

definition UpdateRoot :: "PartitionID \<Rightarrow> string \<Rightarrow> Config \<Rightarrow> Config" where
  "UpdateRoot pid root c =
     (let kvs = [(''cache_size'', to_string (unat (cache_size c))), (''kvs_root'', root),
                 (''kvs_size'', to_string (unat (kvs_size c))), (''kvs_type'', kvs_type c),
                 (''server_thread'', to_string (unat (server_thread c))),
                 (''shelf_base'', GetShelfBaseForPartition pid c), (''shelf_user'', GetShelfUserForPartition pid c)]
      in c\<lparr>partitions := AList.update pid kvs (partitions c)\<rparr>)"

section \<open>Files\<close>

record yaml_nvmm =
  y_shelf_base :: "string option"
  y_shelf_user :: "string option"

record yaml_kvs =
  y_partition_cnt :: "u64 option"
  y_server_cnt :: "u64 option"
  y_node_cnt :: "u64 option"
  y_starting_port :: "u64 option"
  y_kvs_type :: "string option"
  y_kvs_size :: "u64 option"
  y_cache_size :: "u64 option"
  y_server_thread :: "u64 option"
  y_replication_scheme :: "string option"
  y_replication_factor :: "u64 option"
  y_partitions :: "(PartitionID \<times> KVS) list option"
  y_servers :: "(ServerID \<times> Addr) list option"

record yaml_file =
  y_nvmm :: "yaml_nvmm option"
  y_kvs :: "yaml_kvs option"

definition if_given :: "'a option \<Rightarrow> ('a \<Rightarrow> 'c \<Rightarrow> 'c) \<Rightarrow> 'c \<Rightarrow> 'c" where
  "if_given x f c = (case x of None \<Rightarrow> c | Some v \<Rightarrow> f v c)"

text \<open>The members with a plain setter, then scheme, factor, partitions and servers.\<close>

definition load_counts :: "yaml_kvs \<Rightarrow> Config \<Rightarrow> Config" where
  "load_counts k =
     if_given (y_server_thread k) (\<lambda>v c. c\<lparr>server_thread := v\<rparr>) \<circ> if_given (y_cache_size k) (\<lambda>v c. c\<lparr>cache_size := v\<rparr>) \<circ>
     if_given (y_kvs_size k) (\<lambda>v c. c\<lparr>kvs_size := v\<rparr>) \<circ> if_given (y_kvs_type k) (\<lambda>v c. c\<lparr>kvs_type := v\<rparr>) \<circ>
     if_given (y_starting_port k) (\<lambda>v c. c\<lparr>starting_port := v\<rparr>) \<circ> if_given (y_node_cnt k) (\<lambda>v c. c\<lparr>node_cnt := v\<rparr>) \<circ>
     if_given (y_server_cnt k) (\<lambda>v c. c\<lparr>server_cnt := v\<rparr>) \<circ> if_given (y_partition_cnt k) (\<lambda>v c. c\<lparr>partition_cnt := v\<rparr>)"

definition load_scheme :: "yaml_kvs \<Rightarrow> int \<times> Config \<Rightarrow> int \<times> Config" where
  "load_scheme k =
     if_given (y_replication_scheme k) (\<lambda>str (ret, c).
       if str2rs str = RS_INVALID then (- 1, c) else (ret, c\<lparr>replication_scheme := str2rs str\<rparr>))"

definition load_entries :: "('k \<Rightarrow> 'v \<Rightarrow> Config \<Rightarrow> int \<times> Config) \<Rightarrow> ('k \<times> 'v) list option \<Rightarrow>
    int \<times> Config \<Rightarrow> int \<times> Config" where
  "load_entries add entries =
     if_given entries (\<lambda>es rc. fold (\<lambda>(k, v) (ret, c). let (res, c') = add k v c
                                                   in (if res = - 1 then - 1 else ret, c')) es rc)"

definition LoadConfigFile :: "yaml_file option \<Rightarrow> Config \<Rightarrow> fault + int \<times> Config" where
  "LoadConfigFile file c =
     (case file of
        None \<Rightarrow> Inr (- 1, c)
      | Some y \<Rightarrow>
          (case y_nvmm y of
             None \<Rightarrow> Inr (- 1, c)
           | Some n \<Rightarrow>
               (let c1 = if_given (y_shelf_user n) (\<lambda>v c. c\<lparr>shelf_user := v\<rparr>)
                           (if_given (y_shelf_base n) (\<lambda>v c. c\<lparr>shelf_base := v\<rparr>) c)
                in case y_kvs y of
                     None \<Rightarrow> Inr (- 1, c1)
                   | Some k \<Rightarrow>
                       (let (ret, c2) = load_scheme k (0, load_counts k c1)
                        in case (case y_replication_factor k of
                                   None \<Rightarrow> Inr c2 | Some f \<Rightarrow> SetReplicationFactor f c2) of
                             Inl f \<Rightarrow> Inl f
                           | Inr c3 \<Rightarrow>
                               (let (ret, c4) = load_entries AddServer (y_servers k)
                                                  (load_entries AddPartition (y_partitions k) (ret, c3))
                                in Inr (if Config_IsValid c4 then ret else - 1, c4))))))"

definition SaveConfigFile :: "Config \<Rightarrow> yaml_file" where
  "SaveConfigFile c =
     \<lparr>y_nvmm = Some \<lparr>y_shelf_base = Some (shelf_base c), y_shelf_user = Some (shelf_user c)\<rparr>,
      y_kvs = Some
        \<lparr>y_partition_cnt = Some (partition_cnt c), y_server_cnt = Some (server_cnt c),
         y_node_cnt = Some (node_cnt c), y_starting_port = Some (starting_port c),
         y_kvs_type = Some (kvs_type c), y_kvs_size = Some (kvs_size c), y_cache_size = Some (cache_size c),
         y_server_thread = Some (server_thread c), y_replication_scheme = Some (rs2str (replication_scheme c)),
         y_replication_factor = Some (replication_factor c), y_partitions = Some (partitions c),
         y_servers = Some (servers c)\<rparr>\<rparr>"

section \<open>Saving and loading\<close>

text \<open>The maps have one entry for a key.\<close>

definition config_maps :: "Config \<Rightarrow> bool" where
  "config_maps c \<longleftrightarrow> distinct (map fst (partitions c)) \<and> distinct (map fst (servers c))"

lemma AList_update_new: "k \<notin> fst ` set al \<Longrightarrow> AList.update k v al = al @ [(k, v)]"
  by (induction al) auto

lemma load_partitions:
  assumes "distinct (map fst (partitions c) @ map fst es)"
  shows "fold (\<lambda>(k, v) (ret, c). let (res, c') = AddPartition k v c in (if res = - 1 then - 1 else ret, c')) es (ret, c) =
    (ret, c\<lparr>partitions := partitions c @ es\<rparr>)"
  using assms
proof (induction es arbitrary: c)
  case (Cons e es)
  obtain k v where e: "e = (k, v)" by (cases e)
  with Cons.prems have new: "k \<notin> fst ` set (partitions c)" by auto
  then have add: "AddPartition k v c = (0, c\<lparr>partitions := partitions c @ [(k, v)]\<rparr>)"
    by (simp add: AddPartition_def AList_update_new map_of_eq_None_iff [THEN iffD2])
  have "distinct (map fst (partitions (c\<lparr>partitions := partitions c @ [(k, v)]\<rparr>)) @ map fst es)"
    using Cons.prems e by auto
  from Cons.IH [OF this] e add show ?case by simp
qed simp

lemma load_servers:
  assumes "distinct (map fst (servers c) @ map fst es)"
  shows "fold (\<lambda>(k, v) (ret, c). let (res, c') = AddServer k v c in (if res = - 1 then - 1 else ret, c')) es (ret, c) =
    (ret, c\<lparr>servers := servers c @ es\<rparr>)"
  using assms
proof (induction es arbitrary: c)
  case (Cons e es)
  obtain k v where e: "e = (k, v)" by (cases e)
  with Cons.prems have new: "k \<notin> fst ` set (servers c)" by auto
  then have add: "AddServer k v c = (0, c\<lparr>servers := servers c @ [(k, v)]\<rparr>)"
    by (simp add: AddServer_def AList_update_new map_of_eq_None_iff [THEN iffD2])
  have "distinct (map fst (servers (c\<lparr>servers := servers c @ [(k, v)]\<rparr>)) @ map fst es)"
    using Cons.prems e by auto
  from Cons.IH [OF this] e add show ?case by simp
qed simp

lemma str2rs_rs2str: "str2rs (rs2str rs) = rs"
  by (cases rs) (simp_all add: str2rs_def)

text \<open>A replication factor as \<open>SetReplicationFactor\<close> would set it.\<close>

definition factor_ok :: "Config \<Rightarrow> bool" where
  "factor_ok c \<longleftrightarrow> SetReplicationFactor (replication_factor c) c = Inr c"

lemma SetReplicationFactor_over:
  "SetReplicationFactor r (c\<lparr>replication_factor := f\<rparr>) = SetReplicationFactor r c"
  "SetReplicationFactor r (c\<lparr>partitions := ps, servers := ss\<rparr>) =
     map_sum id (\<lambda>c. c\<lparr>partitions := ps, servers := ss\<rparr>) (SetReplicationFactor r c)"
  by (simp_all add: SetReplicationFactor_def split: ReplicationScheme.split)

lemma load_save:
  assumes "Config_IsValid c" "factor_ok c" "config_maps c" "c0 = Config_new p t f"
  shows "LoadConfigFile (Some (SaveConfigFile c)) c0 = Inr (0, c)"
proof -
  let ?c1 = "c\<lparr>partitions := [], servers := []\<rparr>"
  let ?k = "the (y_kvs (SaveConfigFile c))"
  have rs: "replication_scheme c \<noteq> RS_INVALID" using assms(1) by (simp add: Config_IsValid_def)
  have counts: "load_scheme ?k (0, load_counts ?k (c0\<lparr>shelf_base := shelf_base c, shelf_user := shelf_user c\<rparr>)) =
      (0, ?c1\<lparr>replication_factor := f\<rparr>)"
    using rs by (simp add: assms(4) Config_new_def SaveConfigFile_def load_counts_def load_scheme_def if_given_def str2rs_rs2str)
  have factor: "SetReplicationFactor (replication_factor c) (?c1\<lparr>replication_factor := f\<rparr>) = Inr ?c1"
    using assms(2) by (simp only: SetReplicationFactor_over factor_ok_def map_sum.simps)
  have parts: "load_entries AddPartition (Some (partitions c)) (0, ?c1) = (0, c\<lparr>servers := []\<rparr>)"
    using load_partitions [of ?c1 "partitions c" 0] assms(3) by (simp add: load_entries_def if_given_def config_maps_def)
  have servs: "load_entries AddServer (Some (servers c)) (0, c\<lparr>servers := []\<rparr>) = (0, c)"
    using load_servers [of "c\<lparr>servers := []\<rparr>" "servers c" 0] assms(3)
    by (simp add: load_entries_def if_given_def config_maps_def)
  show ?thesis
    using counts factor parts servs assms(1)
    by (simp add: LoadConfigFile_def SaveConfigFile_def if_given_def)
qed

end
