(* ===== verification/CL_Cluster.thy ===== *)
theory CL_Cluster
  imports CL_Config
begin

text \<open>
  The managers of a cluster and the cluster itself: \<open>src/src/cluster/resource_manager.cc\<close> (key
  to partition), \<open>partition_manager.cc\<close> (partition to nodes and back), \<open>node_manager.cc\<close> (node
  to ports and server), \<open>server_manager.cc\<close> and \<open>cluster.cc\<close>. \<open>std::hash\<close> and \<open>std::rand\<close> are
  parameters.
\<close>

section \<open>Loops and maps\<close>

text \<open>\<open>for (uint64_t i = 0; i < n; i++)\<close> and \<open>map[k].push_back(v)\<close>\<close>

definition ids :: "u64 \<Rightarrow> u64 list" where
  "ids n = map of_nat [0..<unat n]"

definition push :: "'k \<times> 'v \<Rightarrow> ('k \<times> 'v list) list \<Rightarrow> ('k \<times> 'v list) list" where
  "push = (\<lambda>(k, v) al. AList.update k ((case map_of al k of None \<Rightarrow> [] | Some vs \<Rightarrow> vs) @ [v]) al)"

section \<open>ResourceManager\<close>

definition range_per_partition :: "Config \<Rightarrow> fault + u64" where
  "range_per_partition c = (if \<not> 0 < partition_cnt c then Inl AssertFail else Inr (- 1 div partition_cnt c))"

definition FindPartition :: "(string \<Rightarrow> u64) \<Rightarrow> u64 \<Rightarrow> string \<Rightarrow> PartitionID" where
  "FindPartition hash rpp key = hash key div rpp"

section \<open>PartitionManager\<close>

record PartitionManager =
  pa_scheme :: ReplicationScheme
  pa_partition :: "(PartitionID \<times> KVS) list"
  pa_partition2node :: "(PartitionID \<times> NodeID list) list"
  pa_node2partition :: "(NodeID \<times> PartitionID list) list"

definition partition_links :: "Config \<Rightarrow> (PartitionID \<times> NodeID) list" where
  "partition_links c =
     (let rf = replication_factor c
      in case replication_scheme c of
           MASTER_SLAVE \<Rightarrow> [(pid, pid * rf + r). pid \<leftarrow> ids (partition_cnt c), r \<leftarrow> ids rf]
         | DYNAMO \<Rightarrow> [(pid, (pid + r) mod node_cnt c). pid \<leftarrow> ids (partition_cnt c), r \<leftarrow> ids rf]
         | MODC \<Rightarrow> [(0, r mod node_cnt c). r \<leftarrow> ids rf]
         | _ \<Rightarrow> [])"

definition node_links :: "Config \<Rightarrow> (NodeID \<times> PartitionID) list" where
  "node_links c =
     (let rf = replication_factor c; pc = partition_cnt c
      in case replication_scheme c of
           MASTER_SLAVE \<Rightarrow> [(pid * rf + r, pid). pid \<leftarrow> ids pc, r \<leftarrow> ids rf]
         | DYNAMO \<Rightarrow> [(nid, (nid - r + pc) mod pc). nid \<leftarrow> ids (node_cnt c), r \<leftarrow> ids rf]
         | MODC \<Rightarrow> [(nid, 0). nid \<leftarrow> ids (node_cnt c)]
         | _ \<Rightarrow> [])"

definition PartitionManager_Init :: "Config \<Rightarrow> PartitionManager" where
  "PartitionManager_Init c =
     \<lparr>pa_scheme = replication_scheme c, pa_partition = fold (\<lambda>(p, kvs). AList.update p kvs) (partitions c) [],
      pa_partition2node = fold push (partition_links c) [], pa_node2partition = fold push (node_links c) []\<rparr>"

text \<open>\<open>(NodeID)-1\<close> for a partition that is not there.\<close>

definition FindNode :: "PartitionID \<Rightarrow> PartitionManager \<Rightarrow> fault + NodeID" where
  "FindNode p pm =
     (if pa_scheme pm = NO_REPLICATION then Inr p
      else case map_of (pa_partition2node pm) p of
        None \<Rightarrow> Inr (- 1)
      | Some [] \<Rightarrow> Inl OutOfBounds
      | Some (n # _) \<Rightarrow> Inr n)"

definition FindNodes :: "PartitionID \<Rightarrow> PartitionManager \<Rightarrow> NodeID list" where
  "FindNodes p pm =
     (if pa_scheme pm = NO_REPLICATION then [p]
      else case map_of (pa_partition2node pm) p of None \<Rightarrow> [] | Some ns \<Rightarrow> ns)"

text \<open>\<open>partition_[p]\<close> inserts an empty \<open>KVS\<close> for a partition that is not there.\<close>

definition partition_ref :: "PartitionID \<Rightarrow> PartitionManager \<Rightarrow> KVS \<times> PartitionManager" where
  "partition_ref p pm =
     (case map_of (pa_partition pm) p of
        Some kvs \<Rightarrow> (kvs, pm)
      | None \<Rightarrow> ([], pm\<lparr>pa_partition := AList.update p [] (pa_partition pm)\<rparr>))"

fun partition_refs :: "PartitionID list \<Rightarrow> PartitionManager \<Rightarrow> KVS list \<times> PartitionManager" where
  "partition_refs [] pm = ([], pm)"
| "partition_refs (p # ps) pm =
     (let (kvs, pm1) = partition_ref p pm; (rest, pm2) = partition_refs ps pm1 in (kvs # rest, pm2))"

definition FindPartitionsByNode :: "NodeID \<Rightarrow> PartitionManager \<Rightarrow> KVS list \<times> PartitionManager" where
  "FindPartitionsByNode n pm =
     (if pa_scheme pm = NO_REPLICATION then partition_refs [n] pm
      else case map_of (pa_node2partition pm) n of
        None \<Rightarrow> ([], pm)
      | Some ps \<Rightarrow> partition_refs ps pm)"

section \<open>NodeManager\<close>

record NodeManager =
  nm_scheme :: ReplicationScheme
  nm_node :: "(NodeID \<times> Port list) list"
  nm_node2server :: "(NodeID \<times> ServerID) list"
  nm_server2node :: "(ServerID \<times> NodeID list) list"

definition node_ports :: "Config \<Rightarrow> NodeID \<Rightarrow> Port list" where
  "node_ports c nid =
     (if replication_scheme c = DYNAMO
      then map (\<lambda>i. starting_port c + nid * replication_factor c + i) (ids (replication_factor c))
      else [starting_port c + nid])"

definition NodeManager_Init :: "Config \<Rightarrow> NodeManager" where
  "NodeManager_Init c =
     (let repl = (replication_scheme c \<noteq> NO_REPLICATION); ns = ids (node_cnt c)
      in \<lparr>nm_scheme = replication_scheme c,
          nm_node = (if replication_scheme c = RS_INVALID then []
                     else fold (\<lambda>nid. AList.update nid (node_ports c nid)) ns []),
          nm_node2server = (if repl then fold (\<lambda>nid. AList.update nid (nid mod server_cnt c)) ns [] else []),
          nm_server2node = (if repl then fold (\<lambda>nid. push (nid mod server_cnt c, nid)) ns [] else [])\<rparr>)"

definition GetNode :: "NodeID \<Rightarrow> NodeManager \<Rightarrow> Port list" where
  "GetNode n nm = (case map_of (nm_node nm) n of None \<Rightarrow> [] | Some ports \<Rightarrow> ports)"

definition FindServer :: "NodeID \<Rightarrow> NodeManager \<Rightarrow> ServerID" where
  "FindServer n nm =
     (if nm_scheme nm = NO_REPLICATION then n
      else case map_of (nm_node2server nm) n of None \<Rightarrow> - 1 | Some s \<Rightarrow> s)"

section \<open>ServerManager\<close>

definition ServerManager_Init :: "Config \<Rightarrow> (ServerID \<times> Addr) list" where
  "ServerManager_Init c = fold (\<lambda>(s, ip). AList.update s ip) (servers c) []"

definition GetServer :: "ServerID \<Rightarrow> (ServerID \<times> Addr) list \<Rightarrow> Addr" where
  "GetServer s sm = (case map_of sm s of None \<Rightarrow> [] | Some ip \<Rightarrow> ip)"

section \<open>Cluster\<close>

record Cluster =
  cl_config :: Config
  cl_range :: u64
  cl_pmgr :: PartitionManager
  cl_nmgr :: NodeManager
  cl_smgr :: "(ServerID \<times> Addr) list"

text \<open>A cluster before \<open>Init\<close> or after \<open>Final\<close> has null managers: \<open>None\<close>.\<close>

definition Cluster_Init :: "Config \<Rightarrow> fault + Cluster" where
  "Cluster_Init c =
     (if \<not> Config_IsValid c then Inl AssertFail
      else case range_per_partition c of
        Inl f \<Rightarrow> Inl f
      | Inr rpp \<Rightarrow>
          Inr \<lparr>cl_config = c, cl_range = rpp, cl_pmgr = PartitionManager_Init c,
               cl_nmgr = NodeManager_Init c, cl_smgr = ServerManager_Init c\<rparr>)"

definition Cluster_Final :: "Cluster option \<Rightarrow> Cluster option" where
  "Cluster_Final cl = None"

record Location =
  loc_ip :: Addr
  loc_port :: Port

text \<open>
  \<open>rnd\<close> is the next value of \<open>std::rand\<close>. An empty vector of nodes is indexed at 0, or its size
  is a divisor.
\<close>

definition Locate :: "(string \<Rightarrow> u64) \<Rightarrow> nat \<Rightarrow> string \<Rightarrow> bool \<Rightarrow> Cluster \<Rightarrow> fault + Location" where
  "Locate hash rnd name random cl =
     (let pid = FindPartition hash (cl_range cl) name;
          nids = FindNodes pid (cl_pmgr cl)
      in if nids = [] then Inl OutOfBounds
         else
           (let nid_idx = (if random then rnd mod length nids else 0);
                nid = nids ! nid_idx;
                ports = GetNode nid (cl_nmgr cl);
                ip = GetServer (FindServer nid (cl_nmgr cl)) (cl_smgr cl);
                port_idx = (if 1 < length ports then nid_idx else 0)
            in if port_idx < length ports then Inr \<lparr>loc_ip = ip, loc_port = ports ! port_idx\<rparr>
               else Inl OutOfBounds))"

definition FindPorts :: "NodeID \<Rightarrow> Cluster \<Rightarrow> Port list" where
  "FindPorts nid cl = GetNode nid (cl_nmgr cl)"

definition FindPartitions :: "NodeID \<Rightarrow> Cluster \<Rightarrow> KVS list \<times> Cluster" where
  "FindPartitions nid cl =
     (let (ks, pm) = FindPartitionsByNode nid (cl_pmgr cl) in (ks, cl\<lparr>cl_pmgr := pm\<rparr>))"

section \<open>The maps after Init\<close>

lemma map_of_push: "map_of (push (k, v) al) = (map_of al)(k \<mapsto> (case map_of al k of None \<Rightarrow> [] | Some vs \<Rightarrow> vs) @ [v])"
  by (simp add: push_def update_conv')

lemma map_of_pushes:
  "map_of (fold push xs al) k =
     (let vs = map snd (filter (\<lambda>x. fst x = k) xs)
      in if vs = [] then map_of al k else Some ((case map_of al k of None \<Rightarrow> [] | Some us \<Rightarrow> us) @ vs))"
proof (induction xs arbitrary: al)
  case (Cons x xs)
  then show ?case by (cases x) (auto simp: map_of_push Let_def split: option.splits)
qed simp

lemma map_of_updates: "map_of (fold (\<lambda>(p, v). AList.update p v) xs al) = map_of al ++ map_of (rev xs)"
  by (induction xs arbitrary: al) (auto simp: update_conv' fun_eq_iff map_add_def split: option.splits)

lemma map_of_copy: "distinct (map fst xs) \<Longrightarrow> map_of (fold (\<lambda>(p, v). AList.update p v) xs []) = map_of xs"
  by (simp add: map_of_updates map_of_inject_set rev_map [symmetric])

lemma map_of_index: "map_of (fold (\<lambda>n. AList.update n (f n)) ns al) n = (if n \<in> set ns then Some (f n) else map_of al n)"
  by (induction ns arbitrary: al) (auto simp: update_conv')

lemma unat_u64_less: "unat (x :: u64) < 2 ^ 64"
  using unsigned_less [of x] by simp

lemma unat_of_nat_u64: "k < 2 ^ 64 \<Longrightarrow> unat (of_nat k :: u64) = k"
  by (simp add: unsigned_of_nat take_bit_nat_eq_self)

lemma set_ids: "set (ids n) = {i. i < n}"
proof (rule set_eqI)
  fix i :: u64
  show "i \<in> set (ids n) \<longleftrightarrow> i \<in> {i. i < n}"
  proof
    assume "i \<in> {i. i < n}"
    then have "of_nat (unat i) = i" "unat i < unat n" by (simp_all add: word_less_nat_alt)
    then show "i \<in> set (ids n)" unfolding ids_def by (metis atLeastLessThan_iff image_eqI list.set_map set_upt zero_le)
  next
    assume "i \<in> set (ids n)"
    then obtain k where k: "k < unat n" "i = of_nat k" by (auto simp: ids_def)
    moreover have "unat (of_nat k :: u64) = k" by (rule unat_of_nat_u64) (use k(1) unat_u64_less [of n] in simp)
    ultimately show "i \<in> {i. i < n}" by (simp add: word_less_nat_alt)
  qed
qed

lemma length_ids [simp]: "length (ids n) = unat n" by (simp add: ids_def)

lemma nth_ids: "i < unat n \<Longrightarrow> ids n ! i = of_nat i" by (simp add: ids_def)

lemma distinct_ids: "distinct (ids n)"
proof -
  have "inj_on (of_nat :: nat \<Rightarrow> u64) {0..<unat n}"
    by (rule inj_onI) (metis atLeastLessThan_iff order.strict_trans unat_of_nat_u64 unat_u64_less)
  then show ?thesis by (simp add: ids_def distinct_map)
qed

end
