(* ===== verification/CL_Correct.thy ===== *)
theory CL_Correct
  imports CL_Cluster
begin

text \<open>
  The mapping of keys to servers is consistent: every node that \<open>FindNodes\<close> gives for a
  partition is a node that serves that partition, at the place of the port that \<open>Locate\<close>
  picks. One scheme at a time, then together.
\<close>

section \<open>Links between partitions and nodes\<close>

definition part_nodes :: "Config \<Rightarrow> PartitionID \<Rightarrow> NodeID list" where
  "part_nodes c pid = map snd (filter (\<lambda>x. fst x = pid) (partition_links c))"

definition node_parts :: "Config \<Rightarrow> NodeID \<Rightarrow> PartitionID list" where
  "node_parts c nid = map snd (filter (\<lambda>x. fst x = nid) (node_links c))"

lemma filter_links:
  assumes "distinct ps" "k \<in> set ps"
  shows "map snd (filter (\<lambda>x. fst x = k) (concat (map (\<lambda>p. map (\<lambda>r. (p, g p r)) rs) ps))) = map (g k) rs"
  using assms
proof (induction ps)
  case (Cons p ps)
  have none: "filter (\<lambda>x. fst x = k) (concat (map (\<lambda>p. map (\<lambda>r. (p, g p r)) rs) ps)) = []" if "k \<notin> set ps"
    using that by (auto simp: filter_empty_conv)
  from Cons show ?case by (cases "p = k") (auto simp: none comp_def)
qed simp

lemma filter_unique: "distinct xs \<Longrightarrow> x \<in> set xs \<Longrightarrow> (\<And>y. y \<in> set xs \<Longrightarrow> P y \<longleftrightarrow> y = x) \<Longrightarrow> filter P xs = [x]"
proof (induction xs)
  case (Cons y ys)
  show ?case
  proof (cases "y = x")
    case True
    with Cons.prems have "\<And>z. z \<in> set ys \<Longrightarrow> \<not> P z" by auto
    with True Cons.prems show ?thesis by (simp add: filter_empty_conv)
  next
    case False
    with Cons show ?thesis by simp
  qed
qed simp

text \<open>Numbers in base \<open>rf\<close>: a node of the master-slave scheme determines partition and replica.\<close>

lemma master_slave_node:
  fixes pid r rf pc nc :: u64
  assumes "pid < pc" "r < rf" "rf = nc div pc"
  shows "unat (pid * rf + r) = unat pid * unat rf + unat r" "pid * rf + r < nc"
proof -
  have le: "unat pc * unat rf \<le> unat nc" using assms(3) by (simp add: unat_div)
  have p: "Suc (unat pid) \<le> unat pc" "unat r < unat rf" using assms by (simp_all add: word_less_nat_alt)
  have "unat pid * unat rf + unat r < Suc (unat pid) * unat rf" using p(2) by simp
  also have "\<dots> \<le> unat pc * unat rf" using p(1) by (rule mult_le_mono1)
  finally have less: "unat pid * unat rf + unat r < unat nc" using le by simp
  then show eq: "unat (pid * rf + r) = unat pid * unat rf + unat r"
    using unat_u64_less [of nc] by (simp add: unat_word_ariths)
  from less eq show "pid * rf + r < nc" by (simp add: word_less_nat_alt)
qed

lemma master_slave_inj:
  fixes pid pid' r r' rf pc nc :: u64
  assumes "pid < pc" "r < rf" "pid' < pc" "r' < rf" "rf = nc div pc" "pid * rf + r = pid' * rf + r'"
  shows "pid = pid' \<and> r = r'"
proof -
  have eq: "unat pid * unat rf + unat r = unat pid' * unat rf + unat r'"
    using master_slave_node(1) [OF assms(1,2,5)] master_slave_node(1) [OF assms(3,4,5)] assms(6) by simp
  have "unat r < unat rf" "unat r' < unat rf" using assms by (simp_all add: word_less_nat_alt)
  then have "unat pid = (unat pid * unat rf + unat r) div unat rf"
    "unat pid' = (unat pid' * unat rf + unat r') div unat rf" by simp_all
  with eq have "unat pid = unat pid'" by simp
  with eq show ?thesis by (auto intro: unsigned_word_eqI)
qed

text \<open>The ring of the Dynamo scheme, when there are as many partitions as nodes.\<close>

lemma dynamo_ring:
  fixes pid r n :: u64
  assumes "pid < n" "r < n" "unat n < 2 ^ 63"
  shows "((pid + r) mod n - r + n) mod n = pid"
proof -
  let ?a = "(pid + r) mod n"
  have p: "unat pid < unat n" "unat r < unat n" "0 < unat n" using assms by (auto simp: word_less_nat_alt)
  have s: "unat (pid + r) = unat pid + unat r" using p assms(3) by (simp add: unat_word_ariths)
  have a: "unat ?a = (unat pid + unat r) mod unat n" by (simp add: unat_mod s)
  have nr: "unat (n - r) = unat n - unat r" using assms(2) by (simp add: unat_sub)
  have "unat ?a < unat n" using a p by simp
  then have "unat (?a + (n - r)) = unat ?a + (unat n - unat r)"
    using nr assms(3) by (simp add: unat_word_ariths)
  moreover have "?a - r + n = ?a + (n - r)" by simp
  ultimately have "unat ((?a - r + n) mod n) = ((unat pid + unat r) mod unat n + (unat n - unat r)) mod unat n"
    by (simp only: unat_mod a s)
  also have "\<dots> = (unat pid + unat r + (unat n - unat r)) mod unat n" by (simp only: mod_add_left_eq)
  also have "\<dots> = unat pid" using p by simp
  finally show ?thesis by (rule unsigned_word_eqI)
qed

section \<open>One scheme at a time\<close>

text \<open>
  What a deployment needs beyond \<open>IsValid\<close>: the identifiers are 0, 1, \dots, there is at least
  one replica, and what the schemes silently assume: as many partitions as nodes for Dynamo
  (an assertion that is commented out), a single partition for MODC, a node and a server for
  every partition without replication.
\<close>

definition deployed :: "Config \<Rightarrow> bool" where
  "deployed c \<longleftrightarrow>
     Config_IsValid c \<and> factor_ok c \<and> config_maps c \<and> unat (node_cnt c) < 2 ^ 63 \<and> 0 < replication_factor c \<and>
     (\<forall>p < partition_cnt c. p \<in> fst ` set (partitions c)) \<and> (\<forall>s < server_cnt c. s \<in> fst ` set (servers c)) \<and>
     (case replication_scheme c of
        NO_REPLICATION \<Rightarrow> partition_cnt c \<le> node_cnt c \<and> partition_cnt c \<le> server_cnt c
      | DYNAMO \<Rightarrow> partition_cnt c = node_cnt c
      | MODC \<Rightarrow> partition_cnt c = 1
      | _ \<Rightarrow> True)"

text \<open>The node at place \<open>i\<close> for a partition, and the place \<open>j\<close> of the partition on that node.\<close>

definition linked_at :: "Config \<Rightarrow> PartitionID \<Rightarrow> nat \<Rightarrow> bool" where
  "linked_at c pid i \<longleftrightarrow>
     (let nid = part_nodes c pid ! i; j = (if 1 < length (node_ports c nid) then i else 0)
      in nid < node_cnt c \<and> j < length (node_ports c nid) \<and> j < length (node_parts c nid) \<and>
         node_parts c nid ! j = pid)"

lemma part_nodes_eq:
  assumes "pid < partition_cnt c"
  shows "replication_scheme c = MASTER_SLAVE \<Longrightarrow>
      part_nodes c pid = map (\<lambda>r. pid * replication_factor c + r) (ids (replication_factor c))"
    and "replication_scheme c = DYNAMO \<Longrightarrow>
      part_nodes c pid = map (\<lambda>r. (pid + r) mod node_cnt c) (ids (replication_factor c))"
    and "replication_scheme c = MODC \<Longrightarrow> pid = 0 \<Longrightarrow>
      part_nodes c pid = map (\<lambda>r. r mod node_cnt c) (ids (replication_factor c))"
  unfolding part_nodes_def partition_links_def using assms
  by (simp_all add: filter_links [OF distinct_ids, of pid] set_ids Let_def comp_def)

lemma part_nodes_length:
  assumes "deployed c" "replication_scheme c \<noteq> NO_REPLICATION" "pid < partition_cnt c"
  shows "length (part_nodes c pid) = unat (replication_factor c)"
proof (cases "replication_scheme c")
  case MODC
  with assms(1,3) have "pid = 0" by (auto simp: deployed_def)
  with MODC part_nodes_eq(3) [OF assms(3)] show ?thesis by simp
qed (use assms part_nodes_eq(1,2) [OF assms(3)] in \<open>auto simp: deployed_def Config_IsValid_def\<close>)

lemma master_slave_linked:
  assumes "deployed c" "replication_scheme c = MASTER_SLAVE" "pid < partition_cnt c" "i < length (part_nodes c pid)"
  shows "linked_at c pid i"
proof -
  let ?rf = "replication_factor c" and ?pc = "partition_cnt c"
  have "c\<lparr>replication_factor := node_cnt c div ?pc\<rparr> = c"
    using assms(1,2) by (auto simp: deployed_def factor_ok_def SetReplicationFactor_def split: if_splits)
  from arg_cong [OF this, of replication_factor] have rf: "?rf = node_cnt c div ?pc" by simp
  note ns = part_nodes_eq(1) [OF assms(3,2)]
  have i: "(of_nat i :: u64) < ?rf" "part_nodes c pid ! i = pid * ?rf + of_nat i"
    using assms(4) ns set_ids [of ?rf] nth_mem [of i "ids ?rf"] by (simp_all add: nth_ids)
  let ?n = "pid * ?rf + of_nat i"
  have "node_links c = map (\<lambda>(p, r). (p * ?rf + r, p)) (List.product (ids ?pc) (ids ?rf))"
    using assms(2) by (simp add: node_links_def product_concat_map map_concat comp_def Let_def)
  then have "node_parts c ?n = map fst (filter (\<lambda>(p, r). p * ?rf + r = ?n) (List.product (ids ?pc) (ids ?rf)))"
    by (simp add: node_parts_def filter_map comp_def split_def)
  also have "filter (\<lambda>(p, r). p * ?rf + r = ?n) (List.product (ids ?pc) (ids ?rf)) = [(pid, of_nat i)]"
    by (rule filter_unique)
      (use master_slave_inj [OF _ _ assms(3) i(1) rf] assms(3) i(1) in \<open>auto simp: distinct_product distinct_ids set_ids\<close>)
  finally have "node_parts c ?n = [pid]" by simp
  moreover have "node_ports c ?n = [starting_port c + ?n]" using assms(2) by (simp add: node_ports_def)
  ultimately show "linked_at c pid i"
    using master_slave_node(2) [OF assms(3) i(1) rf] i(2) by (simp add: linked_at_def)
qed

lemma dynamo_linked:
  assumes "deployed c" "replication_scheme c = DYNAMO" "pid < partition_cnt c" "i < length (part_nodes c pid)"
  shows "linked_at c pid i"
proof -
  let ?rf = "replication_factor c" and ?n = "node_cnt c"
  have pc: "partition_cnt c = ?n" and rf: "?rf \<le> ?n" and small: "unat ?n < 2 ^ 63"
    using assms(1,2) by (auto simp: deployed_def factor_ok_def SetReplicationFactor_def split: if_splits)
  note ns = part_nodes_eq(2) [OF assms(3,2)]
  have i: "(of_nat i :: u64) < ?rf" "part_nodes c pid ! i = (pid + of_nat i) mod ?n" "i < unat ?rf"
    using assms(4) ns set_ids [of ?rf] nth_mem [of i "ids ?rf"] by (simp_all add: nth_ids)
  let ?nid = "(pid + of_nat i) mod ?n"
  have less: "?nid < ?n" using assms(3) pc by (metis word_mod_less_divisor order_le_less_trans word_zero_le)
  then have ps: "node_parts c ?nid = map (\<lambda>r. (?nid - r + ?n) mod ?n) (ids ?rf)"
    unfolding node_parts_def node_links_def using assms(2) pc
    by (simp add: filter_links [OF distinct_ids, of ?nid] set_ids Let_def)
  have ports: "length (node_ports c ?nid) = unat ?rf" using assms(2) by (simp add: node_ports_def)
  have j: "(if 1 < unat ?rf then i else 0) = i" using i(3) by auto
  have "((pid + of_nat i) mod ?n - of_nat i + ?n) mod ?n = pid"
    by (rule dynamo_ring) (use assms(3) pc i(1) rf small in auto)
  with i less ps ports j show "linked_at c pid i" by (simp add: linked_at_def nth_ids)
qed

lemma modc_linked:
  assumes "deployed c" "replication_scheme c = MODC" "pid < partition_cnt c" "i < length (part_nodes c pid)"
  shows "linked_at c pid i"
proof -
  let ?rf = "replication_factor c" and ?n = "node_cnt c"
  have pid: "pid = 0" and n: "0 < ?n"
    using assms(1-3) by (auto simp: deployed_def Config_IsValid_def)
  note ns = part_nodes_eq(3) [OF assms(3,2) pid]
  let ?nid = "part_nodes c pid ! i"
  have less: "?nid < ?n" using assms(4) ns n by (simp add: word_mod_less_divisor)
  have "node_links c = concat (map (\<lambda>nid. map (\<lambda>r. (nid, r)) [0]) (ids ?n))"
    using assms(2) by (simp add: node_links_def)
  then have "node_parts c ?nid = [0]"
    using filter_links [OF distinct_ids, of ?nid ?n "\<lambda>_ r. r" "[0]"] less by (simp add: node_parts_def set_ids)
  with less pid assms(2) show "linked_at c pid i" by (simp add: linked_at_def node_ports_def)
qed

section \<open>Locate\<close>

lemma FindNodes_Init:
  assumes "replication_scheme c \<noteq> NO_REPLICATION"
  shows "FindNodes pid (PartitionManager_Init c) = part_nodes c pid"
  using assms by (auto simp: FindNodes_def PartitionManager_Init_def part_nodes_def map_of_pushes Let_def)

lemma partition_refs_known:
  "(\<And>p. p \<in> set ps \<Longrightarrow> map_of (pa_partition pm) p \<noteq> None) \<Longrightarrow>
   partition_refs ps pm = (map (\<lambda>p. the (map_of (pa_partition pm) p)) ps, pm)"
proof (induction ps)
  case (Cons p ps)
  from Cons.prems [of p] obtain kvs where "map_of (pa_partition pm) p = Some kvs" by auto
  with Cons show ?case by (simp add: partition_ref_def)
qed simp

lemma map_of_dom: "k \<in> fst ` set xs \<Longrightarrow> \<exists>v. map_of xs k = Some v"
  by (metis map_of_eq_None_iff not_Some_eq)

lemma node_parts_small:
  assumes "deployed c" "p \<in> set (node_parts c nid)"
  shows "p < partition_cnt c"
proof -
  have "0 < partition_cnt c" using assms(1) by (simp add: deployed_def Config_IsValid_def)
  with assms(2) show ?thesis
    by (auto simp: node_parts_def node_links_def Let_def set_ids word_mod_less_divisor split: ReplicationScheme.splits)
qed

text \<open>\<open>FindPartitions\<close> and \<open>FindPorts\<close> of a node.\<close>

lemma node_view:
  assumes "deployed c" "Cluster_Init c = Inr cl" "nid < node_cnt c"
  shows "FindPorts nid cl = node_ports c nid"
    and "replication_scheme c \<noteq> NO_REPLICATION \<Longrightarrow>
      FindPartitions nid cl = (map (\<lambda>p. the (map_of (partitions c) p)) (node_parts c nid), cl)"
    and "replication_scheme c = NO_REPLICATION \<Longrightarrow> nid < partition_cnt c \<Longrightarrow>
      FindPartitions nid cl = ([the (map_of (partitions c) nid)], cl)"
proof -
  have v: "Config_IsValid c" "distinct (map fst (partitions c))" "\<forall>p < partition_cnt c. p \<in> fst ` set (partitions c)"
    using assms(1) by (simp_all add: deployed_def config_maps_def)
  have cl: "cl_pmgr cl = PartitionManager_Init c" "cl_nmgr cl = NodeManager_Init c"
    using assms(2) v(1) by (auto simp: Cluster_Init_def range_per_partition_def Config_IsValid_def split: if_splits)
  show "FindPorts nid cl = node_ports c nid"
    using v(1) assms(3)
    by (simp add: FindPorts_def GetNode_def cl NodeManager_Init_def Let_def map_of_index set_ids Config_IsValid_def)
  have pm: "map_of (pa_partition (PartitionManager_Init c)) = map_of (partitions c)"
    by (simp add: PartitionManager_Init_def map_of_copy [OF v(2)])
  have known: "map_of (partitions c) p \<noteq> None" if "p < partition_cnt c" for p
    using map_of_dom [of p "partitions c"] v(3) that by auto
  have unchanged: "cl\<lparr>cl_pmgr := PartitionManager_Init c\<rparr> = cl" using cl(1) by simp
  show "FindPartitions nid cl = ([the (map_of (partitions c) nid)], cl)"
    if "replication_scheme c = NO_REPLICATION" "nid < partition_cnt c"
    using known [OF that(2)] that(1) partition_refs_known [of "[nid]" "PartitionManager_Init c"] pm unchanged
    by (simp add: FindPartitions_def FindPartitionsByNode_def cl(1)) (simp add: PartitionManager_Init_def)
  show "FindPartitions nid cl = (map (\<lambda>p. the (map_of (partitions c) p)) (node_parts c nid), cl)"
    if "replication_scheme c \<noteq> NO_REPLICATION"
  proof -
    have sc: "pa_scheme (PartitionManager_Init c) \<noteq> NO_REPLICATION" using that by (simp add: PartitionManager_Init_def)
    have np: "map_of (pa_node2partition (PartitionManager_Init c)) nid =
        (if node_parts c nid = [] then None else Some (node_parts c nid))"
      by (simp add: PartitionManager_Init_def map_of_pushes node_parts_def Let_def)
    have "partition_refs (node_parts c nid) (PartitionManager_Init c) =
        (map (\<lambda>p. the (map_of (partitions c) p)) (node_parts c nid), PartitionManager_Init c)"
      using partition_refs_known [of "node_parts c nid" "PartitionManager_Init c"] node_parts_small [OF assms(1)] known pm
      by simp
    with sc np unchanged show ?thesis by (simp add: FindPartitions_def FindPartitionsByNode_def cl(1))
  qed
qed

lemma FindServer_Init:
  assumes "deployed c" "nid < node_cnt c" "replication_scheme c \<noteq> NO_REPLICATION"
  shows "FindServer nid (NodeManager_Init c) = nid mod server_cnt c"
  using assms by (simp add: FindServer_def NodeManager_Init_def Let_def map_of_index set_ids)

lemma Locate_serves:
  assumes dep: "deployed c" and init: "Cluster_Init c = Inr cl"
    and pid: "FindPartition hash (cl_range cl) name = pid" "pid < partition_cnt c"
  shows "\<exists>loc nid j sid. Locate hash rnd name random cl = Inr loc \<and> nid < node_cnt c \<and>
    j < length (FindPorts nid cl) \<and> loc_port loc = FindPorts nid cl ! j \<and>
    j < length (fst (FindPartitions nid cl)) \<and>
    fst (FindPartitions nid cl) ! j = the (map_of (partitions c) pid) \<and>
    sid < server_cnt c \<and> map_of (servers c) sid = Some (loc_ip loc)"
proof -
  have v: "Config_IsValid c" "distinct (map fst (servers c))" "\<forall>s < server_cnt c. s \<in> fst ` set (servers c)"
    and rs: "replication_scheme c \<noteq> RS_INVALID" and sc0: "0 < server_cnt c"
    using dep by (simp_all add: deployed_def config_maps_def Config_IsValid_def)
  have cl: "cl_pmgr cl = PartitionManager_Init c" "cl_nmgr cl = NodeManager_Init c" "cl_smgr cl = ServerManager_Init c"
    using init v(1) by (auto simp: Cluster_Init_def range_per_partition_def split: if_splits)
  have ip: "\<exists>ip. map_of (servers c) sid = Some ip \<and> GetServer sid (ServerManager_Init c) = ip"
    if "sid < server_cnt c" for sid
    using map_of_dom [of sid "servers c"] v(3) that
    by (auto simp: GetServer_def ServerManager_Init_def map_of_copy [OF v(2)])
  show ?thesis
  proof (cases "replication_scheme c = NO_REPLICATION")
    case True
    have le: "pid < node_cnt c" "pid < server_cnt c" using dep True pid(2) by (auto simp: deployed_def)
    note nv = node_view(1,3) [OF dep init le(1)]
    have ports: "GetNode pid (NodeManager_Init c) = [starting_port c + pid]"
      using nv(1) True cl(2) by (simp add: FindPorts_def node_ports_def)
    have fs: "FindServer pid (NodeManager_Init c) = pid" using True by (simp add: FindServer_def NodeManager_Init_def Let_def)
    have "FindNodes pid (cl_pmgr cl) = [pid]" using True by (simp add: FindNodes_def cl(1) PartitionManager_Init_def)
    then have "Locate hash rnd name random cl =
        Inr \<lparr>loc_ip = GetServer pid (ServerManager_Init c), loc_port = starting_port c + pid\<rparr>"
      by (simp add: Locate_def Let_def pid(1) cl ports fs)
    with ip [OF le(2)] le nv(2) [OF True pid(2)] ports cl(2) show ?thesis
      by (intro exI [of _ _] exI [of _ pid] exI [of _ 0] exI [of _ pid]) (auto simp: FindPorts_def)
  next
    case False
    let ?ns = "part_nodes c pid"
    define i where "i = (if random then rnd mod length ?ns else 0)"
    define j where "j = (if 1 < length (node_ports c (?ns ! i)) then i else 0)"
    have "0 < replication_factor c" using dep by (simp add: deployed_def)
    with part_nodes_length [OF dep False pid(2)] have i: "i < length ?ns" "?ns \<noteq> []"
      by (auto simp: i_def word_less_nat_alt)
    have "linked_at c pid i"
      using False rs master_slave_linked [OF dep _ pid(2) i(1)] dynamo_linked [OF dep _ pid(2) i(1)]
        modc_linked [OF dep _ pid(2) i(1)] by (cases "replication_scheme c") auto
    then have l: "?ns ! i < node_cnt c" "j < length (node_ports c (?ns ! i))" "j < length (node_parts c (?ns ! i))"
      "node_parts c (?ns ! i) ! j = pid" by (simp_all add: linked_at_def Let_def j_def)
    note nv = node_view(1,2) [OF dep init l(1)]
    let ?sid = "?ns ! i mod server_cnt c"
    have sid: "?sid < server_cnt c" using sc0 by (simp add: word_mod_less_divisor)
    have ports: "GetNode (?ns ! i) (NodeManager_Init c) = node_ports c (?ns ! i)"
      using nv(1) cl(2) by (simp add: FindPorts_def)
    have "Locate hash rnd name random cl =
        Inr \<lparr>loc_ip = GetServer ?sid (ServerManager_Init c), loc_port = node_ports c (?ns ! i) ! j\<rparr>"
      unfolding Locate_def Let_def pid(1) cl FindNodes_Init [OF False] i_def [symmetric] ports j_def [symmetric]
        FindServer_Init [OF dep l(1) False] using i(2) l(2) by simp
    with ip [OF sid] sid l nv(1) nv(2) [OF False] show ?thesis
      by (intro exI [of _ _] exI [of _ "?ns ! i"] exI [of _ j] exI [of _ ?sid]) auto
  qed
qed

end
