(* ===== verification/CL_Client.thy ===== *)
theory CL_Client
  imports CL_Correct
begin

text \<open>
  The client of a cluster of cache servers, \<open>class KVSServer\<close> of
  \<open>src/src/kvs_client/kvs_client.cc\<close>: every call picks a replica of the key's partition at
  random, connects to it once and keeps the connection. libmemcached and \<open>std::rand\<close> are
  parameters that act on an opaque world; dereferencing a null pointer is the fault
  \<open>AssertFail\<close>.
\<close>

section \<open>State\<close>

record 'w memc =
  mc_connect :: "string \<Rightarrow> 'w \<Rightarrow> nat option \<times> 'w"
  mc_set :: "nat \<Rightarrow> string \<Rightarrow> string \<Rightarrow> 'w \<Rightarrow> bool \<times> 'w"
  mc_get :: "nat \<Rightarrow> string \<Rightarrow> 'w \<Rightarrow> (string option \<times> nat) \<times> 'w"
  mc_delete :: "nat \<Rightarrow> string \<Rightarrow> 'w \<Rightarrow> bool \<times> 'w"
  mc_flush :: "nat \<Rightarrow> 'w \<Rightarrow> bool \<times> 'w"
  mc_free :: "nat option \<Rightarrow> 'w \<Rightarrow> 'w"
  mc_rand :: "'w \<Rightarrow> nat \<times> 'w"

text \<open>\<open>servers_\<close> maps a location to its connection, or to null after a failure.\<close>

record 'w KVSServer =
  ks_config :: Config
  ks_cluster :: "Cluster option"
  ks_servers :: "(Location \<times> nat option) list"
  ks_world :: 'w

definition KVSServer_Init :: "yaml_file option \<Rightarrow> 'w KVSServer \<Rightarrow> (fault + int) \<times> 'w KVSServer" where
  "KVSServer_Init file s =
     (case LoadConfigFile file (ks_config s) of
        Inl f \<Rightarrow> (Inl f, s)
      | Inr (ret, c) \<Rightarrow>
          (let s1 = s\<lparr>ks_config := c\<rparr>
           in if ret \<noteq> 0 then (Inr ret, s1)
              else if \<not> Config_IsValid c then (Inl AssertFail, s1)
              else case Cluster_Init c of
                Inl f \<Rightarrow> (Inl f, s1)
              | Inr cl \<Rightarrow> (Inr ret, s1\<lparr>ks_cluster := Some cl\<rparr>)))"

text \<open>\<open>Final\<close> frees the connections and leaves them in the map.\<close>

definition KVSServer_Final :: "'w memc \<Rightarrow> 'w KVSServer \<Rightarrow> 'w KVSServer" where
  "KVSServer_Final mc s =
     s\<lparr>ks_cluster := Cluster_Final (ks_cluster s),
       ks_world := fold (mc_free mc) (map snd (ks_servers s)) (ks_world s)\<rparr>"

section \<open>Connections\<close>

definition server_init :: "'w memc \<Rightarrow> Location \<Rightarrow> 'w KVSServer \<Rightarrow> (fault + int) \<times> 'w KVSServer" where
  "server_init mc loc s =
     (let dest = ''--SERVER='' @ loc_ip loc @ '':'' @ to_string (unat (loc_port loc));
          (server, w) = mc_connect mc dest (ks_world s);
          s1 = s\<lparr>ks_world := w\<rparr>
      in if map_of (ks_servers s) loc \<noteq> None then (Inl AssertFail, s1)
         else (Inr (if server = None then - 1 else 0), s1\<lparr>ks_servers := AList.update loc server (ks_servers s)\<rparr>))"

definition pick_a_server ::
  "(string \<Rightarrow> u64) \<Rightarrow> 'w memc \<Rightarrow> string \<Rightarrow> 'w KVSServer \<Rightarrow> (fault + Location) \<times> 'w KVSServer" where
  "pick_a_server hash mc key s =
     (case ks_cluster s of
        None \<Rightarrow> (Inl AssertFail, s)
      | Some cl \<Rightarrow>
          (let (rnd, w) = mc_rand mc (ks_world s) in (Locate hash rnd key True cl, s\<lparr>ks_world := w\<rparr>)))"

text \<open>
  At most 100 picks of locations without a connection. \<open>None\<close> is the null pointer; otherwise
  the location whose slot is returned.
\<close>

function get_server_loop ::
  "(string \<Rightarrow> u64) \<Rightarrow> 'w memc \<Rightarrow> string \<Rightarrow> nat \<Rightarrow> 'w KVSServer \<Rightarrow> (fault + Location option) \<times> 'w KVSServer" where
  "get_server_loop hash mc key cnt s =
     (case pick_a_server hash mc key s of
        (Inl f, s1) \<Rightarrow> (Inl f, s1)
      | (Inr loc, s1) \<Rightarrow>
          (case (if map_of (ks_servers s1) loc \<noteq> None then (Inr 0, s1) else server_init mc loc s1) of
             (Inl f, s2) \<Rightarrow> (Inl f, s2)
           | (Inr ret, s2) \<Rightarrow>
               if ret \<noteq> 0 then (Inr None, s2)
               else if map_of (ks_servers s2) loc = Some None
               then (if 100 \<le> cnt + 1 then (Inr None, s2) else get_server_loop hash mc key (cnt + 1) s2)
               else (Inr (Some loc), s2)))"
  by pat_completeness auto
termination by (relation "measure (\<lambda>(_, _, _, cnt, _). 100 - cnt)") auto

declare get_server_loop.simps [simp del]

definition get_server ::
  "(string \<Rightarrow> u64) \<Rightarrow> 'w memc \<Rightarrow> string \<Rightarrow> 'w KVSServer \<Rightarrow> (fault + Location option) \<times> 'w KVSServer" where
  "get_server hash mc key s = get_server_loop hash mc key 0 s"

section \<open>Calls\<close>

text \<open>
  One trip through the retry loops: a request to the server of the key; when it fails the slot
  is set to null. The result is the reply, \<open>None\<close> for a failed request.
\<close>

definition attempt ::
  "(string \<Rightarrow> u64) \<Rightarrow> 'w memc \<Rightarrow> string \<Rightarrow> (nat \<Rightarrow> 'w \<Rightarrow> 'a option \<times> 'w) \<Rightarrow> 'w KVSServer \<Rightarrow>
   (fault + 'a option) \<times> 'w KVSServer" where
  "attempt hash mc key req s =
     (case get_server hash mc key s of
        (Inl f, s1) \<Rightarrow> (Inl f, s1)
      | (Inr None, s1) \<Rightarrow> (Inl AssertFail, s1)
      | (Inr (Some loc), s1) \<Rightarrow>
          (case map_of (ks_servers s1) loc of
             Some (Some h) \<Rightarrow>
               (let (reply, w) = req h (ks_world s1); s2 = s1\<lparr>ks_world := w\<rparr>
                in (Inr reply,
                    if reply = None then s2\<lparr>ks_servers := AList.update loc None (ks_servers s2)\<rparr> else s2))
           | _ \<Rightarrow> (Inl AssertFail, s1)))"

definition twice ::
  "('s \<Rightarrow> (fault + 'a option) \<times> 's) \<Rightarrow> 's \<Rightarrow> (fault + 'a option) \<times> 's" where
  "twice f s =
     (case f s of
        (Inr None, s1) \<Rightarrow> f s1
      | other \<Rightarrow> other)"

definition done_of :: "bool \<times> 'w \<Rightarrow> unit option \<times> 'w" where
  "done_of = (\<lambda>(ok, w). (if ok then Some () else None, w))"

definition code_of :: "fault + unit option \<Rightarrow> fault + int" where
  "code_of = map_sum id (\<lambda>x. if x = None then - 1 else 0)"

definition KVSServer_Put ::
  "(string \<Rightarrow> u64) \<Rightarrow> 'w memc \<Rightarrow> string \<Rightarrow> string \<Rightarrow> 'w KVSServer \<Rightarrow> (fault + int) \<times> 'w KVSServer" where
  "KVSServer_Put hash mc key val s =
     apfst code_of (twice (attempt hash mc key (\<lambda>h w. done_of (mc_set mc h key val w))) s)"

definition KVSServer_Del ::
  "(string \<Rightarrow> u64) \<Rightarrow> 'w memc \<Rightarrow> string \<Rightarrow> 'w KVSServer \<Rightarrow> (fault + int) \<times> 'w KVSServer" where
  "KVSServer_Del hash mc key s =
     apfst code_of (twice (attempt hash mc key (\<lambda>h w. done_of (mc_delete mc h key w))) s)"

text \<open>
  \<open>Get\<close> copies also after the first failure, from the null pointer: nothing happens when the
  library set the length to 0, otherwise it is a fault. A value longer than the caller's buffer
  runs over it. The reply of a request is the value, with its length in case of failure.
\<close>

definition get_once ::
  "(string \<Rightarrow> u64) \<Rightarrow> 'w memc \<Rightarrow> string \<Rightarrow> 'w KVSServer \<Rightarrow> (fault + string option \<times> nat) \<times> 'w KVSServer" where
  "get_once hash mc key s =
     (case get_server hash mc key s of
        (Inl f, s1) \<Rightarrow> (Inl f, s1)
      | (Inr None, s1) \<Rightarrow> (Inl AssertFail, s1)
      | (Inr (Some loc), s1) \<Rightarrow>
          (case map_of (ks_servers s1) loc of
             Some (Some h) \<Rightarrow>
               (let ((res, len), w) = mc_get mc h key (ks_world s1); s2 = s1\<lparr>ks_world := w\<rparr>
                in (Inr (res, len),
                    if res = None then s2\<lparr>ks_servers := AList.update loc None (ks_servers s2)\<rparr> else s2))
           | _ \<Rightarrow> (Inl AssertFail, s1)))"

definition copy_value :: "string \<Rightarrow> string \<Rightarrow> fault + int \<times> string \<times> nat" where
  "copy_value buf res =
     (if length buf < length res then Inl OutOfBounds
      else Inr (0, res @ drop (length res) buf, length res))"

definition KVSServer_Get ::
  "(string \<Rightarrow> u64) \<Rightarrow> 'w memc \<Rightarrow> string \<Rightarrow> string \<Rightarrow> 'w KVSServer \<Rightarrow> (fault + int \<times> string \<times> nat) \<times> 'w KVSServer" where
  "KVSServer_Get hash mc key buf s =
     (case get_once hash mc key s of
        (Inl f, s1) \<Rightarrow> (Inl f, s1)
      | (Inr (Some res, _), s1) \<Rightarrow> (copy_value buf res, s1)
      | (Inr (None, len), s1) \<Rightarrow>
          if len \<noteq> 0 then (Inl AssertFail, s1)
          else (case get_once hash mc key s1 of
                  (Inl f, s2) \<Rightarrow> (Inl f, s2)
                | (Inr (Some res, _), s2) \<Rightarrow> (copy_value buf res, s2)
                | (Inr (None, len'), s2) \<Rightarrow> (Inr (- 1, buf, len'), s2)))"

text \<open>\<open>WipeServers\<close> asserts that every server accepts the flush; a null connection is a fault.\<close>

fun wipe :: "'w memc \<Rightarrow> nat option list \<Rightarrow> 'w \<Rightarrow> (fault + unit) \<times> 'w" where
  "wipe mc [] w = (Inr (), w)"
| "wipe mc (None # hs) w = (Inl AssertFail, w)"
| "wipe mc (Some h # hs) w = (let (ok, w1) = mc_flush mc h w in if ok then wipe mc hs w1 else (Inl AssertFail, w1))"

definition KVSServer_WipeServers :: "'w memc \<Rightarrow> 'w KVSServer \<Rightarrow> (fault + unit) \<times> 'w KVSServer" where
  "KVSServer_WipeServers mc s =
     (let (r, w) = wipe mc (map snd (ks_servers s)) (ks_world s) in (r, s\<lparr>ks_world := w\<rparr>))"

section \<open>What the calls do\<close>

text \<open>A location of the key.\<close>

definition location_of :: "(string \<Rightarrow> u64) \<Rightarrow> string \<Rightarrow> Cluster \<Rightarrow> Location \<Rightarrow> bool" where
  "location_of hash key cl loc \<longleftrightarrow> (\<exists>rnd. Locate hash rnd key True cl = Inr loc)"

text \<open>Connections are only added; a null connection stays null.\<close>

definition servers_grow :: "'w KVSServer \<Rightarrow> 'w KVSServer \<Rightarrow> bool" where
  "servers_grow s s' \<longleftrightarrow>
     ks_cluster s' = ks_cluster s \<and> map_of (ks_servers s) \<subseteq>\<^sub>m map_of (ks_servers s')"

lemma servers_grow_refl: "servers_grow s s"
  and servers_grow_trans: "servers_grow s s1 \<Longrightarrow> servers_grow s1 s2 \<Longrightarrow> servers_grow s s2"
  by (auto simp: servers_grow_def intro: map_le_trans)

lemma get_server_loop_ok:
  assumes "get_server_loop hash mc key cnt s = (r, s')" "ks_cluster s = Some cl"
  shows "servers_grow s s' \<and>
    (\<forall>loc. r = Inr (Some loc) \<longrightarrow>
       location_of hash key cl loc \<and> (\<exists>h. map_of (ks_servers s') loc = Some (Some h)))"
  using assms
proof (induction hash mc key cnt s arbitrary: r s' rule: get_server_loop.induct)
  case (1 hash mc key cnt s)
  obtain rnd w where w: "mc_rand mc (ks_world s) = (rnd, w)" by fastforce
  let ?s1 = "s\<lparr>ks_world := w\<rparr>"
  have pick: "pick_a_server hash mc key s = (Locate hash rnd key True cl, ?s1)"
    using w 1(3) by (simp add: pick_a_server_def)
  have g1: "servers_grow s ?s1" by (simp add: servers_grow_def)
  show ?case
  proof (cases "Locate hash rnd key True cl")
    case (Inl f)
    with 1(2) pick g1 show ?thesis by (auto simp: get_server_loop.simps)
  next
    case (Inr loc)
    have loc: "location_of hash key cl loc" using Inr by (auto simp: location_of_def)
    obtain x s2 where x: "(if map_of (ks_servers ?s1) loc \<noteq> None then (Inr 0, ?s1) else server_init mc loc ?s1) = (x, s2)"
      by fastforce
    have "servers_grow ?s1 s2 \<and> (x = Inr 0 \<longrightarrow> map_of (ks_servers s2) loc \<noteq> None)"
      using x by (auto simp: server_init_def servers_grow_def update_conv' Let_def map_le_def dom_def split: if_splits prod.splits)
    then have g2: "servers_grow s s2" and new: "x = Inr 0 \<Longrightarrow> map_of (ks_servers s2) loc \<noteq> None"
      using servers_grow_trans [OF g1] by auto
    have cl2: "ks_cluster s2 = Some cl" using g2 1(3) by (simp add: servers_grow_def)
    note step = 1(2) [unfolded get_server_loop.simps [of hash mc key cnt s] pick Inr, simplified prod.case sum.case x]
    show ?thesis
    proof (cases "x = Inr 0 \<and> map_of (ks_servers s2) loc = Some None \<and> \<not> 100 \<le> cnt + 1")
      case True
      with step have rest: "get_server_loop hash mc key (cnt + 1) s2 = (r, s')" by simp
      from 1(1) [OF pick [symmetric] Inr x [symmetric] conjunct1 [OF True] _ _ _ rest cl2] True g2 show ?thesis
        by (auto intro: servers_grow_trans)
    next
      case False
      with step g2 loc new show ?thesis by (auto split: sum.splits if_splits)
    qed
  qed
qed

text \<open>Locations whose connection is null.\<close>

definition dead :: "'w KVSServer \<Rightarrow> Location \<Rightarrow> bool" where
  "dead s loc \<longleftrightarrow> map_of (ks_servers s) loc = Some None"

lemma servers_grow_dead: "servers_grow s s' \<Longrightarrow> dead s loc \<Longrightarrow> dead s' loc"
  by (auto simp: servers_grow_def dead_def map_le_def dom_def)

definition attempt_post ::
  "(string \<Rightarrow> u64) \<Rightarrow> string \<Rightarrow> (nat \<Rightarrow> 'w \<Rightarrow> 'a option \<times> 'w) \<Rightarrow> Cluster \<Rightarrow> 'w KVSServer \<Rightarrow>
   (fault + 'a option) \<times> 'w KVSServer \<Rightarrow> bool" where
  "attempt_post hash key req cl s = (\<lambda>(r, s').
     ks_cluster s' = Some cl \<and> (\<forall>loc. dead s loc \<longrightarrow> dead s' loc) \<and>
     (\<forall>x. r = Inr (Some x) \<longrightarrow>
        (\<exists>loc h w. location_of hash key cl loc \<and> map_of (ks_servers s') loc = Some (Some h) \<and>
           fst (req h w) = Some x)) \<and>
     (r = Inr None \<longrightarrow> (\<exists>loc. location_of hash key cl loc \<and> \<not> dead s loc \<and> dead s' loc)))"

lemma attempt_ok:
  assumes cl: "ks_cluster s = Some cl"
  shows "attempt_post hash key req cl s (attempt hash mc key req s)"
proof -
  obtain r1 s1 where g: "get_server hash mc key s = (r1, s1)" by fastforce
  note gl = get_server_loop_ok [OF g [unfolded get_server_def] cl]
  have cl1: "ks_cluster s1 = Some cl" using gl cl by (simp add: servers_grow_def)
  have d1: "dead s loc \<Longrightarrow> dead s1 loc" for loc using gl servers_grow_dead by blast
  show ?thesis
  proof (cases r1)
    case (Inl f)
    with g cl1 d1 show ?thesis by (simp add: attempt_def attempt_post_def)
  next
    case (Inr o1)
    show ?thesis
    proof (cases o1)
      case None
      with g Inr cl1 d1 show ?thesis by (simp add: attempt_def attempt_post_def)
    next
      case (Some loc)
      with gl Inr obtain h where loc: "location_of hash key cl loc" and h: "map_of (ks_servers s1) loc = Some (Some h)" by auto
      obtain reply w where req: "req h (ks_world s1) = (reply, w)" by fastforce
      have nd: "\<not> dead s loc" using d1 [of loc] h by (auto simp: dead_def)
      show ?thesis
      proof (cases reply)
        case None
        with g Inr Some h req cl1 d1 nd loc show ?thesis
          by (auto simp: attempt_def attempt_post_def dead_def update_conv')
      next
        case (Some x)
        from req Some have "fst (req h (ks_world s1)) = Some x" by simp
        with loc h have "\<exists>loc h w. location_of hash key cl loc \<and> map_of (ks_servers s1) loc = Some (Some h) \<and>
            fst (req h w) = Some x" by blast
        with g Inr \<open>o1 = Some loc\<close> h req Some cl1 d1 show ?thesis
          by (simp add: attempt_def attempt_post_def dead_def)
      qed
    qed
  qed
qed

lemma twice_ok:
  assumes cl: "ks_cluster s = Some cl" and t: "twice (attempt hash mc key req) s = (r, s')"
  shows "ks_cluster s' = Some cl \<and> (\<forall>loc. dead s loc \<longrightarrow> dead s' loc) \<and>
    (\<forall>x. r = Inr (Some x) \<longrightarrow>
       (\<exists>loc h w. location_of hash key cl loc \<and> map_of (ks_servers s') loc = Some (Some h) \<and> fst (req h w) = Some x)) \<and>
    (r = Inr None \<longrightarrow> (\<exists>l1 l2. l1 \<noteq> l2 \<and> location_of hash key cl l1 \<and> location_of hash key cl l2 \<and>
       \<not> dead s l1 \<and> \<not> dead s l2 \<and> dead s' l1 \<and> dead s' l2))"
proof -
  obtain r1 s1 where a: "attempt hash mc key req s = (r1, s1)" by fastforce
  note p1 = attempt_ok [OF cl, of hash key req mc, unfolded a attempt_post_def prod.case]
  show ?thesis
  proof (cases "r1 = Inr None")
    case True
    with a t have a2: "attempt hash mc key req s1 = (r, s')" by (simp add: twice_def)
    have cl1: "ks_cluster s1 = Some cl" using p1 by simp
    note p2 = attempt_ok [OF cl1, of hash key req mc, unfolded a2 attempt_post_def prod.case]
    from p1 True obtain l1 where "location_of hash key cl l1" "\<not> dead s l1" "dead s1 l1" by blast
    with p1 p2 show ?thesis by metis
  next
    case False
    then have "twice (attempt hash mc key req) s = (r1, s1)"
      by (cases r1) (auto simp: twice_def a split: option.split)
    with t p1 False show ?thesis by simp
  qed
qed

text \<open>When every location of a key is dead, 100 picks fail and the null pointer is dereferenced.\<close>

lemma get_server_loop_dead:
  assumes "ks_cluster s = Some cl" "\<And>loc. location_of hash key cl loc \<Longrightarrow> dead s loc"
  shows "\<exists>r s'. get_server_loop hash mc key cnt s = (r, s') \<and> (r = Inr None \<or> isl r)"
  using assms
proof (induction hash mc key cnt s rule: get_server_loop.induct)
  case (1 hash mc key cnt s)
  obtain rnd w where w: "mc_rand mc (ks_world s) = (rnd, w)" by fastforce
  let ?s1 = "s\<lparr>ks_world := w\<rparr>"
  have pick: "pick_a_server hash mc key s = (Locate hash rnd key True cl, ?s1)"
    using w 1(2) by (simp add: pick_a_server_def)
  show ?case
  proof (cases "Locate hash rnd key True cl")
    case (Inl f)
    with pick show ?thesis by (simp add: get_server_loop.simps [of hash mc key cnt])
  next
    case (Inr loc)
    have d: "map_of (ks_servers ?s1) loc = Some None" using 1(3) [of loc] Inr by (auto simp: location_of_def dead_def)
    show ?thesis
    proof (cases "100 \<le> cnt + 1")
      case True
      with pick Inr d show ?thesis by (simp add: get_server_loop.simps [of hash mc key cnt])
    next
      case False
      have "\<exists>r s'. get_server_loop hash mc key (cnt + 1) ?s1 = (r, s') \<and> (r = Inr None \<or> isl r)"
        by (rule 1(1) [OF pick [symmetric] Inr _ refl, of 0 ?s1]) (use d False 1(2,3) in \<open>auto simp: dead_def\<close>)
      with pick Inr d False show ?thesis by (simp add: get_server_loop.simps [of hash mc key cnt])
    qed
  qed
qed

lemma attempt_dead:
  assumes "ks_cluster s = Some cl" "\<And>loc. location_of hash key cl loc \<Longrightarrow> dead s loc"
  shows "isl (fst (attempt hash mc key req s))" "isl (fst (get_once hash mc key s))"
proof -
  from get_server_loop_dead [where hash = hash and key = key and mc = mc and cnt = 0, OF assms] obtain r s' where
    "get_server hash mc key s = (r, s')" "r = Inr None \<or> isl r" by (auto simp: get_server_def)
  then show "isl (fst (attempt hash mc key req s))" "isl (fst (get_once hash mc key s))"
    by (auto simp: attempt_def get_once_def split: sum.split)
qed

end
