(* ===== verification/CL_Spec.thy ===== *)
theory CL_Spec
  imports CL_Client
begin

text \<open>
  What the cluster library and the client promise, as theorems on \<open>src/src/cluster/\<close> and
  \<open>src/src/kvs_client/kvs_client.cc\<close>, each with an application to a concrete cluster.
\<close>

section \<open>A cluster\<close>

text \<open>Three partitions on a ring of three nodes with two replicas, on two servers.\<close>

definition demo_config :: Config where
  "demo_config =
     \<lparr>shelf_base = ''/dev/shm'', shelf_user = ''u'', partition_cnt = 3, server_cnt = 2, node_cnt = 3,
      starting_port = 11211, kvs_type = ''radixtree'', kvs_size = 1024, cache_size = 64, server_thread = 1,
      partitions = [(0, [(''kvs_root'', ''1'')]), (1, [(''kvs_root'', ''2'')]), (2, [(''kvs_root'', ''3'')])],
      servers = [(0, ''h0''), (1, ''h1'')], replication_scheme = DYNAMO, replication_factor = 2\<rparr>"




definition demo_cluster :: Cluster where
  "demo_cluster = (case Cluster_Init demo_config of Inr cl \<Rightarrow> cl)"


lemma demo_range: "cl_range demo_cluster = 6148914691236517205"
  by (simp add: demo_cluster_def Cluster_Init_def range_per_partition_def)
    (simp add: demo_config_def Config_IsValid_def)

section \<open>Configuration files\<close>



section \<open>Locating keys\<close>






section \<open>The client\<close>

text \<open>
  C32. \<open>Put\<close> of the client returns. When it returns 0, one server at a location of the key (a
  replica of its partition, by the theorem on \<open>Locate\<close>) accepted the value over a connection
  that is still there; when it returns -1, two replicas that worked before failed and are given
  up. A location that was given up is never used again.
\<close>

theorem client_put_outcome:
  assumes "ks_cluster s = Some cl" "KVSServer_Put hash mc key val s = (r, s')"
  shows "ks_cluster s' = Some cl \<and> (\<forall>loc. dead s loc \<longrightarrow> dead s' loc) \<and>
    (r = Inr 0 \<longrightarrow> (\<exists>loc h w. location_of hash key cl loc \<and> map_of (ks_servers s') loc = Some (Some h) \<and>
       fst (mc_set mc h key val w))) \<and>
    (r = Inr (- 1) \<longrightarrow> (\<exists>l1 l2. l1 \<noteq> l2 \<and> location_of hash key cl l1 \<and> location_of hash key cl l2 \<and>
       \<not> dead s l1 \<and> \<not> dead s l2 \<and> dead s' l1 \<and> dead s' l2)) \<and>
    (isl r \<or> r = Inr 0 \<or> r = Inr (- 1))"
proof -
  let ?req = "\<lambda>h w. done_of (mc_set mc h key val w)"
  obtain q where t: "twice (attempt hash mc key ?req) s = (q, s')" "r = code_of q"
    using assms(2) by (cases "twice (attempt hash mc key ?req) s") (auto simp: KVSServer_Put_def)
  have d: "fst (done_of x) = Some u \<Longrightarrow> fst x" for x :: "bool \<times> 'a" and u
    by (cases x) (simp add: done_of_def split: if_splits)
  note p = twice_ok [OF assms(1) t(1)]
  show ?thesis
  proof (cases q)
    case (Inl f)
    with t p show ?thesis by (simp add: code_of_def)
  next
    case (Inr y)
    show ?thesis
    proof (cases y)
      case None
      with Inr t p show ?thesis by (simp add: code_of_def)
    next
      case (Some u)
      with Inr p obtain loc h w where "location_of hash key cl loc" "map_of (ks_servers s') loc = Some (Some h)"
        "fst (done_of (mc_set mc h key val w)) = Some u" by blast
      then have "\<exists>loc h w. location_of hash key cl loc \<and> map_of (ks_servers s') loc = Some (Some h) \<and>
          fst (mc_set mc h key val w)" using d by blast
      with Some Inr t p show ?thesis by (simp add: code_of_def)
    qed
  qed
qed

text \<open>A library whose servers accept everything, and a client on it.\<close>

definition demo_mc :: "unit memc" where
  "demo_mc = \<lparr>mc_connect = (\<lambda>_ w. (Some 1, w)), mc_set = (\<lambda>_ _ _ w. (True, w)),
     mc_get = (\<lambda>_ _ w. ((None, 0), w)), mc_delete = (\<lambda>_ _ w. (True, w)), mc_flush = (\<lambda>_ w. (True, w)),
     mc_free = (\<lambda>_ w. w), mc_rand = (\<lambda>w. (0, w))\<rparr>"

definition demo_client :: "unit KVSServer" where
  "demo_client = \<lparr>ks_config = demo_config, ks_cluster = Some demo_cluster, ks_servers = [], ks_world = ()\<rparr>"

theorem client_put_outcome_witness:
  "\<exists>r s'. KVSServer_Put (\<lambda>_. 9) demo_mc ''k'' ''v'' demo_client = (r, s') \<and> ks_cluster s' = Some demo_cluster \<and>
     (isl r \<or> r = Inr 0 \<or> r = Inr (- 1))"
proof -
  obtain r s' where p: "KVSServer_Put (\<lambda>_. 9) demo_mc ''k'' ''v'' demo_client = (r, s')" by fastforce
  have "ks_cluster demo_client = Some demo_cluster" by (simp add: demo_client_def)
  from client_put_outcome [OF this p] p show ?thesis by blast
qed

text \<open>
  C33. When every location of a key has been given up, no call of the client on that key returns
  any more: after 100 picks the null pointer that \<open>get_server\<close> returns is dereferenced.
\<close>

theorem client_dead_key_faults:
  assumes "ks_cluster s = Some cl" "\<And>loc. location_of hash key cl loc \<Longrightarrow> dead s loc"
  shows "isl (fst (KVSServer_Put hash mc key val s)) \<and> isl (fst (KVSServer_Get hash mc key buf s)) \<and>
    isl (fst (KVSServer_Del hash mc key s))"
proof -
  have tw: "isl (fst (apfst code_of (twice (attempt hash mc key req) s)))" for req
    using attempt_dead(1) [where hash = hash and key = key and mc = mc and req = req, OF assms]
    by (cases "attempt hash mc key req s") (auto simp: twice_def code_of_def isl_def)
  moreover have "isl (fst (KVSServer_Get hash mc key buf s))"
    using attempt_dead(2) [where hash = hash and key = key and mc = mc, OF assms]
    by (cases "get_once hash mc key s") (auto simp: KVSServer_Get_def isl_def)
  ultimately show ?thesis by (simp add: KVSServer_Put_def KVSServer_Del_def)
qed

definition dead_client :: "unit KVSServer" where
  "dead_client = demo_client\<lparr>ks_servers :=
     [(\<lparr>loc_ip = ''h0'', loc_port = 11211\<rparr>, None), (\<lparr>loc_ip = ''h1'', loc_port = 11214\<rparr>, None)]\<rparr>"

lemma demo_locations:
  "FindNodes 0 (cl_pmgr demo_cluster) = [0, 1]" "Locate (\<lambda>_. 9) 0 ''k'' True demo_cluster = Inr \<lparr>loc_ip = ''h0'', loc_port = 11211\<rparr>"
  "Locate (\<lambda>_. 9) 1 ''k'' True demo_cluster = Inr \<lparr>loc_ip = ''h1'', loc_port = 11214\<rparr>"
  by code_simp+

lemma demo_location:
  assumes "location_of (\<lambda>_. 9) ''k'' demo_cluster loc"
  shows "loc = \<lparr>loc_ip = ''h0'', loc_port = 11211\<rparr> \<or> loc = \<lparr>loc_ip = ''h1'', loc_port = 11214\<rparr>"
proof -
  from assms obtain rnd where l: "Locate (\<lambda>_. 9) rnd ''k'' True demo_cluster = Inr loc" by (auto simp: location_of_def)
  have p: "FindPartition (\<lambda>_. 9) (cl_range demo_cluster) ''k'' = 0" by (simp add: FindPartition_def demo_range)
  have "Locate (\<lambda>_. 9) rnd ''k'' True demo_cluster = Locate (\<lambda>_. 9) (rnd mod 2) ''k'' True demo_cluster"
    by (simp add: Locate_def p demo_locations(1) numeral_2_eq_2)
  moreover have "rnd mod 2 = 0 \<or> rnd mod 2 = 1" by linarith
  ultimately show ?thesis using l demo_locations(2,3) by auto
qed

theorem client_dead_key_faults_witness:
  "isl (fst (KVSServer_Put (\<lambda>_. 9) demo_mc ''k'' ''v'' dead_client)) \<and>
   isl (fst (KVSServer_Get (\<lambda>_. 9) demo_mc ''k'' ''    '' dead_client)) \<and>
   isl (fst (KVSServer_Del (\<lambda>_. 9) demo_mc ''k'' dead_client))"
  by (rule client_dead_key_faults [where cl = demo_cluster])
    (auto simp: dead_client_def demo_client_def dead_def dest!: demo_location)

end
