(* ===== verification/MC_Hash.thy ===== *)
theory MC_Hash
  imports RT_Prelude
begin

text \<open>
  The hash functions of the DRAM cache (\<open>src/extra/KVS-DRAM-Cache/\<close>): \<open>jenkins_hash\<close> of
  \<open>jenkins_hash.c\<close> in its little-endian build, with its three ways to read a key by alignment,
  \<open>MurmurHash3_x86_32\<close> of \<open>murmur3_hash.c\<close>, and the choice between them in \<open>hash.c\<close>. The
  functions get the address of the key, so the memory is a function from addresses to bytes.
  The second part relates them to hashes of byte strings, which know no addresses.
\<close>

unbundle bit_operations_syntax

type_synonym u32 = "32 word"
type_synonym memory = "u64 \<Rightarrow> byte"

section \<open>Reads\<close>

text \<open>Reads of one, two and four bytes as \<open>uint32_t\<close>; \<open>i\<close> is the offset in bytes.\<close>

definition load8 :: "memory \<Rightarrow> u64 \<Rightarrow> nat \<Rightarrow> u32" where
  "load8 m p i = ucast (m (p + of_nat i))"

definition load16 :: "memory \<Rightarrow> u64 \<Rightarrow> nat \<Rightarrow> u32" where
  "load16 m p i = load8 m p i OR push_bit 8 (load8 m p (i + 1))"

definition load32 :: "memory \<Rightarrow> u64 \<Rightarrow> nat \<Rightarrow> u32" where
  "load32 m p i = load16 m p i OR push_bit 16 (load16 m p (i + 2))"

section \<open>Jenkins' hash\<close>

type_synonym abc = "u32 \<times> u32 \<times> u32"

definition rot :: "u32 \<Rightarrow> nat \<Rightarrow> u32" where
  "rot x k = push_bit k x XOR drop_bit (32 - k) x"

fun mix :: "abc \<Rightarrow> abc" where
  "mix (a, b, c) =
     (let a = a - c; a = a XOR rot c 4; c = c + b;
          b = b - a; b = b XOR rot a 6; a = a + c;
          c = c - b; c = c XOR rot b 8; b = b + a;
          a = a - c; a = a XOR rot c 16; c = c + b;
          b = b - a; b = b XOR rot a 19; a = a + c;
          c = c - b; c = c XOR rot b 4; b = b + a
      in (a, b, c))"

fun final_mix :: "abc \<Rightarrow> abc" where
  "final_mix (a, b, c) =
     (let c = c XOR b; c = c - rot b 14;
          a = a XOR c; a = a - rot c 11;
          b = b XOR a; b = b - rot a 25;
          c = c XOR b; c = c - rot b 16;
          a = a XOR c; a = a - rot c 4;
          b = b XOR a; b = b - rot a 14;
          c = c XOR b; c = c - rot b 24
      in (a, b, c))"

text \<open>A block of twelve bytes, read in words, in half-words and in bytes.\<close>

fun block32 :: "memory \<Rightarrow> u64 \<Rightarrow> abc \<Rightarrow> abc" where
  "block32 m k (a, b, c) = (a + load32 m k 0, b + load32 m k 4, c + load32 m k 8)"

fun block16 :: "memory \<Rightarrow> u64 \<Rightarrow> abc \<Rightarrow> abc" where
  "block16 m k (a, b, c) =
     (a + (load16 m k 0 + push_bit 16 (load16 m k 2)),
      b + (load16 m k 4 + push_bit 16 (load16 m k 6)),
      c + (load16 m k 8 + push_bit 16 (load16 m k 10)))"

fun block8 :: "memory \<Rightarrow> u64 \<Rightarrow> abc \<Rightarrow> abc" where
  "block8 m k (a, b, c) =
     (a + load8 m k 0 + push_bit 8 (load8 m k 1) + push_bit 16 (load8 m k 2) + push_bit 24 (load8 m k 3),
      b + load8 m k 4 + push_bit 8 (load8 m k 5) + push_bit 16 (load8 m k 6) + push_bit 24 (load8 m k 7),
      c + load8 m k 8 + push_bit 8 (load8 m k 9) + push_bit 16 (load8 m k 10) + push_bit 24 (load8 m k 11))"

text \<open>
  The last block of at most twelve bytes, as the three \<open>switch\<close> statements add it. The word
  reads go beyond the end of the key and mask the surplus off. Where the cases fall through,
  every case from the length down to the next \<open>break\<close> is executed.
\<close>

fun tail32 :: "memory \<Rightarrow> u64 \<Rightarrow> nat \<Rightarrow> abc \<Rightarrow> abc" where
  "tail32 m k len (a, b, c) =
     (let k0 = load32 m k 0; k1 = load32 m k 4; k2 = load32 m k 8
      in if len = 12 then (a + k0, b + k1, c + k2)
         else if len = 11 then (a + k0, b + k1, c + (k2 AND 0xffffff))
         else if len = 10 then (a + k0, b + k1, c + (k2 AND 0xffff))
         else if len = 9 then (a + k0, b + k1, c + (k2 AND 0xff))
         else if len = 8 then (a + k0, b + k1, c)
         else if len = 7 then (a + k0, b + (k1 AND 0xffffff), c)
         else if len = 6 then (a + k0, b + (k1 AND 0xffff), c)
         else if len = 5 then (a + k0, b + (k1 AND 0xff), c)
         else if len = 4 then (a + k0, b, c)
         else if len = 3 then (a + (k0 AND 0xffffff), b, c)
         else if len = 2 then (a + (k0 AND 0xffff), b, c)
         else if len = 1 then (a + (k0 AND 0xff), b, c)
         else (a, b, c))"

fun tail16 :: "memory \<Rightarrow> u64 \<Rightarrow> nat \<Rightarrow> abc \<Rightarrow> abc" where
  "tail16 m k len (a, b, c) =
     (let k01 = load16 m k 0 + push_bit 16 (load16 m k 2);
          k23 = load16 m k 4 + push_bit 16 (load16 m k 6);
          k45 = load16 m k 8 + push_bit 16 (load16 m k 10)
      in if len = 12 then (a + k01, b + k23, c + k45)
         else if len = 11 then (a + k01, b + k23, c + push_bit 16 (load8 m k 10) + load16 m k 8)
         else if len = 10 then (a + k01, b + k23, c + load16 m k 8)
         else if len = 9 then (a + k01, b + k23, c + load8 m k 8)
         else if len = 8 then (a + k01, b + k23, c)
         else if len = 7 then (a + k01, b + push_bit 16 (load8 m k 6) + load16 m k 4, c)
         else if len = 6 then (a + k01, b + load16 m k 4, c)
         else if len = 5 then (a + k01, b + load8 m k 4, c)
         else if len = 4 then (a + k01, b, c)
         else if len = 3 then (a + push_bit 16 (load8 m k 2) + load16 m k 0, b, c)
         else if len = 2 then (a + load16 m k 0, b, c)
         else if len = 1 then (a + load8 m k 0, b, c)
         else (a, b, c))"

fun tail8 :: "memory \<Rightarrow> u64 \<Rightarrow> nat \<Rightarrow> abc \<Rightarrow> abc" where
  "tail8 m k len (a, b, c) =
     (let c = (if 12 \<le> len then c + push_bit 24 (load8 m k 11) else c);
          c = (if 11 \<le> len then c + push_bit 16 (load8 m k 10) else c);
          c = (if 10 \<le> len then c + push_bit 8 (load8 m k 9) else c);
          c = (if 9 \<le> len then c + load8 m k 8 else c);
          b = (if 8 \<le> len then b + push_bit 24 (load8 m k 7) else b);
          b = (if 7 \<le> len then b + push_bit 16 (load8 m k 6) else b);
          b = (if 6 \<le> len then b + push_bit 8 (load8 m k 5) else b);
          b = (if 5 \<le> len then b + load8 m k 4 else b);
          a = (if 4 \<le> len then a + push_bit 24 (load8 m k 3) else a);
          a = (if 3 \<le> len then a + push_bit 16 (load8 m k 2) else a);
          a = (if 2 \<le> len then a + push_bit 8 (load8 m k 1) else a);
          a = (if 1 \<le> len then a + load8 m k 0 else a)
      in (a, b, c))"

text \<open>
  The common shape of the three branches: all blocks but the last, then the last block and the
  final mixing, unless nothing is left.
\<close>

function jenkins_from :: "(memory \<Rightarrow> u64 \<Rightarrow> abc \<Rightarrow> abc) \<Rightarrow> (memory \<Rightarrow> u64 \<Rightarrow> nat \<Rightarrow> abc \<Rightarrow> abc) \<Rightarrow>
    memory \<Rightarrow> u64 \<Rightarrow> nat \<Rightarrow> abc \<Rightarrow> u32" where
  "jenkins_from block tail m k len s =
     (if 12 < len then jenkins_from block tail m (k + 12) (len - 12) (mix (block m k s))
      else if len = 0 then snd (snd s)
      else snd (snd (final_mix (tail m k len s))))"
  by pat_completeness auto
termination by (relation "measure (\<lambda>(_, _, _, _, len, _). len)") auto

declare jenkins_from.simps [simp del]

definition jenkins_hash :: "memory \<Rightarrow> u64 \<Rightarrow> nat \<Rightarrow> u32" where
  "jenkins_hash m key len =
     (let s = 0xdeadbeef + of_nat len + 0
      in if key AND 0x3 = 0 then jenkins_from block32 tail32 m key len (s, s, s)
         else if key AND 0x1 = 0 then jenkins_from block16 tail16 m key len (s, s, s)
         else jenkins_from block8 tail8 m key len (s, s, s))"

section \<open>MurmurHash3\<close>

text \<open>Keys of the cache are short: \<open>length / 4\<close> always fits the \<open>int\<close> that counts blocks.\<close>

definition rotl32 :: "u32 \<Rightarrow> nat \<Rightarrow> u32" where
  "rotl32 x r = push_bit r x OR drop_bit (32 - r) x"

definition fmix32 :: "u32 \<Rightarrow> u32" where
  "fmix32 h =
     (let h = h XOR drop_bit 16 h; h = h * 0x85ebca6b;
          h = h XOR drop_bit 13 h; h = h * 0xc2b2ae35;
          h = h XOR drop_bit 16 h
      in h)"

definition murmur_k1 :: "u32 \<Rightarrow> u32" where
  "murmur_k1 k1 = (let k1 = k1 * 0xcc9e2d51; k1 = rotl32 k1 15 in k1 * 0x1b873593)"

text \<open>
  The loop counts \<open>i\<close> from \<open>-nblocks\<close> up to 0 and reads \<open>blocks[i]\<close>, where \<open>blocks\<close> is the
  address after the last block; the argument here is \<open>-i\<close>.
\<close>

fun murmur_body :: "memory \<Rightarrow> u64 \<Rightarrow> nat \<Rightarrow> u32 \<Rightarrow> u32" where
  "murmur_body m blocks 0 h1 = h1"
| "murmur_body m blocks (Suc i) h1 =
     (let k1 = murmur_k1 (load32 m (blocks - of_nat (4 * Suc i)) 0);
          h1 = h1 XOR k1; h1 = rotl32 h1 13; h1 = h1 * 5 + 0xe6546b64
      in murmur_body m blocks i h1)"

definition murmur_tail :: "memory \<Rightarrow> u64 \<Rightarrow> nat \<Rightarrow> u32 \<Rightarrow> u32" where
  "murmur_tail m tail n h1 =
     (let k1 = 0;
          k1 = (if n = 3 then k1 XOR push_bit 16 (load8 m tail 2) else k1);
          k1 = (if 2 \<le> n then k1 XOR push_bit 8 (load8 m tail 1) else k1)
      in if 1 \<le> n then h1 XOR murmur_k1 (k1 XOR load8 m tail 0) else h1)"

definition MurmurHash3_x86_32 :: "memory \<Rightarrow> u64 \<Rightarrow> nat \<Rightarrow> u32" where
  "MurmurHash3_x86_32 m key len =
     (let nblocks = len div 4;
          blocks = key + of_nat (nblocks * 4);
          h1 = murmur_body m blocks nblocks 0;
          h1 = murmur_tail m blocks (len mod 4) h1
      in fmix32 (h1 XOR of_nat len))"

text \<open>The hash function of the cache, and its name, by the setting; 0 or -1 is returned.\<close>

definition hash_init :: "int \<Rightarrow> int \<times> ((memory \<Rightarrow> u64 \<Rightarrow> nat \<Rightarrow> u32) \<times> string) option" where
  "hash_init type =
     (if type = 0 then (0, Some (jenkins_hash, ''jenkins''))
      else if type = 1 then (0, Some (MurmurHash3_x86_32, ''murmur3''))
      else (- 1, None))"

section \<open>Hashes of byte strings\<close>

text \<open>A byte string as a little-endian number; both hashes read short blocks as if zeros followed.\<close>

fun le :: "bytes \<Rightarrow> u32" where
  "le [] = 0"
| "le (b # bs) = ucast b + push_bit 8 (le bs)"

fun add12 :: "bytes \<Rightarrow> abc \<Rightarrow> abc" where
  "add12 bs (a, b, c) = (a + le (take 4 bs), b + le (take 4 (drop 4 bs)), c + le (take 4 (drop 8 bs)))"

function jenkins_blocks :: "bytes \<Rightarrow> abc \<Rightarrow> u32" where
  "jenkins_blocks bs s =
     (if 12 < length bs then jenkins_blocks (drop 12 bs) (mix (add12 bs s))
      else if bs = [] then snd (snd s)
      else snd (snd (final_mix (add12 bs s))))"
  by pat_completeness auto
termination by (relation "measure (\<lambda>(bs, _). length bs)") auto

declare jenkins_blocks.simps [simp del]

definition jenkins_spec :: "bytes \<Rightarrow> u32" where
  "jenkins_spec bs = (let s = 0xdeadbeef + of_nat (length bs) in jenkins_blocks bs (s, s, s))"

fun murmur_blocks :: "bytes \<Rightarrow> u32 \<Rightarrow> u32" where
  "murmur_blocks (b0 # b1 # b2 # b3 # bs) h =
     murmur_blocks bs (rotl32 (h XOR murmur_k1 (le [b0, b1, b2, b3])) 13 * 5 + 0xe6546b64)"
| "murmur_blocks bs h = (if bs = [] then h else h XOR murmur_k1 (le bs))"

definition murmur_spec :: "bytes \<Rightarrow> u32" where
  "murmur_spec bs = fmix32 (murmur_blocks bs 0 XOR of_nat (length bs))"

text \<open>The bytes of a key in memory.\<close>

definition bytes_at :: "memory \<Rightarrow> u64 \<Rightarrow> bytes \<Rightarrow> bool" where
  "bytes_at m p bs \<longleftrightarrow> (\<forall>i < length bs. m (p + of_nat i) = bs ! i)"

lemma bytes_at_drop: "bytes_at m p bs \<Longrightarrow> bytes_at m (p + of_nat n) (drop n bs)"
proof (unfold bytes_at_def, intro allI impI)
  fix i assume a: "\<forall>i < length bs. m (p + of_nat i) = bs ! i" and i: "i < length (drop n bs)"
  then have "n + i < length bs" by simp
  with a have "m (p + of_nat (n + i)) = bs ! (n + i)" by blast
  with i show "m (p + of_nat n + of_nat i) = drop n bs ! i" by (simp add: add.assoc)
qed

lemma bytes_at_Cons: "bytes_at m p (b # bs) \<longleftrightarrow> m p = b \<and> bytes_at m (p + 1) bs"
proof
  assume a: "bytes_at m p (b # bs)"
  then have "m (p + of_nat 0) = (b # bs) ! 0" unfolding bytes_at_def by blast
  with bytes_at_drop [OF a, of 1] show "m p = b \<and> bytes_at m (p + 1) bs" by simp
next
  assume a: "m p = b \<and> bytes_at m (p + 1) bs"
  show "bytes_at m p (b # bs)" unfolding bytes_at_def
  proof (intro allI impI)
    fix i assume "i < length (b # bs)"
    with a show "m (p + of_nat i) = (b # bs) ! i" by (cases i) (auto simp: bytes_at_def ac_simps)
  qed
qed

section \<open>The reads agree\<close>

lemma bit_load8: "bit (load8 m p i) n \<longleftrightarrow> n < 8 \<and> bit (m (p + of_nat i)) n"
  by (auto simp: load8_def bit_simps dest: bit_imp_le_length)

lemma word_plus_or:
  fixes x y :: u32
  assumes "\<And>n. bit x n \<Longrightarrow> \<not> bit y n"
  shows "x + y = x OR y"
  by (rule disjunctive_add_eq_or, rule bit_word_eqI) (auto simp: bit_simps dest: assms)

lemma load16_bytes: "load16 m p i = load8 m p i + push_bit 8 (load8 m p (i + 1))"
  unfolding load16_def by (rule word_plus_or [symmetric]) (auto simp: bit_load8 bit_simps)

lemma load32_halves: "load32 m p i = load16 m p i + push_bit 16 (load16 m p (i + 2))"
  unfolding load32_def by (rule word_plus_or [symmetric]) (auto simp: load16_def bit_load8 bit_simps)

lemma push_bit_plus: "push_bit n (x + y) = push_bit n x + push_bit n (y :: u32)"
  by (simp add: push_bit_eq_mult distrib_right)

lemma load32_bytes:
  "load32 m p i = load8 m p i + push_bit 8 (load8 m p (i + 1)) + push_bit 16 (load8 m p (i + 2)) +
     push_bit 24 (load8 m p (i + 3))"
  by (simp add: load32_halves load16_bytes push_bit_plus add.assoc numeral_3_eq_3)

lemma masks: "(0xff :: u32) = mask 8" "(0xffff :: u32) = mask 16" "(0xffffff :: u32) = mask 24"
  by (simp_all add: mask_eq_exp_minus_1)

lemma load32_mask8: "load32 m p i AND 0xff = load8 m p i"
  unfolding masks by (rule bit_word_eqI) (auto simp: load32_def load16_def bit_load8 bit_simps)

lemma load32_mask16: "load32 m p i AND 0xffff = load16 m p i"
  unfolding masks by (rule bit_word_eqI) (auto simp: load32_def load16_def bit_load8 bit_simps)

lemma load32_mask24: "load32 m p i AND 0xffffff = push_bit 16 (load8 m p (i + 2)) + load16 m p i"
proof -
  have "load32 m p i AND 0xffffff = push_bit 16 (load8 m p (i + 2)) OR load16 m p i"
    unfolding masks by (rule bit_word_eqI) (auto simp: load32_def load16_def bit_load8 bit_simps)
  also have "\<dots> = push_bit 16 (load8 m p (i + 2)) + load16 m p i"
    by (rule word_plus_or [symmetric]) (auto simp: load16_def bit_load8 bit_simps)
  finally show ?thesis .
qed

lemmas reads_as_bytes = load32_bytes load16_bytes push_bit_plus add.assoc numeral_2_eq_2 numeral_3_eq_3

lemma block32_eq: "block32 m k s = block8 m k s"
  by (cases s) (simp add: reads_as_bytes)

lemma block16_eq: "block16 m k s = block8 m k s"
  by (cases s) (simp add: reads_as_bytes)

lemma tail32_eq:
  assumes "len \<le> 12"
  shows "tail32 m k len s = tail8 m k len s"
proof (cases s)
  case (fields a b c)
  show ?thesis unfolding fields tail32.simps Let_def load32_mask8 load32_mask16 load32_mask24 using assms
    by (simp add: reads_as_bytes Let_def ac_simps)
qed

lemma tail16_eq: "len \<le> 12 \<Longrightarrow> tail16 m k len s = tail8 m k len s"
  by (cases s) (simp add: reads_as_bytes Let_def ac_simps)

lemma jenkins_from_eq:
  assumes "\<And>m k s. block m k s = block8 m k s" "\<And>m k len s. len \<le> 12 \<Longrightarrow> tail m k len s = tail8 m k len s"
  shows "jenkins_from block tail m k len s = jenkins_from block8 tail8 m k len s"
proof (induction block8 tail8 m k len s rule: jenkins_from.induct)
  case (1 m k len s)
  then show ?case
    by (simp add: jenkins_from.simps [of block] jenkins_from.simps [of block8] assms)
qed

section \<open>The reads give the bytes of the key\<close>

text \<open>Byte \<open>i\<close> of a string, 0 beyond its end.\<close>

definition nth0 :: "bytes \<Rightarrow> nat \<Rightarrow> u32" where
  "nth0 bs i = (if i < length bs then ucast (bs ! i) else 0)"

lemma load8_nth0: "bytes_at m k bs \<Longrightarrow> i < length bs \<Longrightarrow> load8 m k i = nth0 bs i"
  by (simp add: load8_def nth0_def bytes_at_def)

lemma nth0_drop: "nth0 (drop n bs) i = nth0 bs (n + i)"
  by (auto simp: nth0_def)

lemma nth0_Cons [simp]: "nth0 (b # bs) 0 = ucast b" "nth0 (b # bs) (Suc i) = nth0 bs i"
  by (simp_all add: nth0_def)

lemma nth0_Nil [simp]: "nth0 [] i = 0"
  by (simp add: nth0_def)

lemma nth0_tl: "nth0 (tl bs) i = nth0 bs (Suc i)"
  by (cases bs) simp_all

lemma le_take_Suc: "le (take (Suc n) bs) = nth0 bs 0 + push_bit 8 (le (take n (tl bs)))"
  by (cases bs) simp_all

lemma le_take4:
  "le (take 4 bs) = nth0 bs 0 + push_bit 8 (nth0 bs 1) + push_bit 16 (nth0 bs 2) + push_bit 24 (nth0 bs 3)"
proof -
  have "le (take 4 bs) = le (take (Suc (Suc (Suc (Suc 0)))) bs)" by (simp add: numeral_eq_Suc)
  then show ?thesis by (simp add: le_take_Suc nth0_tl reads_as_bytes)
qed

lemma add12_nth0:
  "add12 bs (a, b, c) =
     (a + (nth0 bs 0 + push_bit 8 (nth0 bs 1) + push_bit 16 (nth0 bs 2) + push_bit 24 (nth0 bs 3)),
      b + (nth0 bs 4 + push_bit 8 (nth0 bs 5) + push_bit 16 (nth0 bs 6) + push_bit 24 (nth0 bs 7)),
      c + (nth0 bs 8 + push_bit 8 (nth0 bs 9) + push_bit 16 (nth0 bs 10) + push_bit 24 (nth0 bs 11)))"
  by (simp add: le_take4 nth0_drop)

lemma block8_add12: "bytes_at m k bs \<Longrightarrow> 12 \<le> length bs \<Longrightarrow> block8 m k s = add12 bs s"
  by (cases s) (simp only: add12_nth0 block8.simps load8_nth0 add.assoc prod.inject)

lemma tail8_add12:
  assumes "bytes_at m k bs"
  shows "tail8 m k (length bs) s = add12 bs s"
proof (cases s)
  case (fields a b c)
  have shifted: "(if Suc i \<le> length bs then x + push_bit n (load8 m k i) else x) = x + push_bit n (nth0 bs i)" for i n x
    using load8_nth0 [OF assms, of i] by (auto simp: nth0_def)
  have plain: "(if Suc i \<le> length bs then x + load8 m k i else x) = x + nth0 bs i" for i x
    using load8_nth0 [OF assms, of i] by (auto simp: nth0_def)
  have one: "(if 2 \<le> length bs then x + push_bit n (load8 m k (Suc 0)) else x) = x + push_bit n (nth0 bs (Suc 0))" for n x
    using shifted [of "Suc 0"] by (simp only: numeral_2_eq_2)
  note each = plain [of 0, simplified] one shifted [of 2, simplified] shifted [of 3, simplified]
    plain [of 4, simplified] shifted [of 5, simplified] shifted [of 6, simplified] shifted [of 7, simplified]
    plain [of 8, simplified] shifted [of 9, simplified] shifted [of 10, simplified] shifted [of 11, simplified]
  show ?thesis unfolding fields add12_nth0 tail8.simps Let_def One_nat_def each by (simp add: ac_simps)
qed

lemma jenkins_from_blocks:
  "bytes_at m k bs \<Longrightarrow> jenkins_from block8 tail8 m k (length bs) s = jenkins_blocks bs s"
proof (induction bs s arbitrary: k rule: jenkins_blocks.induct)
  case (1 bs s)
  have "bytes_at m (k + 12) (drop 12 bs)" using bytes_at_drop [OF "1.prems", of 12] by simp
  with 1 show ?case
    by (simp add: jenkins_from.simps [of block8] jenkins_blocks.simps [of bs] block8_add12 tail8_add12)
qed

lemma jenkins_hash_spec: "bytes_at m key bs \<Longrightarrow> jenkins_hash m key (length bs) = jenkins_spec bs"
  by (simp add: jenkins_hash_def jenkins_spec_def Let_def jenkins_from_blocks
      jenkins_from_eq [of block32, OF block32_eq tail32_eq] jenkins_from_eq [of block16, OF block16_eq tail16_eq])

section \<open>The rounds of MurmurHash3\<close>

lemma load32_le: "bytes_at m k (b0 # b1 # b2 # b3 # bs) \<Longrightarrow> load32 m k 0 = le [b0, b1, b2, b3]"
  by (simp add: load32_bytes load8_nth0 reads_as_bytes)

lemma murmur_body_Suc:
  "murmur_body m (k + of_nat (4 * Suc n)) (Suc n) h =
   murmur_body m (k + 4 + of_nat (4 * n)) n (rotl32 (h XOR murmur_k1 (load32 m k 0)) 13 * 5 + 0xe6546b64)"
  by (simp add: Let_def algebra_simps)

lemma xor_disjoint:
  fixes x y :: u32
  assumes "\<And>n. bit x n \<Longrightarrow> \<not> bit y n"
  shows "x XOR y = x + y"
proof -
  have "x XOR y = x OR y" by (rule bit_word_eqI) (auto simp: bit_simps dest: assms)
  also have "\<dots> = x + y" by (rule word_plus_or [symmetric]) (rule assms)
  finally show ?thesis .
qed

lemma murmur_tail_le:
  assumes "bytes_at m k bs" "length bs < 4"
  shows "murmur_tail m k (length bs) h = (if bs = [] then h else h XOR murmur_k1 (le bs))"
proof -
  have two: "push_bit 8 (load8 m k 1) XOR load8 m k 0 = push_bit 8 (load8 m k 1) + load8 m k 0"
    by (rule xor_disjoint) (auto simp: bit_load8 bit_simps)
  have "push_bit 16 (load8 m k 2) XOR (push_bit 8 (load8 m k 1) XOR load8 m k 0) =
      push_bit 16 (load8 m k 2) + (push_bit 8 (load8 m k 1) XOR load8 m k 0)"
    by (rule xor_disjoint) (auto simp: bit_load8 bit_simps)
  then have sum3: "push_bit 16 (load8 m k 2) XOR (push_bit 8 (load8 m k 1) XOR load8 m k 0) =
      load8 m k 0 + push_bit 8 (load8 m k 1) + push_bit 16 (load8 m k 2)"
    unfolding two by (simp add: ac_simps)
  have three: "murmur_tail m k 3 h = h XOR murmur_k1 (load8 m k 0 + push_bit 8 (load8 m k 1) + push_bit 16 (load8 m k 2))"
    unfolding sum3 [symmetric] murmur_tail_def by (simp add: xor.assoc)
  consider "bs = []" | b where "bs = [b]" | b c where "bs = [b, c]" | b c d where "bs = [b, c, d]"
    using assms(2) by (cases bs rule: list.exhaust; cases "tl bs"; cases "tl (tl bs)"; cases "tl (tl (tl bs))") auto
  then show ?thesis
  proof cases
    case 1 then show ?thesis by (simp add: murmur_tail_def)
  next
    case 2 then show ?thesis using load8_nth0 [OF assms(1), of 0] by (simp add: murmur_tail_def)
  next
    case 3 then show ?thesis using two load8_nth0 [OF assms(1)] by (simp add: murmur_tail_def add.commute)
  next
    case 4 then show ?thesis using three load8_nth0 [OF assms(1)]
      by (simp add: push_bit_plus add.assoc numeral_2_eq_2 numeral_3_eq_3)
  qed
qed

lemma murmur_blocks_short:
  "length bs < 4 \<Longrightarrow> murmur_blocks bs h = (if bs = [] then h else h XOR murmur_k1 (le bs))"
  by (cases "(bs, h)" rule: murmur_blocks.cases) simp_all

lemma murmur_rounds:
  "bytes_at m k bs \<Longrightarrow> n = length bs div 4 \<Longrightarrow>
   murmur_tail m (k + of_nat (4 * n)) (length bs mod 4) (murmur_body m (k + of_nat (4 * n)) n h) = murmur_blocks bs h"
proof (induction n arbitrary: bs k h)
  case 0
  then have "length bs < 4" by (simp add: div_eq_0_iff)
  with 0 show ?case by (simp add: murmur_tail_le murmur_blocks_short)
next
  case (Suc n)
  then have "4 \<le> length bs" by linarith
  then obtain b0 b1 b2 b3 bs' where bs: "bs = b0 # b1 # b2 # b3 # bs'"
    by (auto simp: numeral_eq_Suc Suc_le_length_iff)
  have "bytes_at m (k + 4) bs'" using bytes_at_drop [OF Suc.prems(1), of 4] by (simp add: bs)
  moreover have "n = length bs' div 4" using Suc.prems(2) by (simp add: bs)
  ultimately show ?case using Suc.IH [of "k + 4" bs'] unfolding bs murmur_body_Suc load32_le [OF Suc.prems(1) [unfolded bs]]
    by (simp add: add.assoc)
qed

lemma MurmurHash3_spec: "bytes_at m key bs \<Longrightarrow> MurmurHash3_x86_32 m key (length bs) = murmur_spec bs"
  using murmur_rounds [of m key bs] by (simp add: MurmurHash3_x86_32_def murmur_spec_def Let_def mult.commute)

section \<open>Mixing is reversible\<close>

text \<open>
  One of the six rounds of \<open>mix\<close> on the variables in their roles, its inverse, and the change of
  roles between rounds.
\<close>

fun mix_round :: "nat \<Rightarrow> abc \<Rightarrow> abc" where
  "mix_round k (x, y, z) = ((x - z) XOR rot z k, y, z + y)"

fun unmix_round :: "nat \<Rightarrow> abc \<Rightarrow> abc" where
  "unmix_round k (x, y, z) = ((x XOR rot (z - y) k) + (z - y), y, z - y)"

fun next_roles :: "abc \<Rightarrow> abc" where
  "next_roles (x, y, z) = (y, z, x)"

fun prev_roles :: "abc \<Rightarrow> abc" where
  "prev_roles (x, y, z) = (z, x, y)"

definition unmix :: "abc \<Rightarrow> abc" where
  "unmix s = fold (\<lambda>k. unmix_round k \<circ> prev_roles) [4, 19, 16, 8, 6, 4] s"

lemma mix_rounds: "mix s = fold (\<lambda>k. next_roles \<circ> mix_round k) [4, 6, 8, 16, 19, 4] s"
  by (cases s) (simp add: Let_def)

lemma xor_twice: "(x XOR y) XOR y = (x :: u32)"
  by (simp add: xor.assoc)

lemma unmix_mix_round: "unmix_round k (prev_roles (next_roles (mix_round k s))) = s"
  by (cases s) (simp add: xor_twice)

lemma mix_unmix_round: "next_roles (mix_round k (unmix_round k (prev_roles s))) = s"
  by (cases s) (simp add: xor_twice)

lemma unmix_mix: "unmix (mix s) = s"
  by (simp add: unmix_def mix_rounds unmix_mix_round)

lemma mix_unmix: "mix (unmix s) = s"
  by (simp add: unmix_def mix_rounds mix_unmix_round)

end
