(* ===== verification/MC_Bipbuffer.thy ===== *)
theory MC_Bipbuffer
  imports RT_Prelude
begin

text \<open>
  The byte buffer of the DRAM cache's logger, LRU bump queues and crawler,
  \<open>src/extra/KVS-DRAM-Cache/bipbuffer.c\<close>: two regions in one array, so that what is written in
  one piece can be read in one piece. The fields keep their C widths: the arithmetic wraps, and
  \<open>bipbuf_unused\<close> converts to \<open>int\<close>. A locale states what a byte queue promises its clients;
  it is interpreted on the operations of the file.
\<close>

section \<open>Operations\<close>

record bipbuf =
  bb_size :: "64 word"
  a_start :: "32 word"
  a_end :: "32 word"
  b_end :: "32 word"
  b_inuse :: int
  bb_data :: bytes

definition bipbuf_unused :: "bipbuf \<Rightarrow> int" where
  "bipbuf_unused me =
     (if 1 = b_inuse me then sint (a_start me - b_end me)
      else sint (ucast (bb_size me - ucast (a_end me)) :: 32 word))"

definition bipbuf_size :: "bipbuf \<Rightarrow> int" where
  "bipbuf_size me = sint (ucast (bb_size me) :: 32 word)"

definition bipbuf_used :: "bipbuf \<Rightarrow> int" where
  "bipbuf_used me = sint ((a_end me - a_start me) + b_end me)"

definition bipbuf_init :: "32 word \<Rightarrow> bipbuf \<Rightarrow> bipbuf" where
  "bipbuf_init sz me = me\<lparr>a_start := 0, a_end := 0, b_end := 0, bb_size := ucast sz, b_inuse := 0\<rparr>"

text \<open>
  The argument \<open>mem\<close> is what \<open>malloc\<close> returns: nothing, or an object whose fields and array
  have any content. The array has \<open>size\<close> bytes.
\<close>

definition bipbuf_new :: "32 word \<Rightarrow> bipbuf option \<Rightarrow> bipbuf option" where
  "bipbuf_new sz mem = (case mem of None \<Rightarrow> None | Some me \<Rightarrow> Some (bipbuf_init sz me))"

definition bipbuf_is_empty :: "bipbuf \<Rightarrow> bool" where
  "bipbuf_is_empty me = (a_start me = a_end me)"

definition check_for_switch_to_b :: "bipbuf \<Rightarrow> bipbuf" where
  "check_for_switch_to_b me =
     (if bb_size me - ucast (a_end me) < ucast (a_start me - b_end me) then me\<lparr>b_inuse := 1\<rparr> else me)"

text \<open>Pointers into the array are offsets; a null pointer is \<open>None\<close>.\<close>

definition bipbuf_request :: "bipbuf \<Rightarrow> int \<Rightarrow> nat option" where
  "bipbuf_request me sz =
     (if bipbuf_unused me < sz then None
      else if 1 = b_inuse me then Some (unat (b_end me))
      else Some (unat (a_end me)))"

definition bipbuf_push :: "bipbuf \<Rightarrow> int \<Rightarrow> int \<times> bipbuf" where
  "bipbuf_push me sz =
     (if bipbuf_unused me < sz then (0, me)
      else (sz, check_for_switch_to_b
              (if 1 = b_inuse me then me\<lparr>b_end := b_end me + of_int sz\<rparr>
               else me\<lparr>a_end := a_end me + of_int sz\<rparr>)))"

text \<open>\<open>memcpy\<close> into the array, and what a client reads at a pointer it got.\<close>

definition write_at :: "nat \<Rightarrow> bytes \<Rightarrow> bipbuf \<Rightarrow> fault + bipbuf" where
  "write_at off xs me =
     (if off + length xs \<le> length (bb_data me)
      then Inr (me\<lparr>bb_data := take off (bb_data me) @ xs @ drop (off + length xs) (bb_data me)\<rparr>)
      else Inl OutOfBounds)"

definition read_at :: "nat \<Rightarrow> nat \<Rightarrow> bipbuf \<Rightarrow> fault + bytes" where
  "read_at off n me =
     (if off + n \<le> length (bb_data me) then Inr (take n (drop off (bb_data me))) else Inl OutOfBounds)"

definition bipbuf_offer :: "bipbuf \<Rightarrow> bytes \<Rightarrow> fault + int \<times> bipbuf" where
  "bipbuf_offer me data =
     (let sz = int (length data)
      in if bipbuf_unused me < sz then Inr (0, me)
         else if 1 = b_inuse me
         then map_sum id (\<lambda>me1. (sz, check_for_switch_to_b (me1\<lparr>b_end := b_end me1 + of_int sz\<rparr>)))
                (write_at (unat (b_end me)) data me)
         else map_sum id (\<lambda>me1. (sz, check_for_switch_to_b (me1\<lparr>a_end := a_end me1 + of_int sz\<rparr>)))
                (write_at (unat (a_end me)) data me))"

definition bipbuf_peek :: "bipbuf \<Rightarrow> 32 word \<Rightarrow> nat option" where
  "bipbuf_peek me sz =
     (if bb_size me < ucast (a_start me + sz) then None
      else if bipbuf_is_empty me then None
      else Some (unat (a_start me)))"

definition bipbuf_peek_all :: "bipbuf \<Rightarrow> (nat \<times> 32 word) option" where
  "bipbuf_peek_all me =
     (if bipbuf_is_empty me then None else Some (unat (a_start me), a_end me - a_start me))"

definition bipbuf_poll :: "bipbuf \<Rightarrow> 32 word \<Rightarrow> nat option \<times> bipbuf" where
  "bipbuf_poll me sz =
     (if bipbuf_is_empty me then (None, me)
      else if bb_size me < ucast (a_start me + sz) then (None, me)
      else
        (let end = unat (a_start me);
             me = me\<lparr>a_start := a_start me + sz\<rparr>;
             me = (if a_start me = a_end me
                   then (if 1 = b_inuse me
                         then me\<lparr>a_start := 0, a_end := b_end me, b_end := 0, b_inuse := 0\<rparr>
                         else me\<lparr>a_start := 0, a_end := 0\<rparr>)
                   else me)
         in (Some end, check_for_switch_to_b me)))"

section \<open>The bytes in the buffer\<close>

definition region_A :: "bipbuf \<Rightarrow> bytes" where
  "region_A me = take (unat (a_end me) - unat (a_start me)) (drop (unat (a_start me)) (bb_data me))"

definition region_B :: "bipbuf \<Rightarrow> bytes" where
  "region_B me = take (unat (b_end me)) (bb_data me)"

definition bip_content :: "bipbuf \<Rightarrow> bytes" where
  "bip_content me = region_A me @ region_B me"

text \<open>
  Region A lies inside of the array, region B before it; B is only used while A is not empty,
  and an empty A is at the start. Sizes fit \<open>int\<close>.
\<close>

definition bip_inv :: "bipbuf \<Rightarrow> bool" where
  "bip_inv me \<longleftrightarrow>
     unat (bb_size me) < 2 ^ 31 \<and> length (bb_data me) = unat (bb_size me) \<and>
     unat (a_start me) \<le> unat (a_end me) \<and> unat (a_end me) \<le> unat (bb_size me) \<and>
     unat (b_end me) \<le> unat (a_start me) \<and> (b_inuse me = 0 \<or> b_inuse me = 1) \<and>
     (b_inuse me = 0 \<longrightarrow> b_end me = 0) \<and>
     (a_start me = a_end me \<longrightarrow> a_start me = 0 \<and> b_inuse me = 0)"

text \<open>The space for the next write, as a natural number.\<close>

definition bip_room :: "bipbuf \<Rightarrow> nat" where
  "bip_room me = (if b_inuse me = 1 then unat (a_start me) - unat (b_end me)
                  else unat (bb_size me) - unat (a_end me))"

lemma sint_small:
  assumes "unat (w :: 32 word) < 2 ^ 31"
  shows "sint w = int (unat w)"
proof -
  have "int (unat w) < int (2 ^ 31)" using assms by (simp only: of_nat_less_iff)
  then have "uint w < 2 ^ 31" by simp
  moreover have "- (2 ^ 31) \<le> uint w" by (rule order_trans [of _ 0]) simp_all
  ultimately have "sint w = uint w" by (simp add: sint_uint signed_take_bit_int_eq_self)
  then show ?thesis by simp
qed

lemma unat_64_of_32: "unat (ucast (w :: 32 word) :: 64 word) = unat w"
proof -
  have "unat w < 2 ^ 32" using unsigned_less [where 'a = nat, of w] by simp
  then show ?thesis by (simp add: unsigned_ucast_eq take_bit_nat_eq_self)
qed

lemma bip_inv_le:
  assumes "bip_inv me"
  shows "a_start me \<le> a_end me" "b_end me \<le> a_start me" "ucast (a_end me) \<le> bb_size me"
    "unat (ucast (a_end me) :: 64 word) = unat (a_end me)"
proof -
  show u: "unat (ucast (a_end me) :: 64 word) = unat (a_end me)" by (rule unat_64_of_32)
  show "a_start me \<le> a_end me" "b_end me \<le> a_start me" "ucast (a_end me) \<le> bb_size me"
    using assms by (simp_all add: bip_inv_def word_le_nat_alt u)
qed

lemma unat_32_of_64: "unat (w :: 64 word) < 2 ^ 32 \<Longrightarrow> unat (ucast w :: 32 word) = unat w"
  by (simp add: unsigned_ucast_eq take_bit_nat_eq_self)

lemma bip_room_unat:
  assumes "bip_inv me"
  shows "unat (a_start me - b_end me) = unat (a_start me) - unat (b_end me)"
    "unat (bb_size me - ucast (a_end me)) = unat (bb_size me) - unat (a_end me)"
    "unat (a_end me - a_start me) = unat (a_end me) - unat (a_start me)"
  using bip_inv_le [OF assms] by (simp_all add: unat_sub)

lemma unused_room:
  assumes "bip_inv me"
  shows "bipbuf_unused me = int (bip_room me)"
proof -
  have "unat (bb_size me) < 2 ^ 31" "unat (a_start me) < 2 ^ 31" using assms by (auto simp: bip_inv_def)
  then show ?thesis using bip_room_unat [OF assms] assms
    by (auto simp: bipbuf_unused_def bip_room_def bip_inv_def sint_small unat_32_of_64)
qed

lemma switch_cond:
  assumes "bip_inv me"
  shows "bb_size me - ucast (a_end me) < ucast (a_start me - b_end me) \<longleftrightarrow>
    unat (bb_size me) - unat (a_end me) < unat (a_start me) - unat (b_end me)"
proof -
  have "unat (ucast (a_start me - b_end me) :: 64 word) = unat (a_start me - b_end me)"
    by (rule unat_64_of_32)
  then show ?thesis using bip_room_unat [OF assms] by (simp add: word_less_nat_alt)
qed

lemma switch_keeps:
  assumes "bip_inv me"
  shows "bip_inv (check_for_switch_to_b me)" "bip_content (check_for_switch_to_b me) = bip_content me"
    "bip_room me \<le> bip_room (check_for_switch_to_b me)"
  using assms switch_cond [OF assms]
  by (auto simp: check_for_switch_to_b_def bip_inv_def bip_content_def region_A_def region_B_def bip_room_def)

text \<open>A write of \<open>xs\<close> at the pointer that \<open>bipbuf_request\<close> gives, and the move of the region's end.\<close>

definition bip_end :: "bipbuf \<Rightarrow> nat" where
  "bip_end me = (if 1 = b_inuse me then unat (b_end me) else unat (a_end me))"

definition bip_advance :: "int \<Rightarrow> bipbuf \<Rightarrow> bipbuf" where
  "bip_advance sz me = (if 1 = b_inuse me then me\<lparr>b_end := b_end me + of_int sz\<rparr>
                        else me\<lparr>a_end := a_end me + of_int sz\<rparr>)"

lemma unat_plus_small:
  "unat (w :: 32 word) + n < 2 ^ 31 \<Longrightarrow> unat (w + of_int (int n)) = unat w + n"
  by (simp add: unat_word_ariths unat_of_nat)

lemma advance_ends:
  assumes "bip_inv me" "n \<le> bip_room me"
  shows "b_inuse me = 1 \<Longrightarrow> unat (b_end me + of_int (int n)) = unat (b_end me) + n"
    "b_inuse me = 0 \<Longrightarrow> unat (a_end me + of_int (int n)) = unat (a_end me) + n"
  using assms by (auto intro!: unat_plus_small simp del: of_int_of_nat_eq simp: bip_inv_def bip_room_def)

lemma advance_inv:
  assumes "bip_inv me" "n \<le> bip_room me"
  shows "bip_inv (bip_advance (int n) me)" "bip_room me \<le> bip_room (bip_advance (int n) me) + n"
proof -
  have "b_inuse me = 0 \<or> b_inuse me = 1" using assms by (simp add: bip_inv_def)
  then have "bip_inv (bip_advance (int n) me) \<and> bip_room me \<le> bip_room (bip_advance (int n) me) + n"
  proof
    assume u: "b_inuse me = 0"
    have "a_start me = a_end me + of_int (int n) \<Longrightarrow> a_start me = a_end me"
      using advance_ends(2) [OF assms u] assms(1) by (auto simp: bip_inv_def intro!: unsigned_word_eqI)
    with u assms advance_ends(2) [OF assms u] show ?thesis
      by (auto simp: bip_advance_def bip_inv_def bip_room_def simp del: of_int_of_nat_eq)
  next
    assume u: "b_inuse me = 1"
    with assms advance_ends(1) [OF assms u] show ?thesis
      by (auto simp: bip_advance_def bip_inv_def bip_room_def simp del: of_int_of_nat_eq)
  qed
  then show "bip_inv (bip_advance (int n) me)" "bip_room me \<le> bip_room (bip_advance (int n) me) + n" by simp_all
qed

lemma write_keeps:
  assumes "bip_inv me" "length xs \<le> bip_room me"
  shows "\<exists>me1. write_at (bip_end me) xs me = Inr me1 \<and> bip_inv me1 \<and> bip_room me1 = bip_room me \<and>
    bip_content me1 = bip_content me \<and> b_inuse me1 = b_inuse me \<and>
    bip_content (bip_advance (int (length xs)) me1) = bip_content me @ xs"
proof -
  let ?d = "take (bip_end me) (bb_data me) @ xs @ drop (bip_end me + length xs) (bb_data me)"
  let ?me = "me\<lparr>bb_data := ?d\<rparr>"
  have fits: "bip_end me + length xs \<le> length (bb_data me)"
    using assms by (auto simp: bip_inv_def bip_room_def bip_end_def)
  have "b_inuse me = 0 \<or> b_inuse me = 1" using assms by (simp add: bip_inv_def)
  then have "bip_content ?me = bip_content me \<and> bip_content (bip_advance (int (length xs)) ?me) = bip_content me @ xs"
  proof
    assume u: "b_inuse me = 0"
    with fits assms(1) advance_ends(2) [OF assms u] show ?thesis
      by (simp add: bip_advance_def bip_content_def region_A_def region_B_def bip_inv_def bip_end_def drop_take
          del: of_int_of_nat_eq)
  next
    assume u: "b_inuse me = 1"
    with fits assms advance_ends(1) [OF assms u] show ?thesis
      by (simp add: bip_advance_def bip_content_def region_A_def region_B_def bip_inv_def bip_end_def bip_room_def
          le_diff_conv2 add.commute del: of_int_of_nat_eq)
  qed
  with fits assms(1) show ?thesis
    by (auto simp: write_at_def bip_inv_def bip_room_def)
qed

lemma push_advance: "bip_inv me \<Longrightarrow> n \<le> bip_room me \<Longrightarrow>
    bipbuf_push me (int n) = (int n, check_for_switch_to_b (bip_advance (int n) me))"
  by (simp add: bipbuf_push_def unused_room bip_advance_def)

lemma request_end: "bip_inv me \<Longrightarrow> bipbuf_request me (int n) = (if n \<le> bip_room me then Some (bip_end me) else None)"
  by (auto simp: bipbuf_request_def unused_room bip_end_def)

lemma push_keeps:
  assumes "bip_inv me" "n \<le> bip_room me" "bipbuf_push me (int n) = (r, me')"
  shows "r = int n" "bip_inv me'" "bip_room me \<le> bip_room me' + n" "bip_content me' = bip_content (bip_advance (int n) me)"
  using assms push_advance [OF assms(1,2)] advance_inv [OF assms(1,2)] switch_keeps [OF advance_inv(1) [OF assms(1,2)]]
  by auto

lemma offer_as_push:
  assumes "bip_inv me" "length xs \<le> bip_room me"
  shows "bipbuf_offer me xs = map_sum id (\<lambda>me1. bipbuf_push me1 (int (length xs))) (write_at (bip_end me) xs me)"
proof -
  obtain me1 where w: "write_at (bip_end me) xs me = Inr me1" "bip_inv me1" "bip_room me1 = bip_room me" "b_inuse me1 = b_inuse me"
    using write_keeps [OF assms] by blast
  have "length xs \<le> bip_room me1" using assms(2) w(3) by simp
  from push_advance [OF w(2) this] w assms show ?thesis
    by (auto simp: bipbuf_offer_def Let_def unused_room bip_end_def bip_advance_def split: if_splits)
qed

lemma offer_outcome:
  assumes "bip_inv me"
  shows "\<exists>r me'. bipbuf_offer me xs = Inr (r, me') \<and> bip_inv me' \<and>
    (if length xs \<le> bip_room me then r = int (length xs) \<and> bip_content me' = bip_content me @ xs
     else r = 0 \<and> me' = me)"
proof (cases "length xs \<le> bip_room me")
  case True
  obtain me1 where w: "write_at (bip_end me) xs me = Inr me1" "bip_inv me1" "bip_room me1 = bip_room me"
      "bip_content (bip_advance (int (length xs)) me1) = bip_content me @ xs"
    using write_keeps [OF assms True] by blast
  obtain r me' where p: "bipbuf_push me1 (int (length xs)) = (r, me')" by fastforce
  have "length xs \<le> bip_room me1" using True w(3) by simp
  from push_keeps [OF w(2) this p] w p True show ?thesis by (simp add: offer_as_push [OF assms True])
next
  case False
  then show ?thesis using assms by (simp add: bipbuf_offer_def unused_room Let_def)
qed

lemma poll_sum:
  assumes "bip_inv me" "unat sz \<le> unat (a_end me) - unat (a_start me)"
  shows "unat (a_start me + sz) = unat (a_start me) + unat sz" "\<not> bb_size me < ucast (a_start me + sz)"
proof -
  have le: "unat (a_start me) + unat sz \<le> unat (bb_size me)" "unat (bb_size me) < 2 ^ 31" using assms by (auto simp: bip_inv_def)
  then show u: "unat (a_start me + sz) = unat (a_start me) + unat sz"
    by (simp add: unat_word_ariths)
  show "\<not> bb_size me < ucast (a_start me + sz)" using le by (simp add: word_less_nat_alt unat_64_of_32 u)
qed

lemma poll_outcome:
  assumes inv: "bip_inv me" and ne: "\<not> bipbuf_is_empty me" and sz: "unat sz \<le> unat (a_end me) - unat (a_start me)"
  shows "\<exists>me'. bipbuf_poll me sz = (Some (unat (a_start me)), me') \<and> bip_inv me' \<and>
    read_at (unat (a_start me)) (unat sz) me' = Inr (take (unat sz) (bip_content me)) \<and>
    bip_content me' = drop (unat sz) (bip_content me)"
proof -
  define me1 where "me1 = me\<lparr>a_start := a_start me + sz\<rparr>"
  define me2 where "me2 = (if a_start me1 = a_end me1 then (if 1 = b_inuse me1
      then me1\<lparr>a_start := 0, a_end := b_end me1, b_end := 0, b_inuse := 0\<rparr>
      else me1\<lparr>a_start := 0, a_end := 0\<rparr>) else me1)"
  note sum = poll_sum [OF inv sz]
  have p: "bipbuf_poll me sz = (Some (unat (a_start me)), check_for_switch_to_b me2)"
    using ne sum(2) by (simp add: bipbuf_poll_def me1_def me2_def Let_def)
  have A: "length (region_A me) = unat (a_end me) - unat (a_start me)" using inv by (auto simp: region_A_def bip_inv_def)
  have "bip_inv me2 \<and> bip_content me2 = drop (unat sz) (bip_content me)"
  proof (cases "a_start me1 = a_end me1")
    case True
    then have "unat sz = unat (a_end me) - unat (a_start me)" using sum(1) by (simp add: me1_def)
    moreover have "bip_inv me2" "bip_content me2 = region_B me" using True inv
      by (auto simp: me2_def me1_def bip_inv_def bip_content_def region_A_def region_B_def)
    ultimately show ?thesis using A by (simp add: bip_content_def)
  next
    case False
    then have "bip_inv me2" using inv ne sum(1) sz by (auto simp: me2_def me1_def bip_inv_def bipbuf_is_empty_def)
    moreover have "region_A me2 = drop (unat sz) (region_A me)" "region_B me2 = region_B me" using False sum(1)
      by (simp_all add: me2_def me1_def region_A_def region_B_def drop_take add.commute)
    ultimately show ?thesis using A sz by (simp add: bip_content_def)
  qed
  moreover have "read_at (unat (a_start me)) (unat sz) (check_for_switch_to_b me2) = Inr (take (unat sz) (bip_content me))"
  proof -
    have "bb_data (check_for_switch_to_b me2) = bb_data me"
      by (simp add: check_for_switch_to_b_def me2_def me1_def)
    moreover have "unat (a_start me) + unat sz \<le> unat (bb_size me)" using inv sz by (auto simp: bip_inv_def)
    ultimately show ?thesis using inv sz A by (simp add: read_at_def bip_content_def bip_inv_def region_A_def min_absorb1)
  qed
  ultimately show ?thesis using p switch_keeps [of me2] by simp
qed

section \<open>Queues of bytes\<close>

text \<open>
  What clients do with a buffer: offer bytes; ask for \<open>n\<close> bytes of space, write at most as many
  and push them; look at what can be read in one piece and take at most \<open>n\<close> bytes of it. A run
  collects the bytes that went in and the bytes that came out.
\<close>

datatype queue_op = Offer bytes | Reserve nat bytes | Take nat

fun queue_run :: "('b \<Rightarrow> bytes \<Rightarrow> fault + int \<times> 'b) \<Rightarrow> ('b \<Rightarrow> nat \<Rightarrow> bytes \<Rightarrow> fault + int \<times> 'b) \<Rightarrow>
    ('b \<Rightarrow> nat \<Rightarrow> fault + bytes \<times> 'b) \<Rightarrow> queue_op list \<Rightarrow> 'b \<Rightarrow> fault + bytes \<times> bytes \<times> 'b" where
  "queue_run offer reserve take_op [] b = Inr ([], [], b)"
| "queue_run offer reserve take_op (Offer xs # ops) b =
     (case offer b xs of
        Inl f \<Rightarrow> Inl f
      | Inr (r, b') \<Rightarrow> map_sum id (\<lambda>(i, out, b''). (take (nat r) xs @ i, out, b'')) (queue_run offer reserve take_op ops b'))"
| "queue_run offer reserve take_op (Reserve n xs # ops) b =
     (case reserve b n xs of
        Inl f \<Rightarrow> Inl f
      | Inr (r, b') \<Rightarrow> map_sum id (\<lambda>(i, out, b''). (take (nat r) xs @ i, out, b'')) (queue_run offer reserve take_op ops b'))"
| "queue_run offer reserve take_op (Take n # ops) b =
     (case take_op b n of
        Inl f \<Rightarrow> Inl f
      | Inr (ys, b') \<Rightarrow> map_sum id (\<lambda>(i, out, b''). (i, ys @ out, b'')) (queue_run offer reserve take_op ops b'))"

locale byte_queue =
  fixes inv :: "'b \<Rightarrow> bool" and content :: "'b \<Rightarrow> bytes"
    and offer :: "'b \<Rightarrow> bytes \<Rightarrow> fault + int \<times> 'b" and reserve :: "'b \<Rightarrow> nat \<Rightarrow> bytes \<Rightarrow> fault + int \<times> 'b"
    and take_op :: "'b \<Rightarrow> nat \<Rightarrow> fault + bytes \<times> 'b"
  assumes offer_law: "inv b \<Longrightarrow> \<exists>r b'. offer b xs = Inr (r, b') \<and> inv b' \<and> content b' = content b @ take (nat r) xs"
    and reserve_law: "inv b \<Longrightarrow> \<exists>r b'. reserve b n xs = Inr (r, b') \<and> inv b' \<and> content b' = content b @ take (nat r) xs"
    and take_law: "inv b \<Longrightarrow> \<exists>ys b'. take_op b n = Inr (ys, b') \<and> inv b' \<and> content b = ys @ content b'"
begin

text \<open>First in, first out, for every sequence of calls.\<close>

lemma run_is_fifo:
  "inv b \<Longrightarrow> \<exists>i out b'. queue_run offer reserve take_op ops b = Inr (i, out, b') \<and> inv b' \<and>
     content b @ i = out @ content b'"
proof (induction ops arbitrary: b)
  case (Cons q ops)
  show ?case
  proof (cases q)
    case (Offer xs)
    from offer_law [OF Cons.prems, of xs] Cons.IH show ?thesis by (fastforce simp: Offer)
  next
    case (Reserve n xs)
    from reserve_law [OF Cons.prems, of n xs] Cons.IH show ?thesis by (fastforce simp: Reserve)
  next
    case (Take n)
    from take_law [OF Cons.prems, of n] Cons.IH show ?thesis by (fastforce simp: Take)
  qed
qed simp

end

text \<open>
  The two client patterns on the bip buffer: \<open>bipbuf_request\<close>, a write of at most the requested
  number of bytes, \<open>bipbuf_push\<close> (nothing happens when no pointer is returned or the caller has
  more bytes than it asked space for); \<open>bipbuf_peek_all\<close>, then \<open>bipbuf_poll\<close> of at most the
  size seen, and the read at the pointer it returns.
\<close>

definition bip_reserve :: "bipbuf \<Rightarrow> nat \<Rightarrow> bytes \<Rightarrow> fault + int \<times> bipbuf" where
  "bip_reserve me n xs =
     (case bipbuf_request me (int n) of
        None \<Rightarrow> Inr (0, me)
      | Some off \<Rightarrow>
          if n < length xs then Inr (0, me)
          else map_sum id (\<lambda>me1. bipbuf_push me1 (int (length xs))) (write_at off xs me))"

definition bip_take :: "bipbuf \<Rightarrow> nat \<Rightarrow> fault + bytes \<times> bipbuf" where
  "bip_take me n =
     (case bipbuf_peek_all me of
        None \<Rightarrow> Inr ([], me)
      | Some (off, sz) \<Rightarrow>
          (case bipbuf_poll me (of_nat (min n (unat sz))) of
             (None, me') \<Rightarrow> Inr ([], me')
           | (Some p, me') \<Rightarrow> map_sum id (\<lambda>ys. (ys, me')) (read_at p (min n (unat sz)) me')))"

lemma reserve_outcome:
  assumes "bip_inv me"
  shows "\<exists>r me'. bip_reserve me n xs = Inr (r, me') \<and> bip_inv me' \<and> bip_content me' = bip_content me @ take (nat r) xs"
proof (cases "n \<le> bip_room me \<and> length xs \<le> n")
  case True
  then have room: "length xs \<le> bip_room me" by simp
  have "bip_reserve me n xs = bipbuf_offer me xs"
    using True by (simp add: bip_reserve_def request_end [OF assms] offer_as_push [OF assms room])
  with offer_outcome [OF assms, of xs] room show ?thesis by auto
next
  case False
  then show ?thesis using assms by (auto simp: bip_reserve_def request_end split: option.split)
qed

lemma take_outcome:
  assumes "bip_inv me"
  shows "\<exists>ys me'. bip_take me n = Inr (ys, me') \<and> bip_inv me' \<and> bip_content me = ys @ bip_content me'"
proof (cases "bipbuf_is_empty me")
  case True
  then show ?thesis using assms by (simp add: bip_take_def bipbuf_peek_all_def)
next
  case False
  let ?n = "min n (unat (a_end me - a_start me))"
  have "?n < 2 ^ 32" using unsigned_less [where 'a = nat, of "a_end me - a_start me"] by simp
  then have u: "unat (of_nat ?n :: 32 word) = ?n" by (simp add: unat_of_nat)
  then have "unat (of_nat ?n :: 32 word) \<le> unat (a_end me) - unat (a_start me)"
    using bip_room_unat(3) [OF assms] by simp
  from poll_outcome [OF assms False this] show ?thesis unfolding u
    by (auto simp: bip_take_def bipbuf_peek_all_def False)
qed

interpretation bip: byte_queue bip_inv bip_content bipbuf_offer bip_reserve bip_take
proof
  fix me :: bipbuf and xs :: bytes and n :: nat
  assume inv: "bip_inv me"
  show "\<exists>r b'. bipbuf_offer me xs = Inr (r, b') \<and> bip_inv b' \<and> bip_content b' = bip_content me @ take (nat r) xs"
    using offer_outcome [OF inv, of xs] by (auto split: if_splits)
  show "\<exists>r b'. bip_reserve me n xs = Inr (r, b') \<and> bip_inv b' \<and> bip_content b' = bip_content me @ take (nat r) xs"
    by (rule reserve_outcome [OF inv])
  show "\<exists>ys b'. bip_take me n = Inr (ys, b') \<and> bip_inv b' \<and> bip_content me = ys @ bip_content b'"
    by (rule take_outcome [OF inv])
qed

lemma content_length: "bip_inv me \<Longrightarrow> length (bip_content me) = unat (a_end me) - unat (a_start me) + unat (b_end me)"
  by (auto simp: bip_content_def region_A_def region_B_def bip_inv_def)

lemma content_empty: "bip_inv me \<Longrightarrow> bipbuf_is_empty me \<longleftrightarrow> bip_content me = []"
  using content_length [of me]
  by (auto simp: bipbuf_is_empty_def bip_inv_def word_unat_eq_iff simp flip: length_0_conv)

lemma content_used:
  assumes "bip_inv me"
  shows "bipbuf_used me = int (length (bip_content me))" "length (bip_content me) \<le> unat (bb_size me)"
proof -
  have *: "unat (a_end me) - unat (a_start me) + unat (b_end me) \<le> unat (bb_size me)" "unat (bb_size me) < 2 ^ 31"
    using assms by (auto simp: bip_inv_def)
  then have "unat (a_end me - a_start me + b_end me) = unat (a_end me) - unat (a_start me) + unat (b_end me)"
    using bip_room_unat(3) [OF assms] by (simp add: unat_word_ariths)
  with * show "bipbuf_used me = int (length (bip_content me))" "length (bip_content me) \<le> unat (bb_size me)"
    by (simp_all add: content_length [OF assms] bipbuf_used_def sint_small)
qed

lemma new_inv: "bipbuf_new sz (Some mem) = Some me \<Longrightarrow> length (bb_data mem) = unat sz \<Longrightarrow> unat sz < 2 ^ 31 \<Longrightarrow>
    bip_inv me \<and> bip_content me = [] \<and> bb_size me = ucast sz"
  by (auto simp: bipbuf_new_def bipbuf_init_def bip_inv_def bip_content_def region_A_def region_B_def unat_64_of_32)

text \<open>
  \<open>bipbuf_poll\<close> compares with the size of the array only: more bytes than region A holds are
  given out, and the start moves past the end.
\<close>

lemma poll_overrun:
  "(case bipbuf_offer \<lparr>bb_size = 8, a_start = 0, a_end = 0, b_end = 0, b_inuse = 0, bb_data = replicate 8 0\<rparr> [1, 2] of
      Inr (r, me) \<Rightarrow> fst (bipbuf_poll me 6) = Some 0 \<and> a_end (snd (bipbuf_poll me 6)) < a_start (snd (bipbuf_poll me 6)))"
  by code_simp

end
