(* ===== verification/MC_Assoc.thy ===== *)
theory MC_Assoc
  imports MC_Hash
begin

text \<open>
  The items of the DRAM cache (\<open>struct _stritem\<close> of \<open>src/extra/KVS-DRAM-Cache/memcached.h\<close>) and
  the hash table over them, \<open>src/extra/KVS-DRAM-Cache/assoc.c\<close>: buckets are chains through
  \<open>h_next\<close>; while the table is expanded, a maintenance thread moves one bucket of the old table
  at a time, and lookups choose the table by how far it has come. The items and the table live
  in a record that later theories extend.
\<close>

section \<open>Items\<close>

type_synonym addr = u64

record item =
  it_next :: addr
  it_prev :: addr
  h_next :: addr
  it_time :: u32
  it_exptime :: u32
  it_nbytes :: "32 word"
  it_refcount :: "16 word"
  it_nsuffix :: byte
  it_flags :: byte
  slabs_clsid :: byte
  it_key :: bytes
  it_skey :: u64
  it_vptr :: u64
  it_vtag :: u64
  it_cas :: u64
  it_suffix :: bytes
  it_data :: bytes

section \<open>The table\<close>

text \<open>
  The globals of \<open>assoc.c\<close> with the statistics it updates. \<open>hash_items\<close> and \<open>expand_bucket\<close>
  are \<open>unsigned int\<close>; \<open>hashpower\<close> is a shift count.
\<close>

record assoc =
  mc_items :: "addr \<Rightarrow> item option"
  hashpower :: nat
  primary_hashtable :: "addr list"
  old_hashtable :: "addr list"
  hash_items :: u32
  expanding :: bool
  started_expanding :: bool
  expand_bucket :: u32
  hash_power_level :: nat
  hash_bytes :: u64
  hash_is_expanding :: bool

definition hashsize :: "nat \<Rightarrow> u64" where
  "hashsize n = push_bit n 1"

definition hashmask :: "nat \<Rightarrow> u64" where
  "hashmask n = hashsize n - 1"

text \<open>The argument \<open>ok\<close> says whether \<open>calloc\<close> succeeds; otherwise the process exits (\<open>None\<close>).\<close>

definition assoc_init :: "bool \<Rightarrow> nat \<Rightarrow> 'a assoc_scheme \<Rightarrow> 'a assoc_scheme option" where
  "assoc_init ok hashtable_init s =
     (let s = (if hashtable_init \<noteq> 0 then s\<lparr>hashpower := hashtable_init\<rparr> else s)
      in if \<not> ok then None
         else Some (s\<lparr>primary_hashtable := replicate (unat (hashsize (hashpower s))) 0,
                      hash_power_level := hashpower s,
                      hash_bytes := hashsize (hashpower s) * 8\<rparr>))"

text \<open>A pointer to a pointer to an item: an entry of a table, or the \<open>h_next\<close> of an item.\<close>

datatype hslot = HOld nat | HPrimary nat | HNext addr

definition entry :: "addr list \<Rightarrow> nat \<Rightarrow> fault + addr" where
  "entry t i = (if i < length t then Inr (t ! i) else Inl OutOfBounds)"

fun hslot_get :: "hslot \<Rightarrow> 'a assoc_scheme \<Rightarrow> fault + addr" where
  "hslot_get (HOld b) s = entry (old_hashtable s) b"
| "hslot_get (HPrimary b) s = entry (primary_hashtable s) b"
| "hslot_get (HNext x) s = (case mc_items s x of None \<Rightarrow> Inl AssertFail | Some i \<Rightarrow> Inr (h_next i))"

definition set_h_next :: "addr \<Rightarrow> addr \<Rightarrow> 'a assoc_scheme \<Rightarrow> 'a assoc_scheme" where
  "set_h_next x p s = s\<lparr>mc_items := (mc_items s)(x := map_option (h_next_update (\<lambda>_. p)) (mc_items s x))\<rparr>"

fun hslot_set :: "hslot \<Rightarrow> addr \<Rightarrow> 'a assoc_scheme \<Rightarrow> 'a assoc_scheme" where
  "hslot_set (HOld b) p s = s\<lparr>old_hashtable := (old_hashtable s)[b := p]\<rparr>"
| "hslot_set (HPrimary b) p s = s\<lparr>primary_hashtable := (primary_hashtable s)[b := p]\<rparr>"
| "hslot_set (HNext x) p s = set_h_next x p s"

definition bucket :: "u32 \<Rightarrow> nat \<Rightarrow> nat" where
  "bucket hv n = unat (ucast hv AND hashmask n)"

text \<open>The choice that \<open>assoc_find\<close>, \<open>_hashitem_before\<close> and \<open>assoc_insert\<close> share.\<close>

definition bucket_slot :: "u32 \<Rightarrow> 'a assoc_scheme \<Rightarrow> hslot" where
  "bucket_slot hv s =
     (if expanding s \<and> unat (expand_bucket s) \<le> bucket hv (hashpower s - 1) then HOld (bucket hv (hashpower s - 1))
      else HPrimary (bucket hv (hashpower s)))"

partial_function (option) find_chain :: "bytes \<Rightarrow> addr \<Rightarrow> 'a assoc_scheme \<Rightarrow> (fault + addr) option" where
  "find_chain key it s =
     (if it = 0 then Some (Inr 0)
      else case mc_items s it of
        None \<Rightarrow> Some (Inl AssertFail)
      | Some i \<Rightarrow> if key = it_key i then Some (Inr it) else find_chain key (h_next i) s)"

definition assoc_find :: "bytes \<Rightarrow> u32 \<Rightarrow> 'a assoc_scheme \<Rightarrow> (fault + addr) option" where
  "assoc_find key hv s =
     (case hslot_get (bucket_slot hv s) s of
        Inl f \<Rightarrow> Some (Inl f)
      | Inr it \<Rightarrow> find_chain key it s)"

partial_function (option) before_chain :: "bytes \<Rightarrow> hslot \<Rightarrow> 'a assoc_scheme \<Rightarrow> (fault + hslot) option" where
  "before_chain key pos s =
     (case hslot_get pos s of
        Inl f \<Rightarrow> Some (Inl f)
      | Inr it \<Rightarrow>
          if it = 0 then Some (Inr pos)
          else case mc_items s it of
            None \<Rightarrow> Some (Inl AssertFail)
          | Some i \<Rightarrow> if key = it_key i then Some (Inr pos) else before_chain key (HNext it) s)"

definition hashitem_before :: "bytes \<Rightarrow> u32 \<Rightarrow> 'a assoc_scheme \<Rightarrow> (fault + hslot) option" where
  "hashitem_before key hv s = before_chain key (bucket_slot hv s) s"

definition assoc_expand :: "bool \<Rightarrow> 'a assoc_scheme \<Rightarrow> 'a assoc_scheme" where
  "assoc_expand ok s =
     (let s = s\<lparr>old_hashtable := primary_hashtable s\<rparr>
      in if ok
         then (let s = s\<lparr>primary_hashtable := replicate (unat (hashsize (hashpower s + 1))) 0,
                         hashpower := hashpower s + 1, expanding := True, expand_bucket := 0\<rparr>
               in s\<lparr>hash_power_level := hashpower s, hash_bytes := hash_bytes s + hashsize (hashpower s) * 8,
                    hash_is_expanding := True\<rparr>)
         else s\<lparr>primary_hashtable := old_hashtable s\<rparr>)"

text \<open>Signals the maintenance thread.\<close>

definition assoc_start_expand :: "'a assoc_scheme \<Rightarrow> 'a assoc_scheme" where
  "assoc_start_expand s = (if started_expanding s then s else s\<lparr>started_expanding := True\<rparr>)"

definition assoc_insert :: "addr \<Rightarrow> u32 \<Rightarrow> 'a assoc_scheme \<Rightarrow> fault + int \<times> 'a assoc_scheme" where
  "assoc_insert it hv s =
     (case hslot_get (bucket_slot hv s) s of
        Inl f \<Rightarrow> Inl f
      | Inr p \<Rightarrow>
          if mc_items s it = None then Inl AssertFail
          else
            (let s = hslot_set (bucket_slot hv s) it (set_h_next it p s);
                 s = s\<lparr>hash_items := hash_items s + 1\<rparr>
             in Inr (1, if \<not> expanding s \<and> (hashsize (hashpower s) * 3) div 2 < ucast (hash_items s)
                        then assoc_start_expand s else s)))"

definition assoc_delete :: "bytes \<Rightarrow> u32 \<Rightarrow> 'a assoc_scheme \<Rightarrow> (fault + 'a assoc_scheme) option" where
  "assoc_delete key hv s =
     map_option
       (\<lambda>r. case r of
          Inl f \<Rightarrow> Inl f
        | Inr before \<Rightarrow>
            (case hslot_get before s of
               Inl f \<Rightarrow> Inl f
             | Inr it \<Rightarrow>
                 if it = 0 then Inl AssertFail
                 else case mc_items s it of
                   None \<Rightarrow> Inl AssertFail
                 | Some i \<Rightarrow>
                     Inr (hslot_set before (h_next i) (set_h_next it 0 (s\<lparr>hash_items := hash_items s - 1\<rparr>)))))
       (hashitem_before key hv s)"

text \<open>
  The maintenance thread: one trip of its inner loop moves a bucket when the lock of the bucket
  is free (\<open>lock\<close>), and sleeps otherwise; the inner loop makes \<open>hash_bulk_move\<close> trips, one per
  element of \<open>locks\<close>. After that, when no expansion is going on, it waits for the signal
  (\<open>signalled\<close>) and expands the table.
\<close>

partial_function (option) move_chain :: "(bytes \<Rightarrow> u32) \<Rightarrow> addr \<Rightarrow> 'a assoc_scheme \<Rightarrow> (fault + 'a assoc_scheme) option" where
  "move_chain hash it s =
     (if it = 0 then Some (Inr s)
      else case mc_items s it of
        None \<Rightarrow> Some (Inl AssertFail)
      | Some i \<Rightarrow>
          (let b = bucket (hash (it_key i)) (hashpower s)
           in case entry (primary_hashtable s) b of
                Inl f \<Rightarrow> Some (Inl f)
              | Inr p \<Rightarrow> move_chain hash (h_next i) (hslot_set (HPrimary b) it (set_h_next it p s))))"

definition move_done :: "'a assoc_scheme \<Rightarrow> 'a assoc_scheme" where
  "move_done s =
     (let s = s\<lparr>old_hashtable := (old_hashtable s)[unat (expand_bucket s) := 0], expand_bucket := expand_bucket s + 1\<rparr>
      in if ucast (expand_bucket s) = hashsize (hashpower s - 1)
         then s\<lparr>expanding := False, hash_bytes := hash_bytes s - hashsize (hashpower s - 1) * 8,
                hash_is_expanding := False\<rparr>
         else s)"

definition maintenance_trip :: "(bytes \<Rightarrow> u32) \<Rightarrow> bool \<Rightarrow> 'a assoc_scheme \<Rightarrow> (fault + 'a assoc_scheme) option" where
  "maintenance_trip hash lock s =
     (if \<not> expanding s \<or> \<not> lock then Some (Inr s)
      else case entry (old_hashtable s) (unat (expand_bucket s)) of
        Inl f \<Rightarrow> Some (Inl f)
      | Inr it \<Rightarrow> map_option (map_sum id move_done) (move_chain hash it s))"

fun maintenance_bulk :: "(bytes \<Rightarrow> u32) \<Rightarrow> bool list \<Rightarrow> 'a assoc_scheme \<Rightarrow> (fault + 'a assoc_scheme) option" where
  "maintenance_bulk hash [] s = Some (Inr s)"
| "maintenance_bulk hash (lock # locks) s =
     (case maintenance_trip hash lock s of
        None \<Rightarrow> None | Some (Inl f) \<Rightarrow> Some (Inl f) | Some (Inr s) \<Rightarrow> maintenance_bulk hash locks s)"

definition assoc_maintenance_thread ::
  "(bytes \<Rightarrow> u32) \<Rightarrow> bool list \<Rightarrow> bool \<Rightarrow> bool \<Rightarrow> 'a assoc_scheme \<Rightarrow> (fault + 'a assoc_scheme) option" where
  "assoc_maintenance_thread hash locks signalled ok s =
     map_option
       (map_sum id (\<lambda>s. if expanding s then s
                        else (let s = s\<lparr>started_expanding := False\<rparr> in if signalled then assoc_expand ok s else s)))
       (maintenance_bulk hash locks s)"

end
