(* ===== verification/MC_Assoc_Correct.thy ===== *)
theory MC_Assoc_Correct
  imports MC_Assoc
begin

text \<open>
  The hash table against the map from keys to items it stands for, also in the middle of an
  expansion. The proofs follow the chains: \<open>hpath\<close> is a chain in memory, \<open>assoc_holds\<close> says
  which map a table stands for.
\<close>

section \<open>Chains\<close>

fun hpath :: "(addr \<Rightarrow> item option) \<Rightarrow> addr \<Rightarrow> addr list \<Rightarrow> bool" where
  "hpath its p [] \<longleftrightarrow> p = 0"
| "hpath its p (x # xs) \<longleftrightarrow> p = x \<and> x \<noteq> 0 \<and> (\<exists>i. its x = Some i \<and> hpath its (h_next i) xs)"

lemma hpath_zero [simp]: "hpath its 0 xs \<longleftrightarrow> xs = []"
  by (cases xs) auto

lemma hpath_nonzero: "p \<noteq> 0 \<Longrightarrow> hpath its p xs \<Longrightarrow> \<exists>i ys. xs = p # ys \<and> its p = Some i \<and> hpath its (h_next i) ys"
  by (cases xs) auto

lemma hpath_cong: "(\<And>x. x \<in> set xs \<Longrightarrow> map_option h_next (its' x) = map_option h_next (its x)) \<Longrightarrow>
    hpath its p xs \<Longrightarrow> hpath its' p xs"
proof (induction xs arbitrary: p)
  case (Cons x xs)
  then obtain i where i: "its x = Some i" "hpath its (h_next i) xs" "p = x" "x \<noteq> 0" by auto
  moreover from Cons.prems(1) [of x] i(1) obtain i' where "its' x = Some i'" "h_next i' = h_next i" by auto
  moreover have "hpath its' (h_next i) xs" by (rule Cons.IH) (use Cons.prems(1) i in auto)
  ultimately show ?case by auto
qed simp

lemma hpath_items: "hpath its p xs \<Longrightarrow> x \<in> set xs \<Longrightarrow> x \<noteq> 0 \<and> (\<exists>i. its x = Some i)"
  by (induction xs arbitrary: p) auto

definition key_of :: "'a assoc_scheme \<Rightarrow> addr \<Rightarrow> bytes" where
  "key_of s x = it_key (the (mc_items s x))"

lemma find_chain_hpath:
  "hpath (mc_items s) p xs \<Longrightarrow>
   find_chain key p s = Some (Inr (case find (\<lambda>x. key_of s x = key) xs of None \<Rightarrow> 0 | Some x \<Rightarrow> x))"
proof (induction xs arbitrary: p)
  case Nil
  then show ?case by (simp add: find_chain.simps)
next
  case (Cons x xs)
  then obtain i where i: "mc_items s x = Some i" "hpath (mc_items s) (h_next i) xs" "p = x" "x \<noteq> 0" by auto
  show ?case using Cons.IH [OF i(2)] i by (simp add: find_chain.simps [of key x] key_of_def)
qed

text \<open>Where the search for the pointer to a key ends.\<close>

definition slot_after :: "hslot \<Rightarrow> addr list \<Rightarrow> hslot" where
  "slot_after r as = (if as = [] then r else HNext (last as))"

lemma before_chain_hpath:
  "hslot_get r s = Inr p \<Longrightarrow> hpath (mc_items s) p (as @ bs) \<Longrightarrow>
   (\<forall>x \<in> set as. key_of s x \<noteq> key) \<Longrightarrow> (bs \<noteq> [] \<longrightarrow> key_of s (hd bs) = key) \<Longrightarrow>
   before_chain key r s = Some (Inr (slot_after r as)) \<and> hslot_get (slot_after r as) s = Inr (case bs of [] \<Rightarrow> 0 | x # _ \<Rightarrow> x)"
proof (induction as arbitrary: r p)
  case Nil
  then show ?case
    by (cases bs) (auto simp: before_chain.simps [of key r] slot_after_def key_of_def)
next
  case (Cons a as)
  then obtain i where i: "mc_items s a = Some i" "hpath (mc_items s) (h_next i) (as @ bs)" "p = a" "a \<noteq> 0" by auto
  have "hslot_get (HNext a) s = Inr (h_next i)" using i(1) by simp
  from Cons.IH [OF this i(2)] Cons.prems i show ?case
    by (auto simp: before_chain.simps [of key r] slot_after_def key_of_def)
qed

section \<open>The map of a table\<close>

lemma hashsize_unat: "n \<le> 33 \<Longrightarrow> unat (hashsize n) = 2 ^ n"
proof -
  assume "n \<le> 33"
  then have "n < 64" by simp
  moreover from this have "(2 :: nat) ^ n < 2 ^ 64" by (intro power_strict_increasing) simp_all
  ultimately show ?thesis unfolding hashsize_def unsigned_push_bit_eq by (simp add: push_bit_eq_mult take_bit_nat_eq_self)
qed

lemma bucket_less: "bucket hv n < 2 ^ n \<or> 64 \<le> n"
proof (cases "n < 64")
  case True
  have "hashmask n = mask n" by (simp add: hashmask_def hashsize_def mask_eq_decr_exp push_bit_eq_mult)
  then have "bucket hv n = take_bit n (unat hv)" using True
    by (simp add: bucket_def unsigned_take_bit_eq unsigned_ucast_eq flip: take_bit_eq_mask)
  then show ?thesis by simp
qed simp

definition roots :: "'a assoc_scheme \<Rightarrow> hslot set" where
  "roots s = HPrimary ` {..<2 ^ hashpower s} \<union>
     (if expanding s then HOld ` {unat (expand_bucket s)..<2 ^ (hashpower s - 1)} else {})"

definition tables_ok :: "'a assoc_scheme \<Rightarrow> bool" where
  "tables_ok s \<longleftrightarrow> hashpower s \<le> 32 \<and> length (primary_hashtable s) = 2 ^ hashpower s \<and>
     (expanding s \<longrightarrow> 0 < hashpower s \<and> length (old_hashtable s) = 2 ^ (hashpower s - 1) \<and>
        unat (expand_bucket s) < 2 ^ (hashpower s - 1))"

definition chains :: "(bytes \<Rightarrow> u32) \<Rightarrow> 'a assoc_scheme \<Rightarrow> (hslot \<Rightarrow> addr list) \<Rightarrow> bool" where
  "chains hash s ch \<longleftrightarrow> (\<forall>r \<in> roots s. \<exists>p. hslot_get r s = Inr p \<and> hpath (mc_items s) p (ch r) \<and>
     distinct (map (key_of s) (ch r)) \<and> (\<forall>x \<in> set (ch r). bucket_slot (hash (key_of s x)) s = r))"

definition maps_to :: "(bytes \<Rightarrow> u32) \<Rightarrow> 'a assoc_scheme \<Rightarrow> (hslot \<Rightarrow> addr list) \<Rightarrow> (bytes \<rightharpoonup> addr) \<Rightarrow> bool" where
  "maps_to hash s ch M \<longleftrightarrow>
     (\<forall>k x. M k = Some x \<longleftrightarrow> x \<in> set (ch (bucket_slot (hash k) s)) \<and> key_of s x = k)"

text \<open>The table \<open>s\<close> stands for the map \<open>M\<close>, and counts it.\<close>

definition assoc_holds :: "(bytes \<Rightarrow> u32) \<Rightarrow> 'a assoc_scheme \<Rightarrow> (bytes \<rightharpoonup> addr) \<Rightarrow> bool" where
  "assoc_holds hash s M \<longleftrightarrow> tables_ok s \<and> finite (dom M) \<and> hash_items s = of_nat (card (dom M)) \<and>
     (\<exists>ch. chains hash s ch \<and> maps_to hash s ch M)"

lemma bucket_slot_root: "tables_ok s \<Longrightarrow> bucket_slot hv s \<in> roots s"
  using bucket_less [of hv "hashpower s"] bucket_less [of hv "hashpower s - 1"]
  by (auto simp: bucket_slot_def roots_def tables_ok_def)

lemma find_Some_distinct:
  "distinct (map f xs) \<Longrightarrow> x \<in> set xs \<Longrightarrow> f x = k \<Longrightarrow> find (\<lambda>x. f x = k) xs = Some x"
  by (induction xs) auto

lemma assoc_find_holds:
  assumes "assoc_holds hash s M"
  shows "assoc_find key (hash key) s = Some (Inr (case M key of None \<Rightarrow> 0 | Some x \<Rightarrow> x))"
proof -
  let ?r = "bucket_slot (hash key) s"
  from assms obtain ch where t: "tables_ok s" and c: "chains hash s ch" and m: "maps_to hash s ch M"
    by (auto simp: assoc_holds_def)
  from c bucket_slot_root [OF t] obtain p where p: "hslot_get ?r s = Inr p" "hpath (mc_items s) p (ch ?r)"
    "distinct (map (key_of s) (ch ?r))" unfolding chains_def by blast
  have "find (\<lambda>x. key_of s x = key) (ch ?r) = M key"
  proof (cases "M key")
    case None
    with m have "\<forall>x \<in> set (ch ?r). key_of s x \<noteq> key" unfolding maps_to_def by (metis option.distinct(1))
    then show ?thesis using None by (simp add: find_None_iff)
  next
    case (Some x)
    then have "x \<in> set (ch ?r)" "key_of s x = key" using m by (auto simp: maps_to_def)
    from find_Some_distinct [OF p(3) this] Some show ?thesis by simp
  qed
  with find_chain_hpath [OF p(2), of key] p(1) show ?thesis by (simp add: assoc_find_def)
qed

lemma assoc_init_holds:
  assumes "assoc_init True n s = Some s'" "0 < n \<or> 0 < hashpower s" "n \<le> 32" "hashpower s \<le> 32" "\<not> expanding s" "hash_items s = 0"
  shows "assoc_holds hash s' (\<lambda>_. None)"
proof -
  let ?n = "if n \<noteq> 0 then n else hashpower s"
  have s': "hashpower s' = ?n" "primary_hashtable s' = replicate (2 ^ ?n) 0" "\<not> expanding s'" "hash_items s' = 0"
    using assms by (auto simp: assoc_init_def Let_def hashsize_unat split: if_splits)
  then have "chains hash s' (\<lambda>_. [])" by (auto simp: chains_def roots_def entry_def)
  then show ?thesis using s' assms by (auto simp: assoc_holds_def tables_ok_def maps_to_def intro!: exI [of _ "\<lambda>_. []"])
qed

section \<open>Insertion\<close>

text \<open>What an update of \<open>h_next\<close> leaves alone.\<close>

lemma set_h_next_simps [simp]:
  "hashpower (set_h_next x p s) = hashpower s" "primary_hashtable (set_h_next x p s) = primary_hashtable s"
  "old_hashtable (set_h_next x p s) = old_hashtable s" "expanding (set_h_next x p s) = expanding s"
  "expand_bucket (set_h_next x p s) = expand_bucket s" "hash_items (set_h_next x p s) = hash_items s"
  by (simp_all add: set_h_next_def)

lemma map_items_set_h_next:
  "y \<noteq> x \<Longrightarrow> mc_items (set_h_next x p s) y = mc_items s y"
  "mc_items (set_h_next x p s) x = map_option (h_next_update (\<lambda>_. p)) (mc_items s x)"
  by (simp_all add: set_h_next_def)

lemma key_of_set_h_next [simp]: "mc_items s x \<noteq> None \<Longrightarrow> key_of (set_h_next x p s) y = key_of s y"
  by (auto simp: key_of_def set_h_next_def)

lemma hpath_set_h_next: "hpath (mc_items s) q xs \<Longrightarrow> x \<notin> set xs \<Longrightarrow> hpath (mc_items (set_h_next x p s)) q xs"
  by (rule hpath_cong [of _ _ "mc_items s"]) (auto simp: set_h_next_def)

text \<open>The three kinds of slots hold different pointers.\<close>

lemma hslot_set_root:
  assumes "r \<in> roots s"
  shows "mc_items (hslot_set r p s) = mc_items s" "roots (hslot_set r p s) = roots s"
    "tables_ok (hslot_set r p s) = tables_ok s" "bucket_slot hv (hslot_set r p s) = bucket_slot hv s"
    "hash_items (hslot_set r p s) = hash_items s"
  using assms by (cases r; auto simp: roots_def tables_ok_def bucket_slot_def split: if_splits)+

lemma hslot_get_set_root:
  assumes "r \<in> roots s" "r' \<in> roots s" "tables_ok s"
  shows "hslot_get r' (hslot_set r p s) = (if r' = r then Inr p else hslot_get r' s)"
  using assms by (cases r; cases r') (auto simp: roots_def tables_ok_def entry_def nth_list_update split: if_splits)

lemma roots_set_h_next: "roots (set_h_next x p s) = roots s" "tables_ok (set_h_next x p s) = tables_ok s"
    "bucket_slot hv (set_h_next x p s) = bucket_slot hv s" "r \<in> roots s \<Longrightarrow> hslot_get r (set_h_next x p s) = hslot_get r s"
  by (auto simp: roots_def tables_ok_def bucket_slot_def split: if_splits)

text \<open>Only the table, the chains and the position of the expansion matter.\<close>

lemma assoc_holds_cong:
  assumes "mc_items s' = mc_items s" "hashpower s' = hashpower s" "primary_hashtable s' = primary_hashtable s"
    "old_hashtable s' = old_hashtable s" "expanding s' = expanding s" "expand_bucket s' = expand_bucket s"
  shows "tables_ok s' = tables_ok s" "chains hash s' ch = chains hash s ch" "maps_to hash s' ch M = maps_to hash s ch M"
    "key_of s' = key_of s" "roots s' = roots s" "bucket_slot hv s' = bucket_slot hv s"
proof -
  show t: "tables_ok s' = tables_ok s" "key_of s' = key_of s" "roots s' = roots s" "bucket_slot hv s' = bucket_slot hv s" for hv
    using assms by (simp_all add: tables_ok_def key_of_def [abs_def] roots_def bucket_slot_def)
  have "hslot_get r s' = hslot_get r s" for r using assms by (cases r) simp_all
  then show "chains hash s' ch = chains hash s ch" "maps_to hash s' ch M = maps_to hash s ch M"
    using t assms by (simp_all add: chains_def maps_to_def)
qed

lemma chain_member:
  assumes "chains hash s ch" "maps_to hash s ch M" "r \<in> roots s" "x \<in> set (ch r)"
  shows "M (key_of s x) = Some x"
proof -
  have "bucket_slot (hash (key_of s x)) s = r" using assms(1,3,4) unfolding chains_def by blast
  moreover have "(M (key_of s x) = Some x) = (x \<in> set (ch (bucket_slot (hash (key_of s x)) s)) \<and> key_of s x = key_of s x)"
    using assms(2) unfolding maps_to_def by simp
  ultimately show ?thesis using assms(4) by simp
qed

text \<open>A new item at the head of a chain.\<close>

lemma push_item:
  assumes t: "tables_ok s" and c: "chains hash s ch" and m: "maps_to hash s ch M"
    and x: "mc_items s x = Some i" "x \<noteq> 0" "\<forall>k. M k \<noteq> Some x" and k: "M (it_key i) = None"
    and r: "r = bucket_slot (hash (it_key i)) s" and p: "hslot_get r s = Inr p"
  shows "chains hash (hslot_set r x (set_h_next x p s)) (ch(r := x # ch r))"
    "maps_to hash (hslot_set r x (set_h_next x p s)) (ch(r := x # ch r)) (M(it_key i \<mapsto> x))"
proof -
  let ?s = "set_h_next x p s" and ?s' = "hslot_set r x (set_h_next x p s)" and ?ch = "ch(r := x # ch r)"
  have rr: "r \<in> roots s" unfolding r by (rule bucket_slot_root [OF t])
  then have rs: "r \<in> roots ?s" by (simp add: roots_set_h_next)
  note same = hslot_set_root [OF rs] roots_set_h_next
  have key: "key_of ?s' = key_of s" using x(1) by (rule_tac ext, simp add: key_of_def same) (auto simp: set_h_next_def)
  have kx: "key_of s x = it_key i" using x(1) by (simp add: key_of_def)
  have fresh: "x \<notin> set (ch q)" if "q \<in> roots s" for q using chain_member [OF c m that] x(3) by blast
  have slot: "bucket_slot hv ?s' = bucket_slot hv s" for hv by (simp add: same)
  show "chains hash ?s' ?ch" unfolding chains_def
  proof
    fix q assume "q \<in> roots ?s'"
    then have q: "q \<in> roots s" by (simp add: same)
    with c obtain p' where p': "hslot_get q s = Inr p'" "hpath (mc_items s) p' (ch q)" "distinct (map (key_of s) (ch q))"
      "\<forall>x \<in> set (ch q). bucket_slot (hash (key_of s x)) s = q" unfolding chains_def by blast
    have path: "hpath (mc_items ?s') p' (ch q)" using hpath_set_h_next [OF p'(2) fresh [OF q]] by (simp add: same)
    have get: "hslot_get q ?s' = (if q = r then Inr x else Inr p')"
      using hslot_get_set_root [OF rs, of q x] q t p'(1) by (simp add: same)
    show "\<exists>p. hslot_get q ?s' = Inr p \<and> hpath (mc_items ?s') p (?ch q) \<and> distinct (map (key_of ?s') (?ch q)) \<and>
        (\<forall>x \<in> set (?ch q). bucket_slot (hash (key_of ?s' x)) ?s' = q)"
    proof (cases "q = r")
      case True
      have "p' = p" using True p p'(1) by simp
      moreover have "mc_items ?s' x = Some (i\<lparr>h_next := p\<rparr>)" using x(1) by (simp add: same map_items_set_h_next)
      moreover have "it_key i \<notin> key_of s ` set (ch r)"
      proof
        assume "it_key i \<in> key_of s ` set (ch r)"
        then show False using m k r unfolding maps_to_def by (metis imageE option.distinct(1))
      qed
      ultimately show ?thesis using p' path get x(2) by (simp add: True key kx slot r [symmetric])
    next
      case False
      then show ?thesis using p' path get by (simp add: key slot)
    qed
  qed
  show "maps_to hash ?s' ?ch (M(it_key i \<mapsto> x))" unfolding maps_to_def same key
  proof (intro allI)
    fix k' y
    show "((M(it_key i \<mapsto> x)) k' = Some y) = (y \<in> set (?ch (bucket_slot (hash k') s)) \<and> key_of s y = k')"
    proof (cases "k' = it_key i")
      case True
      then have "\<not> (y \<in> set (ch r) \<and> key_of s y = k')" using m k r unfolding maps_to_def by (metis option.distinct(1))
      then show ?thesis using kx by (auto simp: True r [symmetric])
    next
      case False
      have "(M k' = Some y) = (y \<in> set (ch (bucket_slot (hash k') s)) \<and> key_of s y = k')"
        using m unfolding maps_to_def by blast
      then show ?thesis using False kx by auto
    qed
  qed
qed

lemma assoc_insert_holds:
  assumes h: "assoc_holds hash s M" and x: "mc_items s x = Some i" "x \<noteq> 0" "\<forall>k. M k \<noteq> Some x" and k: "M (it_key i) = None"
  shows "\<exists>s'. assoc_insert x (hash (it_key i)) s = Inr (1, s') \<and> assoc_holds hash s' (M(it_key i \<mapsto> x)) \<and>
    (\<forall>y. map_option (h_next_update (\<lambda>_. 0)) (mc_items s' y) = map_option (h_next_update (\<lambda>_. 0)) (mc_items s y))"
proof -
  from h obtain ch where t: "tables_ok s" and c: "chains hash s ch" and m: "maps_to hash s ch M" and fin: "finite (dom M)"
    and n: "hash_items s = of_nat (card (dom M))" by (auto simp: assoc_holds_def)
  define r where "r = bucket_slot (hash (it_key i)) s"
  have rr: "r \<in> roots s" unfolding r_def by (rule bucket_slot_root [OF t])
  then obtain p where p: "hslot_get r s = Inr p" using c unfolding chains_def by blast
  define s1 where "s1 = hslot_set r x (set_h_next x p s)"
  define s2 where "s2 = s1\<lparr>hash_items := hash_items s1 + 1\<rparr>"
  define s3 where "s3 = (if \<not> expanding s2 \<and> (hashsize (hashpower s2) * 3) div 2 < ucast (hash_items s2) then assoc_start_expand s2 else s2)"
  have ins: "assoc_insert x (hash (it_key i)) s = Inr (1, s3)"
    using p x by (simp add: assoc_insert_def r_def s1_def s2_def s3_def Let_def)
  note one = push_item [OF t c m x k r_def p, folded s1_def]
  have rs: "r \<in> roots (set_h_next x p s)" using rr by (simp add: roots_set_h_next)
  have s3: "mc_items s3 = mc_items s1" "hashpower s3 = hashpower s1" "primary_hashtable s3 = primary_hashtable s1"
    "old_hashtable s3 = old_hashtable s1" "expanding s3 = expanding s1" "expand_bucket s3 = expand_bucket s1"
    "hash_items s3 = hash_items s1 + 1" by (simp_all add: s3_def s2_def assoc_start_expand_def)
  have "tables_ok s3" using t by (simp add: assoc_holds_cong(1) [OF s3(1-6)] s1_def hslot_set_root [OF rs] roots_set_h_next)
  moreover have "chains hash s3 (ch(r := x # ch r))" "maps_to hash s3 (ch(r := x # ch r)) (M(it_key i \<mapsto> x))"
    using one assoc_holds_cong(2,3) [OF s3(1-6)] by simp_all
  moreover have "hash_items s3 = of_nat (card (dom (M(it_key i \<mapsto> x))))"
    using n fin k s3(7) by (simp add: s1_def hslot_set_root [OF rs] domIff card_insert_if)
  ultimately have "assoc_holds hash s3 (M(it_key i \<mapsto> x))" using fin by (auto simp: assoc_holds_def)
  moreover have "map_option (h_next_update (\<lambda>_. 0)) (mc_items s3 y) = map_option (h_next_update (\<lambda>_. 0)) (mc_items s y)" for y
    unfolding s3(1) s1_def hslot_set_root(1) [OF rs]
    by (cases "y = x") (simp_all add: map_items_set_h_next option.map_comp comp_def)
  ultimately show ?thesis using ins by blast
qed

section \<open>Deletion\<close>

lemma hpath_bypass:
  "hpath its p (as @ x # bs) \<Longrightarrow> as \<noteq> [] \<Longrightarrow> distinct (as @ x # bs) \<Longrightarrow> its x = Some i \<Longrightarrow>
   hpath (its(last as := map_option (h_next_update (\<lambda>_. h_next i)) (its (last as)))) p (as @ bs)"
proof (induction as arbitrary: p)
  case (Cons a as)
  from Cons.prems(1) obtain j where j: "p = a" "a \<noteq> 0" "its a = Some j" "hpath its (h_next j) (as @ x # bs)" by auto
  show ?case
  proof (cases "as = []")
    case True
    then have "hpath its (h_next i) bs" using j(4) Cons.prems(4) by auto
    then have "hpath (its(a \<mapsto> j\<lparr>h_next := h_next i\<rparr>)) (h_next i) bs"
      by (rule hpath_cong [rotated]) (use Cons.prems(3) in auto)
    then show ?thesis using j True by (simp add: fun_upd_def)
  next
    case False
    have "hpath (its(last as := map_option (h_next_update (\<lambda>_. h_next i)) (its (last as)))) (h_next j) (as @ bs)"
      by (rule Cons.IH [OF j(4) False]) (use Cons.prems(3,4) in auto)
    moreover have "last as \<noteq> a" using False Cons.prems(3) last_in_set by fastforce
    ultimately show ?thesis using j False by (simp add: fun_upd_def)
  qed
qed simp

lemma hpath_append: "hpath its p (as @ bs) \<Longrightarrow> \<exists>q. hpath its q bs"
  by (induction as arbitrary: p) auto

lemma unlink_item:
  assumes t: "tables_ok s" and c: "chains hash s ch" and m: "maps_to hash s ch M"
    and r: "r = bucket_slot (hash key) s" and split: "ch r = as @ x # bs" "key_of s x = key" and i: "mc_items s x = Some i"
  defines "s' \<equiv> hslot_set (slot_after r as) (h_next i) (set_h_next x 0 s)"
  shows "tables_ok s'" "hash_items s' = hash_items s" "chains hash s' (ch(r := as @ bs))" "maps_to hash s' (ch(r := as @ bs)) (M(key := None))"
    "\<forall>y. map_option (h_next_update (\<lambda>_. 0)) (mc_items s' y) = map_option (h_next_update (\<lambda>_. 0)) (mc_items s y)"
proof -
  have rr: "r \<in> roots s" unfolding r by (rule bucket_slot_root [OF t])
  then have rs: "r \<in> roots (set_h_next x 0 s)" by (simp add: roots_set_h_next)
  from c rr obtain p where p: "hslot_get r s = Inr p" "hpath (mc_items s) p (ch r)" "distinct (map (key_of s) (ch r))"
    unfolding chains_def by blast
  have dist: "distinct (as @ x # bs)" using p(3) split by (metis distinct_map)
  have lnx: "as \<noteq> [] \<Longrightarrow> last as \<noteq> x" using dist last_in_set by fastforce
  have items: "mc_items s' = (if as = [] then mc_items (set_h_next x 0 s)
      else (mc_items (set_h_next x 0 s))(last as := map_option (h_next_update (\<lambda>_. h_next i)) (mc_items s (last as))))"
    using lnx by (simp add: s'_def slot_after_def hslot_set_root [OF rs]) (simp add: set_h_next_def)
  have only_next: "map_option (h_next_update (\<lambda>_. 0)) (mc_items s' y) = map_option (h_next_update (\<lambda>_. 0)) (mc_items s y)" for y
    by (auto simp: items set_h_next_def option.map_comp comp_def)
  then show "\<forall>y. map_option (h_next_update (\<lambda>_. 0)) (mc_items s' y) = map_option (h_next_update (\<lambda>_. 0)) (mc_items s y)" by blast
  have same: "roots s' = roots s" "tables_ok s' = tables_ok s" "bucket_slot hv s' = bucket_slot hv s" "hash_items s' = hash_items s" for hv
    by (auto simp: s'_def slot_after_def hslot_set_root [OF rs] roots_set_h_next)
  then show "tables_ok s'" "hash_items s' = hash_items s" using t by simp_all
  have key: "key_of s' = key_of s"
  proof
    fix y
    have "map_option it_key (map_option (h_next_update (\<lambda>_. 0)) (mc_items s' y)) =
        map_option it_key (map_option (h_next_update (\<lambda>_. 0)) (mc_items s y))" by (simp only: only_next)
    then show "key_of s' y = key_of s y"
      by (cases "mc_items s y"; cases "mc_items s' y") (auto simp: key_of_def option.map_comp comp_def)
  qed
  have get: "hslot_get q s' = (if q = r \<and> as = [] then Inr (h_next i) else hslot_get q s)" if "q \<in> roots s" for q
    using that hslot_get_set_root [OF rs, of q] t by (auto simp: s'_def slot_after_def roots_set_h_next)
  have other: "hpath (mc_items s') q ys" if "hpath (mc_items s) q ys" "x \<notin> set ys" "last as \<notin> set ys \<or> as = []" for q ys
  proof (rule hpath_cong [OF _ that(1)])
    fix y assume "y \<in> set ys"
    with that(2,3) have "y \<noteq> x" "as = [] \<or> y \<noteq> last as" by auto
    then show "map_option h_next (mc_items s' y) = map_option h_next (mc_items s y)"
      by (auto simp: items map_items_set_h_next)
  qed
  show "chains hash s' (ch(r := as @ bs))" unfolding chains_def
  proof
    fix q assume "q \<in> roots s'"
    then have q: "q \<in> roots s" by (simp add: same)
    with c obtain p' where p': "hslot_get q s = Inr p'" "hpath (mc_items s) p' (ch q)" "distinct (map (key_of s) (ch q))"
      "\<forall>x \<in> set (ch q). bucket_slot (hash (key_of s x)) s = q" unfolding chains_def by blast
    show "\<exists>p. hslot_get q s' = Inr p \<and> hpath (mc_items s') p ((ch(r := as @ bs)) q) \<and>
        distinct (map (key_of s') ((ch(r := as @ bs)) q)) \<and> (\<forall>x \<in> set ((ch(r := as @ bs)) q). bucket_slot (hash (key_of s' x)) s' = q)"
    proof (cases "q = r")
      case True
      have path: "hpath (mc_items s') (if as = [] then h_next i else p') (as @ bs)"
      proof (cases "as = []")
        case as: True
        then have "hpath (mc_items s) (h_next i) bs" using p'(2) split(1) True i by auto
        then show ?thesis using other dist as by simp
      next
        case False
        have "hpath ((mc_items s)(last as := map_option (h_next_update (\<lambda>_. h_next i)) (mc_items s (last as)))) p' (as @ bs)"
          by (rule hpath_bypass [of _ _ as x]) (use p'(2) True split(1) False dist i in simp_all)
        then have "hpath (mc_items s') p' (as @ bs)"
        proof (rule hpath_cong [rotated])
          fix y assume "y \<in> set (as @ bs)"
          with dist have "y \<noteq> x" by auto
          then show "map_option h_next (mc_items s' y) = map_option h_next
              (((mc_items s)(last as := map_option (h_next_update (\<lambda>_. h_next i)) (mc_items s (last as)))) y)"
            using False by (simp add: items map_items_set_h_next)
        qed
        then show ?thesis using False by simp
      qed
      have "distinct (map (key_of s) (as @ bs))" using p(3) split(1) by simp
      then show ?thesis using path get [OF q] p' True split(1) by (cases "as = []") (simp_all add: key same)
    next
      case False
      have "\<forall>y \<in> set (ch r). bucket_slot (hash (key_of s y)) s = r" using c rr unfolding chains_def by blast
      then have "set (ch q) \<inter> set (ch r) = {}" using p'(4) False by fastforce
      then have "x \<notin> set (ch q)" "last as \<notin> set (ch q) \<or> as = []" using split(1) last_in_set [of as] by auto
      from other [OF p'(2) this] show ?thesis using False get [OF q] p' by (simp add: key same)
    qed
  qed
  show "maps_to hash s' (ch(r := as @ bs)) (M(key := None))" unfolding maps_to_def same key
  proof (intro allI)
    fix k' y
    have M: "(M k' = Some y) = (y \<in> set (ch (bucket_slot (hash k') s)) \<and> key_of s y = k')" using m unfolding maps_to_def by blast
    have "key \<notin> key_of s ` set (as @ bs)" using p(3) split by auto
    then have no: "\<not> (y \<in> set (as @ bs) \<and> key_of s y = key)" by blast
    show "((M(key := None)) k' = Some y) = (y \<in> set ((ch(r := as @ bs)) (bucket_slot (hash k') s)) \<and> key_of s y = k')"
    proof (cases "k' = key")
      case True
      then show ?thesis using no by (simp add: r [symmetric])
    next
      case False
      then show ?thesis using M split by auto
    qed
  qed
qed

lemma assoc_delete_holds:
  assumes h: "assoc_holds hash s M" and k: "M key = Some x"
  shows "\<exists>s'. assoc_delete key (hash key) s = Some (Inr s') \<and> assoc_holds hash s' (M(key := None)) \<and>
    (\<forall>y. map_option (h_next_update (\<lambda>_. 0)) (mc_items s' y) = map_option (h_next_update (\<lambda>_. 0)) (mc_items s y))"
proof -
  from h obtain ch where t: "tables_ok s" and c: "chains hash s ch" and m: "maps_to hash s ch M" and fin: "finite (dom M)"
    and n: "hash_items s = of_nat (card (dom M))" by (auto simp: assoc_holds_def)
  define r where "r = bucket_slot (hash key) s"
  have rr: "r \<in> roots s" unfolding r_def by (rule bucket_slot_root [OF t])
  from c rr obtain p where p: "hslot_get r s = Inr p" "hpath (mc_items s) p (ch r)" "distinct (map (key_of s) (ch r))"
    unfolding chains_def by blast
  have "x \<in> set (ch r)" and kx: "key_of s x = key" using m k unfolding maps_to_def r_def by auto
  then obtain as bs where split: "ch r = as @ x # bs" by (meson split_list)
  obtain i where i: "mc_items s x = Some i" "x \<noteq> 0" using hpath_items [OF p(2)] split by auto
  have "\<forall>y \<in> set as. key_of s y \<noteq> key" using p(3) split kx by (auto simp: image_iff)
  with before_chain_hpath [OF p(1), of as "x # bs" key] p(2) split kx
  have before: "before_chain key r s = Some (Inr (slot_after r as))" "hslot_get (slot_after r as) s = Inr x" by auto
  define s0 where "s0 = s\<lparr>hash_items := hash_items s - 1\<rparr>"
  have cong: "mc_items s0 = mc_items s" "hashpower s0 = hashpower s" "primary_hashtable s0 = primary_hashtable s"
    "old_hashtable s0 = old_hashtable s" "expanding s0 = expanding s" "expand_bucket s0 = expand_bucket s" by (simp_all add: s0_def)
  define s' where "s' = hslot_set (slot_after r as) (h_next i) (set_h_next x 0 s0)"
  have del: "assoc_delete key (hash key) s = Some (Inr s')"
    using before i by (simp add: assoc_delete_def hashitem_before_def r_def [symmetric] s'_def s0_def)
  note un = unlink_item [of s0 hash ch M r key as x bs i, folded s'_def, unfolded assoc_holds_cong [OF cong] cong(1),
      OF t c m r_def split kx i(1)]
  have "hash_items s' = of_nat (card (dom M) - 1)"
  proof -
    have "1 \<le> card (dom M)" using k fin by (auto simp: Suc_le_eq card_gt_0_iff)
    then show ?thesis using un(2) n by (simp add: s0_def of_nat_diff)
  qed
  moreover have "card (dom (M(key := None))) = card (dom M) - 1" using k fin by (simp add: domI)
  ultimately have "assoc_holds hash s' (M(key := None))" using un fin by (auto simp: assoc_holds_def)
  with del un(5) show ?thesis by blast
qed

lemma assoc_delete_absent:
  assumes h: "assoc_holds hash s M" and k: "M key = None"
  shows "assoc_delete key (hash key) s = Some (Inl AssertFail)"
proof -
  from h obtain ch where t: "tables_ok s" and c: "chains hash s ch" and m: "maps_to hash s ch M"
    by (auto simp: assoc_holds_def)
  define r where "r = bucket_slot (hash key) s"
  have rr: "r \<in> roots s" unfolding r_def by (rule bucket_slot_root [OF t])
  from c rr obtain p where p: "hslot_get r s = Inr p" "hpath (mc_items s) p (ch r)" unfolding chains_def by blast
  have "\<forall>y \<in> set (ch r). key_of s y \<noteq> key" using m k unfolding maps_to_def r_def by (metis option.distinct(1))
  with before_chain_hpath [OF p(1), of "ch r" "[]" key] p(2)
  show ?thesis by (simp add: assoc_delete_def hashitem_before_def r_def [symmetric])
qed

section \<open>Expansion\<close>

lemma assoc_expand_holds:
  assumes h: "assoc_holds hash s M" and e: "\<not> expanding s" "hashpower s < 32"
  shows "assoc_holds hash (assoc_expand ok s) M"
proof (cases ok)
  case False
  have "mc_items (assoc_expand ok s) = mc_items s" "hashpower (assoc_expand ok s) = hashpower s"
    "primary_hashtable (assoc_expand ok s) = primary_hashtable s" "expanding (assoc_expand ok s) = expanding s"
    "expand_bucket (assoc_expand ok s) = expand_bucket s" "hash_items (assoc_expand ok s) = hash_items s"
    using False by (simp_all add: assoc_expand_def)
  note same = this
  let ?s = "assoc_expand ok s"
  have "tables_ok ?s = tables_ok s" "roots ?s = roots s" "key_of ?s = key_of s" "bucket_slot hv ?s = bucket_slot hv s"
    "r \<in> roots s \<Longrightarrow> hslot_get r ?s = hslot_get r s" for r hv
    using same e by (auto simp: tables_ok_def roots_def key_of_def [abs_def] bucket_slot_def)
  then show ?thesis using h same by (simp add: assoc_holds_def chains_def maps_to_def cong: bex_cong ball_cong)
next
  case True
  let ?s = "assoc_expand ok s"
  from h obtain ch where t: "tables_ok s" and c: "chains hash s ch" and m: "maps_to hash s ch M"
    by (auto simp: assoc_holds_def)
  define ch' where "ch' r = (case r of HOld b \<Rightarrow> ch (HPrimary b) | _ \<Rightarrow> [])" for r
  have same: "mc_items ?s = mc_items s" "hashpower ?s = hashpower s + 1" "expanding ?s" "expand_bucket ?s = 0"
    "old_hashtable ?s = primary_hashtable s" "primary_hashtable ?s = replicate (2 ^ (hashpower s + 1)) 0" "hash_items ?s = hash_items s"
    using True e by (simp_all add: assoc_expand_def Let_def hashsize_unat)
  have key: "key_of ?s = key_of s" by (simp add: key_of_def [abs_def] same)
  have slot: "bucket_slot hv ?s = HOld (bucket hv (hashpower s))" "bucket_slot hv s = HPrimary (bucket hv (hashpower s))" for hv
    using e by (simp_all add: bucket_slot_def same)
  have "tables_ok ?s" using t e by (simp add: tables_ok_def same)
  moreover have "chains hash ?s ch'" unfolding chains_def
  proof
    fix r assume r: "r \<in> roots ?s"
    show "\<exists>p. hslot_get r ?s = Inr p \<and> hpath (mc_items ?s) p (ch' r) \<and> distinct (map (key_of ?s) (ch' r)) \<and>
        (\<forall>x \<in> set (ch' r). bucket_slot (hash (key_of ?s x)) ?s = r)"
    proof (cases r)
      case (HOld b)
      then have "HPrimary b \<in> roots s" using r by (auto simp: roots_def same)
      with c obtain p where "hslot_get (HPrimary b) s = Inr p" "hpath (mc_items s) p (ch (HPrimary b))"
        "distinct (map (key_of s) (ch (HPrimary b)))" "\<forall>x \<in> set (ch (HPrimary b)). bucket_slot (hash (key_of s x)) s = HPrimary b"
        unfolding chains_def by blast
      then show ?thesis by (simp add: HOld same key slot ch'_def)
    next
      case (HPrimary b)
      then have "b < 2 ^ (hashpower s + 1)" using r by (auto simp: roots_def same)
      then show ?thesis by (simp add: HPrimary same ch'_def entry_def)
    next
      case (HNext x)
      then show ?thesis using r by (auto simp: roots_def split: if_splits)
    qed
  qed
  moreover have "maps_to hash ?s ch' M" using m by (simp add: maps_to_def slot key ch'_def)
  ultimately show ?thesis using h by (auto simp: assoc_holds_def same)
qed

text \<open>
  A chain is moved item by item: each goes to the head of its new bucket, the other chains stay.
\<close>

lemma move_chain_moves:
  "hpath (mc_items s) p ys \<Longrightarrow> distinct ys \<Longrightarrow> hashpower s \<le> 32 \<Longrightarrow> length (primary_hashtable s) = 2 ^ hashpower s \<Longrightarrow>
   (\<forall>b < 2 ^ hashpower s. hpath (mc_items s) (primary_hashtable s ! b) (c b) \<and> set (c b) \<inter> set ys = {}) \<Longrightarrow>
   \<exists>s'. move_chain hash p s = Some (Inr s') \<and>
     hashpower s' = hashpower s \<and> old_hashtable s' = old_hashtable s \<and> expanding s' = expanding s \<and>
     expand_bucket s' = expand_bucket s \<and> hash_items s' = hash_items s \<and> length (primary_hashtable s') = 2 ^ hashpower s \<and>
     key_of s' = key_of s \<and>
     (\<forall>y. map_option (h_next_update (\<lambda>_. 0)) (mc_items s' y) = map_option (h_next_update (\<lambda>_. 0)) (mc_items s y)) \<and>
     (\<forall>b < 2 ^ hashpower s. hpath (mc_items s') (primary_hashtable s' ! b)
        (rev (filter (\<lambda>x. bucket (hash (key_of s x)) (hashpower s) = b) ys) @ c b)) \<and>
     (\<forall>q zs. hpath (mc_items s) q zs \<and> set zs \<inter> set ys = {} \<longrightarrow> hpath (mc_items s') q zs)"
proof (induction ys arbitrary: p s c)
  case Nil
  then show ?case by (simp add: move_chain.simps)
next
  case (Cons y ys)
  from Cons.prems(1) obtain i where i: "p = y" "y \<noteq> 0" "mc_items s y = Some i" "hpath (mc_items s) (h_next i) ys" by auto
  let ?b = "bucket (hash (it_key i)) (hashpower s)"
  have b: "?b < 2 ^ hashpower s" using bucket_less [of "hash (it_key i)" "hashpower s"] Cons.prems(3) by auto
  let ?q = "primary_hashtable s ! ?b"
  define s1 where "s1 = hslot_set (HPrimary ?b) y (set_h_next y ?q s)"
  have s1: "hashpower s1 = hashpower s" "old_hashtable s1 = old_hashtable s" "expanding s1 = expanding s"
    "expand_bucket s1 = expand_bucket s" "hash_items s1 = hash_items s"
    "primary_hashtable s1 = (primary_hashtable s)[?b := y]" "mc_items s1 = mc_items (set_h_next y ?q s)"
    by (simp_all add: s1_def)
  have key: "key_of s1 = key_of s" using i(3) by (intro ext) (simp add: key_of_def s1 set_h_next_def)
  have ky: "key_of s y = it_key i" using i(3) by (simp add: key_of_def)
  let ?c = "\<lambda>b. if b = ?b then y # c b else c b"
  have frame: "hpath (mc_items s1) q zs" if "hpath (mc_items s) q zs" "y \<notin> set zs" for q zs
    using hpath_set_h_next [OF that] by (simp add: s1)
  have "\<forall>b < 2 ^ hashpower s1. hpath (mc_items s1) (primary_hashtable s1 ! b) (?c b) \<and> set (?c b) \<inter> set ys = {}"
  proof (intro allI impI)
    fix b' :: nat assume "b' < 2 ^ hashpower s1"
    then have b': "hpath (mc_items s) (primary_hashtable s ! b') (c b')" "set (c b') \<inter> set (y # ys) = {}"
      using Cons.prems(5) by (auto simp: s1)
    from frame [OF b'(1)] b'(2) show "hpath (mc_items s1) (primary_hashtable s1 ! b') (?c b') \<and> set (?c b') \<inter> set ys = {}"
      using Cons.prems(2,4) b i by (auto simp: s1 map_items_set_h_next)
  qed
  moreover have "hpath (mc_items s1) (h_next i) ys" using frame i(4) Cons.prems(2) by simp
  ultimately obtain s' where s': "move_chain hash (h_next i) s1 = Some (Inr s')"
    "hashpower s' = hashpower s \<and> old_hashtable s' = old_hashtable s \<and> expanding s' = expanding s \<and>
     expand_bucket s' = expand_bucket s \<and> hash_items s' = hash_items s \<and> length (primary_hashtable s') = 2 ^ hashpower s"
    "key_of s' = key_of s"
    "\<forall>y. map_option (h_next_update (\<lambda>_. 0)) (mc_items s' y) = map_option (h_next_update (\<lambda>_. 0)) (mc_items s1 y)"
    "\<forall>b < 2 ^ hashpower s. hpath (mc_items s') (primary_hashtable s' ! b)
        (rev (filter (\<lambda>x. bucket (hash (key_of s x)) (hashpower s) = b) ys) @ ?c b)"
    "\<forall>q zs. hpath (mc_items s1) q zs \<and> set zs \<inter> set ys = {} \<longrightarrow> hpath (mc_items s') q zs"
    using Cons.IH [of s1 "h_next i" ?c] Cons.prems(2-4) by (auto simp: s1 key)
  have go: "move_chain hash p s = Some (Inr s')"
    using s'(1) i b Cons.prems(4) by (simp add: move_chain.simps [of hash y] entry_def s1_def Let_def)
  have "map_option (h_next_update (\<lambda>_. 0)) (mc_items s1 z) = map_option (h_next_update (\<lambda>_. 0)) (mc_items s z)" for z
    by (simp add: s1 set_h_next_def option.map_comp comp_def)
  moreover have "rev (filter (\<lambda>x. bucket (hash (key_of s x)) (hashpower s) = b) (y # ys)) @ c b =
      rev (filter (\<lambda>x. bucket (hash (key_of s x)) (hashpower s) = b) ys) @ ?c b" for b by (simp add: ky)
  ultimately show ?case using go s' frame by (intro exI [of _ s']) auto
qed

text \<open>How many buckets are still to be moved.\<close>

definition moves_left :: "'a assoc_scheme \<Rightarrow> nat" where
  "moves_left s = (if expanding s then 2 ^ (hashpower s - 1) - unat (expand_bucket s) else 0)"

lemma expand_bucket_Suc:
  assumes "tables_ok s" "expanding s"
  shows "unat (expand_bucket s + 1) = unat (expand_bucket s) + 1"
    "ucast (expand_bucket s + 1) = hashsize (hashpower s - 1) \<longleftrightarrow> unat (expand_bucket s) + 1 = 2 ^ (hashpower s - 1)"
proof -
  have le: "(2 :: nat) ^ (hashpower s - 1) \<le> 2 ^ 31" using assms by (intro power_increasing) (auto simp: tables_ok_def)
  then have u: "unat (expand_bucket s + 1) = unat (expand_bucket s) + 1"
    using assms by (auto simp: tables_ok_def unat_word_ariths)
  show "unat (expand_bucket s + 1) = unat (expand_bucket s) + 1" by (rule u)
  have n: "hashpower s - 1 \<le> 33" using assms by (auto simp: tables_ok_def)
  have "ucast (expand_bucket s + 1) = hashsize (hashpower s - 1) \<longleftrightarrow>
      unat (ucast (expand_bucket s + 1) :: u64) = unat (hashsize (hashpower s - 1))" by (simp add: word_unat_eq_iff)
  moreover have "unat (ucast (expand_bucket s + 1) :: u64) = unat (expand_bucket s + 1)"
  proof -
    have "unat (expand_bucket s + 1) < 2 ^ 32" using unsigned_less [where 'a = nat, of "expand_bucket s + 1"] by simp
    then show ?thesis by (simp add: unsigned_ucast_eq take_bit_nat_eq_self)
  qed
  ultimately show "ucast (expand_bucket s + 1) = hashsize (hashpower s - 1) \<longleftrightarrow> unat (expand_bucket s) + 1 = 2 ^ (hashpower s - 1)"
    using hashsize_unat [OF n] by (simp add: u)
qed

lemma maintenance_trip_holds:
  assumes h: "assoc_holds hash s M" and e: "expanding s"
  shows "\<exists>s'. maintenance_trip hash True s = Some (Inr s') \<and> assoc_holds hash s' M \<and>
    hashpower s' = hashpower s \<and> moves_left s' = moves_left s - 1 \<and> (expanding s' \<longleftrightarrow> moves_left s' \<noteq> 0) \<and>
    (\<forall>y. map_option (h_next_update (\<lambda>_. 0)) (mc_items s' y) = map_option (h_next_update (\<lambda>_. 0)) (mc_items s y))"
proof -
  from h obtain ch where t: "tables_ok s" and c: "chains hash s ch" and m: "maps_to hash s ch M" by (auto simp: assoc_holds_def)
  let ?e = "unat (expand_bucket s)"
  have e_less: "?e < 2 ^ (hashpower s - 1)" and hp: "hashpower s \<le> 32" "0 < hashpower s"
    and lens: "length (primary_hashtable s) = 2 ^ hashpower s" "length (old_hashtable s) = 2 ^ (hashpower s - 1)"
    using t e by (auto simp: tables_ok_def)
  have root_e: "HOld ?e \<in> roots s" using e e_less by (simp add: roots_def)
  define ys where "ys = ch (HOld ?e)"
  have ch: "hpath (mc_items s) p (ch r)" "distinct (map (key_of s) (ch r))" "x \<in> set (ch r) \<Longrightarrow> bucket_slot (hash (key_of s x)) s = r"
    if "r \<in> roots s" "hslot_get r s = Inr p" for r p x using c that unfolding chains_def by force+
  have old: "hslot_get (HOld ?e) s = Inr (old_hashtable s ! ?e)" using e_less lens by (simp add: entry_def)
  note ys = ch [OF root_e old, folded ys_def]
  have prim: "HPrimary b \<in> roots s" "hslot_get (HPrimary b) s = Inr (primary_hashtable s ! b)" if "b < 2 ^ hashpower s" for b
    using that lens by (simp_all add: roots_def entry_def)
  have "\<forall>b < 2 ^ hashpower s. hpath (mc_items s) (primary_hashtable s ! b) (ch (HPrimary b)) \<and> set (ch (HPrimary b)) \<inter> set ys = {}"
  proof (intro allI impI conjI)
    fix b :: nat assume b: "b < 2 ^ hashpower s"
    show "hpath (mc_items s) (primary_hashtable s ! b) (ch (HPrimary b))" by (rule ch(1) [OF prim [OF b]])
    show "set (ch (HPrimary b)) \<inter> set ys = {}" using ch(3) [OF prim [OF b]] ys(3) by fastforce
  qed
  moreover have "distinct ys" using ys(2) by (simp add: distinct_map)
  ultimately obtain s1 where s1: "move_chain hash (old_hashtable s ! ?e) s = Some (Inr s1)"
    "hashpower s1 = hashpower s" "old_hashtable s1 = old_hashtable s" "expanding s1 = expanding s"
    "expand_bucket s1 = expand_bucket s" "hash_items s1 = hash_items s" "length (primary_hashtable s1) = 2 ^ hashpower s"
    "key_of s1 = key_of s"
    "\<forall>y. map_option (h_next_update (\<lambda>_. 0)) (mc_items s1 y) = map_option (h_next_update (\<lambda>_. 0)) (mc_items s y)"
    "\<forall>b < 2 ^ hashpower s. hpath (mc_items s1) (primary_hashtable s1 ! b)
        (rev (filter (\<lambda>x. bucket (hash (key_of s x)) (hashpower s) = b) ys) @ ch (HPrimary b))"
    "\<forall>q zs. hpath (mc_items s) q zs \<and> set zs \<inter> set ys = {} \<longrightarrow> hpath (mc_items s1) q zs"
    using move_chain_moves [OF ys(1) _ hp(1) lens(1), of "\<lambda>b. ch (HPrimary b)" hash] by auto
  define s2 where "s2 = move_done s1"
  have trip: "maintenance_trip hash True s = Some (Inr s2)"
    using e s1(1) e_less lens by (simp add: maintenance_trip_def entry_def s2_def)
  note Suc_e = expand_bucket_Suc [OF t e]
  have s2: "mc_items s2 = mc_items s1" "hashpower s2 = hashpower s" "primary_hashtable s2 = primary_hashtable s1"
    "old_hashtable s2 = (old_hashtable s)[?e := 0]" "unat (expand_bucket s2) = ?e + 1" "hash_items s2 = hash_items s"
    "expanding s2 \<longleftrightarrow> ?e + 1 \<noteq> 2 ^ (hashpower s - 1)"
    using s1(2-6) Suc_e e by (simp_all add: s2_def move_done_def Let_def)
  have key: "key_of s2 = key_of s" using s1(8) by (simp add: key_of_def [abs_def] s2)
  have slot: "bucket_slot hv s = (if ?e \<le> bucket hv (hashpower s - 1) then HOld (bucket hv (hashpower s - 1)) else HPrimary (bucket hv (hashpower s)))" for hv
    using e by (simp add: bucket_slot_def)
  have slot2: "bucket_slot hv s2 = (if ?e < bucket hv (hashpower s - 1) then HOld (bucket hv (hashpower s - 1)) else HPrimary (bucket hv (hashpower s)))" for hv
    using bucket_less [of hv "hashpower s - 1"] hp by (auto simp: bucket_slot_def s2)
  have roots2: "roots s2 = HPrimary ` {..<2 ^ hashpower s} \<union> HOld ` {?e + 1..<2 ^ (hashpower s - 1)}"
    by (auto simp: roots_def s2)
  define ch2 where "ch2 r = (case r of HPrimary b \<Rightarrow> rev (filter (\<lambda>x. bucket (hash (key_of s x)) (hashpower s) = b) ys) @ ch r | _ \<Rightarrow> ch r)" for r
  have "tables_ok s2" using e s1(7) e_less hp lens by (auto simp: tables_ok_def s2)
  moreover have "chains hash s2 ch2" unfolding chains_def
  proof
    fix r assume r: "r \<in> roots s2"
    show "\<exists>p. hslot_get r s2 = Inr p \<and> hpath (mc_items s2) p (ch2 r) \<and> distinct (map (key_of s2) (ch2 r)) \<and>
        (\<forall>x \<in> set (ch2 r). bucket_slot (hash (key_of s2 x)) s2 = r)"
    proof (cases r)
      case (HOld b)
      then have b: "?e < b" "b < 2 ^ (hashpower s - 1)" using r by (auto simp: roots2)
      then have rs: "HOld b \<in> roots s" "hslot_get (HOld b) s = Inr (old_hashtable s ! b)"
        using e lens by (auto simp: roots_def entry_def)
      have "set (ch (HOld b)) \<inter> set ys = {}" using ch(3) [OF rs] ys(3) b(1) by fastforce
      then have "hpath (mc_items s1) (old_hashtable s ! b) (ch (HOld b))" using s1(11) ch(1) [OF rs] by blast
      moreover have "bucket_slot (hash (key_of s x)) s2 = HOld b" if "x \<in> set (ch (HOld b))" for x
        using ch(3) [OF rs that] b by (auto simp: slot slot2 split: if_splits)
      ultimately show ?thesis using b ch(2) [OF rs] lens by (simp add: HOld ch2_def s2 key entry_def)
    next
      case (HPrimary b)
      then have b: "b < 2 ^ hashpower s" using r by (auto simp: roots2)
      note pb = prim [OF b]
      have "key_of s ` set ys \<inter> key_of s ` set (ch (HPrimary b)) = {}" using ch(3) [OF pb] ys(3) by fastforce
      then have "distinct (map (key_of s) (ch2 r))" using ys(2) ch(2) [OF pb]
        by (auto simp: HPrimary ch2_def distinct_map inj_on_def simp flip: rev_map)
      moreover have "bucket_slot (hash (key_of s x)) s2 = HPrimary b" if "x \<in> set (ch2 r)" for x
      proof -
        from that consider "x \<in> set ys" "bucket (hash (key_of s x)) (hashpower s) = b" | "x \<in> set (ch (HPrimary b))"
          by (auto simp: HPrimary ch2_def)
        then show ?thesis
        proof cases
          case 1 then show ?thesis using ys(3) [of x] by (auto simp: slot slot2 split: if_splits)
        next
          case 2 then show ?thesis using ch(3) [OF pb, of x] by (auto simp: slot slot2 split: if_splits)
        qed
      qed
      ultimately show ?thesis using b s1(7,10) by (simp add: HPrimary s2 key entry_def ch2_def)
    next
      case (HNext x)
      then show ?thesis using r by (auto simp: roots2)
    qed
  qed
  moreover have "maps_to hash s2 ch2 M" unfolding maps_to_def key
  proof (intro allI)
    fix k x
    have M: "(M k = Some x) = (x \<in> set (ch (bucket_slot (hash k) s)) \<and> key_of s x = k)" using m unfolding maps_to_def by blast
    have b: "bucket (hash k) (hashpower s) < 2 ^ hashpower s" using bucket_less [of "hash k" "hashpower s"] hp by auto
    show "(M k = Some x) = (x \<in> set (ch2 (bucket_slot (hash k) s2)) \<and> key_of s x = k)"
      using M ys(3) [of x] ch(3) [OF prim [OF b], of x] by (auto simp: slot slot2 ch2_def ys_def split: if_splits)
  qed
  ultimately have "assoc_holds hash s2 M" using h by (auto simp: assoc_holds_def s2)
  moreover have "moves_left s2 = moves_left s - 1 \<and> (expanding s2 \<longleftrightarrow> moves_left s2 \<noteq> 0)"
    using e e_less by (auto simp: moves_left_def s2)
  ultimately show ?thesis using trip s1(9) by (simp add: s2)
qed

text \<open>A whole run of the inner loop, whatever the locks do.\<close>

lemma maintenance_bulk_holds:
  "assoc_holds hash s M \<Longrightarrow>
   \<exists>s'. maintenance_bulk hash locks s = Some (Inr s') \<and> assoc_holds hash s' M \<and> hashpower s' = hashpower s \<and>
     moves_left s' = moves_left s - length (filter id locks) \<and> (expanding s' \<longleftrightarrow> expanding s \<and> length (filter id locks) < moves_left s) \<and>
     (\<forall>y. map_option (h_next_update (\<lambda>_. 0)) (mc_items s' y) = map_option (h_next_update (\<lambda>_. 0)) (mc_items s y))"
proof (induction locks arbitrary: s)
  case Nil
  then show ?case by (auto simp: moves_left_def assoc_holds_def tables_ok_def)
next
  case (Cons lock locks)
  show ?case
  proof (cases "expanding s \<and> lock")
    case True
    with maintenance_trip_holds [OF Cons.prems] obtain s1 where s1: "maintenance_trip hash True s = Some (Inr s1)"
      "assoc_holds hash s1 M" "hashpower s1 = hashpower s" "moves_left s1 = moves_left s - 1" "expanding s1 \<longleftrightarrow> moves_left s1 \<noteq> 0"
      "\<forall>y. map_option (h_next_update (\<lambda>_. 0)) (mc_items s1 y) = map_option (h_next_update (\<lambda>_. 0)) (mc_items s y)" by blast
    from Cons.IH [OF s1(2)] s1 True show ?thesis by fastforce
  next
    case False
    then have "maintenance_trip hash lock s = Some (Inr s)" by (auto simp: maintenance_trip_def)
    moreover have "lock \<Longrightarrow> moves_left s = 0 \<and> \<not> expanding s" using False by (simp add: moves_left_def)
    ultimately show ?thesis using Cons.IH [OF Cons.prems] by (cases lock) auto
  qed
qed

section \<open>Interleavings\<close>

text \<open>
  The states of the table in any order of the calls of the cache and of the maintenance thread,
  together with the map they stand for. A caller inserts an item that is not in the table under
  a key that is not, and deletes keys that are, as the comments of \<open>assoc.c\<close> demand; expansions
  stop at \<open>2 ^ 32\<close> buckets, beyond which the counter of the moved buckets would wrap.
\<close>

inductive assoc_runs :: "(bytes \<Rightarrow> u32) \<Rightarrow> assoc \<Rightarrow> (bytes \<rightharpoonup> addr) \<Rightarrow> assoc \<Rightarrow> (bytes \<rightharpoonup> addr) \<Rightarrow> bool"
  for hash :: "bytes \<Rightarrow> u32" and s0 :: assoc and M0 :: "bytes \<rightharpoonup> addr" where
  runs_refl: "assoc_runs hash s0 M0 s0 M0"
| runs_insert: "assoc_runs hash s0 M0 s M \<Longrightarrow> mc_items s x = Some i \<Longrightarrow> x \<noteq> 0 \<Longrightarrow> \<forall>k. M k \<noteq> Some x \<Longrightarrow> M (it_key i) = None \<Longrightarrow>
    assoc_insert x (hash (it_key i)) s = Inr (r, s') \<Longrightarrow> assoc_runs hash s0 M0 s' (M(it_key i \<mapsto> x))"
| runs_delete: "assoc_runs hash s0 M0 s M \<Longrightarrow> M key \<noteq> None \<Longrightarrow> assoc_delete key (hash key) s = Some (Inr s') \<Longrightarrow>
    assoc_runs hash s0 M0 s' (M(key := None))"
| runs_maintain: "assoc_runs hash s0 M0 s M \<Longrightarrow> hashpower s < 32 \<Longrightarrow>
    assoc_maintenance_thread hash locks signalled ok s = Some (Inr s') \<Longrightarrow> assoc_runs hash s0 M0 s' M"

lemma maintenance_thread_holds:
  assumes "assoc_holds hash s M" "hashpower s < 32"
  shows "\<exists>s'. assoc_maintenance_thread hash locks signalled ok s = Some (Inr s') \<and> assoc_holds hash s' M"
proof -
  obtain s1 where s1: "maintenance_bulk hash locks s = Some (Inr s1)" "assoc_holds hash s1 M" "hashpower s1 = hashpower s"
    using maintenance_bulk_holds [OF assms(1)] by blast
  define s2 where "s2 = s1\<lparr>started_expanding := False\<rparr>"
  have c: "mc_items s2 = mc_items s1" "hashpower s2 = hashpower s1" "primary_hashtable s2 = primary_hashtable s1"
    "old_hashtable s2 = old_hashtable s1" "expanding s2 = expanding s1" "expand_bucket s2 = expand_bucket s1"
    "hash_items s2 = hash_items s1" by (simp_all add: s2_def)
  have "assoc_holds hash s2 M" using s1(2) assoc_holds_cong [OF c(1-6)] c(7) by (simp add: assoc_holds_def)
  with assoc_expand_holds [OF this, of ok] s1 assms(2) c show ?thesis
    by (simp add: assoc_maintenance_thread_def Let_def s2_def)
qed

lemma assoc_runs_holds: "assoc_runs hash s0 M0 s M \<Longrightarrow> assoc_holds hash s0 M0 \<Longrightarrow> assoc_holds hash s M"
proof (induction rule: assoc_runs.induct)
  case (runs_insert s M x i r s')
  then show ?case using assoc_insert_holds [of hash s M x i] by (auto simp: fun_upd_def)
next
  case (runs_delete s M key s')
  then obtain x where "M key = Some x" by auto
  then show ?case using assoc_delete_holds [of hash s M key x] runs_delete by (auto simp: fun_upd_def)
next
  case (runs_maintain s M locks signalled ok s')
  then show ?case using maintenance_thread_holds [of hash s M locks signalled ok] by auto
qed

end
