(* ===== verification/MC_Slabs.thy ===== *)
theory MC_Slabs
  imports MC_Assoc "HOL-Library.Monad_Syntax"
begin

text \<open>
  The slab allocator of the DRAM cache, \<open>src/extra/KVS-DRAM-Cache/slabs.c\<close>: pages of memory are
  cut into chunks of one size per class, and the free chunks of a class form a doubly linked
  list. Operations are written in the option monad: \<open>None\<close> is a failed \<open>assert\<close>, an access
  outside of an array or of memory that holds no item, or a call that does not return. A chunk
  of a large item (\<open>struct _strchunk\<close>) has the layout of an item with other names for some
  fields, and is read as one.
\<close>

section \<open>Settings and memory\<close>

unbundle bit_operations_syntax

text \<open>
  The fields of \<open>struct settings\<close> that slabs and items read; \<open>cache_mode\<close> is the compile-time
  constant \<open>CACHE_MODE\<close>. A C \<open>int\<close> is a \<open>32 word\<close> and converts to \<open>size_t\<close> with its sign.
\<close>

record settings_t =
  maxbytes :: u64
  oldest_live :: u32
  oldest_cas :: u64
  evict_to_free :: bool
  use_cas :: bool
  chunk_size :: u32
  item_size_max :: u32
  slab_chunk_size_max :: u32
  slab_page_size :: u32
  lru_segmented :: bool
  slab_reassign :: bool
  slab_automove :: u32
  tail_repair_time :: u32
  hot_lru_pct :: u32
  warm_lru_pct :: u32
  inline_ascii_response :: bool
  temp_lru :: bool
  temporary_ttl :: u32
  cache_mode :: nat

text \<open>\<open>sizeof(struct _stritem)\<close>: the short-cut fields exist in modes 1, 2 and 3 only.\<close>

definition sizeof_item :: "settings_t \<Rightarrow> u64" where
  "sizeof_item c = (if cache_mode c \<in> {1, 2, 3} then 72 else 48)"

definition sizeof_item_chunk :: u64 where
  "sizeof_item_chunk = 48"

definition ITEM_LINKED :: byte where "ITEM_LINKED = 1"
definition ITEM_CAS :: byte where "ITEM_CAS = 2"
definition ITEM_SLABBED :: byte where "ITEM_SLABBED = 4"
definition ITEM_FETCHED :: byte where "ITEM_FETCHED = 8"
definition ITEM_ACTIVE :: byte where "ITEM_ACTIVE = 16"
definition ITEM_CHUNKED :: byte where "ITEM_CHUNKED = 32"
definition ITEM_CHUNK :: byte where "ITEM_CHUNK = 64"

lemmas item_flag_defs = ITEM_LINKED_def ITEM_CAS_def ITEM_SLABBED_def ITEM_FETCHED_def ITEM_ACTIVE_def
  ITEM_CHUNKED_def ITEM_CHUNK_def

definition has :: "byte \<Rightarrow> item \<Rightarrow> bool" where
  "has f i \<longleftrightarrow> it_flags i AND f \<noteq> 0"

definition set_flag :: "byte \<Rightarrow> item \<Rightarrow> item" where
  "set_flag f i = i\<lparr>it_flags := it_flags i OR f\<rparr>"

definition clear_flag :: "byte \<Rightarrow> item \<Rightarrow> item" where
  "clear_flag f i = i\<lparr>it_flags := it_flags i AND NOT f\<rparr>"

definition ITEM_get_cas :: "item \<Rightarrow> u64" where
  "ITEM_get_cas i = (if has ITEM_CAS i then it_cas i else 0)"

definition ITEM_set_cas :: "u64 \<Rightarrow> item \<Rightarrow> item" where
  "ITEM_set_cas v i = (if has ITEM_CAS i then i\<lparr>it_cas := v\<rparr> else i)"

definition ITEM_ntotal :: "settings_t \<Rightarrow> item \<Rightarrow> u64" where
  "ITEM_ntotal c i = sizeof_item c + of_nat (length (it_key i)) + 1 + ucast (it_nsuffix i) + scast (it_nbytes i) +
     (if has ITEM_CAS i then 8 else 0)"

text \<open>The address of the data of an item, where a large item has its first chunk.\<close>

definition ITEM_data :: "settings_t \<Rightarrow> addr \<Rightarrow> item \<Rightarrow> addr" where
  "ITEM_data c x i = x + sizeof_item c + of_nat (length (it_key i)) + 1 + ucast (it_nsuffix i) +
     (if has ITEM_CAS i then 8 else 0)"

definition ITEM_clsid :: "item \<Rightarrow> nat" where
  "ITEM_clsid i = unat (slabs_clsid i AND 63)"

definition ITEM_lruid :: "item \<Rightarrow> nat" where
  "ITEM_lruid i = unat (slabs_clsid i AND 192)"

text \<open>The fields of a chunk under the names of the item fields at the same offsets.\<close>

abbreviation (input) chunk_head :: "item \<Rightarrow> addr" where "chunk_head \<equiv> h_next"
abbreviation (input) chunk_size_of :: "item \<Rightarrow> u32" where "chunk_size_of \<equiv> it_time"
abbreviation (input) chunk_used :: "item \<Rightarrow> u32" where "chunk_used \<equiv> it_exptime"
abbreviation (input) orig_clsid :: "item \<Rightarrow> byte" where "orig_clsid \<equiv> it_nsuffix"

definition zero_item :: item where
  "zero_item = \<lparr>it_next = 0, it_prev = 0, h_next = 0, it_time = 0, it_exptime = 0, it_nbytes = 0, it_refcount = 0,
     it_nsuffix = 0, it_flags = 0, slabs_clsid = 0, it_key = [], it_skey = 0, it_vptr = 0, it_vtag = 0, it_cas = 0,
     it_suffix = [], it_data = []\<rparr>"

section \<open>State\<close>

record slabclass_t =
  sc_size :: u32
  perslab :: u32
  slots :: addr
  sl_curr :: u32
  slabs :: u32
  slab_list :: "addr list"
  requested :: u64

record slab_rebalance =
  slab_start :: addr
  slab_end :: addr
  slab_pos :: addr
  s_clsid :: int
  d_clsid :: int
  busy_items :: u32
  rescues :: u32
  evictions_nomem :: u32
  inline_reclaim :: u32
  chunk_rescues :: u32
  busy_deletes :: u32
  busy_loops :: u32
  rebal_done :: byte

text \<open>
  The globals of \<open>slabs.c\<close>. \<open>mallocs\<close> are the results of the coming calls of \<open>malloc\<close> and
  \<open>realloc\<close>, zero for a failure; \<open>pick_cur\<close> is the static variable of \<open>slabs_reassign_pick_any\<close>;
  \<open>rebalance_locked\<close> says whether another thread holds \<open>slabs_rebalance_lock\<close>.
\<close>

record slab_state = assoc +
  settings :: settings_t
  current_time :: u32
  slabclass :: "slabclass_t list"
  mem_limit :: u64
  mem_malloced :: u64
  mem_limit_reached :: bool
  power_largest :: nat
  mem_base :: addr
  mem_current :: addr
  mem_avail :: u64
  slab_rebal :: slab_rebalance
  slab_rebalance_signal :: nat
  pick_cur :: nat
  rebalance_locked :: bool
  slab_reassign_running :: bool
  mallocs :: "addr list"

definition assertion :: "bool \<Rightarrow> unit option" where
  "assertion b = (if b then Some () else None)"

lemma assertion_simps [simp]: "assertion True = Some ()" "assertion False = None"
  by (simp_all add: assertion_def)

definition upd_item :: "addr \<Rightarrow> (item \<Rightarrow> item) \<Rightarrow> 'a assoc_scheme \<Rightarrow> 'a assoc_scheme option" where
  "upd_item x f s =
     (case mc_items s x of None \<Rightarrow> None | Some i \<Rightarrow> Some (s\<lparr>mc_items := (mc_items s)(x \<mapsto> f i)\<rparr>))"

text \<open>\<open>if (p) p->prev = q\<close>, and the same for \<open>next\<close>.\<close>

definition set_prev :: "addr \<Rightarrow> addr \<Rightarrow> 'a assoc_scheme \<Rightarrow> 'a assoc_scheme option" where
  "set_prev p q s = (if p = 0 then Some s else upd_item p (it_prev_update (\<lambda>_. q)) s)"

definition set_next :: "addr \<Rightarrow> addr \<Rightarrow> 'a assoc_scheme \<Rightarrow> 'a assoc_scheme option" where
  "set_next p q s = (if p = 0 then Some s else upd_item p (it_next_update (\<lambda>_. q)) s)"

definition get_class :: "nat \<Rightarrow> 'a slab_state_scheme \<Rightarrow> slabclass_t option" where
  "get_class cid s = (if cid < length (slabclass s) then Some (slabclass s ! cid) else None)"

definition upd_class :: "nat \<Rightarrow> (slabclass_t \<Rightarrow> slabclass_t) \<Rightarrow> 'a slab_state_scheme \<Rightarrow> 'a slab_state_scheme" where
  "upd_class cid f s = s\<lparr>slabclass := (slabclass s)[cid := f (slabclass s ! cid)]\<rparr>"

definition malloc :: "'a slab_state_scheme \<Rightarrow> addr \<times> 'a slab_state_scheme" where
  "malloc s = (case mallocs s of [] \<Rightarrow> (0, s) | p # ps \<Rightarrow> (p, s\<lparr>mallocs := ps\<rparr>))"

section \<open>Size classes\<close>

text \<open>
  \<open>slabs_init\<close>. The growth of chunk sizes is floating-point arithmetic and an argument: \<open>grow\<close> is
  \<open>size *= factor\<close>, \<open>too_big\<close> the test \<open>size >= settings.slab_chunk_size_max / factor\<close>. Sizes
  given by the user come in \<open>slab_sizes\<close>, an array that ends with zero. A division by a zero
  size is a fault.
\<close>

definition align_chunk :: "u32 \<Rightarrow> u32" where
  "align_chunk sz = (if sz mod 8 \<noteq> 0 then sz + (8 - sz mod 8) else sz)"

definition next_size :: "(u32 \<Rightarrow> bool) \<Rightarrow> u32 list option \<Rightarrow> nat \<Rightarrow> u32 \<Rightarrow> u32 option" where
  "next_size too_big slab_sizes i sz =
     (case slab_sizes of
        Some xs \<Rightarrow> if i - 1 < length xs \<and> xs ! (i - 1) \<noteq> 0 then Some (xs ! (i - 1)) else None
      | None \<Rightarrow> if too_big sz then None else Some sz)"

definition new_class :: "settings_t \<Rightarrow> u32 \<Rightarrow> slabclass_t" where
  "new_class c sz = \<lparr>sc_size = sz, perslab = slab_page_size c div sz, slots = 0, sl_curr = 0, slabs = 0, slab_list = [],
     requested = 0\<rparr>"

definition no_class :: slabclass_t where
  "no_class = \<lparr>sc_size = 0, perslab = 0, slots = 0, sl_curr = 0, slabs = 0, slab_list = [], requested = 0\<rparr>"

function init_classes ::
  "settings_t \<Rightarrow> (u32 \<Rightarrow> u32) \<Rightarrow> (u32 \<Rightarrow> bool) \<Rightarrow> u32 list option \<Rightarrow> nat \<Rightarrow> u32 \<Rightarrow> slabclass_t list \<Rightarrow>
     (nat \<times> slabclass_t list) option" where
  "init_classes c grow too_big slab_sizes i sz cl =
     (if Suc i < 63
      then case next_size too_big slab_sizes (Suc i) sz of
          None \<Rightarrow> Some (Suc i, cl)
        | Some sz \<Rightarrow>
            (let sz = align_chunk sz
             in if sz = 0 then None
                else init_classes c grow too_big slab_sizes (Suc i)
                       (if slab_sizes = None then grow sz else sz) (cl[Suc i := new_class c sz]))
      else Some (Suc i, cl))"
  by pat_completeness auto
termination by (relation "measure (\<lambda>(c, g, t, ss, i, sz, cl). 63 - i)") auto

section \<open>Pages and free lists\<close>

text \<open>
  \<open>slabs_clsid\<close> walks up from class 1 and stops at the first class that is large enough, or at the
  largest.
\<close>

definition slabs_clsid_of :: "u64 \<Rightarrow> 'a slab_state_scheme \<Rightarrow> nat" where
  "slabs_clsid_of sz s =
     (if sz = 0 \<or> scast (item_size_max (settings s)) < sz then 0
      else case find (\<lambda>r. sz \<le> ucast (sc_size (slabclass s ! r))) [1..<Suc (power_largest s)] of
             Some r \<Rightarrow> r | None \<Rightarrow> power_largest s)"

definition do_slabs_free_push :: "addr \<Rightarrow> nat \<Rightarrow> 'a slab_state_scheme \<Rightarrow> 'a slab_state_scheme option" where
  "do_slabs_free_push x cid s =
     do {
       p \<leftarrow> get_class cid s;
       s \<leftarrow> upd_item x (\<lambda>i. i\<lparr>it_prev := 0, it_next := slots p\<rparr>) s;
       s \<leftarrow> set_prev (slots p) x s;
       Some (upd_class cid (\<lambda>p. p\<lparr>slots := x, sl_curr := sl_curr p + 1\<rparr>) s)
     }"

text \<open>The chain of chunks of a large item goes back to the classes of the chunks.\<close>

partial_function (option) free_chunks :: "addr \<Rightarrow> 'a slab_state_scheme \<Rightarrow> 'a slab_state_scheme option" where
  "free_chunks x s =
     (if x = 0 then Some s
      else do {
        ch \<leftarrow> mc_items s x;
        assertion (it_flags ch = ITEM_CHUNK);
        s \<leftarrow> upd_item x (\<lambda>i. i\<lparr>it_flags := ITEM_SLABBED, slabs_clsid := 0\<rparr>) s;
        s \<leftarrow> do_slabs_free_push x (unat (slabs_clsid ch)) s;
        free_chunks (it_next ch)
          (upd_class (unat (slabs_clsid ch))
             (\<lambda>p. p\<lparr>requested := requested p - (scast (chunk_size_of ch) + sizeof_item_chunk)\<rparr>) s)
      })"

definition do_slabs_free_chunked :: "addr \<Rightarrow> 'a slab_state_scheme \<Rightarrow> 'a slab_state_scheme option" where
  "do_slabs_free_chunked x s =
     do {
       i \<leftarrow> mc_items s x;
       ch \<leftarrow> mc_items s (ITEM_data (settings s) x i);
       s \<leftarrow> upd_item x (\<lambda>i. i\<lparr>it_flags := ITEM_SLABBED, slabs_clsid := 0, it_prev := 0\<rparr>) s;
       s \<leftarrow> set_prev (it_next ch) 0 s;
       s \<leftarrow> do_slabs_free_push x (unat (orig_clsid ch)) s;
       free_chunks (it_next ch)
         (upd_class (unat (orig_clsid ch))
            (\<lambda>p. p\<lparr>requested := requested p - (of_nat (length (it_key i)) + 1 + ucast (it_nsuffix i) +
                     sizeof_item (settings s) + sizeof_item_chunk) - (if use_cas (settings s) then 8 else 0)\<rparr>) s)
     }"

definition do_slabs_free :: "addr \<Rightarrow> u64 \<Rightarrow> nat \<Rightarrow> 'a slab_state_scheme \<Rightarrow> 'a slab_state_scheme option" where
  "do_slabs_free x sz cid s =
     do {
       assertion (1 \<le> cid \<and> cid \<le> power_largest s);
       i \<leftarrow> mc_items s x;
       if \<not> has ITEM_CHUNKED i
       then do {
         s \<leftarrow> upd_item x (\<lambda>i. i\<lparr>it_flags := ITEM_SLABBED, slabs_clsid := 0\<rparr>) s;
         s \<leftarrow> do_slabs_free_push x cid s;
         Some (upd_class cid (\<lambda>p. p\<lparr>requested := requested p - sz\<rparr>) s)
       }
       else do_slabs_free_chunked x s
     }"

fun split_slab_page_into_freelist :: "nat \<Rightarrow> addr \<Rightarrow> nat \<Rightarrow> 'a slab_state_scheme \<Rightarrow> 'a slab_state_scheme option" where
  "split_slab_page_into_freelist 0 ptr cid s = Some s"
| "split_slab_page_into_freelist (Suc n) ptr cid s =
     do {
       s \<leftarrow> do_slabs_free ptr 0 cid s;
       p \<leftarrow> get_class cid s;
       split_slab_page_into_freelist n (ptr + ucast (sc_size p)) cid s
     }"

definition grow_slab_list :: "nat \<Rightarrow> 'a slab_state_scheme \<Rightarrow> (bool \<times> 'a slab_state_scheme) option" where
  "grow_slab_list cid s =
     do {
       p \<leftarrow> get_class cid s;
       if unat (slabs p) = length (slab_list p)
       then (let new_size = (if length (slab_list p) \<noteq> 0 then length (slab_list p) * 2 else 16);
                 (new_list, s) = malloc s
             in if new_list = 0 then Some (False, s)
                else Some (True, upd_class cid (\<lambda>p. p\<lparr>slab_list := slab_list p @ replicate (new_size - length (slab_list p)) 0\<rparr>) s))
       else Some (True, s)
     }"

definition get_page_from_global_pool :: "'a slab_state_scheme \<Rightarrow> (addr \<times> 'a slab_state_scheme) option" where
  "get_page_from_global_pool s =
     do {
       p \<leftarrow> get_class 0 s;
       if slabs p < 1 then Some (0, s)
       else do {
         assertion (unat (slabs p) \<le> length (slab_list p));
         Some (slab_list p ! unat (slabs p - 1), upd_class 0 (\<lambda>p. p\<lparr>slabs := slabs p - 1\<rparr>) s)
       }
     }"

text \<open>When the memory is preallocated, sizes are rounded up to the chunk alignment.\<close>

definition memory_allocate :: "u64 \<Rightarrow> 'a slab_state_scheme \<Rightarrow> addr \<times> 'a slab_state_scheme" where
  "memory_allocate sz s =
     (if mem_base s = 0
      then (let (ret, s) = malloc s in (ret, s\<lparr>mem_malloced := mem_malloced s + sz\<rparr>))
      else if mem_avail s < sz then (0, s)
      else (let sz = (if sz mod 8 \<noteq> 0 then sz + (8 - sz mod 8) else sz)
            in (mem_current s,
                s\<lparr>mem_current := mem_current s + sz, mem_avail := (if sz < mem_avail s then mem_avail s - sz else 0),
                  mem_malloced := mem_malloced s + sz\<rparr>)))"

text \<open>
  \<open>memset(ptr, 0, len)\<close> on a page: what was in it is gone, and the places where the class cuts
  the page hold items of zeros.
\<close>

definition clear_page :: "addr \<Rightarrow> u64 \<Rightarrow> slabclass_t \<Rightarrow> 'a assoc_scheme \<Rightarrow> 'a assoc_scheme" where
  "clear_page ptr len p s =
     s\<lparr>mc_items := (\<lambda>x. if x - ptr < len
          then if (x - ptr) mod ucast (sc_size p) = 0 \<and> (x - ptr) div ucast (sc_size p) < ucast (perslab p)
               then Some zero_item else None
          else mc_items s x)\<rparr>"

definition page_length :: "slabclass_t \<Rightarrow> settings_t \<Rightarrow> u64" where
  "page_length p c =
     (if slab_reassign c \<or> slab_chunk_size_max c \<noteq> slab_page_size c then scast (slab_page_size c)
      else scast (sc_size p * perslab p))"

definition do_slabs_newslab :: "nat \<Rightarrow> 'a slab_state_scheme \<Rightarrow> (bool \<times> 'a slab_state_scheme) option" where
  "do_slabs_newslab cid s =
     do {
       p \<leftarrow> get_class cid s;
       g \<leftarrow> get_class 0 s;
       let len = page_length p (settings s);
       if mem_limit s \<noteq> 0 \<and> mem_limit s < mem_malloced s + len \<and> 0 < slabs p \<and> slabs g = 0
       then Some (False, s\<lparr>mem_limit_reached := True\<rparr>)
       else do {
         (grown, s) \<leftarrow> grow_slab_list cid s;
         if \<not> grown then Some (False, s)
         else do {
           (pooled, s) \<leftarrow> get_page_from_global_pool s;
           let (ptr, s) = (if pooled = 0 then memory_allocate len s else (pooled, s));
           if ptr = 0 then Some (False, s)
           else do {
             s \<leftarrow> split_slab_page_into_freelist (unat (perslab p)) ptr cid (clear_page ptr len p s);
             p \<leftarrow> get_class cid s;
             assertion (unat (slabs p) < length (slab_list p));
             Some (True, upd_class cid (\<lambda>p. p\<lparr>slab_list := (slab_list p)[unat (slabs p) := ptr], slabs := slabs p + 1\<rparr>) s)
           }
         }
       }
     }"

text \<open>The result is the item, or zero, and the number of requested bytes of the class before.\<close>

definition do_slabs_alloc ::
  "u64 \<Rightarrow> nat \<Rightarrow> bool \<Rightarrow> 'a slab_state_scheme \<Rightarrow> ((addr \<times> u64 option) \<times> 'a slab_state_scheme) option" where
  "do_slabs_alloc sz cid no_newpage s =
     (if cid < 1 \<or> power_largest s < cid then Some ((0, None), s)
      else do {
        p \<leftarrow> get_class cid s;
        assertion (sl_curr p = 0 \<or> map_option slabs_clsid (mc_items s (slots p)) = Some 0);
        let total_bytes = requested p;
        assertion (sz \<le> ucast (sc_size p));
        s \<leftarrow> (if sl_curr p = 0 \<and> \<not> no_newpage then map_option snd (do_slabs_newslab cid s) else Some s);
        p \<leftarrow> get_class cid s;
        if sl_curr p \<noteq> 0
        then do {
          i \<leftarrow> mc_items s (slots p);
          let s = upd_class cid (\<lambda>p. p\<lparr>slots := it_next i\<rparr>) s;
          s \<leftarrow> set_prev (it_next i) 0 s;
          s \<leftarrow> upd_item (slots p) (\<lambda>i. clear_flag ITEM_SLABBED i\<lparr>it_refcount := 1\<rparr>) s;
          Some ((slots p, Some total_bytes), upd_class cid (\<lambda>p. p\<lparr>sl_curr := sl_curr p - 1, requested := requested p + sz\<rparr>) s)
        }
        else Some ((0, Some total_bytes), s)
      })"

section \<open>Start, limits and statistics\<close>

text \<open>The process exits (\<open>None\<close>) when a page cannot be preallocated.\<close>

fun preallocate_classes :: "nat list \<Rightarrow> nat \<Rightarrow> nat \<Rightarrow> 'a slab_state_scheme \<Rightarrow> 'a slab_state_scheme option" where
  "preallocate_classes [] prealloc maxslabs s = Some s"
| "preallocate_classes (i # is) prealloc maxslabs s =
     (if maxslabs < prealloc + 1 then Some s
      else do {
        (ok, s) \<leftarrow> do_slabs_newslab i s;
        if ok then preallocate_classes is (prealloc + 1) maxslabs s else None
      })"

definition slabs_preallocate :: "nat \<Rightarrow> 'a slab_state_scheme \<Rightarrow> 'a slab_state_scheme option" where
  "slabs_preallocate maxslabs s = preallocate_classes [1..<64] 0 maxslabs s"

text \<open>The classes for the short cuts of mode 3, and their pages.\<close>

fun preallocate_shortcuts :: "nat \<Rightarrow> 'a slab_state_scheme \<Rightarrow> 'a slab_state_scheme option" where
  "preallocate_shortcuts 0 s = Some s"
| "preallocate_shortcuts (Suc n) s =
     do {
       (ok, s) \<leftarrow> do_slabs_newslab 1 s;
       if ok then preallocate_shortcuts n s else Some s
     }"

definition slabs_init ::
  "u64 \<Rightarrow> (u32 \<Rightarrow> u32) \<Rightarrow> (u32 \<Rightarrow> bool) \<Rightarrow> bool \<Rightarrow> u32 list option \<Rightarrow> u64 option \<Rightarrow> 'a slab_state_scheme \<Rightarrow>
     'a slab_state_scheme option" where
  "slabs_init limit grow too_big prealloc slab_sizes initial_malloc s =
     do {
       let s = s\<lparr>mem_limit := limit\<rparr>;
       let s = (if prealloc
                then (let (base, s) = malloc s; s = s\<lparr>mem_base := base\<rparr>
                      in if base \<noteq> 0 then s\<lparr>mem_current := base, mem_avail := mem_limit s\<rparr> else s)
                else s);
       (i, cl) \<leftarrow> init_classes (settings s) grow too_big slab_sizes 0
                   (ucast (sizeof_item (settings s)) + chunk_size (settings s)) (replicate 64 no_class);
       assertion (slab_chunk_size_max (settings s) \<noteq> 0);
       let s = s\<lparr>power_largest := i,
                 slabclass := cl[i := (cl ! i)\<lparr>sc_size := slab_chunk_size_max (settings s),
                                               perslab := slab_page_size (settings s) div slab_chunk_size_max (settings s)\<rparr>]\<rparr>;
       let s = (case initial_malloc of None \<Rightarrow> s | Some n \<Rightarrow> s\<lparr>mem_malloced := n\<rparr>);
       s \<leftarrow> (if cache_mode (settings s) = 3 then preallocate_shortcuts (unat (limit div (1024 * 1024) div 2)) s else Some s);
       if prealloc then slabs_preallocate (power_largest s) s else Some s
     }"

text \<open>\<open>free\<close> gives the pages of the pool back to the system.\<close>

function memory_release_loop :: "'a slab_state_scheme \<Rightarrow> 'a slab_state_scheme option" where
  "memory_release_loop s =
     (if mem_limit s < mem_malloced s
      then (case get_page_from_global_pool s of
          None \<Rightarrow> None
        | Some (p, s) \<Rightarrow>
            if p = 0 then Some s
            else memory_release_loop (s\<lparr>mem_malloced := mem_malloced s - scast (slab_page_size (settings s))\<rparr>))
      else Some s)"
  by pat_completeness auto
termination
proof (relation "measure (\<lambda>s. unat (slabs (slabclass s ! 0)))")
  fix s y p and t :: "'a slab_state_scheme"
  assume y: "get_page_from_global_pool s = Some y" "(p, t) = y" and p: "p \<noteq> 0"
  then have g: "slabclass s \<noteq> []" "slabs (slabclass s ! 0) \<noteq> 0"
    "slabclass t = (slabclass s)[0 := (slabclass s ! 0)\<lparr>slabs := slabs (slabclass s ! 0) - 1\<rparr>]"
    by (auto simp: get_page_from_global_pool_def get_class_def assertion_def upd_class_def bind_eq_Some_conv split: if_splits)
  have "0 < unat (slabs (slabclass s ! 0))" using g(2) by (simp add: unat_gt_0)
  with g have "unat (slabs (slabclass t ! 0)) < unat (slabs (slabclass s ! 0))"
    using unat_sub [of 1 "slabs (slabclass s ! 0)"] by (simp add: word_le_nat_alt)
  then show "(t\<lparr>mem_malloced := mem_malloced t - scast (slab_page_size (settings t))\<rparr>, s) \<in> measure (\<lambda>s. unat (slabs (slabclass s ! 0)))"
    by simp
qed simp

definition memory_release :: "'a slab_state_scheme \<Rightarrow> 'a slab_state_scheme option" where
  "memory_release s =
     (if mem_base s \<noteq> 0 \<or> \<not> slab_reassign (settings s) then Some s
      else memory_release_loop s)"

definition do_slabs_adjust_mem_limit :: "u64 \<Rightarrow> 'a slab_state_scheme \<Rightarrow> (bool \<times> 'a slab_state_scheme) option" where
  "do_slabs_adjust_mem_limit new_mem_limit s =
     (if mem_base s \<noteq> 0 then Some (False, s)
      else do {
        s \<leftarrow> memory_release (s\<lparr>settings := (settings s)\<lparr>maxbytes := new_mem_limit\<rparr>, mem_limit := new_mem_limit,
                              mem_limit_reached := False\<rparr>);
        Some (True, s)
      })"

definition slabs_adjust_mem_requested :: "nat \<Rightarrow> u64 \<Rightarrow> u64 \<Rightarrow> 'a slab_state_scheme \<Rightarrow> 'a slab_state_scheme option" where
  "slabs_adjust_mem_requested cid old ntotal s =
     (if cid < 1 \<or> power_largest s < cid then None
      else Some (upd_class cid (\<lambda>p. p\<lparr>requested := requested p - old + ntotal\<rparr>) s))"

text \<open>Free chunks, whether the memory limit was reached, requested bytes, and chunks per page.\<close>

definition slabs_available_chunks :: "nat \<Rightarrow> 'a slab_state_scheme \<Rightarrow> (u32 \<times> bool \<times> u64 \<times> u32) option" where
  "slabs_available_chunks cid s =
     do { p \<leftarrow> get_class cid s; Some (sl_curr p, mem_limit_reached s, requested p, perslab p) }"

section \<open>Requests to move a page\<close>

datatype reassign_result_type =
  REASSIGN_OK | REASSIGN_RUNNING | REASSIGN_BADCLASS | REASSIGN_NOSPARE | REASSIGN_SRC_DST_SAME

fun pick_any_loop :: "nat \<Rightarrow> int \<Rightarrow> 'a slab_state_scheme \<Rightarrow> int \<times> 'a slab_state_scheme" where
  "pick_any_loop 0 dst s = (-1, s)"
| "pick_any_loop (Suc tries) dst s =
     (let cur = (if power_largest s < pick_cur s + 1 then 1 else pick_cur s + 1);
          s = s\<lparr>pick_cur := cur\<rparr>
      in if int cur \<noteq> dst \<and> 1 < slabs (slabclass s ! cur) then (int cur, s) else pick_any_loop tries dst s)"

definition slabs_reassign_pick_any :: "int \<Rightarrow> 'a slab_state_scheme \<Rightarrow> int \<times> 'a slab_state_scheme" where
  "slabs_reassign_pick_any dst s = pick_any_loop (power_largest s) dst s"

definition do_slabs_reassign :: "int \<Rightarrow> int \<Rightarrow> 'a slab_state_scheme \<Rightarrow> reassign_result_type \<times> 'a slab_state_scheme" where
  "do_slabs_reassign src dst s =
     (if slab_rebalance_signal s \<noteq> 0 then (REASSIGN_RUNNING, s)
      else if src = dst then (REASSIGN_SRC_DST_SAME, s)
      else
        (let (src, s) = (if src = -1 then slabs_reassign_pick_any dst s else (src, s))
         in if src < 1 \<or> int (power_largest s) < src \<or> dst < 0 \<or> int (power_largest s) < dst then (REASSIGN_BADCLASS, s)
            else if slabs (slabclass s ! nat src) < 2 then (REASSIGN_NOSPARE, s)
            else (REASSIGN_OK, s\<lparr>slab_rebal := (slab_rebal s)\<lparr>s_clsid := src, d_clsid := dst\<rparr>, slab_rebalance_signal := 1\<rparr>)))"

definition slabs_reassign_op :: "int \<Rightarrow> int \<Rightarrow> 'a slab_state_scheme \<Rightarrow> reassign_result_type \<times> 'a slab_state_scheme" where
  "slabs_reassign_op src dst s = (if rebalance_locked s then (REASSIGN_RUNNING, s) else do_slabs_reassign src dst s)"

end
