(* ===== verification/MC_Items.thy ===== *)
theory MC_Items
  imports MC_Slabs MC_Bipbuffer
begin

text \<open>
  The items of the DRAM cache, \<open>src/extra/KVS-DRAM-Cache/items.c\<close>: allocation, reference counts,
  the LRU lists (one doubly linked list per slab class and segment), lookup with lazy expiry, and
  the maintenance that moves and evicts items from the tails. The functions run under the locks
  of the item and of its LRU list. Of the variants that \<open>CACHE_MODE\<close> selects, this is the one of
  every mode but 3.
\<close>

section \<open>State\<close>

record itemstats_t =
  evicted :: u64
  evicted_nonzero :: u64
  reclaimed :: u64
  outofmemory :: u64
  tailrepairs :: u64
  expired_unfetched :: u64
  evicted_unfetched :: u64
  evicted_active :: u64
  crawler_reclaimed :: u64
  crawler_items_checked :: u64
  lrutail_reflocked :: u64
  moves_to_cold :: u64
  moves_to_warm :: u64
  moves_within_lru :: u64
  direct_reclaims :: u64
  hits_to_hot :: u64
  hits_to_warm :: u64
  hits_to_cold :: u64
  hits_to_temp :: u64
  evicted_time :: u32

text \<open>A worker thread: two of its counters, and the queue of items to bump (\<open>lru_bump_buf\<close>).\<close>

record mc_thread =
  get_flushed :: u64
  get_expired :: u64
  bump_buf :: bipbuf
  bump_dropped :: u64

record cache = slab_state +
  heads :: "addr list"
  tails :: "addr list"
  itemstats :: "itemstats_t list"
  sizes :: "u32 list"
  sizes_bytes :: "u64 list"
  stats_sizes_hist :: "u32 list option"
  stats_sizes_cas_min :: u64
  cas_id :: u64
  curr_bytes :: u64
  curr_items :: u64
  total_items :: u64
  threads :: "mc_thread list"

definition HOT_LRU :: nat where "HOT_LRU = 0"
definition WARM_LRU :: nat where "WARM_LRU = 64"
definition COLD_LRU :: nat where "COLD_LRU = 128"
definition TEMP_LRU :: nat where "TEMP_LRU = 192"

lemmas lru_defs = HOT_LRU_def WARM_LRU_def COLD_LRU_def TEMP_LRU_def

definition ITEM_UPDATE_INTERVAL :: u32 where "ITEM_UPDATE_INTERVAL = 60"

definition upd_stats :: "nat \<Rightarrow> (itemstats_t \<Rightarrow> itemstats_t) \<Rightarrow> 'a cache_scheme \<Rightarrow> 'a cache_scheme" where
  "upd_stats cid f s = s\<lparr>itemstats := (itemstats s)[cid := f (itemstats s ! cid)]\<rparr>"

definition returned :: "(fault + 'a) option \<Rightarrow> 'a option" where
  "returned r = (case r of Some (Inr x) \<Rightarrow> Some x | _ \<Rightarrow> None)"

definition get_cas_id :: "'a cache_scheme \<Rightarrow> u64 \<times> 'a cache_scheme" where
  "get_cas_id s = (let next_id = cas_id s + 1 in (next_id, s\<lparr>cas_id := next_id\<rparr>))"

definition item_is_flushed :: "item \<Rightarrow> 'a cache_scheme \<Rightarrow> bool" where
  "item_is_flushed i s =
     (let live = oldest_live (settings s); cas = ITEM_get_cas i; ocas = oldest_cas (settings s)
      in if live = 0 \<or> current_time s < live then False
         else it_time i \<le> live \<or> ocas \<noteq> 0 \<and> cas \<noteq> 0 \<and> cas < ocas)"

definition temp_lru_size :: "nat \<Rightarrow> 'a cache_scheme \<Rightarrow> u32" where
  "temp_lru_size cid s = ucast (sizes_bytes s ! (cid AND 63 OR TEMP_LRU))"

section \<open>LRU lists\<close>

definition do_item_link_q :: "addr \<Rightarrow> 'a cache_scheme \<Rightarrow> 'a cache_scheme option" where
  "do_item_link_q it s =
     do {
       i \<leftarrow> mc_items s it;
       assertion (\<not> has ITEM_SLABBED i);
       let c = unat (slabs_clsid i);
       let head = heads s ! c;
       let tail = tails s ! c;
       assertion (it \<noteq> head);
       assertion (head \<noteq> 0 \<and> tail \<noteq> 0 \<or> head = 0 \<and> tail = 0);
       s \<leftarrow> upd_item it (\<lambda>i. i\<lparr>it_prev := 0, it_next := head\<rparr>) s;
       s \<leftarrow> set_prev head it s;
       let s = s\<lparr>heads := (heads s)[c := it]\<rparr>;
       let s = (if tail = 0 then s\<lparr>tails := (tails s)[c := it]\<rparr> else s);
       Some (s\<lparr>sizes := (sizes s)[c := sizes s ! c + 1],
               sizes_bytes := (sizes_bytes s)[c := sizes_bytes s ! c + ITEM_ntotal (settings s) i]\<rparr>)
     }"

definition do_item_unlink_q :: "addr \<Rightarrow> 'a cache_scheme \<Rightarrow> 'a cache_scheme option" where
  "do_item_unlink_q it s =
     do {
       i \<leftarrow> mc_items s it;
       let c = unat (slabs_clsid i);
       s \<leftarrow> (if heads s ! c = it
             then do { assertion (it_prev i = 0); Some (s\<lparr>heads := (heads s)[c := it_next i]\<rparr>) }
             else Some s);
       s \<leftarrow> (if tails s ! c = it
             then do { assertion (it_next i = 0); Some (s\<lparr>tails := (tails s)[c := it_prev i]\<rparr>) }
             else Some s);
       assertion (it_next i \<noteq> it);
       assertion (it_prev i \<noteq> it);
       s \<leftarrow> set_prev (it_next i) (it_prev i) s;
       s \<leftarrow> set_next (it_prev i) (it_next i) s;
       Some (s\<lparr>sizes := (sizes s)[c := sizes s ! c - 1],
               sizes_bytes := (sizes_bytes s)[c := sizes_bytes s ! c - ITEM_ntotal (settings s) i]\<rparr>)
     }"

definition item_link_q_warm :: "addr \<Rightarrow> 'a cache_scheme \<Rightarrow> 'a cache_scheme option" where
  "item_link_q_warm it s =
     do {
       i \<leftarrow> mc_items s it;
       s \<leftarrow> do_item_link_q it s;
       Some (upd_stats (unat (slabs_clsid i)) (\<lambda>t. t\<lparr>moves_to_warm := moves_to_warm t + 1\<rparr>) s)
     }"

text \<open>The tail end of a list, for the crawler: its pseudo-items have flags 1 and no bytes.\<close>

definition do_item_linktail_q :: "addr \<Rightarrow> 'a cache_scheme \<Rightarrow> 'a cache_scheme option" where
  "do_item_linktail_q it s =
     do {
       i \<leftarrow> mc_items s it;
       assertion (it_flags i = 1);
       assertion (it_nbytes i = 0);
       let c = unat (slabs_clsid i);
       let head = heads s ! c;
       let tail = tails s ! c;
       assertion (it \<noteq> tail);
       assertion (head \<noteq> 0 \<and> tail \<noteq> 0 \<or> head = 0 \<and> tail = 0);
       s \<leftarrow> upd_item it (\<lambda>i. i\<lparr>it_prev := tail, it_next := 0\<rparr>) s;
       assertion (tail = 0 \<or> map_option it_next (mc_items s tail) = Some 0);
       s \<leftarrow> set_next tail it s;
       let s = s\<lparr>tails := (tails s)[c := it]\<rparr>;
       Some (if head = 0 then s\<lparr>heads := (heads s)[c := it]\<rparr> else s)
     }"

definition do_item_unlinktail_q :: "addr \<Rightarrow> 'a cache_scheme \<Rightarrow> 'a cache_scheme option" where
  "do_item_unlinktail_q it s =
     do {
       i \<leftarrow> mc_items s it;
       let c = unat (slabs_clsid i);
       s \<leftarrow> (if heads s ! c = it
             then do { assertion (it_prev i = 0); Some (s\<lparr>heads := (heads s)[c := it_next i]\<rparr>) }
             else Some s);
       s \<leftarrow> (if tails s ! c = it
             then do { assertion (it_next i = 0); Some (s\<lparr>tails := (tails s)[c := it_prev i]\<rparr>) }
             else Some s);
       assertion (it_next i \<noteq> it);
       assertion (it_prev i \<noteq> it);
       s \<leftarrow> set_prev (it_next i) (it_prev i) s;
       set_next (it_prev i) (it_next i) s
     }"

text \<open>One step of the crawler towards the head; the result is the item it has passed, or zero.\<close>

definition do_item_crawl_q :: "addr \<Rightarrow> 'a cache_scheme \<Rightarrow> (addr \<times> 'a cache_scheme) option" where
  "do_item_crawl_q it s =
     do {
       i \<leftarrow> mc_items s it;
       assertion (it_flags i = 1);
       assertion (it_nbytes i = 0);
       let c = unat (slabs_clsid i);
       if it_prev i = 0
       then do {
         assertion (heads s ! c = it);
         if it_next i \<noteq> 0
         then do {
           let s = s\<lparr>heads := (heads s)[c := it_next i]\<rparr>;
           assertion (map_option it_prev (mc_items s (it_next i)) = Some it);
           s \<leftarrow> set_prev (it_next i) 0 s;
           Some (0, s)
         }
         else Some (0, s)
       }
       else do {
         assertion (it_prev i \<noteq> it);
         let s = (if heads s ! c = it_prev i then s\<lparr>heads := (heads s)[c := it]\<rparr> else s);
         let s = (if tails s ! c = it then s\<lparr>tails := (tails s)[c := it_prev i]\<rparr> else s);
         assertion (it_next i \<noteq> it);
         s \<leftarrow> (if it_next i \<noteq> 0
               then do {
                 assertion (map_option it_next (mc_items s (it_prev i)) = Some it);
                 s \<leftarrow> set_next (it_prev i) (it_next i) s;
                 set_prev (it_next i) (it_prev i) s
               }
               else set_next (it_prev i) 0 s);
         p \<leftarrow> mc_items s (it_prev i);
         s \<leftarrow> upd_item it (\<lambda>_. i\<lparr>it_next := it_prev i, it_prev := it_prev p\<rparr>) s;
         s \<leftarrow> set_prev (it_prev i) it s;
         s \<leftarrow> set_next (it_prev p) it s;
         i \<leftarrow> mc_items s it;
         assertion (it_next i \<noteq> it);
         assertion (it_prev i \<noteq> it);
         Some (it_next i, s)
       }
     }"

section \<open>Linking, unlinking and references\<close>

text \<open>The histogram of item sizes, if it is kept: a bucket for every 32 bytes. Sizes fit \<open>int\<close>.\<close>

definition item_stats_bucket :: "settings_t \<Rightarrow> item \<Rightarrow> nat" where
  "item_stats_bucket c i =
     (let ntotal = unat (ITEM_ntotal c i) in if ntotal mod 32 \<noteq> 0 then ntotal div 32 + 1 else ntotal div 32)"

definition item_stats_sizes_change :: "(u32 \<Rightarrow> u32) \<Rightarrow> item \<Rightarrow> 'a cache_scheme \<Rightarrow> 'a cache_scheme" where
  "item_stats_sizes_change f i s =
     (case stats_sizes_hist s of
        None \<Rightarrow> s
      | Some h \<Rightarrow>
          if ITEM_get_cas i < stats_sizes_cas_min s then s
          else (let b = item_stats_bucket (settings s) i
                in if b < length h then s\<lparr>stats_sizes_hist := Some (h[b := f (h ! b)])\<rparr> else s))"

definition item_stats_sizes_add :: "item \<Rightarrow> 'a cache_scheme \<Rightarrow> 'a cache_scheme" where
  "item_stats_sizes_add = item_stats_sizes_change (\<lambda>n. n + 1)"

definition item_stats_sizes_remove :: "item \<Rightarrow> 'a cache_scheme \<Rightarrow> 'a cache_scheme" where
  "item_stats_sizes_remove = item_stats_sizes_change (\<lambda>n. n - 1)"

definition refcount_incr :: "addr \<Rightarrow> 'a cache_scheme \<Rightarrow> 'a cache_scheme option" where
  "refcount_incr it s = upd_item it (\<lambda>i. i\<lparr>it_refcount := it_refcount i + 1\<rparr>) s"

definition refcount_decr :: "addr \<Rightarrow> 'a cache_scheme \<Rightarrow> 'a cache_scheme option" where
  "refcount_decr it s = upd_item it (\<lambda>i. i\<lparr>it_refcount := it_refcount i - 1\<rparr>) s"

definition item_free :: "addr \<Rightarrow> 'a cache_scheme \<Rightarrow> 'a cache_scheme option" where
  "item_free it s =
     do {
       i \<leftarrow> mc_items s it;
       assertion (\<not> has ITEM_LINKED i);
       assertion (it \<noteq> heads s ! unat (slabs_clsid i));
       assertion (it \<noteq> tails s ! unat (slabs_clsid i));
       assertion (it_refcount i = 0);
       do_slabs_free it (ITEM_ntotal (settings s) i) (ITEM_clsid i) s
     }"

definition do_item_remove :: "addr \<Rightarrow> 'a cache_scheme \<Rightarrow> 'a cache_scheme option" where
  "do_item_remove it s =
     do {
       i \<leftarrow> mc_items s it;
       assertion (\<not> has ITEM_SLABBED i);
       assertion (0 < it_refcount i);
       s \<leftarrow> refcount_decr it s;
       if it_refcount i - 1 = 0 then item_free it s else Some s
     }"

definition do_item_link :: "addr \<Rightarrow> u32 \<Rightarrow> 'a cache_scheme \<Rightarrow> (int \<times> 'a cache_scheme) option" where
  "do_item_link it hv s =
     do {
       i \<leftarrow> mc_items s it;
       assertion (it_flags i AND (ITEM_LINKED OR ITEM_SLABBED) = 0);
       s \<leftarrow> upd_item it (\<lambda>i. set_flag ITEM_LINKED i\<lparr>it_time := current_time s\<rparr>) s;
       i \<leftarrow> mc_items s it;
       let s = s\<lparr>curr_bytes := curr_bytes s + ITEM_ntotal (settings s) i, curr_items := curr_items s + 1,
                 total_items := total_items s + 1\<rparr>;
       let (cas, s) = (if use_cas (settings s) then get_cas_id s else (0, s));
       s \<leftarrow> upd_item it (ITEM_set_cas cas) s;
       (_, s) \<leftarrow> (case assoc_insert it hv s of Inl _ \<Rightarrow> None | Inr r \<Rightarrow> Some r);
       s \<leftarrow> do_item_link_q it s;
       s \<leftarrow> refcount_incr it s;
       i \<leftarrow> mc_items s it;
       Some (1, item_stats_sizes_add i s)
     }"

text \<open>\<open>do_item_unlink_nolock\<close> is the same code with the LRU lock already held.\<close>

definition do_item_unlink :: "addr \<Rightarrow> u32 \<Rightarrow> 'a cache_scheme \<Rightarrow> 'a cache_scheme option" where
  "do_item_unlink it hv s =
     do {
       i \<leftarrow> mc_items s it;
       if has ITEM_LINKED i
       then do {
         s \<leftarrow> upd_item it (clear_flag ITEM_LINKED) s;
         i \<leftarrow> mc_items s it;
         let s = s\<lparr>curr_bytes := curr_bytes s - ITEM_ntotal (settings s) i, curr_items := curr_items s - 1\<rparr>;
         let s = item_stats_sizes_remove i s;
         s \<leftarrow> returned (assoc_delete (it_key i) hv s);
         s \<leftarrow> do_item_unlink_q it s;
         do_item_remove it s
       }
       else Some s
     }"

definition do_item_unlink_nolock :: "addr \<Rightarrow> u32 \<Rightarrow> 'a cache_scheme \<Rightarrow> 'a cache_scheme option" where
  "do_item_unlink_nolock = do_item_unlink"

definition do_item_replace :: "addr \<Rightarrow> addr \<Rightarrow> u32 \<Rightarrow> 'a cache_scheme \<Rightarrow> (int \<times> 'a cache_scheme) option" where
  "do_item_replace it new_it hv s =
     do {
       i \<leftarrow> mc_items s it;
       assertion (\<not> has ITEM_SLABBED i);
       s \<leftarrow> do_item_unlink it hv s;
       do_item_link new_it hv s
     }"

section \<open>Updates and lookups\<close>

definition do_item_update_nolock :: "addr \<Rightarrow> 'a cache_scheme \<Rightarrow> 'a cache_scheme option" where
  "do_item_update_nolock it s =
     do {
       i \<leftarrow> mc_items s it;
       if it_time i < current_time s - ITEM_UPDATE_INTERVAL
       then do {
         assertion (\<not> has ITEM_SLABBED i);
         if has ITEM_LINKED i
         then do {
           s \<leftarrow> do_item_unlink_q it s;
           s \<leftarrow> upd_item it (\<lambda>i. i\<lparr>it_time := current_time s\<rparr>) s;
           do_item_link_q it s
         }
         else Some s
       }
       else Some s
     }"

definition do_item_update :: "addr \<Rightarrow> 'a cache_scheme \<Rightarrow> 'a cache_scheme option" where
  "do_item_update it s =
     do {
       i \<leftarrow> mc_items s it;
       if lru_segmented (settings s)
       then do {
         assertion (\<not> has ITEM_SLABBED i);
         if has ITEM_LINKED i
         then
           if ITEM_lruid i = COLD_LRU \<and> has ITEM_ACTIVE i
           then do {
             s \<leftarrow> upd_item it (\<lambda>i. i\<lparr>it_time := current_time s\<rparr>) s;
             s \<leftarrow> do_item_unlink_q it s;
             s \<leftarrow> upd_item it (\<lambda>i. clear_flag ITEM_ACTIVE i\<lparr>slabs_clsid := of_nat (ITEM_clsid i) OR of_nat WARM_LRU\<rparr>) s;
             item_link_q_warm it s
           }
           else if it_time i < current_time s - ITEM_UPDATE_INTERVAL
           then upd_item it (\<lambda>i. i\<lparr>it_time := current_time s\<rparr>) s
           else Some s
         else Some s
       }
       else if it_time i < current_time s - ITEM_UPDATE_INTERVAL
       then do {
         assertion (\<not> has ITEM_SLABBED i);
         if has ITEM_LINKED i
         then do {
           s \<leftarrow> upd_item it (\<lambda>i. i\<lparr>it_time := current_time s\<rparr>) s;
           s \<leftarrow> do_item_unlink_q it s;
           do_item_link_q it s
         }
         else Some s
       }
       else Some s
     }"

text \<open>
  The queue of bumps: an entry is the address of an item and its hash value, 16 bytes with the
  padding. The reference taken for the queue is given back when the queue is full.
\<close>

definition le_bytes :: "nat \<Rightarrow> 'w::len word \<Rightarrow> bytes" where
  "le_bytes n w = map (\<lambda>k. ucast (drop_bit (8 * k) w)) [0..<n]"

definition le_word :: "bytes \<Rightarrow> 'w::len word" where
  "le_word bs = foldr (\<lambda>b w. push_bit 8 w OR ucast b) bs 0"

definition lru_bump_async :: "nat \<Rightarrow> addr \<Rightarrow> u32 \<Rightarrow> 'a cache_scheme \<Rightarrow> (bool \<times> 'a cache_scheme) option" where
  "lru_bump_async b it hv s =
     do {
       s \<leftarrow> refcount_incr it s;
       let th = threads s ! b;
       (ret, th) \<leftarrow> (case bipbuf_request (bump_buf th) 16 of
           None \<Rightarrow> Some (False, th\<lparr>bump_dropped := bump_dropped th + 1\<rparr>)
         | Some off \<Rightarrow>
             (case write_at off (le_bytes 8 it @ le_bytes 4 hv) (bump_buf th) of
                Inl _ \<Rightarrow> None
              | Inr me \<Rightarrow>
                  (let (n, me) = bipbuf_push me 16; th = th\<lparr>bump_buf := me\<rparr>
                   in if n = 0 then Some (False, th\<lparr>bump_dropped := bump_dropped th + 1\<rparr>) else Some (True, th))));
       let s = s\<lparr>threads := (threads s)[b := th]\<rparr>;
       if ret then Some (True, s) else do { s \<leftarrow> refcount_decr it s; Some (False, s) }
     }"

text \<open>The hit markers of a fetch. The argument \<open>c\<close> is the thread of the connection, if there is one.\<close>

definition item_hit :: "nat option \<Rightarrow> u32 \<Rightarrow> addr \<Rightarrow> 'a cache_scheme \<Rightarrow> 'a cache_scheme option" where
  "item_hit c hv it s =
     do {
       i \<leftarrow> mc_items s it;
       if lru_segmented (settings s)
       then
         if has ITEM_ACTIVE i then Some s
         else if \<not> has ITEM_FETCHED i then upd_item it (set_flag ITEM_FETCHED) s
         else do {
           s \<leftarrow> upd_item it (set_flag ITEM_ACTIVE) s;
           if ITEM_lruid i \<noteq> COLD_LRU then do_item_update it s
           else (case c of
               None \<Rightarrow> Some s
             | Some th \<Rightarrow> do {
                 (ok, s) \<leftarrow> lru_bump_async th it hv s;
                 if ok then Some s else upd_item it (clear_flag ITEM_ACTIVE) s
               })
         }
       else do {
         s \<leftarrow> upd_item it (set_flag ITEM_FETCHED) s;
         do_item_update it s
       }
     }"

definition upd_thread :: "nat option \<Rightarrow> (mc_thread \<Rightarrow> mc_thread) \<Rightarrow> 'a cache_scheme \<Rightarrow> 'a cache_scheme" where
  "upd_thread c f s = (case c of None \<Rightarrow> s | Some th \<Rightarrow> s\<lparr>threads := (threads s)[th := f (threads s ! th)]\<rparr>)"

definition do_item_get ::
  "bytes \<Rightarrow> u32 \<Rightarrow> nat option \<Rightarrow> bool \<Rightarrow> 'a cache_scheme \<Rightarrow> (addr \<times> 'a cache_scheme) option" where
  "do_item_get key hv c do_update s =
     do {
       it \<leftarrow> returned (assoc_find key hv s);
       if it = 0 then Some (0, s)
       else do {
         s \<leftarrow> refcount_incr it s;
         i \<leftarrow> mc_items s it;
         if item_is_flushed i s
         then do {
           s \<leftarrow> do_item_unlink it hv s;
           s \<leftarrow> do_item_remove it s;
           Some (0, upd_thread c (\<lambda>t. t\<lparr>get_flushed := get_flushed t + 1\<rparr>) s)
         }
         else if it_exptime i \<noteq> 0 \<and> it_exptime i \<le> current_time s
         then do {
           s \<leftarrow> do_item_unlink it hv s;
           s \<leftarrow> do_item_remove it s;
           Some (0, upd_thread c (\<lambda>t. t\<lparr>get_expired := get_expired t + 1\<rparr>) s)
         }
         else do {
           s \<leftarrow> (if do_update then item_hit c hv it s else Some s);
           Some (it, s)
         }
       }
     }"

definition do_item_touch ::
  "bytes \<Rightarrow> u32 \<Rightarrow> u32 \<Rightarrow> nat option \<Rightarrow> 'a cache_scheme \<Rightarrow> (addr \<times> 'a cache_scheme) option" where
  "do_item_touch key exptime hv c s =
     do {
       (it, s) \<leftarrow> do_item_get key hv c True s;
       if it \<noteq> 0
       then do { s \<leftarrow> upd_item it (\<lambda>i. i\<lparr>it_exptime := exptime\<rparr>) s; Some (it, s) }
       else Some (0, s)
     }"

section \<open>The tail of a list\<close>

text \<open>
  \<open>lru_pull_tail\<close> looks at up to five items from the tail. One trip of its loop ends in
  \<open>PNext\<close> (go on with the item before), \<open>PStop\<close> (leave the loop with an item, to be linked to
  another list when \<open>move_to_lru\<close> is not zero). \<open>locked\<close> tells for which hash values the item lock
  is held elsewhere.
\<close>

datatype pull_outcome = PNext nat u64 | PStop nat nat

definition LRU_PULL_EVICT :: nat where "LRU_PULL_EVICT = 1"
definition LRU_PULL_CRAWL_BLOCKS :: nat where "LRU_PULL_CRAWL_BLOCKS = 2"

definition item_expired :: "item \<Rightarrow> 'a cache_scheme \<Rightarrow> bool" where
  "item_expired i s \<longleftrightarrow> it_exptime i \<noteq> 0 \<and> it_exptime i < current_time s \<or> item_is_flushed i s"

definition pull_expired :: "nat \<Rightarrow> addr \<Rightarrow> u32 \<Rightarrow> 'a cache_scheme \<Rightarrow> 'a cache_scheme option" where
  "pull_expired cid search hv s =
     do {
       i \<leftarrow> mc_items s search;
       let s = upd_stats cid (\<lambda>t. t\<lparr>reclaimed := reclaimed t + 1\<rparr>) s;
       let s = (if \<not> has ITEM_FETCHED i then upd_stats cid (\<lambda>t. t\<lparr>expired_unfetched := expired_unfetched t + 1\<rparr>) s else s);
       s \<leftarrow> do_item_unlink_nolock search hv s;
       do_item_remove search s
     }"

definition pull_hot_warm ::
  "nat \<Rightarrow> nat \<Rightarrow> u64 \<Rightarrow> u32 \<Rightarrow> addr \<Rightarrow> nat \<Rightarrow> u64 \<Rightarrow> 'a cache_scheme \<Rightarrow> (pull_outcome \<times> 'a cache_scheme) option" where
  "pull_hot_warm cid cur_lru total_bytes max_age search removed limit s =
     do {
       i \<leftarrow> mc_items s search;
       let limit = (if cur_lru = HOT_LRU then total_bytes * scast (hot_lru_pct (settings s)) div 100 else limit);
       let limit = (if limit = 0 then total_bytes * scast (warm_lru_pct (settings s)) div 100 else limit);
       if has ITEM_ACTIVE i
       then do {
         s \<leftarrow> upd_item search (clear_flag ITEM_ACTIVE) s;
         if cur_lru = WARM_LRU
         then do {
           let s = upd_stats cid (\<lambda>t. t\<lparr>moves_within_lru := moves_within_lru t + 1\<rparr>) s;
           s \<leftarrow> do_item_update_nolock search s;
           s \<leftarrow> do_item_remove search s;
           Some (PNext (removed + 1) limit, s)
         }
         else do {
           let s = upd_stats cid (\<lambda>t. t\<lparr>moves_to_warm := moves_to_warm t + 1\<rparr>) s;
           s \<leftarrow> do_item_unlink_q search s;
           Some (PStop (removed + 1) WARM_LRU, s)
         }
       }
       else if limit < sizes_bytes s ! cid \<or> max_age < current_time s - it_time i
       then do {
         let s = upd_stats cid (\<lambda>t. t\<lparr>moves_to_cold := moves_to_cold t + 1\<rparr>) s;
         s \<leftarrow> do_item_unlink_q search s;
         Some (PStop (removed + 1) COLD_LRU, s)
       }
       else Some (PStop removed 0, s)
     }"

definition evict_stats :: "item \<Rightarrow> 'a cache_scheme \<Rightarrow> itemstats_t \<Rightarrow> itemstats_t" where
  "evict_stats i s t =
     (let t = t\<lparr>evicted := evicted t + 1, evicted_time := current_time s - it_time i\<rparr>;
          t = (if it_exptime i \<noteq> 0 then t\<lparr>evicted_nonzero := evicted_nonzero t + 1\<rparr> else t);
          t = (if \<not> has ITEM_FETCHED i then t\<lparr>evicted_unfetched := evicted_unfetched t + 1\<rparr> else t)
      in if has ITEM_ACTIVE i then t\<lparr>evicted_active := evicted_active t + 1\<rparr> else t)"

definition pull_cold ::
  "nat \<Rightarrow> nat \<Rightarrow> nat \<Rightarrow> addr \<Rightarrow> u32 \<Rightarrow> nat \<Rightarrow> 'a cache_scheme \<Rightarrow> (pull_outcome \<times> 'a cache_scheme) option" where
  "pull_cold orig_id cid flags search hv removed s =
     do {
       i \<leftarrow> mc_items s search;
       if flags AND LRU_PULL_EVICT \<noteq> 0
       then
         if \<not> evict_to_free (settings s) then Some (PStop removed 0, s)
         else do {
           s \<leftarrow> do_item_unlink_nolock search hv (upd_stats cid (evict_stats i s) s);
           Some (PStop (removed + 1) 0,
                 if slab_automove (settings s) = 2 then snd (slabs_reassign_op (-1) (int orig_id) s) else s)
         }
       else if has ITEM_ACTIVE i \<and> lru_segmented (settings s)
       then do {
         s \<leftarrow> upd_item search (clear_flag ITEM_ACTIVE) (upd_stats cid (\<lambda>t. t\<lparr>moves_to_warm := moves_to_warm t + 1\<rparr>) s);
         s \<leftarrow> do_item_unlink_q search s;
         Some (PStop (removed + 1) WARM_LRU, s)
       }
       else Some (PStop removed 0, s)
     }"

definition pull_trip ::
  "(bytes \<Rightarrow> u32) \<Rightarrow> (u32 \<Rightarrow> bool) \<Rightarrow> nat \<Rightarrow> nat \<Rightarrow> u64 \<Rightarrow> nat \<Rightarrow> u32 \<Rightarrow> addr \<Rightarrow> nat \<Rightarrow> u64 \<Rightarrow> 'a cache_scheme \<Rightarrow>
     (pull_outcome \<times> 'a cache_scheme) option" where
  "pull_trip hash locked orig_id cur_lru total_bytes flags max_age search removed limit s =
     do {
       i \<leftarrow> mc_items s search;
       let cid = orig_id OR cur_lru;
       let hv = hash (it_key i);
       if locked hv then Some (PNext removed limit, s)
       else do {
         s \<leftarrow> refcount_incr search s;
         let reflocked = it_refcount i + 1 \<noteq> 2;
         let s = (if reflocked then upd_stats cid (\<lambda>t. t\<lparr>lrutail_reflocked := lrutail_reflocked t + 1\<rparr>) s else s);
         if reflocked \<and> tail_repair_time (settings s) \<noteq> 0 \<and> it_time i + tail_repair_time (settings s) < current_time s
         then do {
           let s = upd_stats cid (\<lambda>t. t\<lparr>tailrepairs := tailrepairs t + 1\<rparr>) s;
           s \<leftarrow> upd_item search (\<lambda>i. i\<lparr>it_refcount := 1\<rparr>) s;
           s \<leftarrow> do_item_unlink_nolock search hv s;
           Some (PNext removed limit, s)
         }
         else if item_expired i s
         then do {
           s \<leftarrow> pull_expired cid search hv s;
           Some (PNext (removed + 1) limit, s)
         }
         else if cur_lru = HOT_LRU \<or> cur_lru = WARM_LRU
         then pull_hot_warm cid cur_lru total_bytes max_age search removed limit s
         else if cur_lru = COLD_LRU then pull_cold orig_id cid flags search hv removed s
         else Some (PStop removed 0, s)
       }
     }"

definition is_crawler :: "item \<Rightarrow> bool" where
  "is_crawler i \<longleftrightarrow> it_nbytes i = 0 \<and> it_key i = [] \<and> it_flags i = 1"

partial_function (option) pull_loop ::
  "(bytes \<Rightarrow> u32) \<Rightarrow> (u32 \<Rightarrow> bool) \<Rightarrow> nat \<Rightarrow> nat \<Rightarrow> u64 \<Rightarrow> nat \<Rightarrow> u32 \<Rightarrow> nat \<Rightarrow> addr \<Rightarrow> nat \<Rightarrow> u64 \<Rightarrow> 'a cache_scheme \<Rightarrow>
     ((addr \<times> nat \<times> nat) \<times> 'a cache_scheme) option" where
  "pull_loop hash locked orig_id cur_lru total_bytes flags max_age tries search removed limit s =
     (if tries = 0 \<or> search = 0 then Some ((0, removed, 0), s)
      else do {
        i \<leftarrow> mc_items s search;
        if is_crawler i
        then if flags AND LRU_PULL_CRAWL_BLOCKS \<noteq> 0 then Some ((0, 0, 0), s)
             else pull_loop hash locked orig_id cur_lru total_bytes flags max_age tries (it_prev i) removed limit s
        else do {
          (out, s) \<leftarrow> pull_trip hash locked orig_id cur_lru total_bytes flags max_age search removed limit s;
          (case out of
             PNext removed limit \<Rightarrow>
               pull_loop hash locked orig_id cur_lru total_bytes flags max_age (tries - 1) (it_prev i) removed limit s
           | PStop removed move_to_lru \<Rightarrow> Some ((search, removed, move_to_lru), s))
        }
      })"

definition lru_pull_tail ::
  "(bytes \<Rightarrow> u32) \<Rightarrow> (u32 \<Rightarrow> bool) \<Rightarrow> nat \<Rightarrow> nat \<Rightarrow> u64 \<Rightarrow> nat \<Rightarrow> u32 \<Rightarrow> 'a cache_scheme \<Rightarrow> (nat \<times> 'a cache_scheme) option" where
  "lru_pull_tail hash locked orig_id cur_lru total_bytes flags max_age s =
     (if orig_id = 0 then Some (0, s)
      else do {
        ((it, removed, move_to_lru), s) \<leftarrow>
          pull_loop hash locked orig_id cur_lru total_bytes flags max_age 5 (tails s ! (orig_id OR cur_lru)) 0 0 s;
        if it = 0 then Some (removed, s)
        else do {
          s \<leftarrow> (if move_to_lru \<noteq> 0
                then do {
                  s \<leftarrow> upd_item it (\<lambda>i. i\<lparr>slabs_clsid := of_nat (ITEM_clsid i) OR of_nat move_to_lru\<rparr>) s;
                  do_item_link_q it s
                }
                else Some s);
          s \<leftarrow> do_item_remove it s;
          Some (removed, s)
        }
      })"

section \<open>Allocation\<close>

text \<open>\<open>snprintf\<close> with \<open>%u\<close>.\<close>

fun dec_bytes :: "nat \<Rightarrow> bytes" where
  "dec_bytes n = (if n < 10 then [48 + of_nat n] else dec_bytes (n div 10) @ [48 + of_nat (n mod 10)])"

text \<open>The total size, the suffix and its length; \<open>nkey\<close> is passed as a \<open>uint8_t\<close>.\<close>

definition item_make_header :: "settings_t \<Rightarrow> byte \<Rightarrow> u32 \<Rightarrow> u32 \<Rightarrow> u64 \<times> bytes \<times> byte" where
  "item_make_header c nkey flags nbytes =
     (let sfx = (if inline_ascii_response c
                    then [32] @ dec_bytes (unat flags) @ [32] @ dec_bytes (unat (nbytes - 2)) @ [13, 10]
                    else if flags = 0 then [] else le_bytes 4 flags);
          nsuffix = of_nat (length sfx)
      in (sizeof_item c + ucast nkey + ucast nsuffix + scast nbytes, sfx, nsuffix))"

text \<open>
  One trip of the loop of \<open>do_item_alloc_pull\<close>: \<open>Inl\<close> goes on, \<open>Inr\<close> leaves the loop with the item
  or with zero.
\<close>

definition alloc_pull_trip ::
  "(bytes \<Rightarrow> u32) \<Rightarrow> (u32 \<Rightarrow> bool) \<Rightarrow> u64 \<Rightarrow> nat \<Rightarrow> 'a cache_scheme \<Rightarrow> ((unit + addr) \<times> 'a cache_scheme) option" where
  "alloc_pull_trip hash locked ntotal cid s =
     do {
       s \<leftarrow> (if \<not> lru_segmented (settings s) then map_option snd (lru_pull_tail hash locked cid COLD_LRU 0 0 0 s) else Some s);
       ((it, total), s) \<leftarrow> do_slabs_alloc ntotal cid False s;
       if it \<noteq> 0 then Some (Inr it, s)
       else do {
         total_bytes \<leftarrow> total;
         let total_bytes = (if temp_lru (settings s) then total_bytes - ucast (temp_lru_size cid s) else total_bytes);
         (removed, s) \<leftarrow> lru_pull_tail hash locked cid COLD_LRU total_bytes LRU_PULL_EVICT 0 s;
         if 0 < removed then Some (Inl (), s)
         else if lru_segmented (settings s)
         then do { (_, s) \<leftarrow> lru_pull_tail hash locked cid HOT_LRU total_bytes 0 0 s; Some (Inl (), s) }
         else Some (Inr 0, s)
       }
     }"

partial_function (option) do_item_alloc_pull ::
  "(bytes \<Rightarrow> u32) \<Rightarrow> (u32 \<Rightarrow> bool) \<Rightarrow> u64 \<Rightarrow> nat \<Rightarrow> 'a cache_scheme \<Rightarrow> (addr \<times> 'a cache_scheme) option" where
  "do_item_alloc_pull hash locked ntotal cid s =
     do {
       (out, s) \<leftarrow> alloc_pull_trip hash locked ntotal cid s;
       (case out of Inl _ \<Rightarrow> do_item_alloc_pull hash locked ntotal cid s | Inr it \<Rightarrow> Some (it, s))
     }"

definition do_item_alloc_chunk ::
  "(bytes \<Rightarrow> u32) \<Rightarrow> (u32 \<Rightarrow> bool) \<Rightarrow> addr \<Rightarrow> u64 \<Rightarrow> 'a cache_scheme \<Rightarrow> (addr \<times> 'a cache_scheme) option" where
  "do_item_alloc_chunk hash locked ch bytes_remain s =
     do {
       let sz = bytes_remain + sizeof_item_chunk;
       let sz = (if scast (slab_chunk_size_max (settings s)) < sz then scast (slab_chunk_size_max (settings s)) else sz);
       let cid = slabs_clsid_of sz s;
       (nch, s) \<leftarrow> do_item_alloc_pull hash locked sz cid s;
       if nch = 0 then Some (0, s)
       else do {
         c \<leftarrow> mc_items s ch;
         s \<leftarrow> upd_item ch (\<lambda>i. i\<lparr>it_next := nch\<rparr>) s;
         s \<leftarrow> upd_item nch (\<lambda>i. set_flag ITEM_CHUNK
                (i\<lparr>h_next := chunk_head c, it_prev := ch, it_next := 0, it_exptime := 0, slabs_clsid := of_nat cid,
                   it_time := ucast (sz - sizeof_item_chunk)\<rparr>)) s;
         Some (nch, s)
       }
     }"

text \<open>The segment of a new item, and its fields.\<close>

definition new_item_lru :: "u32 \<Rightarrow> 'a cache_scheme \<Rightarrow> nat" where
  "new_item_lru exptime s =
     (if temp_lru (settings s) \<and> exptime - current_time s \<le> temporary_ttl (settings s) then TEMP_LRU
      else if lru_segmented (settings s) then HOT_LRU else COLD_LRU)"

definition new_item ::
  "bytes \<Rightarrow> u32 \<Rightarrow> u32 \<Rightarrow> bytes \<Rightarrow> byte \<Rightarrow> nat \<Rightarrow> 'a cache_scheme \<Rightarrow> item \<Rightarrow> item" where
  "new_item key exptime nbytes sfx nsuffix cid s i =
     i\<lparr>it_next := 0, it_prev := 0, slabs_clsid := of_nat (cid OR new_item_lru exptime s),
       it_flags := it_flags i OR (if use_cas (settings s) then ITEM_CAS else 0), it_nbytes := nbytes,
       it_key := take (length key mod 256) key, it_exptime := exptime,
       it_suffix := (if inline_ascii_response (settings s) \<or> nsuffix \<noteq> 0 then sfx else it_suffix i),
       it_nsuffix := nsuffix, h_next := 0\<rparr>"

definition do_item_alloc ::
  "(bytes \<Rightarrow> u32) \<Rightarrow> (u32 \<Rightarrow> bool) \<Rightarrow> bytes \<Rightarrow> u32 \<Rightarrow> u32 \<Rightarrow> u32 \<Rightarrow> 'a cache_scheme \<Rightarrow> (addr \<times> 'a cache_scheme) option" where
  "do_item_alloc hash locked key flags exptime nbytes s =
     (if sint nbytes < 2 then Some (0, s)
      else
        (let (ntotal, sfx, nsuffix) = item_make_header (settings s) (of_nat (length key) + 1) flags nbytes;
             ntotal = (if use_cas (settings s) then ntotal + 8 else ntotal);
             cid = slabs_clsid_of ntotal s
         in if cid = 0 then Some (0, s)
            else do {
              let htotal = of_nat (length key) + 1 + ucast nsuffix + sizeof_item (settings s) + sizeof_item_chunk +
                    (if use_cas (settings s) then 8 else 0);
              let large = scast (slab_chunk_size_max (settings s)) < ntotal;
              let hdr_id = (if large then slabs_clsid_of htotal s else 0);
              (it, s) \<leftarrow> (if large then do_item_alloc_pull hash locked htotal hdr_id s
                           else do_item_alloc_pull hash locked ntotal cid s);
              if it = 0 then Some (0, upd_stats cid (\<lambda>t. t\<lparr>outofmemory := outofmemory t + 1\<rparr>) s)
              else do {
                s \<leftarrow> (if large then upd_item it (set_flag ITEM_CHUNKED) s else Some s);
                i \<leftarrow> mc_items s it;
                assertion (slabs_clsid i = 0);
                s \<leftarrow> upd_item it (new_item key exptime nbytes sfx nsuffix cid s) s;
                i \<leftarrow> mc_items s it;
                let s = (if has ITEM_CHUNKED i
                         then s\<lparr>mc_items := (mc_items s)(ITEM_data (settings s) it i \<mapsto>
                                zero_item\<lparr>h_next := it, it_nsuffix := of_nat hdr_id\<rparr>)\<rparr>
                         else s);
                Some (it, s)
              }
            }))"

definition item_size_ok :: "nat \<Rightarrow> u32 \<Rightarrow> u32 \<Rightarrow> 'a cache_scheme \<Rightarrow> bool" where
  "item_size_ok nkey flags nbytes s =
     (if sint nbytes < 2 then False
      else
        (let (ntotal, _, _) = item_make_header (settings s) (of_nat nkey + 1) flags nbytes;
             ntotal = (if use_cas (settings s) then ntotal + 8 else ntotal)
         in slabs_clsid_of ntotal s \<noteq> 0))"

section \<open>Maintenance\<close>

partial_function (option) bump_entries :: "nat \<Rightarrow> nat \<Rightarrow> u32 \<Rightarrow> 'a cache_scheme \<Rightarrow> 'a cache_scheme option" where
  "bump_entries b off todo s =
     (if todo = 0 then Some s
      else do {
        be \<leftarrow> (case read_at off 16 (bump_buf (threads s ! b)) of Inl _ \<Rightarrow> None | Inr be \<Rightarrow> Some be);
        let it = le_word (take 8 be);
        s \<leftarrow> do_item_update it s;
        s \<leftarrow> do_item_remove it s;
        bump_entries b (off + 16) (todo - 16) s
      })"

definition bump_one_buffer :: "nat \<Rightarrow> 'a cache_scheme \<Rightarrow> (bool \<times> 'a cache_scheme) option" where
  "bump_one_buffer b s =
     (case bipbuf_peek_all (bump_buf (threads s ! b)) of
        None \<Rightarrow> Some (False, s)
      | Some (off, sz) \<Rightarrow> do {
          s \<leftarrow> bump_entries b off sz s;
          let th = threads s ! b;
          Some (True, s\<lparr>threads := (threads s)[b := th\<lparr>bump_buf := snd (bipbuf_poll (bump_buf th) sz)\<rparr>]\<rparr>)
        })"

fun bump_buffers :: "nat list \<Rightarrow> bool \<Rightarrow> 'a cache_scheme \<Rightarrow> (bool \<times> 'a cache_scheme) option" where
  "bump_buffers [] bumped s = Some (bumped, s)"
| "bump_buffers (b # bs) bumped s =
     do { (did, s) \<leftarrow> bump_one_buffer b s; bump_buffers bs (bumped \<or> did) s }"

text \<open>The newest buffer comes first.\<close>

definition lru_maintainer_bumps :: "'a cache_scheme \<Rightarrow> (bool \<times> 'a cache_scheme) option" where
  "lru_maintainer_bumps s = bump_buffers (rev [0..<length (threads s)]) False s"

definition lru_total_bumps_dropped :: "'a cache_scheme \<Rightarrow> u64" where
  "lru_total_bumps_dropped s = sum_list (map bump_dropped (rev (threads s)))"

text \<open>
  \<open>lru_maintainer_juggle\<close>: the ages \<open>cold_age * settings.hot_max_factor\<close> are floating-point
  products and arguments (\<open>hot_factor\<close>, \<open>warm_factor\<close>).
\<close>

fun juggle_temp :: "nat \<Rightarrow> (bytes \<Rightarrow> u32) \<Rightarrow> (u32 \<Rightarrow> bool) \<Rightarrow> nat \<Rightarrow> nat \<Rightarrow> 'a cache_scheme \<Rightarrow> (nat \<times> 'a cache_scheme) option" where
  "juggle_temp 0 hash locked cid did_moves s = Some (did_moves, s)"
| "juggle_temp (Suc n) hash locked cid did_moves s =
     do {
       (r, s) \<leftarrow> lru_pull_tail hash locked cid TEMP_LRU 0 0 0 s;
       if r = 0 then Some (did_moves, s) else juggle_temp n hash locked cid (did_moves + 1) s
     }"

definition juggle_trip ::
  "(bytes \<Rightarrow> u32) \<Rightarrow> (u32 \<Rightarrow> bool) \<Rightarrow> nat \<Rightarrow> u64 \<Rightarrow> u32 \<Rightarrow> u32 \<Rightarrow> 'a cache_scheme \<Rightarrow> (nat \<times> 'a cache_scheme) option" where
  "juggle_trip hash locked cid total_bytes hot_age warm_age s =
     do {
       (h, s) \<leftarrow> lru_pull_tail hash locked cid HOT_LRU total_bytes LRU_PULL_CRAWL_BLOCKS hot_age s;
       (do_more, s) \<leftarrow> (if h \<noteq> 0 then Some (1, s)
          else do {
            (w, s) \<leftarrow> lru_pull_tail hash locked cid WARM_LRU total_bytes LRU_PULL_CRAWL_BLOCKS warm_age s;
            Some (if w \<noteq> 0 then 1 else 0, s)
          });
       if lru_segmented (settings s)
       then do {
         (c, s) \<leftarrow> lru_pull_tail hash locked cid COLD_LRU total_bytes LRU_PULL_CRAWL_BLOCKS 0 s;
         Some (do_more + c, s)
       }
       else Some (do_more, s)
     }"

fun juggle_loop ::
  "nat \<Rightarrow> (bytes \<Rightarrow> u32) \<Rightarrow> (u32 \<Rightarrow> bool) \<Rightarrow> nat \<Rightarrow> u64 \<Rightarrow> u32 \<Rightarrow> u32 \<Rightarrow> nat \<Rightarrow> 'a cache_scheme \<Rightarrow> (nat \<times> 'a cache_scheme) option" where
  "juggle_loop 0 hash locked cid total_bytes hot_age warm_age did_moves s = Some (did_moves, s)"
| "juggle_loop (Suc n) hash locked cid total_bytes hot_age warm_age did_moves s =
     do {
       (do_more, s) \<leftarrow> juggle_trip hash locked cid total_bytes hot_age warm_age s;
       if do_more = 0 then Some (did_moves, s)
       else juggle_loop n hash locked cid total_bytes hot_age warm_age (did_moves + 1) s
     }"

definition lru_maintainer_juggle ::
  "(bytes \<Rightarrow> u32) \<Rightarrow> (u32 \<Rightarrow> bool) \<Rightarrow> (u32 \<Rightarrow> u32) \<Rightarrow> (u32 \<Rightarrow> u32) \<Rightarrow> nat \<Rightarrow> 'a cache_scheme \<Rightarrow> (nat \<times> 'a cache_scheme) option" where
  "lru_maintainer_juggle hash locked hot_factor warm_factor cid s =
     do {
       (_, _, total_bytes, _) \<leftarrow> slabs_available_chunks cid s;
       (did_moves, s) \<leftarrow> (if temp_lru (settings s) then juggle_temp 500 hash locked cid 0 s else Some (0, s));
       let total_bytes = (if temp_lru (settings s) then total_bytes - ucast (temp_lru_size cid s) else total_bytes);
       let tail = tails s ! (cid OR COLD_LRU);
       cold_age \<leftarrow> (if lru_segmented (settings s) \<and> tail \<noteq> 0
                    then map_option (\<lambda>i. current_time s - it_time i) (mc_items s tail) else Some 0);
       juggle_loop 500 hash locked cid total_bytes (if lru_segmented (settings s) then hot_factor cold_age else 0)
         (if lru_segmented (settings s) then warm_factor cold_age else 0) did_moves s
     }"

end
