(* ===== verification/MC_Lists.thy ===== *)
theory MC_Lists
  imports MC_Items MC_Assoc_Correct
begin

text \<open>
  Doubly linked lists in memory, and the LRU lists of the DRAM cache: a list of addresses stands
  for a list from \<open>heads\<close> to \<open>tails\<close>, and the counters of the list fit it. Linking puts an item in
  front, unlinking takes it out, and neither changes anything but the links of the list.
\<close>

section \<open>Segments\<close>

text \<open>
  The items \<open>xs\<close> from \<open>p\<close> on, linked in both directions: \<open>q\<close> is before them, the last of them (or
  \<open>q\<close>) is \<open>q'\<close>, and \<open>p'\<close> comes after them.
\<close>

fun dseg :: "(addr \<Rightarrow> item option) \<Rightarrow> addr \<Rightarrow> addr \<Rightarrow> addr list \<Rightarrow> addr \<Rightarrow> addr \<Rightarrow> bool" where
  "dseg its q p [] q' p' \<longleftrightarrow> p = p' \<and> q = q'"
| "dseg its q p (x # xs) q' p' \<longleftrightarrow>
     p = x \<and> x \<noteq> 0 \<and> (\<exists>i. its x = Some i \<and> it_prev i = q \<and> dseg its x (it_next i) xs q' p')"

lemma dseg_append:
  "dseg its q p (xs @ ys) q' p' \<longleftrightarrow> (\<exists>m n. dseg its q p xs m n \<and> dseg its m n ys q' p')"
  by (induction xs arbitrary: q p) auto

lemma dseg_cong:
  assumes "\<And>x. x \<in> set xs \<Longrightarrow> map_option (\<lambda>i. (it_prev i, it_next i)) (its' x) = map_option (\<lambda>i. (it_prev i, it_next i)) (its x)"
    and "dseg its q p xs q' p'"
  shows "dseg its' q p xs q' p'"
  using assms
proof (induction xs arbitrary: q p)
  case (Cons x xs)
  then obtain i where i: "its x = Some i" "it_prev i = q" "dseg its x (it_next i) xs q' p'" "p = x" "x \<noteq> 0" by auto
  from Cons.prems(1) [of x] i(1) obtain j where j: "its' x = Some j" "it_prev j = it_prev i" "it_next j = it_next i" by auto
  have "dseg its' x (it_next i) xs q' p'" by (rule Cons.IH [OF _ i(3)]) (use Cons.prems(1) in auto)
  then show ?case using i j by auto
qed simp

lemma dseg_items: "dseg its q p xs q' p' \<Longrightarrow> x \<in> set xs \<Longrightarrow> x \<noteq> 0 \<and> its x \<noteq> None"
  by (induction xs arbitrary: q p) auto

lemma dseg_last: "dseg its q p xs q' p' \<Longrightarrow> q' = (if xs = [] then q else last xs)"
  by (induction xs arbitrary: q p) auto

lemma dseg_first: "dseg its q p xs q' p' \<Longrightarrow> p = (if xs = [] then p' else hd xs)"
  by (cases xs) auto

lemma dseg_zero: "dseg its q 0 xs q' p' \<longleftrightarrow> xs = [] \<and> p' = 0 \<and> q' = q"
  by (cases xs) auto

text \<open>An item with its links taken away: what linking and unlinking leave as it is.\<close>

definition strip :: "item \<Rightarrow> item" where
  "strip i = i\<lparr>it_next := 0, it_prev := 0\<rparr>"

lemma strip_simps [simp]:
  "strip (i\<lparr>it_next := a\<rparr>) = strip i" "strip (i\<lparr>it_prev := a\<rparr>) = strip i"
  by (simp_all add: strip_def)

lemma strip_eqD:
  assumes "strip i = strip j"
  shows "h_next i = h_next j" "it_time i = it_time j" "it_exptime i = it_exptime j" "it_nbytes i = it_nbytes j"
    "it_refcount i = it_refcount j" "it_nsuffix i = it_nsuffix j" "it_flags i = it_flags j"
    "slabs_clsid i = slabs_clsid j" "it_key i = it_key j" "it_skey i = it_skey j" "it_vptr i = it_vptr j"
    "it_vtag i = it_vtag j" "it_cas i = it_cas j" "it_suffix i = it_suffix j" "it_data i = it_data j"
  using assms by (cases i; cases j; simp add: strip_def)+

lemma strip_eq_ntotal: "strip i = strip j \<Longrightarrow> ITEM_ntotal c i = ITEM_ntotal c j"
  using strip_eqD [of i j] by (simp add: ITEM_ntotal_def has_def)

definition same_items :: "(addr \<Rightarrow> item option) \<Rightarrow> (addr \<Rightarrow> item option) \<Rightarrow> bool" where
  "same_items its its' \<longleftrightarrow> (\<forall>x. map_option strip (its' x) = map_option strip (its x))"

lemma same_items_refl [simp]: "same_items its its"
  by (simp add: same_items_def)

lemma same_items_trans: "same_items a b \<Longrightarrow> same_items b c \<Longrightarrow> same_items a c"
  by (simp add: same_items_def)

lemma same_itemsD:
  assumes "same_items its its'"
  shows "its x = Some i \<Longrightarrow> \<exists>j. its' x = Some j \<and> strip j = strip i"
    "its' x = Some j \<Longrightarrow> \<exists>i. its x = Some i \<and> strip j = strip i"
    "its x = None \<longleftrightarrow> its' x = None"
proof -
  have e: "map_option strip (its' x) = map_option strip (its x)" using assms by (simp add: same_items_def)
  show "its x = Some i \<Longrightarrow> \<exists>j. its' x = Some j \<and> strip j = strip i" using e by (cases "its' x") auto
  show "its' x = Some j \<Longrightarrow> \<exists>i. its x = Some i \<and> strip j = strip i" using e by (cases "its x") auto
  show "its x = None \<longleftrightarrow> its' x = None" using e by (cases "its x"; cases "its' x") auto
qed

text \<open>Updates of a link at the ends of a segment.\<close>

definition relink :: "(item \<Rightarrow> item) \<Rightarrow> addr \<Rightarrow> (addr \<Rightarrow> item option) \<Rightarrow> addr \<Rightarrow> item option" where
  "relink f p its = (if p = 0 then its else its(p := map_option f (its p)))"

abbreviation put_prev :: "addr \<Rightarrow> addr \<Rightarrow> (addr \<Rightarrow> item option) \<Rightarrow> addr \<Rightarrow> item option" where
  "put_prev p q \<equiv> relink (it_prev_update (\<lambda>_. q)) p"

abbreviation put_next :: "addr \<Rightarrow> addr \<Rightarrow> (addr \<Rightarrow> item option) \<Rightarrow> addr \<Rightarrow> item option" where
  "put_next p q \<equiv> relink (it_next_update (\<lambda>_. q)) p"

lemma set_prev_eq: "p = 0 \<or> mc_items s p \<noteq> None \<Longrightarrow> set_prev p q s = Some (s\<lparr>mc_items := put_prev p q (mc_items s)\<rparr>)"
  by (auto simp: set_prev_def relink_def upd_item_def)

lemma set_next_eq: "p = 0 \<or> mc_items s p \<noteq> None \<Longrightarrow> set_next p q s = Some (s\<lparr>mc_items := put_next p q (mc_items s)\<rparr>)"
  by (auto simp: set_next_def relink_def upd_item_def)

lemma relink_None [simp]: "relink f p its x = None \<longleftrightarrow> its x = None"
  by (simp add: relink_def)

lemma relink_other [simp]: "x \<noteq> p \<Longrightarrow> relink f p its x = its x"
  by (simp add: relink_def)

lemma same_items_put [simp]:
  "same_items its (put_prev p q its)" "same_items its (put_next p q its)"
  by (auto simp: same_items_def relink_def option.map_comp comp_def)

lemma dseg_put_other:
  "p \<notin> set xs \<Longrightarrow> dseg its q0 p0 xs q1 p1 \<Longrightarrow> dseg (relink f p its) q0 p0 xs q1 p1"
  by (rule dseg_cong [of xs _ its]) (auto simp: relink_def)

lemma dseg_put_prev: "dseg its q p xs q' 0 \<Longrightarrow> distinct xs \<Longrightarrow>
    dseg (put_prev p r its) r p xs (if xs = [] then r else q') 0"
proof (cases xs)
  case (Cons x ys)
  assume "dseg its q p xs q' 0" "distinct xs"
  with Cons obtain i where "p = x" "x \<noteq> 0" "its x = Some i" "dseg its x (it_next i) ys q' 0" "x \<notin> set ys" by auto
  then show ?thesis using Cons dseg_put_other [of x ys its x "it_next i" q' 0 "it_prev_update (\<lambda>_. r)"]
    by (simp add: relink_def)
qed simp

lemma dseg_put_next: "dseg its 0 p xs q' p' \<Longrightarrow> distinct xs \<Longrightarrow>
    dseg (put_next q' r its) 0 (if xs = [] then r else p) xs q' r"
proof (cases xs rule: rev_cases)
  case (snoc ys y)
  assume "dseg its 0 p xs q' p'" "distinct xs"
  with snoc obtain i m where s: "dseg its 0 p ys m y" "its y = Some i" "it_prev i = m" "y \<noteq> 0" "q' = y" "y \<notin> set ys"
    by (auto simp: dseg_append)
  then show ?thesis using snoc dseg_put_other [of y ys its 0 p m y "it_next_update (\<lambda>_. r)"]
    by (simp add: dseg_append relink_def)
qed simp

section \<open>Taking out and putting in\<close>

lemma dseg_unlink:
  assumes seg: "dseg its 0 h (as @ x # bs) t 0" and d: "distinct (as @ x # bs)" and x: "its x = Some i"
  shows "dseg (put_next (it_prev i) (it_next i) (put_prev (it_next i) (it_prev i) its)) 0
      (if h = x then it_next i else h) (as @ bs) (if t = x then it_prev i else t) 0"
    "h = x \<longleftrightarrow> as = []" "t = x \<longleftrightarrow> bs = []" "it_prev i = 0 \<longleftrightarrow> as = []" "it_next i = 0 \<longleftrightarrow> bs = []"
    "it_prev i \<noteq> x" "it_next i \<noteq> x" "it_prev i \<noteq> 0 \<Longrightarrow> it_prev i \<in> set as" "it_next i \<noteq> 0 \<Longrightarrow> it_next i \<in> set bs"
proof -
  have a: "dseg its 0 h as (it_prev i) x" and b: "dseg its x (it_next i) bs t 0" and x0: "x \<noteq> 0"
    using seg x by (auto simp: dseg_append)
  have q: "it_prev i = (if as = [] then 0 else last as)" and h: "h = (if as = [] then x else hd as)"
    and n: "it_next i = (if bs = [] then 0 else hd bs)" and t: "t = (if bs = [] then x else last bs)"
    using dseg_last [OF a] dseg_first [OF a] dseg_last [OF b] dseg_first [OF b] by simp_all
  have as0: "0 \<notin> set as" "0 \<notin> set bs" using dseg_items [OF a] dseg_items [OF b] by auto
  show eq: "h = x \<longleftrightarrow> as = []" "t = x \<longleftrightarrow> bs = []" using h t d by (auto simp: hd_in_set)
  show z: "it_prev i = 0 \<longleftrightarrow> as = []" "it_next i = 0 \<longleftrightarrow> bs = []" using q n as0 by (metis last_in_set hd_in_set)+
  show "it_prev i \<noteq> x" using q d x0 by (metis disjoint_iff distinct_append last_in_set list.set_intros(1))
  show "it_next i \<noteq> x" using n d x0 by (metis distinct.simps(2) distinct_append hd_in_set)
  show qin: "it_prev i \<noteq> 0 \<Longrightarrow> it_prev i \<in> set as" using q by (metis last_in_set)
  show nin: "it_next i \<noteq> 0 \<Longrightarrow> it_next i \<in> set bs" using n by (metis hd_in_set)
  let ?its = "put_prev (it_next i) (it_prev i) its"
  have b': "dseg ?its (it_prev i) (it_next i) bs (if bs = [] then it_prev i else t) 0"
    using dseg_put_prev [OF b] d by simp
  have "it_next i \<notin> set as" using nin as0 d by (cases "it_next i = 0") auto
  then have a': "dseg ?its 0 h as (it_prev i) x" by (rule dseg_put_other [OF _ a])
  have "it_prev i \<notin> set bs" using qin as0 d by (cases "it_prev i = 0") auto
  with b' have "dseg (put_next (it_prev i) (it_next i) ?its) (it_prev i) (it_next i) bs (if bs = [] then it_prev i else t) 0"
    by (rule dseg_put_other [rotated])
  moreover have "dseg (put_next (it_prev i) (it_next i) ?its) 0 (if as = [] then it_next i else h) as (it_prev i) (it_next i)"
    using dseg_put_next [OF a'] d by simp
  ultimately show "dseg (put_next (it_prev i) (it_next i) ?its) 0 (if h = x then it_next i else h) (as @ bs)
      (if t = x then it_prev i else t) 0" unfolding eq dseg_append by blast
qed

lemma dseg_link:
  assumes seg: "dseg its 0 h xs t 0" and d: "distinct xs" and x: "its x = Some i" "x \<noteq> 0" "x \<notin> set xs"
  shows "dseg (put_prev h x (its(x \<mapsto> i\<lparr>it_prev := 0, it_next := h\<rparr>))) 0 x (x # xs) (if t = 0 then x else t) 0"
    "h = 0 \<longleftrightarrow> xs = []" "t = 0 \<longleftrightarrow> xs = []" "h \<noteq> x" "t \<noteq> x" "h \<noteq> 0 \<Longrightarrow> h \<in> set xs"
proof -
  have h: "h = (if xs = [] then 0 else hd xs)" and t: "t = (if xs = [] then 0 else last xs)"
    using dseg_first [OF seg] dseg_last [OF seg] by simp_all
  have x0: "0 \<notin> set xs" using dseg_items [OF seg] by auto
  show z: "h = 0 \<longleftrightarrow> xs = []" "t = 0 \<longleftrightarrow> xs = []" using h t x0 by (metis hd_in_set last_in_set)+
  show ne: "h \<noteq> x" "t \<noteq> x" using h t x by (metis hd_in_set last_in_set)+
  show "h \<noteq> 0 \<Longrightarrow> h \<in> set xs" using h by (metis hd_in_set)
  let ?its = "its(x \<mapsto> i\<lparr>it_prev := 0, it_next := h\<rparr>)"
  have "dseg ?its 0 h xs t 0" by (rule dseg_cong [OF _ seg]) (use x in auto)
  then have "dseg (put_prev h x ?its) x h xs (if xs = [] then x else t) 0" using d by (rule dseg_put_prev)
  moreover have "put_prev h x ?its x = Some (i\<lparr>it_prev := 0, it_next := h\<rparr>)" using ne by simp
  ultimately show "dseg (put_prev h x ?its) 0 x (x # xs) (if t = 0 then x else t) 0" using x z(2) by simp
qed

lemma same_items_link: "its x = Some i \<Longrightarrow> same_items its (its(x \<mapsto> i\<lparr>it_prev := a, it_next := b\<rparr>))"
  by (auto simp: same_items_def)

section \<open>The hash table while other fields change\<close>

lemma assoc_holds_item:
  assumes "assoc_holds hash s M" "M k = Some x"
  shows "x \<noteq> 0" "\<exists>i. mc_items s x = Some i \<and> it_key i = k"
proof -
  from assms obtain ch where t: "tables_ok s" and c: "chains hash s ch" and m: "maps_to hash s ch M"
    by (auto simp: assoc_holds_def)
  have x: "x \<in> set (ch (bucket_slot (hash k) s))" "key_of s x = k" using m assms(2) unfolding maps_to_def by blast+
  obtain p where "hpath (mc_items s) p (ch (bucket_slot (hash k) s))"
    using c bucket_slot_root [OF t, of "hash k"] unfolding chains_def by blast
  from hpath_items [OF this x(1)] x(2) show "x \<noteq> 0" "\<exists>i. mc_items s x = Some i \<and> it_key i = k"
    by (auto simp: key_of_def)
qed

lemma assoc_holds_inj: "assoc_holds hash s M \<Longrightarrow> M k = Some x \<Longrightarrow> M k' = Some x \<Longrightarrow> k = k'"
  using assoc_holds_item(2) [of hash s M k x] assoc_holds_item(2) [of hash s M k' x] by auto

lemma assoc_holds_frame:
  assumes h: "assoc_holds hash s M"
    and items: "\<And>x i. x \<in> ran M \<Longrightarrow> mc_items s x = Some i \<Longrightarrow>
                  \<exists>j. mc_items s' x = Some j \<and> h_next j = h_next i \<and> it_key j = it_key i"
    and eqs: "hashpower s' = hashpower s" "primary_hashtable s' = primary_hashtable s"
      "old_hashtable s' = old_hashtable s" "expanding s' = expanding s" "expand_bucket s' = expand_bucket s"
      "hash_items s' = hash_items s"
  shows "assoc_holds hash s' M"
proof -
  from h obtain ch where t: "tables_ok s" and c: "chains hash s ch" and m: "maps_to hash s ch M"
    by (auto simp: assoc_holds_def)
  have same: "tables_ok s' = tables_ok s" "roots s' = roots s" "\<And>hv. bucket_slot hv s' = bucket_slot hv s"
    using eqs by (simp_all add: tables_ok_def roots_def bucket_slot_def)
  have get: "hslot_get r s' = hslot_get r s" if "r \<in> roots s" for r
    using that eqs by (cases r) (auto simp: roots_def)
  have mem: "x \<in> ran M" if "r \<in> roots s" "x \<in> set (ch r)" for r x
    using chain_member [OF c m that] by (auto simp: ran_def)
  have key: "key_of s' x = key_of s x" if "x \<in> ran M" for x
  proof -
    from that obtain k where "M k = Some x" by (auto simp: ran_def)
    from assoc_holds_item(2) [OF h this] obtain i where "mc_items s x = Some i" by blast
    with items [OF that] show ?thesis by (auto simp: key_of_def)
  qed
  have "chains hash s' ch" unfolding chains_def same
  proof
    fix r assume r: "r \<in> roots s"
    then obtain p where p: "hslot_get r s = Inr p" "hpath (mc_items s) p (ch r)" "distinct (map (key_of s) (ch r))"
      "\<forall>x \<in> set (ch r). bucket_slot (hash (key_of s x)) s = r" using c unfolding chains_def by blast
    have "hpath (mc_items s') p (ch r)"
    proof (rule hpath_cong [OF _ p(2)])
      fix x assume x: "x \<in> set (ch r)"
      with hpath_items [OF p(2)] obtain i where "mc_items s x = Some i" by blast
      with items [OF mem [OF r x]] show "map_option h_next (mc_items s' x) = map_option h_next (mc_items s x)" by auto
    qed
    moreover have "map (key_of s') (ch r) = map (key_of s) (ch r)" using key mem [OF r] by simp
    then have "distinct (map (key_of s') (ch r))" using p(3) by (simp only:)
    ultimately show "\<exists>p. hslot_get r s' = Inr p \<and> hpath (mc_items s') p (ch r) \<and> distinct (map (key_of s') (ch r)) \<and>
        (\<forall>x\<in>set (ch r). bucket_slot (hash (key_of s' x)) s = r)"
      using p(1,4) get [OF r] key mem [OF r] by auto
  qed
  moreover have "maps_to hash s' ch M" unfolding maps_to_def same
    using m key mem [OF bucket_slot_root [OF t]] unfolding maps_to_def by metis
  ultimately show ?thesis using h eqs same(1) by (auto simp: assoc_holds_def)
qed

section \<open>LRU lists\<close>

definition lru_bytes :: "settings_t \<Rightarrow> (addr \<Rightarrow> item option) \<Rightarrow> addr list \<Rightarrow> u64" where
  "lru_bytes c its xs = (\<Sum>x\<leftarrow>xs. ITEM_ntotal c (the (its x)))"

definition class_of :: "(addr \<Rightarrow> item option) \<Rightarrow> addr \<Rightarrow> nat" where
  "class_of its x = unat (slabs_clsid (the (its x)))"

definition lru_list :: "'a cache_scheme \<Rightarrow> nat \<Rightarrow> addr list \<Rightarrow> bool" where
  "lru_list s c xs \<longleftrightarrow> dseg (mc_items s) 0 (heads s ! c) xs (tails s ! c) 0 \<and> distinct xs \<and>
     sizes s ! c = of_nat (length xs) \<and> sizes_bytes s ! c = lru_bytes (settings s) (mc_items s) xs"

definition lru_ok :: "'a cache_scheme \<Rightarrow> (nat \<Rightarrow> addr list) \<Rightarrow> bool" where
  "lru_ok s L \<longleftrightarrow> length (heads s) = 256 \<and> length (tails s) = 256 \<and> length (sizes s) = 256 \<and>
     length (sizes_bytes s) = 256 \<and> (\<forall>c < 256. lru_list s c (L c)) \<and>
     (\<forall>c. \<forall>x \<in> set (L c). c < 256 \<and> class_of (mc_items s) x = c)"

text \<open>Only LRU fields changed, and of the items only links of items in \<open>X\<close>.\<close>

definition links_only :: "addr set \<Rightarrow> 'a cache_scheme \<Rightarrow> 'a cache_scheme \<Rightarrow> bool" where
  "links_only X s s' \<longleftrightarrow> same_items (mc_items s) (mc_items s') \<and> (\<forall>y. y \<notin> X \<longrightarrow> mc_items s' y = mc_items s y) \<and>
     s' = s\<lparr>mc_items := mc_items s', heads := heads s', tails := tails s', sizes := sizes s', sizes_bytes := sizes_bytes s'\<rparr>"

lemma links_only_fields:
  assumes "links_only X s s'"
  shows "settings s' = settings s" "current_time s' = current_time s" "slabclass s' = slabclass s"
    "power_largest s' = power_largest s" "mem_limit s' = mem_limit s" "mem_malloced s' = mem_malloced s"
    "mem_base s' = mem_base s" "mallocs s' = mallocs s" "itemstats s' = itemstats s" "threads s' = threads s"
    "hashpower s' = hashpower s" "primary_hashtable s' = primary_hashtable s" "old_hashtable s' = old_hashtable s"
    "expanding s' = expanding s" "expand_bucket s' = expand_bucket s" "hash_items s' = hash_items s"
    "curr_bytes s' = curr_bytes s" "curr_items s' = curr_items s" "cas_id s' = cas_id s"
    "stats_sizes_hist s' = stats_sizes_hist s" "stats_sizes_cas_min s' = stats_sizes_cas_min s"
proof -
  have e: "s' = s\<lparr>mc_items := mc_items s', heads := heads s', tails := tails s', sizes := sizes s', sizes_bytes := sizes_bytes s'\<rparr>"
    using assms by (simp add: links_only_def)
  show "settings s' = settings s" "current_time s' = current_time s" "slabclass s' = slabclass s"
    "power_largest s' = power_largest s" "mem_limit s' = mem_limit s" "mem_malloced s' = mem_malloced s"
    "mem_base s' = mem_base s" "mallocs s' = mallocs s" "itemstats s' = itemstats s" "threads s' = threads s"
    "hashpower s' = hashpower s" "primary_hashtable s' = primary_hashtable s" "old_hashtable s' = old_hashtable s"
    "expanding s' = expanding s" "expand_bucket s' = expand_bucket s" "hash_items s' = hash_items s"
    "curr_bytes s' = curr_bytes s" "curr_items s' = curr_items s" "cas_id s' = cas_id s"
    "stats_sizes_hist s' = stats_sizes_hist s" "stats_sizes_cas_min s' = stats_sizes_cas_min s"
    by (subst e, simp)+
qed

lemma lru_member:
  assumes "lru_ok s L" "x \<in> set (L c)"
  shows "c < 256" "x \<noteq> 0" "\<exists>i. mc_items s x = Some i \<and> unat (slabs_clsid i) = c" "lru_list s c (L c)"
    "\<And>c'. x \<in> set (L c') \<Longrightarrow> c' = c"
proof -
  have cl: "\<forall>c. \<forall>x \<in> set (L c). c < 256 \<and> class_of (mc_items s) x = c" using assms(1) unfolding lru_ok_def by blast
  with assms(2) show c: "c < 256" "\<And>c'. x \<in> set (L c') \<Longrightarrow> c' = c" by metis+
  show l: "lru_list s c (L c)" using assms(1) c(1) unfolding lru_ok_def by blast
  then have "dseg (mc_items s) 0 (heads s ! c) (L c) (tails s ! c) 0" by (simp add: lru_list_def)
  from dseg_items [OF this assms(2)] obtain i where i: "x \<noteq> 0" "mc_items s x = Some i" by blast
  have "class_of (mc_items s) x = c" using cl assms(2) by blast
  with i show "x \<noteq> 0" "\<exists>i. mc_items s x = Some i \<and> unat (slabs_clsid i) = c" by (simp_all add: class_of_def)
qed

lemma same_items_the: "same_items its its' \<Longrightarrow> its x \<noteq> None \<Longrightarrow> strip (the (its' x)) = strip (the (its x))"
  using same_itemsD(1) [of its its' x] by fastforce

lemma lru_bytes_same:
  assumes "same_items its its'" "\<And>x. x \<in> set xs \<Longrightarrow> its x \<noteq> None"
  shows "lru_bytes c its' xs = lru_bytes c its xs"
  unfolding lru_bytes_def by (rule arg_cong [of _ _ sum_list], rule map_cong [OF refl])
    (use assms in \<open>simp add: strip_eq_ntotal [OF same_items_the]\<close>)

lemma class_of_same: "same_items its its' \<Longrightarrow> its x \<noteq> None \<Longrightarrow> class_of its' x = class_of its x"
  unfolding class_of_def by (simp add: strip_eqD(8) [OF same_items_the])

text \<open>A list is replaced by another one, and the other lists keep their items.\<close>

lemma lru_ok_replace:
  assumes ok: "lru_ok s L" and links: "links_only X s s'" and c: "c < 256"
    and X: "\<And>c'. c' \<noteq> c \<Longrightarrow> X \<inter> set (L c') = {}"
    and cells: "\<And>c'. c' \<noteq> c \<Longrightarrow> heads s' ! c' = heads s ! c' \<and> tails s' ! c' = tails s ! c' \<and> sizes s' ! c' = sizes s ! c' \<and>
                  sizes_bytes s' ! c' = sizes_bytes s ! c'"
    and lens: "length (heads s') = 256" "length (tails s') = 256" "length (sizes s') = 256" "length (sizes_bytes s') = 256"
    and new: "lru_list s' c xs" "\<And>x. x \<in> set xs \<Longrightarrow> mc_items s x \<noteq> None \<and> class_of (mc_items s) x = c"
  shows "lru_ok s' (L(c := xs))"
proof -
  have same: "same_items (mc_items s) (mc_items s')" and out: "\<And>y. y \<notin> X \<Longrightarrow> mc_items s' y = mc_items s y"
    and set': "settings s' = settings s" using links links_only_fields(1) [OF links] by (auto simp: links_only_def)
  have "lru_list s' c' ((L(c := xs)) c')" if c': "c' < 256" for c'
  proof (cases "c' = c")
    case False
    have old: "lru_list s c' (L c')" using ok c' by (simp add: lru_ok_def)
    have its: "\<And>x. x \<in> set (L c') \<Longrightarrow> mc_items s' x = mc_items s x" using out X [OF False] by blast
    have "dseg (mc_items s') 0 (heads s ! c') (L c') (tails s ! c') 0"
      by (rule dseg_cong [of _ _ "mc_items s"]) (use old its in \<open>auto simp: lru_list_def\<close>)
    moreover have "lru_bytes (settings s) (mc_items s') (L c') = lru_bytes (settings s) (mc_items s) (L c')"
      unfolding lru_bytes_def by (rule arg_cong [of _ _ sum_list], rule map_cong [OF refl]) (simp add: its)
    ultimately show ?thesis using old cells [OF False] False set' by (simp add: lru_list_def)
  qed (use new in simp)
  moreover have "\<forall>c'. \<forall>x \<in> set ((L(c := xs)) c'). c' < 256 \<and> class_of (mc_items s') x = c'"
  proof (intro allI ballI)
    fix c' x assume x: "x \<in> set ((L(c := xs)) c')"
    show "c' < 256 \<and> class_of (mc_items s') x = c'"
    proof (cases "c' = c")
      case True
      then show ?thesis using x new(2) [of x] c class_of_same [OF same, of x] by simp
    next
      case False
      then have "x \<in> set (L c')" using x by simp
      from lru_member [OF ok this] class_of_same [OF same, of x] show ?thesis by (auto simp: class_of_def)
    qed
  qed
  ultimately show ?thesis using lens by (simp add: lru_ok_def)
qed

lemma lru_bytes_remove1:
  "x \<in> set xs \<Longrightarrow> its x = Some i \<Longrightarrow> lru_bytes c its (remove1 x xs) = lru_bytes c its xs - ITEM_ntotal c i"
  by (simp add: lru_bytes_def sum_list_map_remove1)

lemma do_item_unlink_q_ok:
  assumes ok: "lru_ok s L" and x: "x \<in> set (L c)"
  shows "\<exists>s'. do_item_unlink_q x s = Some s' \<and> lru_ok s' (L(c := remove1 x (L c))) \<and> links_only (set (L c) - {x}) s s'"
proof -
  note mem = lru_member [OF ok x]
  from mem(3) obtain i where i: "mc_items s x = Some i" "unat (slabs_clsid i) = c" by blast
  from x obtain as bs where split: "L c = as @ x # bs" by (meson split_list)
  have seg: "dseg (mc_items s) 0 (heads s ! c) (as @ x # bs) (tails s ! c) 0" and d: "distinct (as @ x # bs)"
    using mem(4) split by (simp_all add: lru_list_def)
  note un = dseg_unlink [OF seg d i(1)]
  have rem: "remove1 x (L c) = as @ bs" using split d by (simp add: remove1_append)
  have lens: "length (heads s) = 256" "length (tails s) = 256" "length (sizes s) = 256" "length (sizes_bytes s) = 256"
    using ok by (simp_all add: lru_ok_def)
  define its' where "its' = put_next (it_prev i) (it_next i) (put_prev (it_next i) (it_prev i) (mc_items s))"
  define h' where "h' = (if heads s ! c = x then (heads s)[c := it_next i] else heads s)"
  define t' where "t' = (if tails s ! c = x then (tails s)[c := it_prev i] else tails s)"
  define s' where "s' = s\<lparr>mc_items := its', heads := h', tails := t', sizes := (sizes s)[c := sizes s ! c - 1],
    sizes_bytes := (sizes_bytes s)[c := sizes_bytes s ! c - ITEM_ntotal (settings s) i]\<rparr>"
  have ne: "it_next i = 0 \<or> mc_items s (it_next i) \<noteq> None" "it_prev i = 0 \<or> mc_items s (it_prev i) \<noteq> None"
    using un(8,9) dseg_items [OF seg] by auto
  have run: "do_item_unlink_q x s = Some s'"
    using i un(2-7) ne by (auto simp: do_item_unlink_q_def Let_def set_prev_eq set_next_eq s'_def its'_def h'_def t'_def)
  have same: "same_items (mc_items s) its'"
    unfolding its'_def by (rule same_items_trans [OF same_items_put(1) same_items_put(2)])
  have "its' y = mc_items s y" if "y \<notin> set (L c) - {x}" for y
    using that un(6-9) dseg_items [OF seg] split by (cases "it_next i = 0"; cases "it_prev i = 0") (auto simp: its'_def relink_def)
  then have links: "links_only (set (L c) - {x}) s s'" using same by (auto simp: links_only_def s'_def)
  have new: "lru_list s' c (as @ bs)"
  proof -
    have "lru_bytes (settings s) its' (as @ bs) = lru_bytes (settings s) (mc_items s) (as @ bs)"
      by (rule lru_bytes_same [OF same]) (use dseg_items [OF seg] in auto)
    also have "\<dots> = sizes_bytes s ! c - ITEM_ntotal (settings s) i"
      using lru_bytes_remove1 [of x "L c" "mc_items s" i "settings s"] x i(1) mem(4) by (simp add: rem lru_list_def)
    finally show ?thesis using un(1) d mem(1,4) lens split
      by (simp add: lru_list_def s'_def its'_def [symmetric] h'_def t'_def if_distrib [of "\<lambda>l. l ! c"] cong: if_cong)
  qed
  have "lru_ok s' (L(c := as @ bs))"
  proof (rule lru_ok_replace [OF ok links mem(1)])
    show "(set (L c) - {x}) \<inter> set (L c') = {}" if "c' \<noteq> c" for c' using lru_member(5) [OF ok] that by blast
    show "heads s' ! c' = heads s ! c' \<and> tails s' ! c' = tails s ! c' \<and> sizes s' ! c' = sizes s ! c' \<and>
        sizes_bytes s' ! c' = sizes_bytes s ! c'" if "c' \<noteq> c" for c' using that by (simp add: s'_def h'_def t'_def)
    show "mc_items s y \<noteq> None \<and> class_of (mc_items s) y = c" if "y \<in> set (as @ bs)" for y
      using lru_member(3) [OF ok, of y c] that split by (auto simp: class_of_def)
  qed (use lens new in \<open>simp_all add: s'_def h'_def t'_def\<close>)
  then show ?thesis using run links rem by auto
qed

lemma do_item_link_q_ok:
  assumes ok: "lru_ok s L" and x: "mc_items s x = Some i" "x \<noteq> 0" "\<And>c. x \<notin> set (L c)" "\<not> has ITEM_SLABBED i"
    and c: "c = unat (slabs_clsid i)"
  shows "\<exists>s'. do_item_link_q x s = Some s' \<and> lru_ok s' (L(c := x # L c)) \<and> links_only (insert x (set (L c))) s s'"
proof -
  have c256: "c < 256" using unsigned_less [where 'a = nat, of "slabs_clsid i"] by (simp add: c)
  have lens: "length (heads s) = 256" "length (tails s) = 256" "length (sizes s) = 256" "length (sizes_bytes s) = 256"
    and l: "lru_list s c (L c)" using ok c256 unfolding lru_ok_def by auto
  then have seg: "dseg (mc_items s) 0 (heads s ! c) (L c) (tails s ! c) 0" and d: "distinct (L c)"
    by (simp_all add: lru_list_def)
  note li = dseg_link [OF seg d x(1,2) x(3)]
  define its' where "its' = put_prev (heads s ! c) x ((mc_items s)(x \<mapsto> i\<lparr>it_prev := 0, it_next := heads s ! c\<rparr>))"
  define t' where "t' = (if tails s ! c = 0 then (tails s)[c := x] else tails s)"
  define s' where "s' = s\<lparr>mc_items := its', heads := (heads s)[c := x], tails := t', sizes := (sizes s)[c := sizes s ! c + 1],
    sizes_bytes := (sizes_bytes s)[c := sizes_bytes s ! c + ITEM_ntotal (settings s) i]\<rparr>"
  have ne: "heads s ! c = 0 \<or> mc_items s (heads s ! c) \<noteq> None" using li(6) dseg_items [OF seg] by auto
  have run: "do_item_link_q x s = Some s'"
    using x li(2-5) ne c by (auto simp: do_item_link_q_def Let_def upd_item_def set_prev_eq s'_def its'_def t'_def)
  have same: "same_items (mc_items s) its'"
    unfolding its'_def by (rule same_items_trans [OF same_items_link same_items_put(1)]) (rule x(1))
  have "its' y = mc_items s y" if "y \<notin> insert x (set (L c))" for y
    using that li(6) by (cases "heads s ! c = 0") (auto simp: its'_def relink_def)
  then have links: "links_only (insert x (set (L c))) s s'" using same by (auto simp: links_only_def s'_def)
  have new: "lru_list s' c (x # L c)"
  proof -
    have "lru_bytes (settings s) its' (x # L c) = lru_bytes (settings s) (mc_items s) (x # L c)"
      by (rule lru_bytes_same [OF same]) (use dseg_items [OF seg] x in auto)
    also have "\<dots> = sizes_bytes s ! c + ITEM_ntotal (settings s) i"
      using l x by (simp add: lru_list_def lru_bytes_def)
    finally show ?thesis using li(1) d x(3) l lens c256
      by (simp add: lru_list_def s'_def its'_def [symmetric] t'_def if_distrib [of "\<lambda>l. l ! c"] cong: if_cong)
  qed
  have "lru_ok s' (L(c := x # L c))"
  proof (rule lru_ok_replace [OF ok links c256])
    show "insert x (set (L c)) \<inter> set (L c') = {}" if "c' \<noteq> c" for c' using lru_member(5) [OF ok] x(3) that by blast
    show "heads s' ! c' = heads s ! c' \<and> tails s' ! c' = tails s ! c' \<and> sizes s' ! c' = sizes s ! c' \<and>
        sizes_bytes s' ! c' = sizes_bytes s ! c'" if "c' \<noteq> c" for c' using that by (simp add: s'_def t'_def)
    show "mc_items s y \<noteq> None \<and> class_of (mc_items s) y = c" if "y \<in> set (x # L c)" for y
      using lru_member(3) [OF ok, of y c] that x(1) c by (auto simp: class_of_def)
  qed (use lens new in \<open>simp_all add: s'_def t'_def\<close>)
  then show ?thesis using run links by auto
qed

end
