(* ===== verification/MC_Slabs_Correct.thy ===== *)
theory MC_Slabs_Correct
  imports MC_Lists
begin

text \<open>
  The slab allocator keeps its pages and free lists in order: pages do not overlap, a free list
  holds chunks of pages of its class, each once, and its counter counts them. A chunk handed out
  is in no free list any more, and a chunk given back comes to the front of the list of its class.
\<close>

section \<open>Pages and chunks\<close>

definition classes :: "'a slab_state_scheme \<Rightarrow> nat set" where
  "classes s = {1..power_largest s}"

definition page_chunks :: "slabclass_t \<Rightarrow> addr \<Rightarrow> addr list" where
  "page_chunks p pg = map (\<lambda>k. pg + of_nat k * ucast (sc_size p)) [0..<unat (perslab p)]"

definition pages_of :: "slabclass_t \<Rightarrow> addr list" where
  "pages_of p = take (unat (slabs p)) (slab_list p)"

definition class_chunks :: "slabclass_t \<Rightarrow> addr set" where
  "class_chunks p = (\<Union>pg \<in> set (pages_of p). set (page_chunks p pg))"

definition all_pages :: "'a slab_state_scheme \<Rightarrow> addr set" where
  "all_pages s = (\<Union>c \<in> classes s. set (pages_of (slabclass s ! c)))"

definition page_bytes :: "'a slab_state_scheme \<Rightarrow> nat" where
  "page_bytes s = unat (slab_page_size (settings s))"

text \<open>A class cuts its pages into chunks that fit.\<close>

definition class_ok :: "settings_t \<Rightarrow> slabclass_t \<Rightarrow> bool" where
  "class_ok c p \<longleftrightarrow> 0 < unat (sc_size p) \<and> 0 < unat (perslab p) \<and>
     unat (sc_size p) * unat (perslab p) \<le> unat (slab_page_size c) \<and> unat (slab_page_size c) < 2 ^ 31 \<and>
     unat (slabs p) \<le> length (slab_list p)"

text \<open>Two pages do not overlap.\<close>

definition apart :: "nat \<Rightarrow> addr \<Rightarrow> addr \<Rightarrow> bool" where
  "apart n p q \<longleftrightarrow> unat p + n \<le> unat q \<or> unat q + n \<le> unat p"

text \<open>
  The memory in use and the memory that \<open>malloc\<close> will return are disjoint, and there is less of it
  than counters can count. This is what the allocator needs of the system.
\<close>

definition memory_ok :: "'a slab_state_scheme \<Rightarrow> bool" where
  "memory_ok s \<longleftrightarrow>
     (let used = all_pages s; new = set (mallocs s) - {0}
      in 0 \<notin> used \<and> used \<inter> new = {} \<and> distinct (filter (\<lambda>p. p \<noteq> 0) (mallocs s)) \<and>
         (\<forall>p \<in> used \<union> new. unat p + page_bytes s \<le> 2 ^ 64) \<and>
         (\<forall>p \<in> used \<union> new. \<forall>q \<in> used \<union> new. p \<noteq> q \<longrightarrow> apart (page_bytes s) p q) \<and>
         (\<forall>c \<in> classes s. distinct (pages_of (slabclass s ! c)) \<and>
            (unat (slabs (slabclass s ! c)) + length (mallocs s)) * unat (perslab (slabclass s ! c)) < 2 ^ 32) \<and>
         (\<forall>c \<in> classes s. \<forall>d \<in> classes s. c \<noteq> d \<longrightarrow>
            set (pages_of (slabclass s ! c)) \<inter> set (pages_of (slabclass s ! d)) = {}))"

lemma memory_okD:
  assumes "memory_ok s"
  shows "0 \<notin> all_pages s" "all_pages s \<inter> (set (mallocs s) - {0}) = {}" "distinct (filter (\<lambda>p. p \<noteq> 0) (mallocs s))"
    "\<And>p. p \<in> all_pages s \<union> (set (mallocs s) - {0}) \<Longrightarrow> unat p + page_bytes s \<le> 2 ^ 64"
    "\<And>p q. p \<in> all_pages s \<union> (set (mallocs s) - {0}) \<Longrightarrow> q \<in> all_pages s \<union> (set (mallocs s) - {0}) \<Longrightarrow> p \<noteq> q \<Longrightarrow>
       apart (page_bytes s) p q"
    "\<And>c. c \<in> classes s \<Longrightarrow> distinct (pages_of (slabclass s ! c))"
    "\<And>c. c \<in> classes s \<Longrightarrow>
       (unat (slabs (slabclass s ! c)) + length (mallocs s)) * unat (perslab (slabclass s ! c)) < 2 ^ 32"
    "\<And>c d. c \<in> classes s \<Longrightarrow> d \<in> classes s \<Longrightarrow> c \<noteq> d \<Longrightarrow>
       set (pages_of (slabclass s ! c)) \<inter> set (pages_of (slabclass s ! d)) = {}"
  using assms unfolding memory_ok_def Let_def by blast+

lemma unat_chunk:
  fixes pg :: addr
  assumes "k < unat (perslab p)" "class_ok c p" "unat pg + unat (slab_page_size c) \<le> 2 ^ 64"
  shows "unat (pg + of_nat k * ucast (sc_size p)) = unat pg + k * unat (sc_size p)"
    "k * unat (sc_size p) < unat (slab_page_size c)"
proof -
  have "k * unat (sc_size p) < unat (perslab p) * unat (sc_size p)" using assms by (simp add: class_ok_def)
  also have "\<dots> \<le> unat (slab_page_size c)" using assms by (simp add: class_ok_def mult.commute)
  finally show less: "k * unat (sc_size p) < unat (slab_page_size c)" .
  have "k < 2 ^ 64" using assms(1) unsigned_less [where 'a = nat, of "perslab p"] by simp
  then have k: "unat (of_nat k :: u64) = k" by (simp add: unat_of_nat take_bit_nat_eq_self)
  have u: "unat (ucast (sc_size p) :: u64) = unat (sc_size p)" by (rule unat_64_of_32)
  have lt: "unat pg + k * unat (sc_size p) < 2 ^ 64" using less assms(3) by simp
  have "unat (of_nat k * ucast (sc_size p) :: u64) = k * unat (sc_size p)"
    using lt by (simp add: unat_word_ariths k u)
  then show "unat (pg + of_nat k * ucast (sc_size p)) = unat pg + k * unat (sc_size p)"
    using lt by (simp add: unat_word_ariths)
qed

lemma page_chunks_span:
  assumes "x \<in> set (page_chunks p pg)" "class_ok c p" "unat pg + unat (slab_page_size c) \<le> 2 ^ 64"
  shows "unat pg \<le> unat x" "unat x < unat pg + unat (slab_page_size c)"
  using assms unat_chunk [OF _ assms(2,3)] by (auto simp: page_chunks_def)

lemma distinct_page_chunks:
  assumes "class_ok c p" "unat pg + unat (slab_page_size c) \<le> 2 ^ 64"
  shows "distinct (page_chunks p pg)"
proof -
  have "inj_on (\<lambda>k. pg + of_nat k * ucast (sc_size p)) {0..<unat (perslab p)}"
  proof (rule inj_onI)
    fix k l assume kl: "k \<in> {0..<unat (perslab p)}" "l \<in> {0..<unat (perslab p)}"
      and "pg + of_nat k * ucast (sc_size p) = pg + of_nat l * ucast (sc_size p)"
    then have "unat pg + k * unat (sc_size p) = unat pg + l * unat (sc_size p)"
      using unat_chunk(1) [OF _ assms] by (metis atLeastLessThan_iff)
    then show "k = l" using assms(1) by (simp add: class_ok_def)
  qed
  then show ?thesis by (simp add: page_chunks_def distinct_map)
qed

text \<open>A chunk tells its page.\<close>

lemma page_chunks_apart:
  assumes "x \<in> set (page_chunks p pg)" "x \<in> set (page_chunks p' pg')" "class_ok c p" "class_ok c p'"
    "unat pg + unat (slab_page_size c) \<le> 2 ^ 64" "unat pg' + unat (slab_page_size c) \<le> 2 ^ 64"
    "pg \<noteq> pg' \<Longrightarrow> apart (unat (slab_page_size c)) pg pg'"
  shows "pg = pg'"
proof (rule ccontr)
  assume ne: "pg \<noteq> pg'"
  have "unat pg \<le> unat x" "unat x < unat pg + unat (slab_page_size c)"
    "unat pg' \<le> unat x" "unat x < unat pg' + unat (slab_page_size c)"
    using page_chunks_span [OF assms(1,3,5)] page_chunks_span [OF assms(2,4,6)] by simp_all
  with assms(7) [OF ne] show False by (simp add: apart_def)
qed

section \<open>Free lists\<close>

definition is_free :: "item \<Rightarrow> bool" where
  "is_free i \<longleftrightarrow> it_flags i = ITEM_SLABBED \<and> slabs_clsid i = 0 \<and> it_refcount i = 0"

definition free_list :: "'a slab_state_scheme \<Rightarrow> nat \<Rightarrow> addr list \<Rightarrow> bool" where
  "free_list s c xs \<longleftrightarrow> (\<exists>t. dseg (mc_items s) 0 (slots (slabclass s ! c)) xs t 0) \<and> distinct xs \<and>
     sl_curr (slabclass s ! c) = of_nat (length xs) \<and> (\<forall>x \<in> set xs. \<exists>i. mc_items s x = Some i \<and> is_free i) \<and>
     set xs \<subseteq> class_chunks (slabclass s ! c)"

definition slabs_ok :: "'a slab_state_scheme \<Rightarrow> (nat \<Rightarrow> addr list) \<Rightarrow> bool" where
  "slabs_ok s F \<longleftrightarrow> length (slabclass s) = 64 \<and> power_largest s < 64 \<and> mem_base s = 0 \<and> slabs (slabclass s ! 0) = 0 \<and>
     (\<forall>c \<in> classes s. class_ok (settings s) (slabclass s ! c) \<and> free_list s c (F c) \<and>
        (\<forall>x \<in> class_chunks (slabclass s ! c). mc_items s x \<noteq> None)) \<and>
     (\<forall>c. c \<notin> classes s \<longrightarrow> F c = []) \<and> memory_ok s"

lemma classes_iff: "c \<in> classes s \<longleftrightarrow> 1 \<le> c \<and> c \<le> power_largest s"
  by (simp add: classes_def)

text \<open>Chunks of different classes are different, and no chunk is null.\<close>

lemma chunk_class:
  assumes ok: "slabs_ok s F" and c: "c \<in> classes s" "d \<in> classes s"
    and x: "x \<in> class_chunks (slabclass s ! c)" "x \<in> class_chunks (slabclass s ! d)"
  shows "c = d"
proof (rule ccontr)
  assume ne: "c \<noteq> d"
  from x obtain pg pg' where pg: "pg \<in> set (pages_of (slabclass s ! c))" "x \<in> set (page_chunks (slabclass s ! c) pg)"
    "pg' \<in> set (pages_of (slabclass s ! d))" "x \<in> set (page_chunks (slabclass s ! d) pg')" by (auto simp: class_chunks_def)
  then have in_pages: "pg \<in> all_pages s" "pg' \<in> all_pages s" using c by (auto simp: all_pages_def)
  have mem: "memory_ok s" using ok by (simp add: slabs_ok_def)
  have "pg = pg'"
    by (rule page_chunks_apart [OF pg(2,4), of "settings s"])
      (use ok c in_pages mem in \<open>auto simp: slabs_ok_def memory_ok_def page_bytes_def Let_def\<close>)
  moreover have "set (pages_of (slabclass s ! c)) \<inter> set (pages_of (slabclass s ! d)) = {}"
    using mem c ne by (auto simp: memory_ok_def Let_def)
  ultimately show False using pg by blast
qed

lemma chunk_nonzero:
  assumes ok: "slabs_ok s F" and c: "c \<in> classes s" and x: "x \<in> class_chunks (slabclass s ! c)"
  shows "x \<noteq> 0"
proof -
  from x obtain pg where pg: "pg \<in> set (pages_of (slabclass s ! c))" "x \<in> set (page_chunks (slabclass s ! c) pg)"
    by (auto simp: class_chunks_def)
  then have "pg \<in> all_pages s" using c by (auto simp: all_pages_def)
  then have p: "pg \<noteq> 0" "unat pg + unat (slab_page_size (settings s)) \<le> 2 ^ 64"
    using ok by (auto simp: slabs_ok_def memory_ok_def page_bytes_def Let_def)
  have "class_ok (settings s) (slabclass s ! c)" using ok c by (simp add: slabs_ok_def)
  from page_chunks_span(1) [OF pg(2) this p(2)] p(1) show ?thesis by (auto simp: unat_eq_zero)
qed

text \<open>The counter of a free list does not wrap.\<close>

lemma class_chunks_card:
  assumes ok: "slabs_ok s F" and c: "c \<in> classes s"
  shows "finite (class_chunks (slabclass s ! c))" "card (class_chunks (slabclass s ! c)) < 2 ^ 32"
proof -
  let ?p = "slabclass s ! c"
  show "finite (class_chunks ?p)" by (simp add: class_chunks_def)
  have d: "distinct (pages_of ?p)" and lim: "(unat (slabs ?p) + length (mallocs s)) * unat (perslab ?p) < 2 ^ 32"
    and len: "length (pages_of ?p) = unat (slabs ?p)"
    using ok c by (auto simp: slabs_ok_def memory_ok_def class_ok_def pages_of_def Let_def)
  have "card (class_chunks ?p) \<le> (\<Sum>pg \<in> set (pages_of ?p). card (set (page_chunks ?p pg)))"
    unfolding class_chunks_def by (rule card_UN_le) simp
  also have "\<dots> \<le> (\<Sum>pg \<in> set (pages_of ?p). unat (perslab ?p))"
    by (rule sum_mono) (rule order_trans [OF card_length], simp add: page_chunks_def)
  also have "\<dots> = unat (slabs ?p) * unat (perslab ?p)" using d len by (simp add: distinct_card)
  also have "\<dots> \<le> (unat (slabs ?p) + length (mallocs s)) * unat (perslab ?p)" by simp
  finally show "card (class_chunks ?p) < 2 ^ 32" using lim by simp
qed

lemma free_list_length:
  assumes "slabs_ok s F" "c \<in> classes s"
  shows "length (F c) < 2 ^ 32" "sl_curr (slabclass s ! c) = 0 \<longleftrightarrow> F c = []"
proof -
  have f: "free_list s c (F c)" using assms by (simp add: slabs_ok_def)
  then have "length (F c) = card (set (F c))" by (simp add: free_list_def distinct_card)
  also have "\<dots> \<le> card (class_chunks (slabclass s ! c))"
    using class_chunks_card(1) [OF assms] f by (simp add: free_list_def card_mono)
  finally show l: "length (F c) < 2 ^ 32" using class_chunks_card(2) [OF assms] by simp
  then have "unat (of_nat (length (F c)) :: u32) = length (F c)" by (simp add: unat_of_nat take_bit_nat_eq_self)
  then show "sl_curr (slabclass s ! c) = 0 \<longleftrightarrow> F c = []" using f by (auto simp: free_list_def unat_eq_zero)
qed

text \<open>Only the allocator's fields changed, and items in \<open>X\<close>.\<close>

definition slabs_only :: "addr set \<Rightarrow> 'a slab_state_scheme \<Rightarrow> 'a slab_state_scheme \<Rightarrow> bool" where
  "slabs_only X s s' \<longleftrightarrow> (\<forall>y. y \<notin> X \<longrightarrow> mc_items s' y = mc_items s y) \<and>
     s' = s\<lparr>mc_items := mc_items s', slabclass := slabclass s', mem_malloced := mem_malloced s',
            mem_limit_reached := mem_limit_reached s', mallocs := mallocs s'\<rparr>"

lemma slabs_only_trans:
  assumes "slabs_only X s s'" "slabs_only Y s' s''"
  shows "slabs_only (X \<union> Y) s s''"
proof -
  have e: "s' = s\<lparr>mc_items := mc_items s', slabclass := slabclass s', mem_malloced := mem_malloced s',
      mem_limit_reached := mem_limit_reached s', mallocs := mallocs s'\<rparr>"
    "s'' = s'\<lparr>mc_items := mc_items s'', slabclass := slabclass s'', mem_malloced := mem_malloced s'',
      mem_limit_reached := mem_limit_reached s'', mallocs := mallocs s''\<rparr>"
    using assms by (simp_all add: slabs_only_def)
  have "s'' = s\<lparr>mc_items := mc_items s'', slabclass := slabclass s'', mem_malloced := mem_malloced s'',
      mem_limit_reached := mem_limit_reached s'', mallocs := mallocs s''\<rparr>"
    by (subst e(2), subst e(1)) simp
  then show ?thesis using assms by (simp add: slabs_only_def)
qed

text \<open>The classes keep their sizes and pages.\<close>

definition same_pages :: "'a slab_state_scheme \<Rightarrow> 'a slab_state_scheme \<Rightarrow> bool" where
  "same_pages s s' \<longleftrightarrow> mallocs s' = mallocs s \<and> (\<forall>d. sc_size (slabclass s' ! d) = sc_size (slabclass s ! d) \<and>
     perslab (slabclass s' ! d) = perslab (slabclass s ! d) \<and> slabs (slabclass s' ! d) = slabs (slabclass s ! d) \<and>
     slab_list (slabclass s' ! d) = slab_list (slabclass s ! d))"

lemma same_pages_trans: "same_pages s s' \<Longrightarrow> same_pages s' s'' \<Longrightarrow> same_pages s s''"
  by (simp add: same_pages_def)

lemma same_pages_chunks: "same_pages s s' \<Longrightarrow> class_chunks (slabclass s' ! c) = class_chunks (slabclass s ! c)"
  by (simp add: same_pages_def class_chunks_def pages_of_def page_chunks_def)

text \<open>A class gets another free list.\<close>

lemma slabs_ok_replace:
  assumes ok: "slabs_ok s F" and c: "c \<in> classes s"
    and eqs: "power_largest s' = power_largest s" "settings s' = settings s" "mem_base s' = mem_base s" "mallocs s' = mallocs s"
    and cls: "slabclass s' = (slabclass s)[c := p']" "sc_size p' = sc_size (slabclass s ! c)"
      "perslab p' = perslab (slabclass s ! c)" "slabs p' = slabs (slabclass s ! c)" "slab_list p' = slab_list (slabclass s ! c)"
    and out: "\<And>y. y \<notin> class_chunks (slabclass s ! c) \<Longrightarrow> mc_items s' y = mc_items s y"
    and there: "\<And>y. y \<in> class_chunks (slabclass s ! c) \<Longrightarrow> mc_items s' y \<noteq> None"
    and new: "free_list s' c xs"
  shows "slabs_ok s' (F(c := xs))"
proof -
  have len: "length (slabclass s) = 64" and pl: "power_largest s < 64" and mem: "memory_ok s" using ok by (simp_all add: slabs_ok_def)
  have c64: "c < length (slabclass s)" "c \<noteq> 0" using c len pl by (auto simp: classes_iff)
  have same: "pages_of (slabclass s' ! d) = pages_of (slabclass s ! d)" "slabs (slabclass s' ! d) = slabs (slabclass s ! d)"
    "perslab (slabclass s' ! d) = perslab (slabclass s ! d)" "class_chunks (slabclass s' ! d) = class_chunks (slabclass s ! d)"
    "class_ok (settings s) (slabclass s' ! d) = class_ok (settings s) (slabclass s ! d)" for d
    using cls c64 by (cases "d = c"; simp add: pages_of_def class_chunks_def page_chunks_def class_ok_def)+
  have classes: "classes s' = classes s" using eqs by (simp add: classes_def)
  have mem': "memory_ok s'" using mem by (simp add: memory_ok_def all_pages_def classes page_bytes_def eqs same)
  have "free_list s' d ((F(c := xs)) d)" if d: "d \<in> classes s" for d
  proof (cases "d = c")
    case False
    have f: "free_list s d (F d)" using ok d by (simp add: slabs_ok_def)
    have its: "mc_items s' y = mc_items s y" if "y \<in> set (F d)" for y
      using that f out chunk_class [OF ok c d] False by (auto simp: free_list_def)
    from f obtain u where "dseg (mc_items s) 0 (slots (slabclass s ! d)) (F d) u 0" by (auto simp: free_list_def)
    then have "dseg (mc_items s') 0 (slots (slabclass s ! d)) (F d) u 0" by (rule dseg_cong [rotated]) (simp add: its)
    moreover have "slabclass s' ! d = slabclass s ! d" using cls(1) False by simp
    ultimately show ?thesis using f its False by (simp add: free_list_def exI [of _ u])
  qed (use new in simp)
  moreover have "mc_items s' x \<noteq> None" if "d \<in> classes s" "x \<in> class_chunks (slabclass s ! d)" for d x
    using ok that out there by (cases "x \<in> class_chunks (slabclass s ! c)") (auto simp: slabs_ok_def)
  moreover have "slabs (slabclass s' ! 0) = 0" "length (slabclass s') = 64" "mem_base s' = 0"
    using ok cls(1) c64 eqs by (simp_all add: slabs_ok_def)
  moreover have "\<forall>d. d \<notin> classes s' \<longrightarrow> (F(c := xs)) d = []" using ok c classes by (auto simp: slabs_ok_def)
  ultimately show ?thesis using ok pl mem' same eqs unfolding slabs_ok_def classes by (simp add: eqs)
qed

lemma do_slabs_free_ok:
  assumes ok: "slabs_ok s F" and c: "c \<in> classes s" and x: "x \<in> class_chunks (slabclass s ! c)" "x \<notin> set (F c)"
    and i: "mc_items s x = Some i" "\<not> has ITEM_CHUNKED i" "it_refcount i = 0"
  shows "\<exists>s'. do_slabs_free x sz c s = Some s' \<and> slabs_ok s' (F(c := x # F c)) \<and> slabs_only (insert x (set (F c))) s s' \<and>
    map_option strip (mc_items s' x) = Some (strip (i\<lparr>it_flags := ITEM_SLABBED, slabs_clsid := 0\<rparr>)) \<and> same_pages s s'"
proof -
  let ?p = "slabclass s ! c"
  have len: "length (slabclass s) = 64" and pl: "power_largest s < 64" and f: "free_list s c (F c)"
    using ok c by (simp_all add: slabs_ok_def)
  have c64: "c < 64" "1 \<le> c" "c \<le> power_largest s" using c pl by (auto simp: classes_iff)
  have x0: "x \<noteq> 0" by (rule chunk_nonzero [OF ok c x(1)])
  define j where "j = i\<lparr>it_flags := ITEM_SLABBED, slabs_clsid := 0\<rparr>"
  define its where "its = (mc_items s)(x \<mapsto> j)"
  from f obtain t where t: "dseg (mc_items s) 0 (slots ?p) (F c) t 0" and d: "distinct (F c)" by (auto simp: free_list_def)
  have seg: "dseg its 0 (slots ?p) (F c) t 0"
    by (rule dseg_cong [OF _ t]) (use x(2) in \<open>auto simp: its_def\<close>)
  have j: "its x = Some j" by (simp add: its_def)
  note li = dseg_link [OF seg d j x0 x(2)]
  define its' where "its' = put_prev (slots ?p) x (its(x \<mapsto> j\<lparr>it_prev := 0, it_next := slots ?p\<rparr>))"
  define p' where "p' = ?p\<lparr>slots := x, sl_curr := sl_curr ?p + 1, requested := requested ?p - sz\<rparr>"
  define s' where "s' = s\<lparr>mc_items := its', slabclass := (slabclass s)[c := p']\<rparr>"
  have ne: "slots ?p = 0 \<or> its (slots ?p) \<noteq> None" using li(6) dseg_items [OF seg] by auto
  have run: "do_slabs_free x sz c s = Some s'"
    using i c64 len ne j li(4)
    by (auto simp: do_slabs_free_def do_slabs_free_push_def upd_item_def get_class_def upd_class_def set_prev_eq
        s'_def its'_def its_def j_def p'_def)
  have out: "its' y = mc_items s y" if "y \<notin> insert x (set (F c))" for y
    using that li(6) by (cases "slots ?p = 0") (auto simp: its'_def its_def relink_def)
  have "slots ?p \<noteq> x" using li(4) .
  then have x': "its' x = Some (j\<lparr>it_prev := 0, it_next := slots ?p\<rparr>)" by (simp add: its'_def)
  have same: "same_items its its'"
    unfolding its'_def by (rule same_items_trans [OF same_items_link same_items_put(1)]) (rule j)
  have free: "\<exists>i. its' y = Some i \<and> is_free i" if "y \<in> set (x # F c)" for y
  proof (cases "y = x")
    case True
    then show ?thesis using x' i(3) by (simp add: is_free_def j_def)
  next
    case False
    with that f obtain k where k: "its y = Some k" "is_free k" by (auto simp: free_list_def its_def)
    from same_itemsD(1) [OF same k(1)] obtain l where "its' y = Some l" "strip l = strip k" by blast
    with k(2) show ?thesis using strip_eqD [of l k] by (simp add: is_free_def)
  qed
  have new: "free_list s' c (x # F c)"
    using li(1) d x f free c64 len
    by (auto simp: free_list_def s'_def its'_def [symmetric] p'_def class_chunks_def pages_of_def page_chunks_def)
  have "slabs_ok s' (F(c := x # F c))"
  proof (rule slabs_ok_replace [OF ok c])
    show "slabclass s' = (slabclass s)[c := p']" by (simp add: s'_def)
    show "mc_items s' y = mc_items s y" if "y \<notin> class_chunks ?p" for y
      using that out [of y] x(1) f by (auto simp: s'_def free_list_def)
    show "mc_items s' y \<noteq> None" if "y \<in> class_chunks ?p" for y
    proof -
      have "mc_items s y \<noteq> None" using ok c that by (auto simp: slabs_ok_def)
      then have "its y \<noteq> None" by (simp add: its_def)
      then show ?thesis using same_itemsD(3) [OF same, of y] by (simp add: s'_def)
    qed
  qed (use new in \<open>simp_all add: s'_def p'_def\<close>)
  moreover have "slabs_only (insert x (set (F c))) s s'" using out by (simp add: slabs_only_def s'_def)
  moreover have "map_option strip (mc_items s' x) = Some (strip j)" using x' by (simp add: s'_def)
  moreover have "same_pages s s'" unfolding same_pages_def
  proof (intro conjI allI)
    fix d
    have "slabclass s' ! d = (if d = c then p' else slabclass s ! d)" using c64 len by (simp add: s'_def nth_list_update)
    then show "sc_size (slabclass s' ! d) = sc_size (slabclass s ! d)" "perslab (slabclass s' ! d) = perslab (slabclass s ! d)"
      "slabs (slabclass s' ! d) = slabs (slabclass s ! d)" "slab_list (slabclass s' ! d) = slab_list (slabclass s ! d)"
      by (simp_all add: p'_def)
  qed (simp add: s'_def)
  ultimately show ?thesis using run unfolding j_def by blast
qed

section \<open>New pages\<close>

lemma unat_scast: "unat (w :: u32) < 2 ^ 31 \<Longrightarrow> unat (scast w :: u64) = unat w"
proof -
  assume w: "unat w < 2 ^ 31"
  have "(scast w :: u64) = of_int (sint w)" by simp
  also have "\<dots> = ucast w" by (simp add: sint_small [OF w])
  finally show ?thesis by (simp add: unat_64_of_32)
qed

lemma page_length_bounds:
  assumes "class_ok c p"
  shows "unat (page_length p c) \<le> unat (slab_page_size c)" "unat (sc_size p) * unat (perslab p) \<le> unat (page_length p c)"
proof -
  have b: "unat (sc_size p) * unat (perslab p) \<le> unat (slab_page_size c)" "unat (slab_page_size c) < 2 ^ 31"
    using assms by (simp_all add: class_ok_def)
  then have "unat (sc_size p * perslab p) = unat (sc_size p) * unat (perslab p)" by (simp add: unat_word_ariths)
  then show "unat (page_length p c) \<le> unat (slab_page_size c)" "unat (sc_size p) * unat (perslab p) \<le> unat (page_length p c)"
    using b by (simp_all add: page_length_def unat_scast)
qed

lemma page_span:
  assumes "unat pg + unat len \<le> 2 ^ 64"
  shows "y - pg < len \<longleftrightarrow> unat pg \<le> unat y \<and> unat y < unat pg + unat (len :: u64)"
proof (cases "pg \<le> y")
  case True
  then show ?thesis using unat_sub [OF True] by (auto simp: word_less_nat_alt word_le_nat_alt)
next
  case False
  then have lt: "unat y < unat pg" by (simp add: word_le_nat_alt)
  have "unat (y - pg) = 2 ^ 64 - (unat pg - unat y)"
    using lt unsigned_less [where 'a = nat, of pg] by (simp add: unat_sub_if_size word_size)
  then show ?thesis using assms lt by (auto simp: word_less_nat_alt)
qed

lemma clear_page_chunk:
  assumes ok: "class_ok c p" and pg: "unat pg + unat (slab_page_size c) \<le> 2 ^ 64" and x: "x \<in> set (page_chunks p pg)"
  shows "mc_items (clear_page pg (page_length p c) p s) x = Some zero_item"
proof -
  from x obtain k where k: "k < unat (perslab p)" "x = pg + of_nat k * ucast (sc_size p)" by (auto simp: page_chunks_def)
  have u: "unat x = unat pg + k * unat (sc_size p)" using unat_chunk(1) [OF k(1) ok pg] k(2) by simp
  have "k * unat (sc_size p) < unat (sc_size p) * unat (perslab p)" using k(1) ok by (simp add: class_ok_def mult.commute)
  also note page_length_bounds(2) [OF ok]
  finally have "k * unat (sc_size p) < unat (page_length p c)" .
  moreover have span: "unat pg + unat (page_length p c) \<le> 2 ^ 64" using page_length_bounds(1) [OF ok] pg by simp
  ultimately have "x - pg < page_length p c" using u by (simp add: page_span)
  moreover have "unat (x - pg) = k * unat (sc_size p)" using u by (simp add: unat_sub word_le_nat_alt)
  then have "(x - pg) mod ucast (sc_size p) = 0" "(x - pg) div ucast (sc_size p) < ucast (perslab p)"
    using k(1) ok by (simp_all add: unat_64_of_32 class_ok_def word_less_nat_alt unat_div unat_mod unat_eq_zero [symmetric])
  ultimately show ?thesis by (simp add: clear_page_def)
qed

lemma clear_page_other:
  assumes ok: "class_ok c p" and pg: "unat pg + unat (slab_page_size c) \<le> 2 ^ 64"
    and y: "unat y < unat pg \<or> unat pg + unat (slab_page_size c) \<le> unat y"
  shows "mc_items (clear_page pg (page_length p c) p s) y = mc_items s y"
proof -
  have "unat pg + unat (page_length p c) \<le> 2 ^ 64" using page_length_bounds(1) [OF ok] pg by simp
  then have "\<not> y - pg < page_length p c" using y page_length_bounds(1) [OF ok] by (auto simp: page_span)
  then show ?thesis by (simp add: clear_page_def)
qed

text \<open>
  The page is entered into the list of its class after it was cut up; nothing in between looks at
  the list, so that the entry may as well come first.
\<close>

definition enter_page :: "nat \<Rightarrow> addr list \<Rightarrow> u32 \<Rightarrow> 'a slab_state_scheme \<Rightarrow> 'a slab_state_scheme" where
  "enter_page c pgs n = upd_class c (\<lambda>p. p\<lparr>slab_list := pgs, slabs := n\<rparr>)"

lemma enter_page_free:
  assumes "mc_items s x = Some i" "\<not> has ITEM_CHUNKED i"
  shows "do_slabs_free x sz c (enter_page c pgs n s) = map_option (enter_page c pgs n) (do_slabs_free x sz c s)"
proof (cases "c < length (slabclass s) \<and> 1 \<le> c \<and> c \<le> power_largest s")
  case False
  then show ?thesis using assms
    by (auto simp: do_slabs_free_def do_slabs_free_push_def enter_page_def upd_class_def get_class_def upd_item_def)
next
  case True
  then show ?thesis using assms
    by (cases "slabclass s ! c") (auto simp: do_slabs_free_def do_slabs_free_push_def enter_page_def upd_class_def get_class_def upd_item_def
        set_prev_def split: option.splits)
qed

lemma do_slabs_free_keeps:
  assumes "do_slabs_free x sz c s = Some s'" "mc_items s x = Some i" "\<not> has ITEM_CHUNKED i"
  shows "sc_size (slabclass s' ! c) = sc_size (slabclass s ! c) \<and> slab_list (slabclass s' ! c) = slab_list (slabclass s ! c) \<and>
    slabs (slabclass s' ! c) = slabs (slabclass s ! c) \<and> length (slabclass s') = length (slabclass s) \<and> c < length (slabclass s)"
  using assms
  by (auto simp: do_slabs_free_def do_slabs_free_push_def upd_class_def get_class_def upd_item_def set_prev_def assertion_def
      split: option.splits if_splits bind_splits)

lemma enter_page_simps [simp]: "mc_items (enter_page c pgs n s) = mc_items s" "classes (enter_page c pgs n s) = classes s"
  "settings (enter_page c pgs n s) = settings s"
  by (simp_all add: enter_page_def upd_class_def classes_def)

lemma split_page_ok:
  assumes "slabs_ok (enter_page c pgs m s) F" "c \<in> classes s" "sz = ucast (sc_size (slabclass s ! c))"
    "xs = map (\<lambda>k. ptr + of_nat k * sz) [0..<n]" "distinct xs" "set xs \<inter> set (F c) = {}"
    "set xs \<subseteq> class_chunks (slabclass (enter_page c pgs m s) ! c)"
    "\<And>x. x \<in> set xs \<Longrightarrow> \<exists>i. mc_items s x = Some i \<and> \<not> has ITEM_CHUNKED i \<and> it_refcount i = 0"
  shows "\<exists>s'. split_slab_page_into_freelist n ptr c s = Some s' \<and>
    slabs_ok (enter_page c pgs m s') (F(c := rev xs @ F c)) \<and>
    slabs_only (set xs \<union> set (F c)) (enter_page c pgs m s) (enter_page c pgs m s') \<and>
    same_pages (enter_page c pgs m s) (enter_page c pgs m s') \<and> slab_list (slabclass s' ! c) = slab_list (slabclass s ! c) \<and>
    slabs (slabclass s' ! c) = slabs (slabclass s ! c)"
  using assms
proof (induction n arbitrary: ptr s F xs)
  case 0
  then show ?case by (simp add: slabs_only_def same_pages_def)
next
  case (Suc n)
  let ?E = "enter_page c pgs m"
  define ys where "ys = map (\<lambda>k. (ptr + sz) + of_nat k * sz) [0..<n]"
  have xs: "xs = ptr # ys" unfolding ys_def Suc.prems(4)
    by (simp add: upt_conv_Cons map_Suc_upt [symmetric] comp_def algebra_simps del: upt_Suc)
  obtain i where i: "mc_items s ptr = Some i" "\<not> has ITEM_CHUNKED i" "it_refcount i = 0" using Suc.prems(8) [of ptr] xs by auto
  have "ptr \<in> class_chunks (slabclass (?E s) ! c)" "ptr \<notin> set (F c)" using Suc.prems(6,7) xs by auto
  from do_slabs_free_ok [OF Suc.prems(1) _ this, of i 0] Suc.prems(2) i obtain t where
    t: "do_slabs_free ptr 0 c (?E s) = Some t" "slabs_ok t (F(c := ptr # F c))" "slabs_only (insert ptr (set (F c))) (?E s) t"
      "same_pages (?E s) t" by auto
  then obtain s1 where s1: "do_slabs_free ptr 0 c s = Some s1" "t = ?E s1" using enter_page_free [OF i(1,2), of 0 c pgs m] by auto
  note keeps = do_slabs_free_keeps [OF s1(1) i(1,2)]
  have ch: "class_chunks (slabclass (?E s1) ! c) = class_chunks (slabclass (?E s) ! c)"
    using same_pages_chunks [OF t(4)] s1(2) by simp
  have items: "\<exists>i. mc_items s1 x = Some i \<and> \<not> has ITEM_CHUNKED i \<and> it_refcount i = 0" if "x \<in> set ys" for x
  proof -
    have "x \<notin> insert ptr (set (F c))" using that Suc.prems(5,6) xs by auto
    then have "mc_items s1 x = mc_items s x" using t(3) s1(2) by (simp add: slabs_only_def)
    then show ?thesis using Suc.prems(8) [of x] that xs by simp
  qed
  have "power_largest t = power_largest s" using t(3)
    by (subst conjunct2 [OF t(3) [unfolded slabs_only_def]]) (simp add: enter_page_def upd_class_def)
  then have cl: "c \<in> classes s1" using Suc.prems(2) s1(2) by (simp add: classes_def enter_page_def upd_class_def)
  have "\<exists>s'. split_slab_page_into_freelist n (ptr + sz) c s1 = Some s' \<and>
    slabs_ok (?E s') ((F(c := ptr # F c))(c := rev ys @ (F(c := ptr # F c)) c)) \<and>
    slabs_only (set ys \<union> set ((F(c := ptr # F c)) c)) (?E s1) (?E s') \<and>
    same_pages (?E s1) (?E s') \<and> slab_list (slabclass s' ! c) = slab_list (slabclass s1 ! c) \<and>
    slabs (slabclass s' ! c) = slabs (slabclass s1 ! c)"
    by (rule Suc.IH [where F = "F(c := ptr # F c)"]) (use t(2) s1(2) cl keeps ch Suc.prems(3,5-7) xs items in \<open>auto simp: ys_def fun_upd_def\<close>)
  then obtain s' where s': "split_slab_page_into_freelist n (ptr + sz) c s1 = Some s'"
    "slabs_ok (?E s') (F(c := rev xs @ F c))" "slabs_only (set ys \<union> set (ptr # F c)) (?E s1) (?E s')"
    "same_pages (?E s1) (?E s')" "slab_list (slabclass s' ! c) = slab_list (slabclass s1 ! c)"
    "slabs (slabclass s' ! c) = slabs (slabclass s1 ! c)" by (auto simp: xs)
  have only: "slabs_only (set xs \<union> set (F c)) (?E s) (?E s')"
    using slabs_only_trans [OF t(3) [unfolded s1(2)] s'(3)] by (simp add: xs Un_commute Un_left_commute insert_absorb2)
  have "split_slab_page_into_freelist (Suc n) ptr c s = Some s'"
    using s1(1) keeps s'(1) Suc.prems(3) by (simp add: get_class_def)
  then show ?case using s' only same_pages_trans [OF t(4) [unfolded s1(2)] s'(4)] keeps by (auto simp: fun_upd_def)
qed

definition chunks :: "'a slab_state_scheme \<Rightarrow> addr set" where
  "chunks s = (\<Union>c \<in> classes s. class_chunks (slabclass s ! c))"

lemma memory_ok_drop:
  assumes mem: "memory_ok s" and eqs: "power_largest s' = power_largest s" "settings s' = settings s" "mallocs s' = drop k (mallocs s)"
    and pages: "\<And>d. d \<in> classes s \<Longrightarrow> pages_of (slabclass s' ! d) = pages_of (slabclass s ! d) \<and>
      slabs (slabclass s' ! d) = slabs (slabclass s ! d) \<and> perslab (slabclass s' ! d) = perslab (slabclass s ! d)"
  shows "memory_ok s'"
proof -
  have cl: "classes s' = classes s" "page_bytes s' = page_bytes s" "all_pages s' = all_pages s"
    using eqs pages by (simp_all add: classes_def page_bytes_def all_pages_def)
  have sub: "set (mallocs s') - {0} \<subseteq> set (mallocs s) - {0}" using set_drop_subset [of k "mallocs s"] eqs(3) by auto
  have "distinct (filter (\<lambda>p. p \<noteq> 0) (take k (mallocs s) @ drop k (mallocs s)))"
    using mem by (simp add: memory_ok_def Let_def)
  then have d: "distinct (filter (\<lambda>p. p \<noteq> 0) (mallocs s'))" unfolding filter_append distinct_append eqs(3) by blast
  have le: "(unat n + length (mallocs s')) * m \<le> (unat n + length (mallocs s)) * m" for n :: u32 and m
    by (simp add: eqs(3))
  note m = memory_okD [OF mem]
  show ?thesis unfolding memory_ok_def Let_def cl
  proof (intro conjI ballI impI)
    show "0 \<notin> all_pages s" "all_pages s \<inter> (set (mallocs s') - {0}) = {}" using m(1,2) sub by blast+
    show "unat p + page_bytes s \<le> 2 ^ 64" if "p \<in> all_pages s \<union> (set (mallocs s') - {0})" for p using that m(4) [of p] sub by blast
    show "apart (page_bytes s) p q" if "p \<in> all_pages s \<union> (set (mallocs s') - {0})"
      "q \<in> all_pages s \<union> (set (mallocs s') - {0})" "p \<noteq> q" for p q using that m(5) [of p q] sub by blast
    fix c assume c: "c \<in> classes s"
    show "distinct (pages_of (slabclass s' ! c))" using m(6) c pages by simp
    show "set (pages_of (slabclass s' ! c)) \<inter> set (pages_of (slabclass s' ! d)) = {}" if "d \<in> classes s" "c \<noteq> d" for d
      using m(8) c that pages by simp
    show "(unat (slabs (slabclass s' ! c)) + length (mallocs s')) * unat (perslab (slabclass s' ! c)) < 2 ^ 32"
      using order.strict_trans1 [OF le m(7) [OF c]] pages [OF c] by simp
  qed (rule d)
qed

lemma slabs_ok_grow:
  assumes ok: "slabs_ok s F" and c: "c \<in> classes s"
    and eqs: "mc_items s' = mc_items s" "power_largest s' = power_largest s" "settings s' = settings s" "mem_base s' = mem_base s"
      "mallocs s' = drop k (mallocs s)"
    and cls: "slabclass s' = (slabclass s)[c := (slabclass s ! c)\<lparr>slab_list := slab_list (slabclass s ! c) @ zs\<rparr>]"
  shows "slabs_ok s' F" "chunks s' = chunks s" "\<And>d. class_chunks (slabclass s' ! d) = class_chunks (slabclass s ! d)"
proof -
  have len: "length (slabclass s) = 64" and c64: "c < 64" "c \<noteq> 0" using ok c by (auto simp: slabs_ok_def classes_iff)
  have cok: "class_ok (settings s) (slabclass s ! d)" if "d \<in> classes s" for d using ok that by (simp add: slabs_ok_def)
  then have cap: "unat (slabs (slabclass s ! c)) \<le> length (slab_list (slabclass s ! c))" using c by (simp add: class_ok_def)
  have nth: "slabclass s' ! d = (if d = c then (slabclass s ! c)\<lparr>slab_list := slab_list (slabclass s ! c) @ zs\<rparr> else slabclass s ! d)" for d
    using cls c64 len by (simp add: nth_list_update)
  have same: "pages_of (slabclass s' ! d) = pages_of (slabclass s ! d)" "slabs (slabclass s' ! d) = slabs (slabclass s ! d)"
    "perslab (slabclass s' ! d) = perslab (slabclass s ! d)" "sc_size (slabclass s' ! d) = sc_size (slabclass s ! d)"
    "slots (slabclass s' ! d) = slots (slabclass s ! d)" "sl_curr (slabclass s' ! d) = sl_curr (slabclass s ! d)" for d
    using cap by (simp_all add: nth pages_of_def)
  show ch: "class_chunks (slabclass s' ! d) = class_chunks (slabclass s ! d)" for d
    by (simp add: class_chunks_def page_chunks_def same)
  have cl: "classes s' = classes s" using eqs by (simp add: classes_def)
  then show "chunks s' = chunks s" by (simp add: chunks_def ch)
  have "memory_ok s'" by (rule memory_ok_drop [of s]) (use ok eqs same in \<open>simp_all add: slabs_ok_def\<close>)
  moreover have "class_ok (settings s) (slabclass s' ! d)" if "d \<in> classes s" for d
    using cok [OF that] by (auto simp: class_ok_def same nth)
  moreover have "free_list s' d (F d)" if "d \<in> classes s" for d
    using ok that by (simp add: slabs_ok_def free_list_def same eqs ch)
  moreover have "length (slabclass s') = 64" using len by (simp add: cls)
  ultimately show "slabs_ok s' F" using ok by (auto simp: slabs_ok_def cl eqs ch same)
qed

lemma slabs_ok_enter:
  assumes ok: "slabs_ok s F" and c: "c \<in> classes s" and room: "unat (slabs (slabclass s ! c)) < length (slab_list (slabclass s ! c))"
    and pg: "mallocs s = pg # rest" "pg \<noteq> 0"
    and s': "s' = enter_page c ((slab_list (slabclass s ! c))[unat (slabs (slabclass s ! c)) := pg]) (slabs (slabclass s ! c) + 1)
      (clear_page pg (page_length (slabclass s ! c) (settings s)) (slabclass s ! c) (s\<lparr>mallocs := rest, mem_malloced := n\<rparr>))"
  shows "slabs_ok s' F" "class_chunks (slabclass s' ! c) = class_chunks (slabclass s ! c) \<union> set (page_chunks (slabclass s ! c) pg)"
    "\<And>d. d \<noteq> c \<Longrightarrow> slabclass s' ! d = slabclass s ! d" "\<And>y. y \<in> chunks s \<Longrightarrow> mc_items s' y = mc_items s y"
    "\<And>y. y \<in> set (page_chunks (slabclass s ! c) pg) \<Longrightarrow> mc_items s' y = Some zero_item \<and> y \<notin> chunks s"
proof -
  let ?p = "slabclass s ! c"
  have len: "length (slabclass s) = 64" and c64: "c < 64" "c \<noteq> 0" and mem: "memory_ok s"
    using ok c by (auto simp: slabs_ok_def classes_iff)
  have cok: "class_ok (settings s) (slabclass s ! d)" if "d \<in> classes s" for d using ok that by (simp add: slabs_ok_def)
  have new: "pg \<in> set (mallocs s) - {0}" using pg by simp
  have fits: "unat q + unat (slab_page_size (settings s)) \<le> 2 ^ 64" if "q \<in> all_pages s \<union> {pg}" for q
    using mem that new by (auto simp: memory_ok_def Let_def page_bytes_def)
  have far: "apart (unat (slab_page_size (settings s))) q pg" and pg_new: "q \<noteq> pg" if "q \<in> all_pages s" for q
  proof -
    show ne: "q \<noteq> pg" using mem that new by (auto simp: memory_ok_def Let_def)
    show "apart (unat (slab_page_size (settings s))) q pg"
      using mem that new ne by (simp add: memory_ok_def Let_def page_bytes_def)
  qed
  have lim: "(unat (slabs ?p) + length (mallocs s)) * unat (perslab ?p) < 2 ^ 32" using mem c by (simp add: memory_ok_def Let_def)
  then have "unat (slabs ?p) + 1 < 2 ^ 32" using cok [OF c] pg(1)
    by (cases "unat (perslab ?p)") (auto simp: class_ok_def)
  then have Suc: "unat (slabs ?p + 1) = Suc (unat (slabs ?p))" by (simp add: unat_word_ariths)
  have nth: "slabclass s' ! d = (if d = c then ?p\<lparr>slab_list := (slab_list ?p)[unat (slabs ?p) := pg], slabs := slabs ?p + 1\<rparr>
      else slabclass s ! d)" for d
    using c64 len by (simp add: s' enter_page_def upd_class_def clear_page_def nth_list_update)
  have pages: "pages_of (slabclass s' ! c) = pages_of ?p @ [pg]"
    using room by (simp add: nth pages_of_def Suc take_Suc_conv_app_nth take_update_cancel)
  show other: "slabclass s' ! d = slabclass s ! d" if "d \<noteq> c" for d using that by (simp add: nth)
  show ch: "class_chunks (slabclass s' ! c) = class_chunks ?p \<union> set (page_chunks ?p pg)"
    unfolding class_chunks_def pages by (auto simp: page_chunks_def nth)
  have span: "unat y < unat pg \<or> unat pg + unat (slab_page_size (settings s)) \<le> unat y" if y: "y \<in> chunks s" for y
  proof -
    from y obtain d q where d: "d \<in> classes s" "q \<in> set (pages_of (slabclass s ! d))" "y \<in> set (page_chunks (slabclass s ! d) q)"
      by (auto simp: chunks_def class_chunks_def)
    then have "q \<in> all_pages s" by (auto simp: all_pages_def)
    with page_chunks_span [OF d(3) cok [OF d(1)] fits] far show ?thesis by (fastforce simp: apart_def)
  qed
  show old: "mc_items s' y = mc_items s y" if "y \<in> chunks s" for y
    by (simp add: s' clear_page_other [OF cok [OF c] fits span [OF that]])
  show pc: "mc_items s' y = Some zero_item \<and> y \<notin> chunks s" if y: "y \<in> set (page_chunks ?p pg)" for y
    using page_chunks_span [OF y cok [OF c] fits] span [of y] by (auto simp: s' clear_page_chunk [OF cok [OF c] fits y])
  have eqs: "classes s' = classes s" "settings s' = settings s" "mem_base s' = mem_base s" "power_largest s' = power_largest s"
    "mallocs s' = rest" "page_bytes s' = page_bytes s" "length (slabclass s') = length (slabclass s)"
    by (simp_all add: s' enter_page_def upd_class_def clear_page_def classes_def page_bytes_def)
  have pgs: "set (pages_of (slabclass s' ! d)) = set (pages_of (slabclass s ! d)) \<union> (if d = c then {pg} else {})" for d
    using pages other by auto
  have all: "all_pages s' = insert pg (all_pages s)" using c by (auto simp: all_pages_def eqs(1) pgs split: if_splits)
  note m = memory_okD [OF mem]
  have sub: "insert pg (all_pages s) \<union> (set rest - {0}) \<subseteq> all_pages s \<union> (set (mallocs s) - {0})" using pg by auto
  have "memory_ok s'" unfolding memory_ok_def Let_def eqs all
  proof (intro conjI ballI impI)
    show "0 \<notin> insert pg (all_pages s)" using m(1) pg(2) by simp
    show "distinct (filter (\<lambda>p. p \<noteq> 0) rest)" "insert pg (all_pages s) \<inter> (set rest - {0}) = {}" using pg m(2,3) by auto
    show "unat p + page_bytes s \<le> 2 ^ 64" if "p \<in> insert pg (all_pages s) \<union> (set rest - {0})" for p using that m(4) [of p] sub by blast
    show "apart (page_bytes s) p q" if "p \<in> insert pg (all_pages s) \<union> (set rest - {0})"
      "q \<in> insert pg (all_pages s) \<union> (set rest - {0})" "p \<noteq> q" for p q using that m(5) [of p q] sub by blast
    fix d assume d: "d \<in> classes s"
    have notin: "pg \<notin> set (pages_of (slabclass s ! e))" if "e \<in> classes s" for e using that pg_new by (auto simp: all_pages_def)
    show "distinct (pages_of (slabclass s' ! d))" using m(6) [OF d] notin [OF d] pages other by (cases "d = c") auto
    have "(unat (slabs (slabclass s ! d)) + length rest) * unat (perslab (slabclass s ! d)) \<le>
      (unat (slabs (slabclass s ! d)) + length (mallocs s)) * unat (perslab (slabclass s ! d))" using pg(1) by simp
    then show "(unat (slabs (slabclass s' ! d)) + length rest) * unat (perslab (slabclass s' ! d)) < 2 ^ 32"
      using m(7) [OF d] lim pg(1) by (cases "d = c") (simp_all add: nth Suc)
    fix e assume e: "e \<in> classes s" "d \<noteq> e"
    then show "set (pages_of (slabclass s' ! d)) \<inter> set (pages_of (slabclass s' ! e)) = {}"
      using m(8) [OF d e] notin [OF d] notin [OF e(1)] by (auto simp: pgs)
  qed
  moreover have "free_list s' d (F d)" if d: "d \<in> classes s" for d
  proof -
    have f: "free_list s d (F d)" using ok d by (simp add: slabs_ok_def)
    have sub: "set (F d) \<subseteq> chunks s" using f d by (auto simp: free_list_def chunks_def)
    from f obtain u where u: "dseg (mc_items s) 0 (slots (slabclass s ! d)) (F d) u 0" by (auto simp: free_list_def)
    have "dseg (mc_items s') 0 (slots (slabclass s ! d)) (F d) u 0" by (rule dseg_cong [OF _ u]) (use sub old in auto)
    moreover have "slots (slabclass s' ! d) = slots (slabclass s ! d)" "sl_curr (slabclass s' ! d) = sl_curr (slabclass s ! d)"
      by (simp_all add: nth)
    moreover have "class_chunks (slabclass s ! d) \<subseteq> class_chunks (slabclass s' ! d)" using ch other by (cases "d = c") auto
    moreover have "\<forall>x \<in> set (F d). \<exists>i. mc_items s' x = Some i \<and> is_free i" using f sub old by (auto simp: free_list_def)
    ultimately show ?thesis using f by (auto simp: free_list_def)
  qed
  moreover have "class_ok (settings s) (slabclass s' ! d)" if "d \<in> classes s" for d
    using cok [OF that] room Suc by (auto simp: class_ok_def nth)
  moreover have "mc_items s' y \<noteq> None" if "d \<in> classes s" "y \<in> class_chunks (slabclass s' ! d)" for d y
  proof (cases "y \<in> chunks s")
    case True
    then show ?thesis using old [OF True] ok by (auto simp: chunks_def slabs_ok_def)
  next
    case False
    then have "d = c" using that other [of d] by (cases "d = c") (auto simp: chunks_def)
    then show ?thesis using that ch False c pc by (auto simp: chunks_def)
  qed
  ultimately show "slabs_ok s' F" using ok len other c64 unfolding slabs_ok_def eqs by (auto simp: eqs)
qed

text \<open>The chunks that a class got.\<close>

definition new_chunks :: "nat \<Rightarrow> addr list \<Rightarrow> 'a slab_state_scheme \<Rightarrow> 'a slab_state_scheme \<Rightarrow> bool" where
  "new_chunks c xs s s' \<longleftrightarrow> class_chunks (slabclass s' ! c) = class_chunks (slabclass s ! c) \<union> set xs \<and>
     (\<forall>d. d \<noteq> c \<longrightarrow> class_chunks (slabclass s' ! d) = class_chunks (slabclass s ! d)) \<and> set xs \<inter> chunks s = {} \<and>
     (\<forall>d. sc_size (slabclass s' ! d) = sc_size (slabclass s ! d)) \<and> power_largest s' = power_largest s"

lemma new_chunks_refl [simp]: "new_chunks c [] s s"
  by (simp add: new_chunks_def)

lemma grow_slab_list_ok:
  assumes ok: "slabs_ok s F" and c: "c \<in> classes s"
  shows "\<exists>b s'. grow_slab_list c s = Some (b, s') \<and> slabs_ok s' F \<and> slabs_only {} s s' \<and> new_chunks c [] s s' \<and>
    (b \<longrightarrow> unat (slabs (slabclass s' ! c)) < length (slab_list (slabclass s' ! c))) \<and>
    (\<forall>d. sc_size (slabclass s' ! d) = sc_size (slabclass s ! d) \<and> perslab (slabclass s' ! d) = perslab (slabclass s ! d))"
proof -
  let ?p = "slabclass s ! c"
  have len: "length (slabclass s) = 64" and c64: "c < 64" and cap: "unat (slabs ?p) \<le> length (slab_list ?p)"
    using ok c by (auto simp: slabs_ok_def classes_iff class_ok_def)
  show ?thesis
  proof (cases "unat (slabs ?p) = length (slab_list ?p)")
    case False
    then have "grow_slab_list c s = Some (True, s)" using len c64 by (simp add: grow_slab_list_def get_class_def)
    then show ?thesis using ok cap False by (auto simp: slabs_only_def)
  next
    case full: True
    define l where "l = fst (malloc s)"
    define zs :: "addr list" where "zs = (if l = 0 then [] else replicate ((if length (slab_list ?p) \<noteq> 0 then length (slab_list ?p) * 2 else 16) -
      length (slab_list ?p)) 0)"
    define s' where "s' = s\<lparr>mallocs := drop 1 (mallocs s), slabclass := (slabclass s)[c := ?p\<lparr>slab_list := slab_list ?p @ zs\<rparr>]\<rparr>"
    have run: "grow_slab_list c s = Some (l \<noteq> 0, s')"
      using full len c64 unfolding s'_def zs_def l_def
      by (cases "mallocs s") (simp_all add: grow_slab_list_def get_class_def malloc_def upd_class_def Let_def)
    have nth: "slabclass s' ! d = (if d = c then ?p\<lparr>slab_list := slab_list ?p @ zs\<rparr> else slabclass s ! d)" for d
      using len c64 by (simp add: s'_def nth_list_update)
    have g: "slabs_ok s' F" "chunks s' = chunks s" "\<And>d. class_chunks (slabclass s' ! d) = class_chunks (slabclass s ! d)"
      by (rule slabs_ok_grow [OF ok c, of s' 1 zs]; simp add: s'_def)+
    have "l \<noteq> 0 \<longrightarrow> unat (slabs (slabclass s' ! c)) < length (slab_list (slabclass s' ! c))"
      using full by (auto simp: nth zs_def)
    moreover have "slabs_only {} s s'" by (simp add: slabs_only_def s'_def)
    moreover have "sc_size (slabclass s' ! d) = sc_size (slabclass s ! d) \<and> perslab (slabclass s' ! d) = perslab (slabclass s ! d)" for d
      by (simp add: nth)
    moreover from this have "new_chunks c [] s s'" using g(3) by (simp add: new_chunks_def s'_def)
    ultimately show ?thesis using run g(1) by blast
  qed
qed

lemma clear_page_cong: "sc_size p = sc_size q \<Longrightarrow> perslab p = perslab q \<Longrightarrow> clear_page pg len p s = clear_page pg len q s"
  by (simp add: clear_page_def cong: if_cong)

lemma page_length_cong: "sc_size p = sc_size q \<Longrightarrow> perslab p = perslab q \<Longrightarrow> page_length p c = page_length q c"
  by (simp add: page_length_def)

lemma slabs_only_mono: "slabs_only X s s' \<Longrightarrow> X \<subseteq> Y \<Longrightarrow> slabs_only Y s s'"
  by (auto simp: slabs_only_def)

lemma new_chunks_chunks:
  assumes "new_chunks c xs s s'" "c \<in> classes s"
  shows "chunks s' = chunks s \<union> set xs" "classes s' = classes s"
proof -
  have "class_chunks (slabclass s' ! d) = class_chunks (slabclass s ! d) \<union> (if d = c then set xs else {})" for d
    using assms(1) by (simp add: new_chunks_def)
  moreover show "classes s' = classes s" using assms(1) by (simp add: new_chunks_def classes_def)
  ultimately show "chunks s' = chunks s \<union> set xs" using assms(2) by (auto simp: chunks_def split: if_splits)
qed

lemma new_chunks_trans:
  assumes "new_chunks c xs s s'" "new_chunks c ys s' s''" "c \<in> classes s"
  shows "new_chunks c (ys @ xs) s s''"
proof -
  have "chunks s \<subseteq> chunks s'" using new_chunks_chunks(1) [OF assms(1,3)] by simp
  then show ?thesis using assms by (auto simp: new_chunks_def)
qed

text \<open>A page from \<open>malloc\<close> goes to the free list of its class.\<close>

lemma new_page_ok:
  assumes ok: "slabs_ok s F" and c: "c \<in> classes s" and room: "unat (slabs (slabclass s ! c)) < length (slab_list (slabclass s ! c))"
    and pg: "mallocs s = pg # rest" "pg \<noteq> 0"
  shows "\<exists>s' xs. do {
      s \<leftarrow> split_slab_page_into_freelist (unat (perslab (slabclass s ! c))) pg c
             (clear_page pg (page_length (slabclass s ! c) (settings s)) (slabclass s ! c) (s\<lparr>mallocs := rest, mem_malloced := n\<rparr>));
      p \<leftarrow> get_class c s;
      assertion (unat (slabs p) < length (slab_list p));
      Some (upd_class c (\<lambda>p. p\<lparr>slab_list := (slab_list p)[unat (slabs p) := pg], slabs := slabs p + 1\<rparr>) s)
    } = Some s' \<and> slabs_ok s' (F(c := xs @ F c)) \<and> slabs_only (- (chunks s - set (F c))) s s' \<and> new_chunks c xs s s'"
proof -
  let ?p = "slabclass s ! c"
  let ?pgs = "(slab_list ?p)[unat (slabs ?p) := pg]"
  let ?E = "enter_page c ?pgs (slabs ?p + 1)"
  define s0 where "s0 = clear_page pg (page_length ?p (settings s)) ?p (s\<lparr>mallocs := rest, mem_malloced := n\<rparr>)"
  note en = slabs_ok_enter [OF ok c room pg refl, where n = n, folded s0_def]
  have len: "length (slabclass s) = 64" and c64: "c < 64" and cok: "class_ok (settings s) ?p"
    using ok c by (auto simp: slabs_ok_def classes_iff)
  have s0: "slabclass s0 = slabclass s" "classes s0 = classes s" by (simp_all add: s0_def clear_page_def classes_def)
  have "pg \<in> set (mallocs s) - {0}" using pg by simp
  then have fits: "unat pg + unat (slab_page_size (settings s)) \<le> 2 ^ 64"
    using memory_okD(4) [of s pg] ok by (simp add: slabs_ok_def page_bytes_def)
  have sub: "set (F c) \<subseteq> chunks s" using ok c by (auto simp: slabs_ok_def free_list_def chunks_def)
  have zero: "mc_items s0 y = Some zero_item \<and> y \<notin> chunks s" if "y \<in> set (page_chunks ?p pg)" for y using en(5) [OF that] by simp
  from split_page_ok [OF en(1), of "ucast (sc_size ?p)" "page_chunks ?p pg" pg "unat (perslab ?p)"]
  obtain s1 where s1: "split_slab_page_into_freelist (unat (perslab ?p)) pg c s0 = Some s1"
    "slabs_ok (?E s1) (F(c := rev (page_chunks ?p pg) @ F c))"
    "slabs_only (set (page_chunks ?p pg) \<union> set (F c)) (?E s0) (?E s1)" "same_pages (?E s0) (?E s1)"
    "slab_list (slabclass s1 ! c) = slab_list ?p" "slabs (slabclass s1 ! c) = slabs ?p"
    using c zero sub en(2) distinct_page_chunks [OF cok fits]
    by (auto simp: s0 page_chunks_def zero_item_def has_def)
  have fin: "upd_class c (\<lambda>p. p\<lparr>slab_list := (slab_list p)[unat (slabs p) := pg], slabs := slabs p + 1\<rparr>) s1 = ?E s1"
    using s1(5,6) by (simp add: upd_class_def enter_page_def)
  have "length (slabclass (?E s1)) = 64" using s1(2) by (simp add: slabs_ok_def)
  then have "get_class c s1 = Some (slabclass s1 ! c)" using c64 by (simp add: get_class_def enter_page_def upd_class_def)
  note run = s1(1) this
  have only0: "slabs_only (- chunks s) s (?E s0)" using en(4)
    by (simp add: slabs_only_def) (simp add: s0_def enter_page_def upd_class_def clear_page_def)
  have only: "slabs_only (- (chunks s - set (F c))) s (?E s1)"
    by (rule slabs_only_mono [OF slabs_only_trans [OF only0 s1(3)]]) (use zero in auto)
  have pl: "power_largest (?E s1) = power_largest s"
    by (subst conjunct2 [OF only [unfolded slabs_only_def]]) simp
  have "sc_size (slabclass (?E s0) ! d) = sc_size (slabclass s ! d)" for d
    using len c64 by (simp add: enter_page_def upd_class_def s0 nth_list_update)
  then have "new_chunks c (rev (page_chunks ?p pg)) s (?E s1)"
    using en(2,3) zero same_pages_chunks [OF s1(4)] s1(4) pl
    by (auto simp: new_chunks_def same_pages_def)
  then show ?thesis using run fin s1(2,5,6) only room unfolding s0_def [symmetric]
    by (intro exI [of _ "?E s1"] exI [of _ "rev (page_chunks ?p pg)"]) simp
qed

lemma slabs_ok_drop:
  assumes "slabs_ok s F" "c \<in> classes s"
  shows "slabs_ok (s\<lparr>mallocs := drop k (mallocs s), mem_malloced := n\<rparr>) F" "slabs_ok (s\<lparr>mem_limit_reached := b\<rparr>) F"
    "new_chunks c [] s (s\<lparr>mallocs := m, mem_malloced := n\<rparr>)" "new_chunks c [] s (s\<lparr>mem_limit_reached := b\<rparr>)"
proof -
  show "slabs_ok (s\<lparr>mallocs := drop k (mallocs s), mem_malloced := n\<rparr>) F"
    by (rule slabs_ok_grow(1) [OF assms, of _ k "[]"]) simp_all
  show "slabs_ok (s\<lparr>mem_limit_reached := b\<rparr>) F" by (rule slabs_ok_grow(1) [OF assms, of _ 0 "[]"]) simp_all
qed (simp_all add: new_chunks_def)

lemma do_slabs_newslab_ok:
  assumes ok: "slabs_ok s F" and c: "c \<in> classes s"
  shows "\<exists>b s' xs. do_slabs_newslab c s = Some (b, s') \<and> slabs_ok s' (F(c := xs @ F c)) \<and>
    slabs_only (- (chunks s - set (F c))) s s' \<and> new_chunks c xs s s'"
proof -
  let ?p = "slabclass s ! c" and ?g = "slabclass s ! 0"
  have cls: "get_class c s = Some ?p" "get_class 0 s = Some ?g" using ok c by (auto simp: slabs_ok_def get_class_def classes_iff)
  have whole: "slabs_ok s' (F(c := [] @ F c)) = slabs_ok s' F" for s' :: "'a slab_state_scheme" by (simp add: fun_upd_idem)
  have refl: "slabs_only (- (chunks s - set (F c))) s (s\<lparr>mem_limit_reached := True\<rparr>)" by (simp add: slabs_only_def)
  show ?thesis
  proof (cases "mem_limit s \<noteq> 0 \<and> mem_limit s < mem_malloced s + page_length ?p (settings s) \<and> 0 < slabs ?p \<and> slabs ?g = 0")
    case True
    then have "do_slabs_newslab c s = Some (False, s\<lparr>mem_limit_reached := True\<rparr>)" using cls by (simp add: do_slabs_newslab_def)
    then show ?thesis using slabs_ok_drop [OF ok c] refl whole by blast
  next
    case False
    from grow_slab_list_ok [OF ok c] obtain b s1 where s1: "grow_slab_list c s = Some (b, s1)" "slabs_ok s1 F" "slabs_only {} s s1"
      "new_chunks c [] s s1" "b \<longrightarrow> unat (slabs (slabclass s1 ! c)) < length (slab_list (slabclass s1 ! c))"
      "\<forall>d. sc_size (slabclass s1 ! d) = sc_size (slabclass s ! d) \<and> perslab (slabclass s1 ! d) = perslab (slabclass s ! d)" by blast
    have eqs: "settings s1 = settings s" "power_largest s1 = power_largest s"
      by (subst conjunct2 [OF s1(3) [unfolded slabs_only_def]], simp)+
    have c1: "c \<in> classes s1" and ch: "chunks s1 = chunks s" using new_chunks_chunks [OF s1(4) c] c by simp_all
    have only1: "slabs_only (- (chunks s - set (F c))) s s1" by (rule slabs_only_mono [OF s1(3)]) simp
    have pool: "get_page_from_global_pool s1 = Some (0, s1)"
      using s1(2) by (simp add: slabs_ok_def get_page_from_global_pool_def get_class_def)
    have base: "mem_base s1 = 0" using s1(2) by (simp add: slabs_ok_def)
    have len: "page_length ?p (settings s) = page_length (slabclass s1 ! c) (settings s1)"
      using s1(6) eqs by (simp add: page_length_def)
    define n where "n = mem_malloced s1 + page_length (slabclass s1 ! c) (settings s1)"
    show ?thesis
    proof (cases "b \<and> (\<exists>pg rest. mallocs s1 = pg # rest \<and> pg \<noteq> 0)")
      case True
      then obtain pg rest where pg: "mallocs s1 = pg # rest" "pg \<noteq> 0" and b: b by blast
      from new_page_ok [OF s1(2) c1 _ pg, of n] s1(5) b obtain s' xs where s': "do {
          s \<leftarrow> split_slab_page_into_freelist (unat (perslab (slabclass s1 ! c))) pg c
                 (clear_page pg (page_length (slabclass s1 ! c) (settings s1)) (slabclass s1 ! c) (s1\<lparr>mallocs := rest, mem_malloced := n\<rparr>));
          p \<leftarrow> get_class c s;
          assertion (unat (slabs p) < length (slab_list p));
          Some (upd_class c (\<lambda>p. p\<lparr>slab_list := (slab_list p)[unat (slabs p) := pg], slabs := slabs p + 1\<rparr>) s)
        } = Some s'" "slabs_ok s' (F(c := xs @ F c))" "slabs_only (- (chunks s1 - set (F c))) s1 s'" "new_chunks c xs s1 s'" by blast
      have "memory_allocate (page_length (slabclass s1 ! c) (settings s1)) s1 = (pg, s1\<lparr>mallocs := rest, mem_malloced := n\<rparr>)"
        using base pg by (simp add: memory_allocate_def malloc_def n_def)
      moreover have "clear_page pg l ?p t = clear_page pg l (slabclass s1 ! c) t" for l and t :: "'a slab_state_scheme"
        by (rule clear_page_cong) (use s1(6) in auto)
      moreover have "map_option (Pair True) (Some s') = Some (True, s')" by simp
      ultimately have "do_slabs_newslab c s = Some (True, s')"
        using cls False s1(1,6) b pool pg(2) s'(1) len unfolding do_slabs_newslab_def
        by (auto simp: Let_def map_option_bind split: bind_splits)
      moreover have "slabs_only (- (chunks s - set (F c))) s s'"
        by (rule slabs_only_mono [OF slabs_only_trans [OF s1(3) s'(3)]]) (simp add: ch)
      moreover have "new_chunks c xs s s'" using new_chunks_trans [OF s1(4) s'(4) c] by simp
      ultimately show ?thesis using s'(2) by blast
    next
      case no: False
      define k where "k = (if b then 1 else 0 :: nat)"
      define s' where "s' = (if b then s1\<lparr>mallocs := drop k (mallocs s1), mem_malloced := n\<rparr> else s1)"
      have "do_slabs_newslab c s = Some (False, s')"
        using cls False s1(1) no pool base len unfolding do_slabs_newslab_def s'_def
        by (cases "mallocs s1") (auto simp: Let_def memory_allocate_def malloc_def n_def k_def)
      moreover have "slabs_ok s' (F(c := [] @ F c))" using slabs_ok_drop [OF s1(2) c1] s1(2) by (simp add: s'_def fun_upd_idem)
      moreover have "slabs_only {} s1 s'" by (simp add: slabs_only_def s'_def)
      then have "slabs_only (- (chunks s - set (F c))) s s'" using slabs_only_trans [OF only1] by fastforce
      moreover have "new_chunks c [] s s'"
        using new_chunks_trans [OF s1(4) _ c, of "[]" s'] slabs_ok_drop(3) [OF s1(2) c1] by (simp add: s'_def)
      ultimately show ?thesis by blast
    qed
  qed
qed

section \<open>Allocation\<close>

text \<open>The first chunk of a free list is handed out.\<close>

definition is_new :: "item \<Rightarrow> bool" where
  "is_new i \<longleftrightarrow> it_flags i = 0 \<and> slabs_clsid i = 0 \<and> it_refcount i = 1"

lemma take_free_ok:
  assumes ok: "slabs_ok s F" and c: "c \<in> classes s" and F: "F c = x # ys"
  shows "\<exists>s' i j. mc_items s x = Some i \<and> slots (slabclass s ! c) = x \<and> slabs_clsid i = 0 \<and>
    do {
      let s = upd_class c (\<lambda>p. p\<lparr>slots := it_next i\<rparr>) s;
      s \<leftarrow> set_prev (it_next i) 0 s;
      s \<leftarrow> upd_item x (\<lambda>i. clear_flag ITEM_SLABBED i\<lparr>it_refcount := 1\<rparr>) s;
      Some (upd_class c (\<lambda>p. p\<lparr>sl_curr := sl_curr p - 1, requested := requested p + sz\<rparr>) s)
    } = Some s' \<and> slabs_ok s' (F(c := ys)) \<and> slabs_only (set (F c)) s s' \<and> same_pages s s' \<and>
    mc_items s' x = Some j \<and> is_new j"
proof -
  let ?p = "slabclass s ! c"
  have len: "length (slabclass s) = 64" and c64: "c < 64" using ok c by (auto simp: slabs_ok_def classes_iff)
  have "free_list s c (F c)" using ok c by (simp add: slabs_ok_def)
  then have f: "free_list s c (x # ys)" using F by simp
  from f obtain i t where i: "slots ?p = x" "mc_items s x = Some i" "is_free i" "x \<noteq> 0" "dseg (mc_items s) x (it_next i) ys t 0"
    "distinct ys" "x \<notin> set ys" by (auto simp: free_list_def)
  have n: "it_next i = 0 \<or> it_next i \<in> set ys" using dseg_first [OF i(5)] by (auto simp: hd_in_set)
  then have ne: "it_next i = 0 \<or> mc_items s (it_next i) \<noteq> None" and nx: "it_next i \<noteq> x" using dseg_items [OF i(5)] i by auto
  define j where "j = (clear_flag ITEM_SLABBED i)\<lparr>it_refcount := 1\<rparr>"
  define its where "its = (put_prev (it_next i) 0 (mc_items s))(x \<mapsto> j)"
  define p' where "p' = ?p\<lparr>slots := it_next i, sl_curr := sl_curr ?p - 1, requested := requested ?p + sz\<rparr>"
  define s' where "s' = s\<lparr>mc_items := its, slabclass := (slabclass s)[c := p']\<rparr>"
  have run: "do {
      let s = upd_class c (\<lambda>p. p\<lparr>slots := it_next i\<rparr>) s;
      s \<leftarrow> set_prev (it_next i) 0 s;
      s \<leftarrow> upd_item x (\<lambda>i. clear_flag ITEM_SLABBED i\<lparr>it_refcount := 1\<rparr>) s;
      Some (upd_class c (\<lambda>p. p\<lparr>sl_curr := sl_curr p - 1, requested := requested p + sz\<rparr>) s)
    } = Some s'"
    using ne nx i(2) len c64 by (simp add: set_prev_eq upd_class_def upd_item_def s'_def its_def j_def p'_def)
  have "dseg (put_prev (it_next i) 0 (mc_items s)) 0 (it_next i) ys (if ys = [] then 0 else t) 0"
    by (rule dseg_put_prev [OF i(5,6)])
  then have seg: "dseg its 0 (it_next i) ys (if ys = [] then 0 else t) 0"
    by (rule dseg_cong [rotated]) (use i(7) in \<open>auto simp: its_def\<close>)
  have out: "its y = mc_items s y" if "y \<notin> set (x # ys)" for y
    using that n by (cases "it_next i = 0") (auto simp: its_def relink_def)
  have free: "\<exists>k. its y = Some k \<and> is_free k" if "y \<in> set ys" for y
  proof -
    from that f obtain k where k: "mc_items s y = Some k" "is_free k" by (auto simp: free_list_def)
    from same_itemsD(1) [OF same_items_put(1) [of "mc_items s" 0 "it_next i"], of y k] k(1) obtain l where
      "put_prev (it_next i) 0 (mc_items s) y = Some l" "strip l = strip k" by blast
    moreover have "y \<noteq> x" using that i(7) by auto
    ultimately show ?thesis using k(2) strip_eqD [of l k] by (simp add: its_def is_free_def)
  qed
  have new: "free_list s' c ys"
  proof -
    have "class_chunks (slabclass s' ! c) = class_chunks ?p" and nth: "slabclass s' ! c = p'"
      using len c64 by (simp_all add: s'_def class_chunks_def pages_of_def page_chunks_def p'_def)
    then show ?thesis using seg i(6) f free by (auto simp: free_list_def s'_def p'_def)
  qed
  have sub: "set (x # ys) \<subseteq> class_chunks ?p" using f by (simp add: free_list_def)
  have "slabs_ok s' (F(c := ys))"
  proof (rule slabs_ok_replace [OF ok c])
    show "slabclass s' = (slabclass s)[c := p']" by (simp add: s'_def)
    show "mc_items s' y = mc_items s y" if "y \<notin> class_chunks ?p" for y using that out [of y] sub by (auto simp: s'_def)
    show "mc_items s' y \<noteq> None" if "y \<in> class_chunks ?p" for y
      using ok c that by (auto simp: s'_def its_def slabs_ok_def relink_def)
  qed (use new in \<open>simp_all add: s'_def p'_def\<close>)
  moreover have "slabs_only (set (F c)) s s'" using out F by (simp add: slabs_only_def s'_def)
  moreover have "same_pages s s'" unfolding same_pages_def
  proof (intro conjI allI)
    fix d
    have "slabclass s' ! d = (if d = c then p' else slabclass s ! d)" using c64 len by (simp add: s'_def nth_list_update)
    then show "sc_size (slabclass s' ! d) = sc_size (slabclass s ! d)" "perslab (slabclass s' ! d) = perslab (slabclass s ! d)"
      "slabs (slabclass s' ! d) = slabs (slabclass s ! d)" "slab_list (slabclass s' ! d) = slab_list (slabclass s ! d)"
      by (simp_all add: p'_def)
  qed (simp add: s'_def)
  moreover have "is_new j" using i(3) by (simp add: is_new_def j_def is_free_def clear_flag_def item_flag_defs)
  moreover have "mc_items s' x = Some j" by (simp add: s'_def its_def)
  moreover have "slabs_clsid i = 0" using i(3) by (simp add: is_free_def)
  ultimately show ?thesis using run i(1,2) by blast
qed

lemma do_slabs_alloc_ok:
  assumes ok: "slabs_ok s F" and c: "c \<in> classes s" and sz: "sz \<le> ucast (sc_size (slabclass s ! c))"
  shows "\<exists>x s' xs ys. do_slabs_alloc sz c nonew s = Some ((x, Some (requested (slabclass s ! c))), s') \<and>
    slabs_ok s' (F(c := ys)) \<and> slabs_only (- (chunks s - set (F c))) s s' \<and> new_chunks c xs s s' \<and>
    (if x = 0 then ys = [] \<and> xs @ F c = [] else xs @ F c = x # ys \<and> (\<exists>j. mc_items s' x = Some j \<and> is_new j))"
proof -
  let ?p = "slabclass s ! c"
  have c64: "1 \<le> c" "c \<le> power_largest s" and cls: "get_class c s = Some ?p"
    using ok c by (auto simp: slabs_ok_def get_class_def classes_iff)
  have free: "sl_curr ?p = 0 \<or> map_option slabs_clsid (mc_items s (slots ?p)) = Some 0"
    using take_free_ok [OF ok c] free_list_length(2) [OF ok c] by (cases "F c") fastforce+
  define s1o where "s1o = (if sl_curr ?p = 0 \<and> \<not> nonew then map_option snd (do_slabs_newslab c s) else Some s)"
  have "\<exists>s1 xs. s1o = Some s1 \<and> slabs_ok s1 (F(c := xs @ F c)) \<and> slabs_only (- (chunks s - set (F c))) s s1 \<and> new_chunks c xs s s1"
  proof (cases "sl_curr ?p = 0 \<and> \<not> nonew")
    case True
    then show ?thesis using do_slabs_newslab_ok [OF ok c] by (fastforce simp: s1o_def)
  next
    case False
    then have "s1o = Some s" by (auto simp: s1o_def)
    moreover have "slabs_only (- (chunks s - set (F c))) s s" by (simp add: slabs_only_def)
    moreover have "slabs_ok s (F(c := [] @ F c))" using ok by (simp add: fun_upd_idem)
    ultimately show ?thesis using new_chunks_refl by blast
  qed
  then obtain s1 xs where s1: "s1o = Some s1" "slabs_ok s1 (F(c := xs @ F c))" "slabs_only (- (chunks s - set (F c))) s s1"
    "new_chunks c xs s s1" by blast
  have c1: "c \<in> classes s1" using new_chunks_chunks(2) [OF s1(4) c] c by simp
  then have cls1: "get_class c s1 = Some (slabclass s1 ! c)" using s1(2) by (auto simp: slabs_ok_def get_class_def classes_iff)
  have empty: "sl_curr (slabclass s1 ! c) = 0 \<longleftrightarrow> xs @ F c = []" using free_list_length(2) [OF s1(2) c1] by simp
  show ?thesis
  proof (cases "xs @ F c")
    case Nil
    have "do_slabs_alloc sz c nonew s = Some ((0, Some (requested ?p)), s1)"
      using c64 cls free sz s1(1) cls1 empty Nil by (simp add: do_slabs_alloc_def s1o_def)
    moreover have "slabs_ok s1 (F(c := []))" using s1(2) Nil by simp
    ultimately show ?thesis using s1(3,4) Nil by auto
  next
    case (Cons x ys)
    from take_free_ok [OF s1(2) c1, of x ys sz] Cons obtain s' i j where t: "mc_items s1 x = Some i" "slots (slabclass s1 ! c) = x"
      "do {
        let s = upd_class c (\<lambda>p. p\<lparr>slots := it_next i\<rparr>) s1;
        s \<leftarrow> set_prev (it_next i) 0 s;
        s \<leftarrow> upd_item x (\<lambda>i. clear_flag ITEM_SLABBED i\<lparr>it_refcount := 1\<rparr>) s;
        Some (upd_class c (\<lambda>p. p\<lparr>sl_curr := sl_curr p - 1, requested := requested p + sz\<rparr>) s)
      } = Some s'" "slabs_ok s' (F(c := ys))" "slabs_only (set (xs @ F c)) s1 s'" "same_pages s1 s'" "mc_items s' x = Some j" "is_new j"
      by auto
    have x0: "x \<noteq> 0"
    proof (rule chunk_nonzero [OF s1(2) c1])
      have "free_list s1 c (xs @ F c)" using s1(2) c1 by (auto simp: slabs_ok_def)
      then show "x \<in> class_chunks (slabclass s1 ! c)" using Cons by (simp add: free_list_def)
    qed
    have "do_slabs_alloc sz c nonew s = Some ((x, Some (requested ?p)), s')"
      using c64 cls free sz s1(1) cls1 empty Cons t(1-3)
      by (auto simp: do_slabs_alloc_def s1o_def [symmetric] Let_def split: bind_splits)
    moreover have "slabs_only (- (chunks s - set (F c))) s s'"
      by (rule slabs_only_mono [OF slabs_only_trans [OF s1(3) t(5)]]) (use s1(4) in \<open>auto simp: new_chunks_def\<close>)
    moreover have "power_largest s' = power_largest s1"
      by (subst conjunct2 [OF t(5) [unfolded slabs_only_def]]) simp
    then have "new_chunks c xs s s'"
      using s1(4) same_pages_chunks [OF t(6)] t(6) by (simp add: new_chunks_def same_pages_def)
    ultimately show ?thesis using t(4,7,8) Cons x0 by auto
  qed
qed

end
