(* ===== verification/MC_Cache.thy ===== *)
theory MC_Cache
  imports MC_Slabs_Correct
begin

text \<open>
  The invariant of the DRAM cache as a whole: hash table, LRU lists, free lists and reference
  counts agree. Every chunk of every page is in exactly one place: in a free list, or linked (in
  the table and in the list of its class), or held by somebody; its reference count is the number
  of holders, plus one when it is linked. The operations of \<open>items.c\<close> preserve it.
\<close>

section \<open>Frames\<close>

lemma lru_ok_frame:
  assumes ok: "lru_ok s L"
    and eqs: "heads s' = heads s" "tails s' = tails s" "sizes s' = sizes s" "sizes_bytes s' = sizes_bytes s" "settings s' = settings s"
    and items: "\<And>c x i. x \<in> set (L c) \<Longrightarrow> mc_items s x = Some i \<Longrightarrow> \<exists>j. mc_items s' x = Some j \<and> it_next j = it_next i \<and>
      it_prev j = it_prev i \<and> slabs_clsid j = slabs_clsid i \<and> ITEM_ntotal (settings s) j = ITEM_ntotal (settings s) i"
  shows "lru_ok s' L"
proof -
  have item: "\<exists>i j. mc_items s x = Some i \<and> mc_items s' x = Some j \<and> it_next j = it_next i \<and> it_prev j = it_prev i \<and>
      slabs_clsid j = slabs_clsid i \<and> ITEM_ntotal (settings s) j = ITEM_ntotal (settings s) i" if "x \<in> set (L c)" for c x
    using lru_member(3) [OF ok that] items [OF that] by blast
  have "lru_list s' c (L c)" if c: "c < 256" for c
  proof -
    have l: "lru_list s c (L c)" using ok c by (simp add: lru_ok_def)
    then have "dseg (mc_items s) 0 (heads s ! c) (L c) (tails s ! c) 0" by (simp add: lru_list_def)
    then have "dseg (mc_items s') 0 (heads s ! c) (L c) (tails s ! c) 0"
      by (rule dseg_cong [rotated]) (use item in fastforce)
    moreover have "lru_bytes (settings s) (mc_items s') (L c) = lru_bytes (settings s) (mc_items s) (L c)"
      unfolding lru_bytes_def by (rule arg_cong [of _ _ sum_list], rule map_cong [OF refl]) (use item in fastforce)
    ultimately show ?thesis using l by (simp add: lru_list_def eqs)
  qed
  moreover have "\<forall>c. \<forall>x \<in> set (L c). c < 256 \<and> class_of (mc_items s') x = c"
    using lru_member(1,3) [OF ok] item by (fastforce simp: class_of_def)
  ultimately show ?thesis using ok eqs by (simp add: lru_ok_def)
qed

lemma slabs_ok_frame:
  assumes ok: "slabs_ok s F"
    and eqs: "slabclass s' = slabclass s" "power_largest s' = power_largest s" "settings s' = settings s" "mem_base s' = mem_base s"
      "mallocs s' = mallocs s"
    and items: "\<And>c x i. x \<in> set (F c) \<Longrightarrow> mc_items s x = Some i \<Longrightarrow> \<exists>j. mc_items s' x = Some j \<and> it_next j = it_next i \<and>
      it_prev j = it_prev i \<and> it_flags j = it_flags i \<and> slabs_clsid j = slabs_clsid i \<and> it_refcount j = it_refcount i"
    and there: "\<And>x. mc_items s x \<noteq> None \<Longrightarrow> mc_items s' x \<noteq> None"
  shows "slabs_ok s' F" "chunks s' = chunks s" "classes s' = classes s"
proof -
  show cl: "classes s' = classes s" using eqs by (simp add: classes_def)
  then show "chunks s' = chunks s" using eqs by (simp add: chunks_def)
  have "memory_ok s'" using ok eqs cl by (simp add: slabs_ok_def memory_ok_def all_pages_def page_bytes_def)
  moreover have "free_list s' c (F c)" if c: "c \<in> classes s" for c
  proof -
    have f: "free_list s c (F c)" using ok c by (simp add: slabs_ok_def)
    then obtain t where t: "dseg (mc_items s) 0 (slots (slabclass s ! c)) (F c) t 0" by (auto simp: free_list_def)
    have item: "\<exists>i j. mc_items s x = Some i \<and> is_free i \<and> mc_items s' x = Some j \<and> it_next j = it_next i \<and> it_prev j = it_prev i \<and>
        it_flags j = it_flags i \<and> slabs_clsid j = slabs_clsid i \<and> it_refcount j = it_refcount i" if "x \<in> set (F c)" for x
      using f that items [OF that] by (fastforce simp: free_list_def)
    have "dseg (mc_items s') 0 (slots (slabclass s ! c)) (F c) t 0"
      by (rule dseg_cong [OF _ t]) (use item in fastforce)
    moreover have "\<forall>x \<in> set (F c). \<exists>j. mc_items s' x = Some j \<and> is_free j" using item by (fastforce simp: is_free_def)
    ultimately show ?thesis using f by (auto simp: free_list_def eqs)
  qed
  ultimately show "slabs_ok s' F" using ok there by (auto simp: slabs_ok_def eqs cl)
qed

text \<open>The operations of the hash table change nothing behind their own fields.\<close>

lemma assoc_more_fields:
  assumes "assoc.more s' = assoc.more s"
  shows "settings s' = settings s \<and> current_time s' = current_time s \<and> slabclass s' = slabclass s \<and> power_largest s' = power_largest s \<and>
    mem_base s' = mem_base s \<and> mallocs s' = mallocs s \<and> heads s' = heads s \<and> tails s' = tails s \<and> sizes s' = sizes s \<and>
    sizes_bytes s' = sizes_bytes s \<and> itemstats s' = itemstats s \<and> threads s' = threads s"
  using assms by (cases s; cases s') simp

lemma more_hslot_set [simp]: "assoc.more (hslot_set r p s) = assoc.more s"
  by (cases r) (simp_all add: set_h_next_def)

lemma assoc_insert_more: "assoc_insert x hv s = Inr (r, s') \<Longrightarrow> assoc.more s' = assoc.more s"
  by (auto simp: assoc_insert_def Let_def set_h_next_def assoc_start_expand_def split: sum.splits if_splits)

lemma assoc_delete_more: "assoc_delete k hv s = Some (Inr s') \<Longrightarrow> assoc.more s' = assoc.more s"
  unfolding assoc_delete_def map_option_eq_Some
  by (elim exE conjE) (auto simp: set_h_next_def split: sum.splits if_splits option.splits)

section \<open>The invariant\<close>

definition free_chunks_of :: "(nat \<Rightarrow> addr list) \<Rightarrow> addr set" where
  "free_chunks_of F = (\<Union>c. set (F c))"

text \<open>
  \<open>M\<close> is the map of the table, \<open>L\<close> the LRU lists, \<open>F\<close> the free lists, and \<open>R x\<close> the number of
  references to \<open>x\<close> that somebody holds.
\<close>

definition item_ok :: "'a slab_state_scheme \<Rightarrow> (bytes \<rightharpoonup> addr) \<Rightarrow> (addr \<Rightarrow> nat) \<Rightarrow> addr \<Rightarrow> item \<Rightarrow> bool" where
  "item_ok s M R x i \<longleftrightarrow> \<not> has ITEM_SLABBED i \<and> \<not> has ITEM_CHUNKED i \<and> (has ITEM_LINKED i \<longleftrightarrow> x \<in> ran M) \<and>
     unat (it_refcount i) = R x + of_bool (x \<in> ran M) \<and> 0 < unat (it_refcount i) \<and>
     ITEM_clsid i \<in> classes s \<and> x \<in> class_chunks (slabclass s ! ITEM_clsid i)"

definition cache_ok :: "(bytes \<Rightarrow> u32) \<Rightarrow> 'a cache_scheme \<Rightarrow> (bytes \<rightharpoonup> addr) \<Rightarrow> (nat \<Rightarrow> addr list) \<Rightarrow> (nat \<Rightarrow> addr list) \<Rightarrow>
    (addr \<Rightarrow> nat) \<Rightarrow> bool" where
  "cache_ok hash s M L F R \<longleftrightarrow> assoc_holds hash s M \<and> lru_ok s L \<and> slabs_ok s F \<and> ran M = (\<Union>c. set (L c)) \<and>
     (\<forall>x. 0 < R x \<or> x \<in> ran M \<longrightarrow> x \<in> chunks s - free_chunks_of F) \<and>
     (\<forall>x \<in> chunks s - free_chunks_of F. \<exists>i. mc_items s x = Some i \<and> item_ok s M R x i)"

lemma cache_okD:
  assumes "cache_ok hash s M L F R"
  shows "assoc_holds hash s M" "lru_ok s L" "slabs_ok s F" "ran M = (\<Union>c. set (L c))"
    "\<And>x. 0 < R x \<or> x \<in> ran M \<Longrightarrow> x \<in> chunks s - free_chunks_of F"
    "\<And>x. x \<in> chunks s - free_chunks_of F \<Longrightarrow> \<exists>i. mc_items s x = Some i \<and> item_ok s M R x i"
  using assms unfolding cache_ok_def by blast+

text \<open>What is linked, and what is held.\<close>

lemma held_item:
  assumes "cache_ok hash s M L F R" "0 < R x \<or> x \<in> ran M"
  shows "\<exists>i. mc_items s x = Some i \<and> item_ok s M R x i" "x \<in> chunks s" "x \<notin> free_chunks_of F" "x \<noteq> 0"
proof -
  note ok = cache_okD [OF assms(1)]
  show "\<exists>i. mc_items s x = Some i \<and> item_ok s M R x i" "x \<in> chunks s" "x \<notin> free_chunks_of F" using ok(5,6) assms(2) by blast+
  then obtain c where "c \<in> classes s" "x \<in> class_chunks (slabclass s ! c)" by (auto simp: chunks_def)
  then show "x \<noteq> 0" by (rule chunk_nonzero [OF ok(3)])
qed

text \<open>An update of an item that is held or linked, which keeps what the lists and the table use.\<close>

lemma cache_ok_upd:
  assumes ok: "cache_ok hash s M L F R" and x: "mc_items s x = Some i" "x \<in> chunks s - free_chunks_of F"
    and keep: "x \<in> ran M \<Longrightarrow> it_next (f i) = it_next i \<and> it_prev (f i) = it_prev i \<and> h_next (f i) = h_next i \<and>
      it_key (f i) = it_key i \<and> slabs_clsid (f i) = slabs_clsid i \<and> ITEM_ntotal (settings s) (f i) = ITEM_ntotal (settings s) i"
    and new: "item_ok s M R' x (f i)" "\<And>y. y \<noteq> x \<Longrightarrow> R' y = R y"
  shows "upd_item x f s = Some (s\<lparr>mc_items := (mc_items s)(x \<mapsto> f i)\<rparr>)"
    "cache_ok hash (s\<lparr>mc_items := (mc_items s)(x \<mapsto> f i)\<rparr>) M L F R'"
proof -
  let ?s = "s\<lparr>mc_items := (mc_items s)(x \<mapsto> f i)\<rparr>"
  note k = cache_okD [OF ok]
  show "upd_item x f s = Some ?s" using x by (simp add: upd_item_def)
  have a: "assoc_holds hash ?s M" by (rule assoc_holds_frame [OF k(1)]) (use keep x in auto)
  have "x \<in> ran M" if "x \<in> set (L c)" for c using that k(4) by auto
  note keepL = keep [OF this]
  have l: "lru_ok ?s L" by (rule lru_ok_frame [OF k(2)]) (use keepL x in auto)
  have sl: "slabs_ok ?s F" "chunks ?s = chunks s" "classes ?s = classes s"
    by (rule slabs_ok_frame [OF k(3)]; use x in \<open>auto simp: free_chunks_of_def\<close>)+
  have "\<exists>j. mc_items ?s y = Some j \<and> item_ok ?s M R' y j" if "y \<in> chunks s - free_chunks_of F" for y
    using k(6) [OF that] new sl(3) by (cases "y = x") (auto simp: item_ok_def)
  moreover have "y \<in> chunks s - free_chunks_of F" if "0 < R' y \<or> y \<in> ran M" for y
    using that k(5) [of y] x(2) new(2) [of y] by (cases "y = x") auto
  ultimately show "cache_ok hash ?s M L F R'" using a l sl k(4) unfolding cache_ok_def by auto
qed

section \<open>References\<close>

lemma upd_items_simps [simp]:
  "item_ok (s\<lparr>mc_items := its\<rparr>) = item_ok s" "chunks (s\<lparr>mc_items := its\<rparr>) = chunks s"
  "classes (s\<lparr>mc_items := its\<rparr>) = classes s"
  by (auto simp: item_ok_def chunks_def classes_def fun_eq_iff)

lemma unat_incr: "unat (w :: 16 word) + 1 < 65536 \<Longrightarrow> unat (w + 1) = unat w + 1"
  by (simp add: unat_word_ariths)

lemma unat_decr: "0 < unat (w :: 16 word) \<Longrightarrow> unat (w - 1) = unat w - 1"
  using unat_sub [of 1 w] by (simp add: word_le_nat_alt)

lemma item_ok_refcount:
  "item_ok s M R x i \<Longrightarrow> unat n = R' x + of_bool (x \<in> ran M) \<Longrightarrow> 0 < unat n \<Longrightarrow> item_ok s M R' x (i\<lparr>it_refcount := n\<rparr>)"
  by (simp add: item_ok_def has_def ITEM_clsid_def)

lemma ITEM_ntotal_upd [simp]:
  "ITEM_ntotal c (i\<lparr>it_refcount := n\<rparr>) = ITEM_ntotal c i" "ITEM_ntotal c (i\<lparr>it_time := t\<rparr>) = ITEM_ntotal c i"
  "ITEM_ntotal c (i\<lparr>slabs_clsid := b\<rparr>) = ITEM_ntotal c i" "ITEM_ntotal c (i\<lparr>h_next := p\<rparr>) = ITEM_ntotal c i"
  "ITEM_ntotal c (i\<lparr>it_exptime := t\<rparr>) = ITEM_ntotal c i" "ITEM_ntotal c (i\<lparr>it_cas := v\<rparr>) = ITEM_ntotal c i"
  by (simp_all add: ITEM_ntotal_def has_def)

lemma refcount_incr_ok:
  assumes ok: "cache_ok hash s M L F R" and x: "0 < R x \<or> x \<in> ran M" "R x + of_bool (x \<in> ran M) < 65535"
  shows "\<exists>i s'. mc_items s x = Some i \<and> item_ok s M R x i \<and> refcount_incr x s = Some s' \<and>
    s' = s\<lparr>mc_items := (mc_items s)(x \<mapsto> i\<lparr>it_refcount := it_refcount i + 1\<rparr>)\<rparr> \<and> cache_ok hash s' M L F (R(x := R x + 1))"
proof -
  from held_item [OF ok x(1)] obtain i where i: "mc_items s x = Some i" "item_ok s M R x i" "x \<in> chunks s - free_chunks_of F" by blast
  have "unat (it_refcount i) = R x + of_bool (x \<in> ran M)" using i(2) by (simp add: item_ok_def)
  then have "unat (it_refcount i + 1) = (R(x := R x + 1)) x + of_bool (x \<in> ran M)" using x(2) by (simp add: unat_incr)
  then have "item_ok s M (R(x := R x + 1)) x (i\<lparr>it_refcount := it_refcount i + 1\<rparr>)" by (intro item_ok_refcount [OF i(2)]) simp_all
  from cache_ok_upd [OF ok i(1,3), where R' = "R(x := R x + 1)" and f = "\<lambda>i. i\<lparr>it_refcount := it_refcount i + 1\<rparr>"] this i
  show ?thesis by (simp add: refcount_incr_def)
qed

lemma slabs_only_fields:
  assumes "slabs_only X (s :: 'a cache_scheme) s'"
  shows "settings s' = settings s" "power_largest s' = power_largest s" "heads s' = heads s" "tails s' = tails s"
    "sizes s' = sizes s" "sizes_bytes s' = sizes_bytes s" "hashpower s' = hashpower s"
    "primary_hashtable s' = primary_hashtable s" "old_hashtable s' = old_hashtable s" "expanding s' = expanding s"
    "expand_bucket s' = expand_bucket s" "hash_items s' = hash_items s" "current_time s' = current_time s"
    "itemstats s' = itemstats s" "threads s' = threads s"
  by (subst conjunct2 [OF assms [unfolded slabs_only_def]], simp)+

text \<open>The allocator takes or gives a chunk \<open>x\<close>.\<close>

lemma cache_ok_slab_step:
  assumes ok: "cache_ok hash s M L F R" and only: "slabs_only X s s'" and sl: "slabs_ok s' F'"
    and grow: "\<And>d. class_chunks (slabclass s ! d) \<subseteq> class_chunks (slabclass s' ! d)"
    and live: "\<And>y. y \<in> chunks s' - free_chunks_of F' \<Longrightarrow> y \<noteq> x \<Longrightarrow> y \<in> chunks s - free_chunks_of F \<and> y \<notin> X"
    and stay: "\<And>y. y \<in> chunks s - free_chunks_of F \<Longrightarrow> y \<noteq> x \<Longrightarrow> y \<in> chunks s' - free_chunks_of F'"
    and x: "x \<notin> ran M" "x \<in> chunks s' - free_chunks_of F' \<Longrightarrow> \<exists>i. mc_items s' x = Some i \<and> item_ok s' M R' x i"
      "0 < R' x \<Longrightarrow> x \<in> chunks s' - free_chunks_of F'" "\<And>y. y \<noteq> x \<Longrightarrow> R' y = R y"
  shows "cache_ok hash s' M L F' R'"
proof -
  note k = cache_okD [OF ok] and f = slabs_only_fields [OF only]
  have linked: "y \<in> chunks s' - free_chunks_of F'" "mc_items s' y = mc_items s y" if "y \<in> ran M" for y
  proof -
    have "y \<noteq> x" "y \<in> chunks s - free_chunks_of F" using that x(1) k(5) by auto
    then show "y \<in> chunks s' - free_chunks_of F'" by (intro stay)
    then show "mc_items s' y = mc_items s y" using live [of y] \<open>y \<noteq> x\<close> only by (simp add: slabs_only_def)
  qed
  have a: "assoc_holds hash s' M" by (rule assoc_holds_frame [OF k(1)]) (use linked(2) f in auto)
  have inL: "y \<in> ran M" if "y \<in> set (L c)" for y c using that k(4) by auto
  have l: "lru_ok s' L" by (rule lru_ok_frame [OF k(2)]) (use linked(2) [OF inL] f in auto)
  have cl: "classes s' = classes s" using f by (simp add: classes_def)
  have "\<exists>i. mc_items s' y = Some i \<and> item_ok s' M R' y i" if y: "y \<in> chunks s' - free_chunks_of F'" for y
  proof (cases "y = x")
    case False
    from live [OF y False] have "y \<in> chunks s - free_chunks_of F" "mc_items s' y = mc_items s y"
      using only by (auto simp: slabs_only_def)
    with k(6) [of y] x(4) [OF False] grow cl show ?thesis by (fastforce simp: item_ok_def)
  qed (use x(2) y in simp)
  moreover have "y \<in> chunks s' - free_chunks_of F'" if "0 < R' y \<or> y \<in> ran M" for y
  proof (cases "y = x")
    case False
    then have "y \<in> chunks s - free_chunks_of F" using that k(5) [of y] x(4) by auto
    then show ?thesis using False by (rule stay)
  qed (use that x in auto)
  ultimately show ?thesis using a l sl k(4) unfolding cache_ok_def by auto
qed

text \<open>One reference less; the last one gives the chunk back to its class.\<close>

definition release :: "'a slab_state_scheme \<Rightarrow> (bytes \<rightharpoonup> addr) \<Rightarrow> (addr \<Rightarrow> nat) \<Rightarrow> addr \<Rightarrow> (nat \<Rightarrow> addr list) \<Rightarrow> nat \<Rightarrow> addr list" where
  "release s M R x F =
     (if R x = 1 \<and> x \<notin> ran M
      then (let c = ITEM_clsid (the (mc_items s x)) in F(c := x # F c)) else F)"

lemma do_item_remove_ok:
  assumes ok: "cache_ok hash s M L F R" and x: "0 < R x"
  shows "\<exists>s'. do_item_remove x s = Some s' \<and> cache_ok hash s' M L (release s M R x F) (R(x := R x - 1)) \<and>
    (\<forall>y. y \<notin> insert x (free_chunks_of F) \<longrightarrow> mc_items s' y = mc_items s y) \<and>
    settings s' = settings s \<and> current_time s' = current_time s \<and> itemstats s' = itemstats s \<and> threads s' = threads s"
proof -
  from held_item [OF ok disjI1 [OF x]] obtain i where i: "mc_items s x = Some i" "item_ok s M R x i" "x \<in> chunks s - free_chunks_of F"
    and x0: "x \<noteq> 0" by blast
  let ?c = "ITEM_clsid i"
  have rc: "unat (it_refcount i) = R x + of_bool (x \<in> ran M)" "0 < unat (it_refcount i)" and fl: "\<not> has ITEM_SLABBED i"
    using i(2) unfolding item_ok_def by blast+
  have dec: "unat (it_refcount i - 1) = R x - 1 + of_bool (x \<in> ran M)" using rc x by (simp add: unat_decr)
  define j where "j = i\<lparr>it_refcount := it_refcount i - 1\<rparr>"
  define s1 where "s1 = s\<lparr>mc_items := (mc_items s)(x \<mapsto> j)\<rparr>"
  have run1: "refcount_decr x s = Some s1" using i(1) by (simp add: refcount_decr_def upd_item_def s1_def j_def)
  show ?thesis
  proof (cases "R x = 1 \<and> x \<notin> ran M")
    case False
    then have "0 < unat (it_refcount i - 1)" using dec x by auto
    then have "item_ok s M (R(x := R x - 1)) x j" unfolding j_def using dec x by (intro item_ok_refcount [OF i(2)]) simp_all
    with cache_ok_upd [OF ok i(1,3), where R' = "R(x := R x - 1)" and f = "\<lambda>i. i\<lparr>it_refcount := it_refcount i - 1\<rparr>"]
    have "cache_ok hash s1 M L F (R(x := R x - 1))" by (simp add: s1_def j_def)
    moreover have "do_item_remove x s = Some s1"
      using i(1) fl rc run1 \<open>0 < unat (it_refcount i - 1)\<close> by (auto simp: do_item_remove_def word_less_nat_alt unat_eq_zero [symmetric])
    ultimately show ?thesis using False by (intro exI [of _ s1]) (auto simp: release_def s1_def)
  next
    case True
    note k = cache_okD [OF ok]
    have c: "?c \<in> classes s" "x \<in> class_chunks (slabclass s ! ?c)" "\<not> has ITEM_CHUNKED i" "\<not> has ITEM_LINKED i"
      using i(2) True by (auto simp: item_ok_def)
    have notF: "x \<notin> set (F d)" for d using i(3) by (auto simp: free_chunks_of_def)
    have zero: "it_refcount i - 1 = 0" using dec True by (simp add: unat_eq_zero [symmetric])
    have s1ok: "slabs_ok s1 F"
      unfolding s1_def by (rule slabs_ok_frame(1) [OF k(3)]) (use notF i(1) in \<open>auto split: if_splits\<close>)
    from do_slabs_free_ok [OF s1ok, of ?c x j "ITEM_ntotal (settings s) j"] c notF zero obtain s2 where
      s2: "do_slabs_free x (ITEM_ntotal (settings s) j) ?c s1 = Some s2" "slabs_ok s2 (F(?c := x # F ?c))"
        "slabs_only (insert x (set (F ?c))) s1 s2" "same_pages s1 s2"
      by (auto simp: s1_def j_def has_def)
    have nothead: "x \<noteq> heads s ! unat (slabs_clsid i)" "x \<noteq> tails s ! unat (slabs_clsid i)"
    proof -
      have lt: "unat (slabs_clsid i) < 256" using unsigned_less [where 'a = nat, of "slabs_clsid i"] by simp
      then have seg: "dseg (mc_items s) 0 (heads s ! unat (slabs_clsid i)) (L (unat (slabs_clsid i))) (tails s ! unat (slabs_clsid i)) 0"
        using k(2) by (simp add: lru_ok_def lru_list_def)
      have "x \<notin> set (L (unat (slabs_clsid i)))" using True k(4) by auto
      then show "x \<noteq> heads s ! unat (slabs_clsid i)" "x \<noteq> tails s ! unat (slabs_clsid i)"
        using dseg_first [OF seg] dseg_last [OF seg] x0 by (auto simp: hd_in_set last_in_set split: if_splits)
    qed
    have run: "do_item_remove x s = Some s2"
      using i(1) fl rc run1 zero c nothead s2(1)
      by (auto simp: do_item_remove_def word_less_nat_alt item_free_def s1_def j_def has_def ITEM_clsid_def)
    have only: "slabs_only (insert x (set (F ?c))) s s2"
    proof -
      have "slabs_only {x} s s1" by (simp add: slabs_only_def s1_def)
      from slabs_only_trans [OF this s2(3)] show ?thesis by simp
    qed
    have ch: "class_chunks (slabclass s2 ! d) = class_chunks (slabclass s ! d)" for d
      using same_pages_chunks [OF s2(4)] by (simp add: s1_def)
    have cl: "classes s2 = classes s" using slabs_only_fields(2) [OF only] by (simp add: classes_def)
    have chunks: "chunks s2 = chunks s" by (simp add: chunks_def ch cl)
    have F': "free_chunks_of (F(?c := x # F ?c)) = insert x (free_chunks_of F)" by (auto simp: free_chunks_of_def split: if_splits)
    have "cache_ok hash s2 M L (F(?c := x # F ?c)) (R(x := R x - 1))"
      by (rule cache_ok_slab_step [OF ok only s2(2), of x])
        (use True in \<open>auto simp: ch chunks F' free_chunks_of_def split: if_splits\<close>)
    then show ?thesis using run True i(1) only slabs_only_fields [OF only]
      by (intro exI [of _ s2]) (auto simp: release_def Let_def slabs_only_def free_chunks_of_def)
  qed
qed

section \<open>Unlinking\<close>

text \<open>An item without its three links.\<close>

definition core :: "item \<Rightarrow> item" where
  "core i = i\<lparr>it_next := 0, it_prev := 0, h_next := 0\<rparr>"

definition same_core :: "(addr \<Rightarrow> item option) \<Rightarrow> (addr \<Rightarrow> item option) \<Rightarrow> bool" where
  "same_core its its' \<longleftrightarrow> (\<forall>y. map_option core (its' y) = map_option core (its y))"

lemma core_eqD:
  assumes "core i = core j"
  shows "it_time i = it_time j" "it_exptime i = it_exptime j" "it_nbytes i = it_nbytes j" "it_refcount i = it_refcount j"
    "it_nsuffix i = it_nsuffix j" "it_flags i = it_flags j" "slabs_clsid i = slabs_clsid j" "it_key i = it_key j"
    "it_cas i = it_cas j" "it_data i = it_data j"
  using assms by (cases i; cases j; simp add: core_def)+

lemma item_ok_core: "core i = core j \<Longrightarrow> item_ok s M R x i \<longleftrightarrow> item_ok s M R x j"
  using core_eqD [of i j] by (simp add: item_ok_def has_def ITEM_clsid_def)

lemma strip_core: "strip i = strip j \<Longrightarrow> core i = core j"
  by (cases i; cases j) (simp add: strip_def core_def)

lemma same_items_core: "same_items its its' \<Longrightarrow> same_core its its'"
  unfolding same_items_def same_core_def
proof
  fix y assume *: "\<forall>x. map_option strip (its' x) = map_option strip (its x)"
  from * [rule_format, of y] show "map_option core (its' y) = map_option core (its y)"
    by (cases "its y"; cases "its' y") (auto intro: strip_core)
qed

lemma h_next_core:
  assumes "\<forall>y. map_option (h_next_update (\<lambda>_. 0)) (its' y) = map_option (h_next_update (\<lambda>_. 0)) (its y)"
  shows "same_core its its'"
  unfolding same_core_def
proof
  fix y
  have eq: "i\<lparr>h_next := 0\<rparr> = j\<lparr>h_next := 0\<rparr> \<Longrightarrow> core i = core j" for i j by (cases i; cases j) (simp add: core_def)
  show "map_option core (its' y) = map_option core (its y)" using assms [rule_format, of y]
    by (cases "its y"; cases "its' y") (auto intro: eq)
qed

lemma same_core_trans: "same_core a b \<Longrightarrow> same_core b c \<Longrightarrow> same_core a c"
  by (simp add: same_core_def)

lemma same_coreD:
  assumes "same_core its its'"
  shows "its x = Some i \<Longrightarrow> \<exists>j. its' x = Some j \<and> core j = core i" "its x = None \<longleftrightarrow> its' x = None"
proof -
  have e: "map_option core (its' x) = map_option core (its x)" using assms by (simp add: same_core_def)
  show "its x = Some i \<Longrightarrow> \<exists>j. its' x = Some j \<and> core j = core i" using e by (cases "its' x") auto
  show "its x = None \<longleftrightarrow> its' x = None" using e by (cases "its x"; cases "its' x") auto
qed

text \<open>The hash table changes only chains.\<close>

lemma h_next_only:
  assumes "\<forall>y. map_option (h_next_update (\<lambda>_. 0)) (its' y) = map_option (h_next_update (\<lambda>_. 0)) (its y)" "its x = Some i"
  shows "\<exists>p. its' x = Some (i\<lparr>h_next := p\<rparr>)"
proof -
  from assms(1) [rule_format, of x] assms(2) obtain j where j: "its' x = Some j" "j\<lparr>h_next := 0\<rparr> = i\<lparr>h_next := 0\<rparr>"
    by (cases "its' x") auto
  then have "j = i\<lparr>h_next := h_next j\<rparr>" by (cases i; cases j) simp
  then show ?thesis using j(1) by auto
qed

lemma item_stats_sizes_change_eq:
  "item_stats_sizes_change f i s = s\<lparr>stats_sizes_hist := stats_sizes_hist (item_stats_sizes_change f i s)\<rparr>"
  by (auto simp: item_stats_sizes_change_def Let_def split: option.splits)

text \<open>Flags.\<close>

lemma word_or_zero: "(a :: 'w::len word) OR b = 0 \<longleftrightarrow> a = 0 \<and> b = 0"
  by (auto simp: bit_eq_iff bit_or_iff)

lemma has_set_flag: "has f (set_flag g i) \<longleftrightarrow> has f i \<or> g AND f \<noteq> 0"
  by (simp add: has_def set_flag_def bit.conj_disj_distrib2 word_or_zero)

lemma has_clear_flag: "has f (clear_flag g i) \<longleftrightarrow> it_flags i AND (NOT g AND f) \<noteq> 0"
  by (simp add: has_def clear_flag_def and.assoc)

lemma has_flags [simp]:
  "has ITEM_LINKED (clear_flag ITEM_LINKED i) = False" "has ITEM_SLABBED (clear_flag ITEM_LINKED i) = has ITEM_SLABBED i"
  "has ITEM_CHUNKED (clear_flag ITEM_LINKED i) = has ITEM_CHUNKED i" "has ITEM_CAS (clear_flag ITEM_LINKED i) = has ITEM_CAS i"
  "has ITEM_LINKED (set_flag ITEM_LINKED i) = True" "has ITEM_SLABBED (set_flag ITEM_LINKED i) = has ITEM_SLABBED i"
  "has ITEM_CHUNKED (set_flag ITEM_LINKED i) = has ITEM_CHUNKED i" "has ITEM_CAS (set_flag ITEM_LINKED i) = has ITEM_CAS i"
  "has ITEM_LINKED (clear_flag ITEM_ACTIVE i) = has ITEM_LINKED i" "has ITEM_SLABBED (clear_flag ITEM_ACTIVE i) = has ITEM_SLABBED i"
  "has ITEM_CHUNKED (clear_flag ITEM_ACTIVE i) = has ITEM_CHUNKED i" "has ITEM_CAS (clear_flag ITEM_ACTIVE i) = has ITEM_CAS i"
  "has ITEM_LINKED (set_flag ITEM_ACTIVE i) = has ITEM_LINKED i" "has ITEM_SLABBED (set_flag ITEM_ACTIVE i) = has ITEM_SLABBED i"
  "has ITEM_CHUNKED (set_flag ITEM_ACTIVE i) = has ITEM_CHUNKED i" "has ITEM_CAS (set_flag ITEM_ACTIVE i) = has ITEM_CAS i"
  "has ITEM_LINKED (set_flag ITEM_FETCHED i) = has ITEM_LINKED i" "has ITEM_SLABBED (set_flag ITEM_FETCHED i) = has ITEM_SLABBED i"
  "has ITEM_CHUNKED (set_flag ITEM_FETCHED i) = has ITEM_CHUNKED i" "has ITEM_CAS (set_flag ITEM_FETCHED i) = has ITEM_CAS i"
  by (simp_all add: has_set_flag has_clear_flag item_flag_defs) (simp_all add: has_def)

lemma has_upd [simp]:
  "has f (i\<lparr>it_refcount := n\<rparr>) = has f i" "has f (i\<lparr>it_time := t\<rparr>) = has f i" "has f (i\<lparr>slabs_clsid := b\<rparr>) = has f i"
  "has f (i\<lparr>h_next := p\<rparr>) = has f i" "has f (i\<lparr>it_exptime := t\<rparr>) = has f i" "has f (i\<lparr>it_cas := v\<rparr>) = has f i"
  by (simp_all add: has_def)

lemma flag_fields [simp]:
  "it_next (clear_flag f i) = it_next i" "it_prev (clear_flag f i) = it_prev i" "h_next (clear_flag f i) = h_next i"
  "it_key (clear_flag f i) = it_key i" "slabs_clsid (clear_flag f i) = slabs_clsid i" "it_refcount (clear_flag f i) = it_refcount i"
  "it_next (set_flag f i) = it_next i" "it_prev (set_flag f i) = it_prev i" "h_next (set_flag f i) = h_next i"
  "it_key (set_flag f i) = it_key i" "slabs_clsid (set_flag f i) = slabs_clsid i" "it_refcount (set_flag f i) = it_refcount i"
  by (simp_all add: clear_flag_def set_flag_def)

lemma flag_ntotal [simp]:
  "ITEM_ntotal c (clear_flag ITEM_LINKED i) = ITEM_ntotal c i" "ITEM_ntotal c (set_flag ITEM_LINKED i) = ITEM_ntotal c i"
  "ITEM_ntotal c (clear_flag ITEM_ACTIVE i) = ITEM_ntotal c i" "ITEM_ntotal c (set_flag ITEM_ACTIVE i) = ITEM_ntotal c i"
  "ITEM_ntotal c (set_flag ITEM_FETCHED i) = ITEM_ntotal c i"
  by (simp_all add: ITEM_ntotal_def) (simp_all add: clear_flag_def set_flag_def)

lemma ITEM_clsid_upd [simp]:
  "ITEM_clsid (clear_flag f i) = ITEM_clsid i" "ITEM_clsid (set_flag f i) = ITEM_clsid i"
  "ITEM_clsid (i\<lparr>it_refcount := n\<rparr>) = ITEM_clsid i" "ITEM_clsid (i\<lparr>it_time := t\<rparr>) = ITEM_clsid i"
  "ITEM_clsid (i\<lparr>it_cas := v\<rparr>) = ITEM_clsid i" "ITEM_clsid (i\<lparr>it_exptime := t\<rparr>) = ITEM_clsid i"
  by (simp_all add: ITEM_clsid_def)

lemma ran_delete:
  assumes "assoc_holds hash s M" "M k = Some x"
  shows "ran (M(k := None)) = ran M - {x}"
proof -
  have inj: "k' = k" if "M k' = Some x" for k' using assoc_holds_inj [OF assms(1) that assms(2)] .
  show ?thesis
  proof (intro equalityI subsetI)
    fix y assume "y \<in> ran (M(k := None))"
    then obtain k' where "k' \<noteq> k" "M k' = Some y" by (auto simp: ran_def split: if_splits)
    then show "y \<in> ran M - {x}" using inj by (auto simp: ran_def)
  next
    fix y assume "y \<in> ran M - {x}"
    then obtain k' where "M k' = Some y" "y \<noteq> x" by (auto simp: ran_def)
    then have "(M(k := None)) k' = Some y" using assms(2) by auto
    then show "y \<in> ran (M(k := None))" unfolding ran_def by blast
  qed
qed

text \<open>
  The first part of \<open>do_item_unlink\<close>: the reference that the table and the list had together is
  now one that is held, and \<open>do_item_remove\<close> gives it back.
\<close>

lemma unlink_core:
  assumes ok: "cache_ok hash s M L F R" and k: "M k = Some x" and i: "mc_items s x = Some i" and c: "c = unat (slabs_clsid i)"
  shows "\<exists>s'. do_item_unlink x (hash k) s = do_item_remove x s' \<and>
    cache_ok hash s' (M(k := None)) (L(c := remove1 x (L c))) F (R(x := R x + 1)) \<and>
    (\<exists>j. mc_items s' x = Some j \<and> core j = core (clear_flag ITEM_LINKED i)) \<and>
    (\<forall>y. y \<noteq> x \<longrightarrow> map_option core (mc_items s' y) = map_option core (mc_items s y)) \<and>
    settings s' = settings s \<and> current_time s' = current_time s \<and> itemstats s' = itemstats s \<and> threads s' = threads s"
proof -
  note h = cache_okD [OF ok]
  have xM: "x \<in> ran M" using k by (auto simp: ran_def)
  obtain i' where i': "mc_items s x = Some i'" "item_ok s M R x i'" using held_item(1) [OF ok disjI2 [OF xM]] by blast
  have iok: "item_ok s M R x i" using i' i by simp
  have live: "x \<in> chunks s - free_chunks_of F" using held_item(2,3) [OF ok disjI2 [OF xM]] by simp
  have key: "it_key i = k" using assoc_holds_item(2) [OF h(1) k] i by auto
  have xL: "x \<in> set (L c)"
  proof -
    from xM h(4) obtain d where "x \<in> set (L d)" by auto
    with lru_member(3) [OF h(2) this] i c show ?thesis by auto
  qed
  define i1 where "i1 = clear_flag ITEM_LINKED i"
  define s1 where "s1 = s\<lparr>mc_items := (mc_items s)(x \<mapsto> i1), curr_bytes := curr_bytes s - ITEM_ntotal (settings s) i1, curr_items := curr_items s - 1\<rparr>"
  define s2 where "s2 = item_stats_sizes_remove i1 s1"
  have s2: "s2 = s1\<lparr>stats_sizes_hist := stats_sizes_hist s2\<rparr>"
    unfolding s2_def item_stats_sizes_remove_def by (rule item_stats_sizes_change_eq)
  have a2: "assoc_holds hash s2 M"
    by (rule assoc_holds_frame [OF h(1)]; subst s2) (use i in \<open>auto simp: s1_def i1_def\<close>)
  from assoc_delete_holds [OF a2 k] obtain s3 where s3: "assoc_delete k (hash k) s2 = Some (Inr s3)" "assoc_holds hash s3 (M(k := None))"
    "\<forall>y. map_option (h_next_update (\<lambda>_. 0)) (mc_items s3 y) = map_option (h_next_update (\<lambda>_. 0)) (mc_items s2 y)" by blast
  have its2: "mc_items s2 = (mc_items s)(x \<mapsto> i1)" by (subst s2) (simp add: s1_def)
  have more: "settings s3 = settings s \<and> current_time s3 = current_time s \<and> slabclass s3 = slabclass s \<and> power_largest s3 = power_largest s \<and>
    mem_base s3 = mem_base s \<and> mallocs s3 = mallocs s \<and> heads s3 = heads s \<and> tails s3 = tails s \<and> sizes s3 = sizes s \<and>
    sizes_bytes s3 = sizes_bytes s \<and> itemstats s3 = itemstats s \<and> threads s3 = threads s"
    using assoc_more_fields [OF assoc_delete_more [OF s3(1)]] by (subst (asm) (1 2 3 4 5 6 7 8 9 10 11 12) s2) (simp add: s1_def)
  have its3: "\<exists>p. mc_items s3 y = Some ((if y = x then i1 else j)\<lparr>h_next := p\<rparr>)" if "mc_items s y = Some j" for y j
    using h_next_only [OF s3(3), of y] that i by (simp add: its2)
  have l3: "lru_ok s3 L"
    by (rule lru_ok_frame [OF h(2)]) (use more its3 i in \<open>fastforce simp: i1_def split: if_splits\<close>)+
  have xF: "x \<notin> set (F d)" for d using live by (auto simp: free_chunks_of_def)
  have sl3: "slabs_ok s3 F" "chunks s3 = chunks s" "classes s3 = classes s"
    by (rule slabs_ok_frame [OF h(3)]; use more its3 xF in fastforce)+
  from do_item_unlink_q_ok [OF l3 xL] obtain s4 where s4: "do_item_unlink_q x s3 = Some s4" "lru_ok s4 (L(c := remove1 x (L c)))"
    "links_only (set (L c) - {x}) s3 s4" by blast
  note f4 = links_only_fields [OF s4(3)]
  have same: "same_items (mc_items s3) (mc_items s4)" using s4(3) by (simp add: links_only_def)
  have a4: "assoc_holds hash s4 (M(k := None))"
  proof (rule assoc_holds_frame [OF s3(2)])
    fix y j assume "mc_items s3 y = Some j"
    from same_itemsD(1) [OF same this] obtain l where "mc_items s4 y = Some l" "strip l = strip j" by blast
    then show "\<exists>l. mc_items s4 y = Some l \<and> h_next l = h_next j \<and> it_key l = it_key j" using strip_eqD [of l j] by auto
  qed (use f4 in simp_all)
  have sl4: "slabs_ok s4 F" "chunks s4 = chunks s3" "classes s4 = classes s3"
  proof -
    have out: "mc_items s4 y = mc_items s3 y" if "y \<in> set (F d)" for y d
    proof -
      have "y \<notin> ran M" using that h(5) [of y] by (auto simp: free_chunks_of_def)
      then have "y \<notin> set (L c)" using h(4) by auto
      then show ?thesis using s4(3) by (simp add: links_only_def)
    qed
    show "slabs_ok s4 F" "chunks s4 = chunks s3" "classes s4 = classes s3"
      by (rule slabs_ok_frame [OF sl3(1)]; use f4 out same_itemsD(3) [OF same] in auto)+
  qed
  have ran': "ran (M(k := None)) = ran M - {x}" by (rule ran_delete [OF h(1) k])
  have core4: "same_core (mc_items s2) (mc_items s4)"
    by (rule same_core_trans [OF h_next_core [OF s3(3)] same_items_core [OF same]])
  have cl: "slabclass s4 = slabclass s" "classes s4 = classes s" "chunks s4 = chunks s" using f4 more sl3 sl4 by simp_all
  have item: "\<exists>j. mc_items s4 y = Some j \<and> item_ok s4 (M(k := None)) (R(x := R x + 1)) y j" if y: "y \<in> chunks s - free_chunks_of F" for y
  proof -
    obtain j where j: "mc_items s y = Some j" "item_ok s M R y j" using h(6) [OF y] by blast
    define j2 where "j2 = (if y = x then i1 else j)"
    have "mc_items s2 y = Some j2" using j(1) by (simp add: its2 j2_def)
    from same_coreD(1) [OF core4 this] obtain l where l: "mc_items s4 y = Some l" "core l = core j2" by blast
    have "item_ok s4 (M(k := None)) (R(x := R x + 1)) y j2"
      using j iok xM cl by (auto simp: item_ok_def j2_def ran' i1_def)
    then show ?thesis using l item_ok_core [OF l(2)] by blast
  qed
  have lists: "(\<Union>d. set ((L(c := remove1 x (L c))) d)) = ran M - {x}"
  proof -
    have "distinct (L c)" using lru_member(4) [OF h(2) xL] by (simp add: lru_list_def)
    moreover have "x \<notin> set (L d)" if "d \<noteq> c" for d using lru_member(5) [OF h(2) xL, of d] that by blast
    ultimately show ?thesis using h(4) by (auto split: if_splits)
  qed
  have "cache_ok hash s4 (M(k := None)) (L(c := remove1 x (L c))) F (R(x := R x + 1))"
    unfolding cache_ok_def using a4 s4(2) sl4(1) lists ran' item cl(3) h(5) live by (auto split: if_splits)
  moreover have "do_item_unlink x (hash k) s = do_item_remove x s4"
    using i iok xM s3(1) s4(1) key
    by (auto simp: do_item_unlink_def item_ok_def upd_item_def returned_def s2_def s1_def i1_def)
  moreover have "\<exists>j. mc_items s4 x = Some j \<and> core j = core i1" using same_coreD(1) [OF core4, of x i1] by (simp add: its2)
  moreover have "map_option core (mc_items s4 y) = map_option core (mc_items s y)" if "y \<noteq> x" for y
    using core4 that by (simp add: same_core_def its2)
  ultimately show ?thesis using f4 more unfolding i1_def by (intro exI [of _ s4]) auto
qed

lemma do_item_unlink_ok:
  assumes ok: "cache_ok hash s M L F R" and k: "M k = Some x" and i: "mc_items s x = Some i" and c: "c = unat (slabs_clsid i)"
  shows "\<exists>s'. do_item_unlink x (hash k) s = Some s' \<and> cache_ok hash s' (M(k := None)) (L(c := remove1 x (L c)))
      (if R x = 0 then F(ITEM_clsid i := x # F (ITEM_clsid i)) else F) R \<and>
    (\<forall>y. y \<notin> insert x (free_chunks_of F) \<longrightarrow> map_option core (mc_items s' y) = map_option core (mc_items s y)) \<and>
    settings s' = settings s \<and> current_time s' = current_time s \<and> itemstats s' = itemstats s \<and> threads s' = threads s"
proof -
  from unlink_core [OF assms] obtain s1 j where s1: "do_item_unlink x (hash k) s = do_item_remove x s1"
    "cache_ok hash s1 (M(k := None)) (L(c := remove1 x (L c))) F (R(x := R x + 1))" "mc_items s1 x = Some j"
    "core j = core (clear_flag ITEM_LINKED i)" "\<forall>y. y \<noteq> x \<longrightarrow> map_option core (mc_items s1 y) = map_option core (mc_items s y)"
    "settings s1 = settings s" "current_time s1 = current_time s" "itemstats s1 = itemstats s" "threads s1 = threads s" by blast
  from do_item_remove_ok [OF s1(2), of x] obtain s2 where s2: "do_item_remove x s1 = Some s2"
    "cache_ok hash s2 (M(k := None)) (L(c := remove1 x (L c))) (release s1 (M(k := None)) (R(x := R x + 1)) x F) R"
    "\<forall>y. y \<notin> insert x (free_chunks_of F) \<longrightarrow> mc_items s2 y = mc_items s1 y"
    "settings s2 = settings s1" "current_time s2 = current_time s1" "itemstats s2 = itemstats s1" "threads s2 = threads s1" by auto
  have "x \<notin> ran (M(k := None))" using ran_delete [OF cache_okD(1) [OF ok] k] by simp
  moreover have "ITEM_clsid j = ITEM_clsid i" using core_eqD(7) [OF s1(4)] by (simp add: ITEM_clsid_def)
  ultimately have "release s1 (M(k := None)) (R(x := R x + 1)) x F =
      (if R x = 0 then F(ITEM_clsid i := x # F (ITEM_clsid i)) else F)" using s1(3) by (simp add: release_def Let_def)
  then show ?thesis using s1 s2 by auto
qed

lemma do_item_unlink_nothing: "mc_items s x = Some i \<Longrightarrow> \<not> has ITEM_LINKED i \<Longrightarrow> do_item_unlink x hv s = Some s"
  by (simp add: do_item_unlink_def)

section \<open>Linking\<close>

definition linked_item :: "u32 \<Rightarrow> u64 \<Rightarrow> item \<Rightarrow> item" where
  "linked_item now cas i = ITEM_set_cas cas ((set_flag ITEM_LINKED i)\<lparr>it_time := now\<rparr>)"

lemma linked_item_simps [simp]:
  "it_key (linked_item now cas i) = it_key i" "slabs_clsid (linked_item now cas i) = slabs_clsid i"
  "it_refcount (linked_item now cas i) = it_refcount i" "ITEM_clsid (linked_item now cas i) = ITEM_clsid i"
  "has ITEM_SLABBED (linked_item now cas i) = has ITEM_SLABBED i" "has ITEM_CHUNKED (linked_item now cas i) = has ITEM_CHUNKED i"
  "has ITEM_LINKED (linked_item now cas i)"
  by (auto simp: linked_item_def ITEM_set_cas_def)

lemma do_item_link_ok:
  assumes ok: "cache_ok hash s M L F R" and x: "0 < R x" "R x < 65535" "x \<notin> ran M" and i: "mc_items s x = Some i"
    and k: "k = it_key i" "M k = None" and c: "c = unat (slabs_clsid i)"
  shows "\<exists>s' cas. do_item_link x (hash k) s = Some (1, s') \<and> cache_ok hash s' (M(k \<mapsto> x)) (L(c := x # L c)) F R \<and>
    (\<exists>j. mc_items s' x = Some j \<and> core j = core ((linked_item (current_time s) cas i)\<lparr>it_refcount := it_refcount i + 1\<rparr>)) \<and>
    (\<forall>y. y \<noteq> x \<longrightarrow> map_option core (mc_items s' y) = map_option core (mc_items s y)) \<and>
    settings s' = settings s \<and> current_time s' = current_time s \<and> itemstats s' = itemstats s \<and> threads s' = threads s"
proof -
  note h = cache_okD [OF ok]
  obtain i' where i': "mc_items s x = Some i'" "item_ok s M R x i'" and live: "x \<in> chunks s - free_chunks_of F" and x0: "x \<noteq> 0"
    using held_item [OF ok disjI1 [OF x(1)]] by blast
  have iok: "item_ok s M R x i" using i' i by simp
  define cas where "cas = (if use_cas (settings s) then cas_id s + 1 else 0)"
  define i1 where "i1 = linked_item (current_time s) cas i"
  define s1 where "s1 = s\<lparr>curr_bytes := curr_bytes s + ITEM_ntotal (settings s) i, curr_items := curr_items s + 1,
    total_items := total_items s + 1, cas_id := (if use_cas (settings s) then cas_id s + 1 else cas_id s), mc_items := (mc_items s)(x \<mapsto> i1)\<rparr>"
  have xL: "x \<notin> set (L d)" for d using x(3) h(4) by auto
  have xF: "x \<notin> set (F d)" for d using live by (auto simp: free_chunks_of_def)
  have a1: "assoc_holds hash s1 M" by (rule assoc_holds_frame [OF h(1)]) (use x(3) in \<open>auto simp: s1_def\<close>)
  have "mc_items s1 x = Some i1" "\<forall>k. M k \<noteq> Some x" "M (it_key i1) = None" using x(3) k by (auto simp: s1_def i1_def ran_def)
  from assoc_insert_holds [OF a1 this(1) x0 this(2,3)] obtain s2 where s2: "assoc_insert x (hash k) s1 = Inr (1, s2)"
    "assoc_holds hash s2 (M(k \<mapsto> x))"
    "\<forall>y. map_option (h_next_update (\<lambda>_. 0)) (mc_items s2 y) = map_option (h_next_update (\<lambda>_. 0)) (mc_items s1 y)"
    by (auto simp: i1_def k)
  have more: "settings s2 = settings s \<and> current_time s2 = current_time s \<and> slabclass s2 = slabclass s \<and> power_largest s2 = power_largest s \<and>
    mem_base s2 = mem_base s \<and> mallocs s2 = mallocs s \<and> heads s2 = heads s \<and> tails s2 = tails s \<and> sizes s2 = sizes s \<and>
    sizes_bytes s2 = sizes_bytes s \<and> itemstats s2 = itemstats s \<and> threads s2 = threads s"
    using assoc_more_fields [OF assoc_insert_more [OF s2(1)]] by (simp add: s1_def)
  have its2: "\<exists>p. mc_items s2 y = Some ((if y = x then i1 else j)\<lparr>h_next := p\<rparr>)" if "mc_items s y = Some j" for y j
    using h_next_only [OF s2(3), of y] that i by (simp add: s1_def)
  have l2: "lru_ok s2 L" by (rule lru_ok_frame [OF h(2)]) (use more its2 xL in \<open>fastforce split: if_splits\<close>)+
  have sl2: "slabs_ok s2 F" "chunks s2 = chunks s" "classes s2 = classes s"
    by (rule slabs_ok_frame [OF h(3)]; use more its2 xF in fastforce)+
  from its2 [OF i] obtain p where i2: "mc_items s2 x = Some (i1\<lparr>h_next := p\<rparr>)" by auto
  have "\<not> has ITEM_SLABBED (i1\<lparr>h_next := p\<rparr>)" "c = unat (slabs_clsid (i1\<lparr>h_next := p\<rparr>))"
    using iok c by (simp_all add: i1_def item_ok_def)
  from do_item_link_q_ok [OF l2 i2 x0 xL this] obtain s3 where s3: "do_item_link_q x s2 = Some s3" "lru_ok s3 (L(c := x # L c))"
    "links_only (insert x (set (L c))) s2 s3" by blast
  note f3 = links_only_fields [OF s3(3)]
  have same: "same_items (mc_items s2) (mc_items s3)" using s3(3) by (simp add: links_only_def)
  from same_itemsD(1) [OF same i2] obtain i3 where i3: "mc_items s3 x = Some i3" "strip i3 = strip (i1\<lparr>h_next := p\<rparr>)" by blast
  define s4 where "s4 = s3\<lparr>mc_items := (mc_items s3)(x \<mapsto> i3\<lparr>it_refcount := it_refcount i3 + 1\<rparr>)\<rparr>"
  define s5 where "s5 = item_stats_sizes_add (i3\<lparr>it_refcount := it_refcount i3 + 1\<rparr>) s4"
  have s5: "s5 = s4\<lparr>stats_sizes_hist := stats_sizes_hist s5\<rparr>"
    unfolding s5_def item_stats_sizes_add_def by (rule item_stats_sizes_change_eq)
  have its5: "mc_items s5 = (mc_items s3)(x \<mapsto> i3\<lparr>it_refcount := it_refcount i3 + 1\<rparr>)" by (subst s5) (simp add: s4_def)
  have a5: "assoc_holds hash s5 (M(k \<mapsto> x))"
  proof (rule assoc_holds_frame [OF s2(2)])
    fix y j assume "mc_items s2 y = Some j"
    from same_itemsD(1) [OF same this] obtain l where "mc_items s3 y = Some l" "strip l = strip j" by blast
    then show "\<exists>l. mc_items s5 y = Some l \<and> h_next l = h_next j \<and> it_key l = it_key j"
      using strip_eqD [of l j] i3(1) by (auto simp: its5)
  qed (subst s5, use f3 in \<open>simp add: s4_def\<close>)+
  have l5: "lru_ok s5 (L(c := x # L c))"
    by (rule lru_ok_frame [OF s3(2)]; (subst s5)?) (use i3 in \<open>auto simp: its5 s4_def\<close>)
  have sl5: "slabs_ok s5 F" "chunks s5 = chunks s2" "classes s5 = classes s2"
  proof -
    have out: "mc_items s5 y = mc_items s2 y" if "y \<in> set (F d)" for y d
    proof -
      have "y \<notin> ran M" "y \<noteq> x" using that h(5) [of y] xF by (auto simp: free_chunks_of_def)
      then have "y \<notin> insert x (set (L c))" using h(4) by auto
      then show ?thesis using s3(3) by (simp add: links_only_def its5)
    qed
    show "slabs_ok s5 F" "chunks s5 = chunks s2" "classes s5 = classes s2"
      by (rule slabs_ok_frame [OF sl2(1)]; ((subst s5)?, use f3 out same_itemsD(3) [OF same] its5 in \<open>auto simp: s4_def split: if_splits\<close>))+
  qed
  have ran': "ran (M(k \<mapsto> x)) = insert x (ran M)" using k(2) by simp
  have cl: "slabclass s5 = slabclass s" "classes s5 = classes s" "chunks s5 = chunks s"
    using more f3 sl2 sl5 by (simp_all, subst s5, simp add: s4_def)
  have core3: "same_core (mc_items s1) (mc_items s3)"
    by (rule same_core_trans [OF h_next_core [OF s2(3)] same_items_core [OF same]])
  have core_i3: "core i3 = core i1" using same_coreD(1) [OF core3, of x i1] i3(1) by (simp add: s1_def)
  have rc: "unat (it_refcount i3 + 1) = R x + 1"
  proof -
    have "it_refcount i3 = it_refcount i" using core_eqD(4) [OF core_i3] by (simp add: i1_def)
    moreover have "unat (it_refcount i) = R x" using iok x(3) by (simp add: item_ok_def)
    ultimately show ?thesis using x(2) by (simp add: unat_incr)
  qed
  have item: "\<exists>j. mc_items s5 y = Some j \<and> item_ok s5 (M(k \<mapsto> x)) R y j" if y: "y \<in> chunks s - free_chunks_of F" for y
  proof (cases "y = x")
    case True
    have "item_ok s5 (M(k \<mapsto> x)) R x (i1\<lparr>it_refcount := it_refcount i3 + 1\<rparr>)"
      using iok cl rc ran' by (simp add: item_ok_def i1_def)
    moreover have "core (i3\<lparr>it_refcount := it_refcount i3 + 1\<rparr>) = core (i1\<lparr>it_refcount := it_refcount i3 + 1\<rparr>)"
      using core_i3 by (cases i3; cases i1) (simp add: core_def)
    ultimately show ?thesis using True item_ok_core by (simp add: its5) blast
  next
    case False
    obtain j where j: "mc_items s y = Some j" "item_ok s M R y j" using h(6) [OF y] by blast
    then have "mc_items s1 y = Some j" using False by (simp add: s1_def)
    from same_coreD(1) [OF core3 this] obtain l where l: "mc_items s5 y = Some l" "core l = core j" using False by (auto simp: its5)
    have "item_ok s5 (M(k \<mapsto> x)) R y j" using j(2) False unfolding item_ok_def cl ran' by auto
    then show ?thesis using l item_ok_core [OF l(2)] by blast
  qed
  have "(\<Union>d. set ((L(c := x # L c)) d)) = insert x (ran M)" using h(4) by (auto split: if_splits)
  then have "cache_ok hash s5 (M(k \<mapsto> x)) (L(c := x # L c)) F R"
    unfolding cache_ok_def using a5 l5 sl5(1) ran' item cl(3) h(5) live by auto
  moreover have "it_flags i AND (ITEM_LINKED OR ITEM_SLABBED) = 0"
    using iok x(3) by (simp add: item_ok_def has_def bit.conj_disj_distrib)
  then have "do_item_link x (hash k) s = Some (1, s5)"
    using i s2(1) s3(1) i3(1) k(1)
    by (auto simp: do_item_link_def upd_item_def get_cas_id_def Let_def refcount_incr_def s5_def s4_def s1_def i1_def linked_item_def cas_def)
  moreover have "\<exists>j. mc_items s5 x = Some j \<and> core j = core (i1\<lparr>it_refcount := it_refcount i + 1\<rparr>)"
    using core_i3 core_eqD(4) [OF core_i3] by (cases i3; cases i1) (simp add: its5 core_def i1_def)
  moreover have "map_option core (mc_items s5 y) = map_option core (mc_items s y)" if "y \<noteq> x" for y
    using core3 that by (simp add: same_core_def its5 s1_def)
  moreover have "settings s5 = settings s" "current_time s5 = current_time s" "itemstats s5 = itemstats s" "threads s5 = threads s"
    using f3 more by (subst s5, simp add: s4_def)+
  ultimately show ?thesis unfolding i1_def by (intro exI [of _ s5] exI [of _ cas]) auto
qed

end
