(* ===== verification/MC_Cache_Ops.thy ===== *)
theory MC_Cache_Ops
  imports MC_Cache
begin

text \<open>
  Lookups, updates and maintenance of the DRAM cache under the invariant: an item moves between
  LRU lists, a lookup takes a reference or drops an item that is no longer valid, and the tail of
  a list is evicted.
\<close>

section \<open>Fields that do not matter\<close>

lemma cache_ok_other:
  assumes ok: "cache_ok hash s M L F R"
    and eqs: "mc_items s' = mc_items s" "hashpower s' = hashpower s" "primary_hashtable s' = primary_hashtable s"
      "old_hashtable s' = old_hashtable s" "expanding s' = expanding s" "expand_bucket s' = expand_bucket s"
      "hash_items s' = hash_items s" "heads s' = heads s" "tails s' = tails s" "sizes s' = sizes s" "sizes_bytes s' = sizes_bytes s"
      "settings s' = settings s" "slabclass s' = slabclass s" "power_largest s' = power_largest s" "mem_base s' = mem_base s"
      "mallocs s' = mallocs s"
  shows "cache_ok hash s' M L F R"
proof -
  note h = cache_okD [OF ok]
  have "assoc_holds hash s' M" by (rule assoc_holds_frame [OF h(1)]) (use eqs in auto)
  moreover have "lru_ok s' L" by (rule lru_ok_frame [OF h(2)]) (use eqs in auto)
  moreover have "slabs_ok s' F" "chunks s' = chunks s" "classes s' = classes s"
    by (rule slabs_ok_frame [OF h(3)]; use eqs in auto)+
  ultimately show ?thesis using h(4-6) unfolding cache_ok_def item_ok_def by (simp add: eqs)
qed

lemma cache_ok_stats: "cache_ok hash s M L F R \<Longrightarrow> cache_ok hash (upd_stats c f s) M L F R"
  by (erule cache_ok_other) (simp_all add: upd_stats_def)

lemma cache_ok_thread: "cache_ok hash s M L F R \<Longrightarrow> cache_ok hash (upd_thread c f s) M L F R"
  by (erule cache_ok_other) (simp_all add: upd_thread_def split: option.split)

section \<open>From list to list\<close>

lemma item_ok_cong: "slabclass s' = slabclass s \<Longrightarrow> classes s' = classes s \<Longrightarrow> item_ok s' M R y j = item_ok s M R y j"
  by (simp add: item_ok_def)

text \<open>Changes of links leave the table, the free lists and the items alone.\<close>

lemma links_only_frame:
  assumes links: "links_only X s s'" and h: "assoc_holds hash s M" "slabs_ok s F" and X: "\<And>d. X \<inter> set (F d) = {}"
  shows "assoc_holds hash s' M" "slabs_ok s' F" "chunks s' = chunks s"
    "\<And>y. \<exists>i. mc_items s y = Some i \<and> item_ok s M R y i \<Longrightarrow> \<exists>i. mc_items s' y = Some i \<and> item_ok s' M R y i"
    "same_items (mc_items s) (mc_items s')"
proof -
  note f = links_only_fields [OF links]
  show same: "same_items (mc_items s) (mc_items s')" using links by (simp add: links_only_def)
  show "assoc_holds hash s' M"
  proof (rule assoc_holds_frame [OF h(1)])
    fix y j assume "mc_items s y = Some j"
    from same_itemsD(1) [OF same this] obtain l where "mc_items s' y = Some l" "strip l = strip j" by blast
    then show "\<exists>l. mc_items s' y = Some l \<and> h_next l = h_next j \<and> it_key l = it_key j" using strip_eqD [of l j] by auto
  qed (use f in simp_all)
  have out: "mc_items s' y = mc_items s y" if "y \<in> set (F d)" for y d
    using that X [of d] links by (auto simp: links_only_def)
  show sl: "slabs_ok s' F" "chunks s' = chunks s"
    by (rule slabs_ok_frame [OF h(2)]; use f out same_itemsD(3) [OF same] in auto)+
  have cl: "classes s' = classes s" using f by (simp add: classes_def)
  fix y assume "\<exists>i. mc_items s y = Some i \<and> item_ok s M R y i"
  then obtain j where j: "mc_items s y = Some j" "item_ok s M R y j" by blast
  from same_itemsD(1) [OF same j(1)] obtain l where l: "mc_items s' y = Some l" "strip l = strip j" by blast
  have "item_ok s' M R y j" using j(2) item_ok_cong [of s' s] f cl by simp
  then show "\<exists>i. mc_items s' y = Some i \<and> item_ok s' M R y i" using l(1) item_ok_core [OF strip_core [OF l(2)]] by blast
qed

text \<open>An item \<open>x\<close> of the table that is in no list.\<close>

definition cache_out :: "(bytes \<Rightarrow> u32) \<Rightarrow> 'a cache_scheme \<Rightarrow> (bytes \<rightharpoonup> addr) \<Rightarrow> (nat \<Rightarrow> addr list) \<Rightarrow> (nat \<Rightarrow> addr list) \<Rightarrow>
    (addr \<Rightarrow> nat) \<Rightarrow> addr \<Rightarrow> bool" where
  "cache_out hash s M L F R x \<longleftrightarrow> assoc_holds hash s M \<and> lru_ok s L \<and> slabs_ok s F \<and> ran M = insert x (\<Union>c. set (L c)) \<and>
     (\<forall>c. x \<notin> set (L c)) \<and> (\<forall>y. 0 < R y \<or> y \<in> ran M \<longrightarrow> y \<in> chunks s - free_chunks_of F) \<and>
     (\<forall>y \<in> chunks s - free_chunks_of F. \<exists>i. mc_items s y = Some i \<and> item_ok s M R y i)"

lemma linked_class:
  assumes ok: "cache_ok hash s M L F R" and x: "x \<in> ran M" "mc_items s x = Some i"
  shows "x \<in> set (L (unat (slabs_clsid i)))"
proof -
  note h = cache_okD [OF ok]
  from x(1) h(4) obtain d where "x \<in> set (L d)" by auto
  with lru_member(3) [OF h(2) this] x(2) show ?thesis by auto
qed

lemma unlink_q_out:
  assumes ok: "cache_ok hash s M L F R" and x: "x \<in> ran M" "mc_items s x = Some i" and c: "c = unat (slabs_clsid i)"
  shows "\<exists>s'. do_item_unlink_q x s = Some s' \<and> cache_out hash s' M (L(c := remove1 x (L c))) F R x \<and>
    same_items (mc_items s) (mc_items s') \<and> settings s' = settings s \<and> current_time s' = current_time s \<and>
    itemstats s' = itemstats s \<and> threads s' = threads s"
proof -
  note h = cache_okD [OF ok]
  have xL: "x \<in> set (L c)" unfolding c by (rule linked_class [OF ok x])
  from do_item_unlink_q_ok [OF h(2) xL] obtain s' where s': "do_item_unlink_q x s = Some s'" "lru_ok s' (L(c := remove1 x (L c)))"
    "links_only (set (L c) - {x}) s s'" by blast
  note f = links_only_fields [OF s'(3)]
  have X: "(set (L c) - {x}) \<inter> set (F d) = {}" for d
  proof -
    have "y \<notin> set (F d)" if "y \<in> set (L c)" for y using that h(4) h(5) [of y] by (auto simp: free_chunks_of_def)
    then show ?thesis by blast
  qed
  note fr = links_only_frame [OF s'(3) h(1,3) X]
  have "distinct (L c)" using lru_member(4) [OF h(2) xL] by (simp add: lru_list_def)
  moreover have "x \<notin> set (L d)" if "d \<noteq> c" for d using lru_member(5) [OF h(2) xL, of d] that by blast
  ultimately have "ran M = insert x (\<Union>d. set ((L(c := remove1 x (L c))) d))" "\<forall>d. x \<notin> set ((L(c := remove1 x (L c))) d)"
    using h(4) x(1) by (auto split: if_splits)
  then have "cache_out hash s' M (L(c := remove1 x (L c))) F R x"
    using fr(1,2,3,4) s'(2) h(5,6) unfolding cache_out_def by auto
  then show ?thesis using s'(1) fr(5) f by auto
qed

lemma link_q_in:
  assumes ok: "cache_out hash s M L F R x" and x: "mc_items s x = Some i" and c: "c = unat (slabs_clsid i)"
  shows "\<exists>s'. do_item_link_q x s = Some s' \<and> cache_ok hash s' M (L(c := x # L c)) F R \<and>
    same_items (mc_items s) (mc_items s') \<and> settings s' = settings s \<and> current_time s' = current_time s \<and>
    itemstats s' = itemstats s \<and> threads s' = threads s"
proof -
  have h: "assoc_holds hash s M" "lru_ok s L" "slabs_ok s F" "ran M = insert x (\<Union>c. set (L c))" "\<And>d. x \<notin> set (L d)"
    "\<And>y. 0 < R y \<or> y \<in> ran M \<Longrightarrow> y \<in> chunks s - free_chunks_of F"
    "\<And>y. y \<in> chunks s - free_chunks_of F \<Longrightarrow> \<exists>i. mc_items s y = Some i \<and> item_ok s M R y i"
    using ok unfolding cache_out_def by blast+
  have live: "x \<in> chunks s - free_chunks_of F" using h(6) [of x] h(4) by blast
  have iok: "item_ok s M R x i" using h(7) [OF live] x by auto
  have x0: "x \<noteq> 0"
  proof -
    have "ITEM_clsid i \<in> classes s" "x \<in> class_chunks (slabclass s ! ITEM_clsid i)" using iok by (simp_all add: item_ok_def)
    then show ?thesis by (rule chunk_nonzero [OF h(3)])
  qed
  have "\<not> has ITEM_SLABBED i" using iok by (simp add: item_ok_def)
  from do_item_link_q_ok [OF h(2) x x0 h(5) this c] obtain s' where s': "do_item_link_q x s = Some s'" "lru_ok s' (L(c := x # L c))"
    "links_only (insert x (set (L c))) s s'" by blast
  note f = links_only_fields [OF s'(3)]
  have X: "insert x (set (L c)) \<inter> set (F d) = {}" for d
  proof -
    have "y \<notin> set (F d)" if "y \<in> insert x (set (L c))" for y using that h(4) h(6) [of y] by (auto simp: free_chunks_of_def)
    then show ?thesis by blast
  qed
  note fr = links_only_frame [OF s'(3) h(1,3) X]
  have "ran M = (\<Union>d. set ((L(c := x # L c)) d))" using h(4) by (auto split: if_splits)
  then have "cache_ok hash s' M (L(c := x # L c)) F R" using fr(1,2,3,4) s'(2) h(6,7) unfolding cache_ok_def by auto
  then show ?thesis using s'(1) fr(5) f by auto
qed

lemma cache_out_upd:
  assumes ok: "cache_out hash s M L F R x" and x: "mc_items s x = Some i"
    and keep: "h_next (f i) = h_next i" "it_key (f i) = it_key i" and new: "item_ok s M R x (f i)"
  shows "cache_out hash (s\<lparr>mc_items := (mc_items s)(x \<mapsto> f i)\<rparr>) M L F R x"
proof -
  let ?s = "s\<lparr>mc_items := (mc_items s)(x \<mapsto> f i)\<rparr>"
  have h: "assoc_holds hash s M" "lru_ok s L" "slabs_ok s F" "ran M = insert x (\<Union>c. set (L c))" "\<And>d. x \<notin> set (L d)"
    "\<And>y. 0 < R y \<or> y \<in> ran M \<Longrightarrow> y \<in> chunks s - free_chunks_of F"
    "\<And>y. y \<in> chunks s - free_chunks_of F \<Longrightarrow> \<exists>i. mc_items s y = Some i \<and> item_ok s M R y i"
    using ok unfolding cache_out_def by blast+
  have xF: "x \<notin> set (F d)" for d using h(6) [of x] h(4) by (auto simp: free_chunks_of_def)
  have "assoc_holds hash ?s M" by (rule assoc_holds_frame [OF h(1)]) (use keep x in auto)
  moreover have "lru_ok ?s L" by (rule lru_ok_frame [OF h(2)]) (use h(5) in auto)
  moreover have "slabs_ok ?s F" by (rule slabs_ok_frame(1) [OF h(3)]) (use xF in auto)
  moreover have "\<exists>j. mc_items ?s y = Some j \<and> item_ok s M R y j" if "y \<in> chunks s - free_chunks_of F" for y
    using h(7) [OF that] new by (cases "y = x") auto
  ultimately show ?thesis using h(4-6) unfolding cache_out_def by auto
qed

text \<open>What a client sees of an item.\<close>

definition payload :: "item \<Rightarrow> item" where
  "payload i = i\<lparr>it_next := 0, it_prev := 0, h_next := 0, it_time := 0, it_refcount := 0, it_flags := 0, slabs_clsid := 0\<rparr>"

definition same_payload :: "addr set \<Rightarrow> (addr \<Rightarrow> item option) \<Rightarrow> (addr \<Rightarrow> item option) \<Rightarrow> bool" where
  "same_payload X its its' \<longleftrightarrow> (\<forall>y. y \<notin> X \<longrightarrow> map_option payload (its' y) = map_option payload (its y))"

lemma payload_simps [simp]:
  "payload (i\<lparr>it_time := t\<rparr>) = payload i" "payload (i\<lparr>it_refcount := n\<rparr>) = payload i" "payload (i\<lparr>slabs_clsid := b\<rparr>) = payload i"
  "payload (set_flag f i) = payload i" "payload (clear_flag f i) = payload i" "payload (i\<lparr>h_next := p\<rparr>) = payload i"
  by (simp_all add: payload_def set_flag_def clear_flag_def)

lemma core_payload: "core i = core j \<Longrightarrow> payload i = payload j"
  by (cases i; cases j) (simp add: core_def payload_def)

lemma same_core_payload: "\<forall>y. y \<notin> X \<longrightarrow> map_option core (its' y) = map_option core (its y) \<Longrightarrow> same_payload X its its'"
  unfolding same_payload_def
proof (intro allI impI)
  fix y assume *: "\<forall>y. y \<notin> X \<longrightarrow> map_option core (its' y) = map_option core (its y)" and "y \<notin> X"
  then have "map_option core (its' y) = map_option core (its y)" by blast
  then show "map_option payload (its' y) = map_option payload (its y)"
    by (cases "its y"; cases "its' y") (auto intro: core_payload)
qed

lemma same_items_payload: "same_items its its' \<Longrightarrow> same_payload X its its'"
  using same_items_core by (intro same_core_payload) (auto simp: same_core_def)

lemma same_payload_refl [simp]: "same_payload X its its"
  by (simp add: same_payload_def)

lemma same_payload_trans: "same_payload X a b \<Longrightarrow> same_payload Y b c \<Longrightarrow> X \<union> Y \<subseteq> Z \<Longrightarrow> same_payload Z a c"
  unfolding same_payload_def by (metis Un_iff in_mono)

lemma same_payload_upd: "its x = Some i \<Longrightarrow> payload (f i) = payload i \<Longrightarrow> same_payload X its (its(x \<mapsto> f i))"
  by (simp add: same_payload_def)

text \<open>
  What the operations below leave as it is: the payload of items outside of \<open>X\<close>, the settings and
  the time.
\<close>

definition quiet :: "addr set \<Rightarrow> 'a cache_scheme \<Rightarrow> 'a cache_scheme \<Rightarrow> bool" where
  "quiet X s s' \<longleftrightarrow> same_payload X (mc_items s) (mc_items s') \<and> settings s' = settings s \<and> current_time s' = current_time s"

lemma quiet_refl [simp]: "quiet X s s"
  by (simp add: quiet_def)

lemma quiet_trans: "quiet X s s' \<Longrightarrow> quiet Y s' s'' \<Longrightarrow> X \<union> Y \<subseteq> Z \<Longrightarrow> quiet Z s s''"
  unfolding quiet_def using same_payload_trans by metis

lemma quiet_trans0: "quiet X s s' \<Longrightarrow> quiet X s' s'' \<Longrightarrow> quiet X s s''"
  by (erule (1) quiet_trans) simp

lemma quiet_mono: "quiet X s s' \<Longrightarrow> X \<subseteq> Y \<Longrightarrow> quiet Y s s'"
  by (rule quiet_trans [OF _ quiet_refl [of Y]]) auto

lemma quiet_upd: "mc_items s x = Some i \<Longrightarrow> payload (f i) = payload i \<Longrightarrow> quiet X s (s\<lparr>mc_items := (mc_items s)(x \<mapsto> f i)\<rparr>)"
  by (simp add: quiet_def same_payload_upd)

lemma quiet_stats [simp]: "quiet X s (upd_stats c f s)" "quiet X s (upd_thread th g s)"
  by (auto simp: quiet_def upd_stats_def upd_thread_def split: option.split)

text \<open>An item is taken out of its list, changed, and put in front of a list.\<close>

lemma move_ok:
  assumes ok: "cache_ok hash s M L F R" and x: "x \<in> ran M" "mc_items s x = Some i"
    and g: "\<And>j. strip j = strip i \<Longrightarrow> h_next (g j) = h_next j \<and> it_key (g j) = it_key j \<and> payload (g j) = payload j \<and>
      item_ok s M R x (g j) \<and> slabs_clsid (g j) = slabs_clsid (g i)"
    and c: "c = unat (slabs_clsid i)" "d = unat (slabs_clsid (g i))"
  shows "\<exists>s1 j s3. do_item_unlink_q x s = Some s1 \<and> mc_items s1 x = Some j \<and> current_time s1 = current_time s \<and>
    do_item_link_q x (s1\<lparr>mc_items := (mc_items s1)(x \<mapsto> g j)\<rparr>) = Some s3 \<and>
    cache_ok hash s3 M ((L(c := remove1 x (L c)))(d := x # (L(c := remove1 x (L c))) d)) F R \<and> quiet {} s s3"
proof -
  from unlink_q_out [OF ok x c(1)] obtain s1 where s1: "do_item_unlink_q x s = Some s1"
    "cache_out hash s1 M (L(c := remove1 x (L c))) F R x" "same_items (mc_items s) (mc_items s1)" "settings s1 = settings s"
    "current_time s1 = current_time s" by blast
  from same_itemsD(1) [OF s1(3) x(2)] obtain j where j: "mc_items s1 x = Some j" "strip j = strip i" by blast
  note gj = g [OF j(2)]
  define s2 where "s2 = s1\<lparr>mc_items := (mc_items s1)(x \<mapsto> g j)\<rparr>"
  have "item_ok s1 M R x (g j)"
  proof -
    have "slabs_ok s1 F" "x \<in> ran M" using s1(2) x by (auto simp: cache_out_def)
    have "slabclass s1 = slabclass s" "classes s1 = classes s"
      using do_item_unlink_q_ok [OF cache_okD(2) [OF ok], of x c] linked_class [OF ok x] c(1) s1(1) links_only_fields(3,4)
      by (fastforce simp: classes_def)+
    then show ?thesis using gj item_ok_cong by blast
  qed
  then have s2: "cache_out hash s2 M (L(c := remove1 x (L c))) F R x"
    unfolding s2_def using cache_out_upd [OF s1(2) j(1), of g] gj by simp
  have "mc_items s2 x = Some (g j)" "d = unat (slabs_clsid (g j))" using gj c(2) by (simp_all add: s2_def)
  from link_q_in [OF s2 this] obtain s3 where s3: "do_item_link_q x s2 = Some s3"
    "cache_ok hash s3 M ((L(c := remove1 x (L c)))(d := x # (L(c := remove1 x (L c))) d)) F R"
    "same_items (mc_items s2) (mc_items s3)" "settings s3 = settings s2" "current_time s3 = current_time s2" by blast
  have "quiet {} s s1" using s1 by (simp add: quiet_def same_items_payload)
  moreover have "quiet {} s1 s2" unfolding s2_def using j(1) gj by (intro quiet_upd) simp_all
  moreover have "quiet {} s2 s3" using s3 by (simp add: quiet_def same_items_payload)
  ultimately have "quiet {} s s3" using quiet_trans0 by blast
  then show ?thesis using s1(1,5) j(1) s3(1,2) unfolding s2_def by blast
qed

section \<open>Updates\<close>

definition to_front :: "nat \<Rightarrow> nat \<Rightarrow> addr \<Rightarrow> (nat \<Rightarrow> addr list) \<Rightarrow> nat \<Rightarrow> addr list" where
  "to_front c d x L = (L(c := remove1 x (L c)))(d := x # (L(c := remove1 x (L c))) d)"

definition segment :: "item \<Rightarrow> nat \<Rightarrow> byte" where
  "segment i lru = of_nat (ITEM_clsid i) OR of_nat lru"

text \<open>The lists after \<open>do_item_update\<close>.\<close>

definition update_lists :: "'a cache_scheme \<Rightarrow> addr \<Rightarrow> item \<Rightarrow> (nat \<Rightarrow> addr list) \<Rightarrow> nat \<Rightarrow> addr list" where
  "update_lists s x i L =
     (let c = unat (slabs_clsid i)
      in if \<not> has ITEM_LINKED i then L
         else if lru_segmented (settings s)
         then if ITEM_lruid i = COLD_LRU \<and> has ITEM_ACTIVE i then to_front c (unat (segment i WARM_LRU)) x L else L
         else if it_time i < current_time s - ITEM_UPDATE_INTERVAL then to_front c c x L else L)"

lemma clsid_segment:
  assumes "lru = HOT_LRU \<or> lru = WARM_LRU \<or> lru = COLD_LRU \<or> lru = TEMP_LRU"
  shows "ITEM_clsid (j\<lparr>slabs_clsid := segment i lru\<rparr>) = ITEM_clsid i"
proof -
  have "(of_nat (ITEM_clsid i) :: byte) = slabs_clsid i AND 63" by (simp add: ITEM_clsid_def)
  then have "segment i lru AND 63 = slabs_clsid i AND 63"
    using assms by (auto simp: segment_def lru_defs bit.conj_disj_distrib2 and.assoc)
  then show ?thesis by (simp add: ITEM_clsid_def)
qed

lemma strip_more:
  "strip j = strip i \<Longrightarrow> ITEM_clsid j = ITEM_clsid i" "strip j = strip i \<Longrightarrow> has f j = has f i"
  using strip_eqD(7,8) [of j i] by (simp_all add: ITEM_clsid_def has_def)

lemma item_ok_same:
  assumes "item_ok s M R x i" "it_refcount j = it_refcount i" "ITEM_clsid j = ITEM_clsid i"
    "\<And>f. f \<in> {ITEM_SLABBED, ITEM_CHUNKED, ITEM_LINKED} \<Longrightarrow> has f j = has f i"
  shows "item_ok s M R x j"
  using assms(1) unfolding item_ok_def by (auto simp: assms(2-))

lemma item_ok_strip: "strip j = strip i \<Longrightarrow> item_ok s M R x j = item_ok s M R x i"
  by (rule item_ok_core, rule strip_core)

lemma time_ok:
  assumes ok: "cache_ok hash s M L F R" and x: "0 < R x \<or> x \<in> ran M" "mc_items s x = Some i"
  shows "upd_item x (\<lambda>i. i\<lparr>it_time := t\<rparr>) s = Some (s\<lparr>mc_items := (mc_items s)(x \<mapsto> i\<lparr>it_time := t\<rparr>)\<rparr>)"
    "cache_ok hash (s\<lparr>mc_items := (mc_items s)(x \<mapsto> i\<lparr>it_time := t\<rparr>)\<rparr>) M L F R"
    "quiet {} s (s\<lparr>mc_items := (mc_items s)(x \<mapsto> i\<lparr>it_time := t\<rparr>)\<rparr>)" "item_ok s M R x i"
proof -
  show iok: "item_ok s M R x i" using held_item(1) [OF ok x(1)] x(2) by auto
  have live: "x \<in> chunks s - free_chunks_of F" using held_item(2,3) [OF ok x(1)] by blast
  have "item_ok s M R x (i\<lparr>it_time := t\<rparr>)" using iok unfolding item_ok_def by auto
  from cache_ok_upd [OF ok x(2) live, where f = "\<lambda>i. i\<lparr>it_time := t\<rparr>" and R' = R] this
  show "upd_item x (\<lambda>i. i\<lparr>it_time := t\<rparr>) s = Some (s\<lparr>mc_items := (mc_items s)(x \<mapsto> i\<lparr>it_time := t\<rparr>)\<rparr>)"
    "cache_ok hash (s\<lparr>mc_items := (mc_items s)(x \<mapsto> i\<lparr>it_time := t\<rparr>)\<rparr>) M L F R" by simp_all
  show "quiet {} s (s\<lparr>mc_items := (mc_items s)(x \<mapsto> i\<lparr>it_time := t\<rparr>)\<rparr>)"
    using quiet_upd [OF x(2), of "\<lambda>i. i\<lparr>it_time := t\<rparr>"] by simp
qed

lemma do_item_update_ok:
  assumes ok: "cache_ok hash s M L F R" and x: "0 < R x \<or> x \<in> ran M" "mc_items s x = Some i"
  shows "\<exists>s'. do_item_update x s = Some s' \<and> cache_ok hash s' M (update_lists s x i L) F R \<and> quiet {} s s'"
proof -
  note tm = time_ok(1-3) [OF ok x, where t = "current_time s"] time_ok(4) [OF ok x]
  have iok: "\<not> has ITEM_SLABBED i" "has ITEM_LINKED i \<longleftrightarrow> x \<in> ran M" using tm(4) by (simp_all add: item_ok_def)
  let ?s = "s\<lparr>mc_items := (mc_items s)(x \<mapsto> i\<lparr>it_time := current_time s\<rparr>)\<rparr>"
  let ?i = "i\<lparr>it_time := current_time s\<rparr>"
  have xi: "mc_items ?s x = Some ?i" by simp
  have ok': "item_ok ?s M R x ?i" using tm(4) unfolding item_ok_def by auto
  show ?thesis
  proof (cases "has ITEM_LINKED i \<and> (if lru_segmented (settings s) then ITEM_lruid i = COLD_LRU \<and> has ITEM_ACTIVE i
      else it_time i < current_time s - ITEM_UPDATE_INTERVAL)")
    case False
    then have L: "update_lists s x i L = L" by (auto simp: update_lists_def Let_def)
    show ?thesis
    proof (cases "has ITEM_LINKED i \<and> lru_segmented (settings s) \<and> it_time i < current_time s - ITEM_UPDATE_INTERVAL")
      case True
      then have "do_item_update x s = Some ?s" using False x(2) iok tm(1) by (auto simp: do_item_update_def)
      then show ?thesis using tm(2,3) L by auto
    next
      case no: False
      then have "do_item_update x s = Some s" using False x(2) iok by (auto simp: do_item_update_def)
      then show ?thesis using ok L by auto
    qed
  next
    case True
    then have xM: "x \<in> ran M" using iok by blast
    show ?thesis
    proof (cases "lru_segmented (settings s)")
      case seg: True
      define g where "g = (\<lambda>j. (clear_flag ITEM_ACTIVE j)\<lparr>slabs_clsid := segment j WARM_LRU\<rparr>)"
      have gok: "h_next (g j) = h_next j \<and> it_key (g j) = it_key j \<and> payload (g j) = payload j \<and> item_ok ?s M R x (g j) \<and>
          slabs_clsid (g j) = slabs_clsid (g ?i)" if "strip j = strip ?i" for j
      proof -
        have "item_ok ?s M R x j" using ok' item_ok_strip [OF that, of ?s] by blast
        then have "item_ok ?s M R x (g j)"
          by (rule item_ok_same) (auto simp: g_def clsid_segment)
        then show ?thesis using strip_more(1) [OF that] by (simp add: g_def segment_def)
      qed
      from move_ok [OF tm(2) xM xi gok refl refl] obtain s1 j s3 where m: "do_item_unlink_q x ?s = Some s1" "mc_items s1 x = Some j"
        "do_item_link_q x (s1\<lparr>mc_items := (mc_items s1)(x \<mapsto> g j)\<rparr>) = Some s3"
        "cache_ok hash s3 M (to_front (unat (slabs_clsid ?i)) (unat (slabs_clsid (g ?i))) x L) F R" "quiet {} ?s s3"
        unfolding to_front_def by blast
      have "do_item_update x s = Some (upd_stats (unat (slabs_clsid (g j))) (\<lambda>t. t\<lparr>moves_to_warm := moves_to_warm t + 1\<rparr>) s3)"
        using True seg x(2) iok tm(1) m(1-3)
        by (simp add: do_item_update_def upd_item_def item_link_q_warm_def g_def segment_def)
      moreover have "update_lists s x i L = to_front (unat (slabs_clsid ?i)) (unat (slabs_clsid (g ?i))) x L"
        using True seg by (simp add: update_lists_def g_def segment_def ITEM_clsid_def)
      ultimately show ?thesis
        using cache_ok_stats [OF m(4)] quiet_trans0 [OF tm(3) quiet_trans0 [OF m(5) quiet_stats(1)]] by auto
    next
      case flat: False
      have "h_next (id j) = h_next j \<and> it_key (id j) = it_key j \<and> payload (id j) = payload j \<and> item_ok ?s M R x (id j) \<and>
          slabs_clsid (id j) = slabs_clsid (id ?i)" if "strip j = strip ?i" for j
        using ok' item_ok_strip [OF that, of ?s] strip_eqD(8) [OF that] by auto
      from move_ok [OF tm(2) xM xi this refl refl] obtain s1 j s3 where m: "do_item_unlink_q x ?s = Some s1" "mc_items s1 x = Some j"
        "do_item_link_q x (s1\<lparr>mc_items := (mc_items s1)(x \<mapsto> id j)\<rparr>) = Some s3"
        "cache_ok hash s3 M (to_front (unat (slabs_clsid ?i)) (unat (slabs_clsid (id ?i))) x L) F R" "quiet {} ?s s3"
        unfolding to_front_def by blast
      have "s1\<lparr>mc_items := (mc_items s1)(x \<mapsto> id j)\<rparr> = s1" using m(2) by (simp add: fun_upd_idem)
      then have "do_item_update x s = Some s3" using True flat x(2) iok tm(1) m(1,3) by (simp add: do_item_update_def)
      moreover have "update_lists s x i L = to_front (unat (slabs_clsid ?i)) (unat (slabs_clsid (id ?i))) x L"
        using True flat by (simp add: update_lists_def Let_def)
      ultimately show ?thesis using m(4) quiet_trans0 [OF tm(3) m(5)] by auto
    qed
  qed
qed

lemma do_item_update_nolock_ok:
  assumes ok: "cache_ok hash s M L F R" and x: "0 < R x \<or> x \<in> ran M" "mc_items s x = Some i"
  shows "\<exists>s'. do_item_update_nolock x s = Some s' \<and> quiet {} s s' \<and> cache_ok hash s' M
    (if has ITEM_LINKED i \<and> it_time i < current_time s - ITEM_UPDATE_INTERVAL
     then to_front (unat (slabs_clsid i)) (unat (slabs_clsid i)) x L else L) F R"
proof -
  note tm = time_ok(1-3) [OF ok x, where t = "current_time s"] time_ok(4) [OF ok x]
  have iok: "\<not> has ITEM_SLABBED i" "has ITEM_LINKED i \<longleftrightarrow> x \<in> ran M" using tm(4) by (simp_all add: item_ok_def)
  show ?thesis
  proof (cases "has ITEM_LINKED i \<and> it_time i < current_time s - ITEM_UPDATE_INTERVAL")
    case False
    then have "do_item_update_nolock x s = Some s" using x(2) iok by (auto simp: do_item_update_nolock_def)
    then show ?thesis using ok False by auto
  next
    case True
    then have xM: "x \<in> ran M" using iok by blast
    define g :: "item \<Rightarrow> item" where "g = (\<lambda>j. j\<lparr>it_time := current_time s\<rparr>)"
    have "h_next (g j) = h_next j \<and> it_key (g j) = it_key j \<and> payload (g j) = payload j \<and> item_ok s M R x (g j) \<and>
        slabs_clsid (g j) = slabs_clsid (g i)" if "strip j = strip i" for j
      using tm(4) item_ok_strip [OF that, of s M R x] strip_eqD(8) [OF that] unfolding g_def item_ok_def by auto
    from move_ok [OF ok xM x(2) this refl refl] obtain s1 j s3 where m: "do_item_unlink_q x s = Some s1" "mc_items s1 x = Some j"
      "do_item_link_q x (s1\<lparr>mc_items := (mc_items s1)(x \<mapsto> g j)\<rparr>) = Some s3" "current_time s1 = current_time s"
      "cache_ok hash s3 M (to_front (unat (slabs_clsid i)) (unat (slabs_clsid (g i))) x L) F R" "quiet {} s s3"
      unfolding to_front_def by blast
    have "do_item_update_nolock x s = Some s3"
      using True x(2) iok m(1-4) by (simp add: do_item_update_nolock_def upd_item_def g_def)
    then show ?thesis using m(5,6) True by (auto simp: g_def)
  qed
qed

section \<open>Lookups\<close>

text \<open>Changes of the markers of a fetch, and of the expiry time.\<close>

definition marks :: "(item \<Rightarrow> item) \<Rightarrow> bool" where
  "marks f \<longleftrightarrow> f \<in> {set_flag ITEM_FETCHED, set_flag ITEM_ACTIVE, clear_flag ITEM_ACTIVE} \<or> (\<exists>t. f = it_exptime_update (\<lambda>_. t))"

lemma marks_simps [simp]: "marks (set_flag ITEM_FETCHED)" "marks (set_flag ITEM_ACTIVE)" "marks (clear_flag ITEM_ACTIVE)"
  "marks (it_exptime_update (\<lambda>_. t))"
  by (auto simp: marks_def)

lemma more_flags [simp]:
  "g \<in> {ITEM_FETCHED, ITEM_ACTIVE} \<Longrightarrow> f \<in> {ITEM_SLABBED, ITEM_CHUNKED, ITEM_LINKED, ITEM_CAS} \<Longrightarrow> has f (set_flag g i) = has f i"
  by (auto simp: has_set_flag item_flag_defs)

lemma mark_ok:
  assumes ok: "cache_ok hash s M L F R" and x: "0 < R x \<or> x \<in> ran M" "mc_items s x = Some i" and f: "marks f"
  shows "upd_item x f s = Some (s\<lparr>mc_items := (mc_items s)(x \<mapsto> f i)\<rparr>)"
    "cache_ok hash (s\<lparr>mc_items := (mc_items s)(x \<mapsto> f i)\<rparr>) M L F R"
proof -
  have iok: "item_ok s M R x i" using held_item(1) [OF ok x(1)] x(2) by auto
  have live: "x \<in> chunks s - free_chunks_of F" using held_item(2,3) [OF ok x(1)] by blast
  have "item_ok s M R x (f i)" by (rule item_ok_same [OF iok]) (use f in \<open>auto simp: marks_def\<close>)
  moreover have "it_next (f i) = it_next i \<and> it_prev (f i) = it_prev i \<and> h_next (f i) = h_next i \<and>
      it_key (f i) = it_key i \<and> slabs_clsid (f i) = slabs_clsid i \<and> ITEM_ntotal (settings s) (f i) = ITEM_ntotal (settings s) i"
    using f by (auto simp: marks_def)
  ultimately show "upd_item x f s = Some (s\<lparr>mc_items := (mc_items s)(x \<mapsto> f i)\<rparr>)"
    "cache_ok hash (s\<lparr>mc_items := (mc_items s)(x \<mapsto> f i)\<rparr>) M L F R"
    using cache_ok_upd [OF ok x(2) live, where f = f and R' = R] by simp_all
qed

end
