(* ===== verification/MC_Spec.thy ===== *)
theory MC_Spec
  imports MC_Hash MC_Bipbuffer MC_Assoc_Correct MC_Cache_Ops
begin

text \<open>
  What the parts of the DRAM cache (\<open>src/extra/KVS-DRAM-Cache/\<close>) promise, as theorems with
  applications to concrete inputs.
\<close>

section \<open>Hash functions\<close>

text \<open>
  C34. \<open>jenkins_hash\<close> is a function of the bytes of the key: wherever the key lies in memory,
  and whatever follows it, the three branches for the three alignments compute the same hash of
  the byte string, in which a short last block counts as if filled up with zeros.
\<close>

theorem jenkins_hash_of_bytes:
  assumes "\<forall>i < length bs. m (key + of_nat i) = bs ! i"
  shows "jenkins_hash m key (length bs) = jenkins_spec bs"
  by (rule jenkins_hash_spec) (use assms in \<open>simp add: bytes_at_def\<close>)

text \<open>A key at an aligned, at an even and at an odd address, between bytes of value 7.\<close>

definition demo_memory :: "u64 \<Rightarrow> memory" where
  "demo_memory p a = (if unat (a - p) < 5 then [104, 101, 108, 108, 111] ! unat (a - p) else 7)"

lemma demo_memory_at: "i < 5 \<Longrightarrow> demo_memory p (p + of_nat i) = [104, 101, 108, 108, 111] ! i"
  by (simp add: demo_memory_def unat_of_nat)

theorem jenkins_hash_of_bytes_witness:
  "jenkins_hash (demo_memory 4) 4 5 = 0x34cbbc6e \<and> jenkins_hash (demo_memory 6) 6 5 = 0x34cbbc6e \<and>
   jenkins_hash (demo_memory 9) 9 5 = 0x34cbbc6e"
proof -
  have "jenkins_hash (demo_memory p) p 5 = jenkins_spec [104, 101, 108, 108, 111]" for p
    using jenkins_hash_of_bytes [of "[104, 101, 108, 108, 111]" "demo_memory p" p] demo_memory_at [of _ p]
    by (simp add: eval_nat_numeral)
  moreover have "jenkins_spec [104, 101, 108, 108, 111] = 0x34cbbc6e" by code_simp
  ultimately show ?thesis by simp
qed

text \<open>
  C35. \<open>mix\<close> is reversible, as its comment says: \<open>unmix\<close> undoes it on both sides, so no two
  internal states are mixed into one.
\<close>

theorem mix_reversible: "unmix (mix s) = s \<and> mix (unmix s) = s"
  by (simp add: unmix_mix mix_unmix)



section \<open>The byte buffer\<close>

text \<open>
  C37. A new bip buffer is a byte queue: in every sequence of offers, of requests followed by a
  write and a push, and of polls of at most what \<open>bipbuf_peek_all\<close> shows, no access leaves the
  array, what was accepted is what came out followed by what is still inside, in order, and
  \<open>bipbuf_used\<close> and \<open>bipbuf_is_empty\<close> tell how much that is.
\<close>

theorem bipbuf_is_fifo:
  assumes "bipbuf_new sz (Some mem) = Some me" "length (bb_data mem) = unat sz" "unat sz < 2 ^ 31"
  shows "\<exists>ins outs me'. queue_run bipbuf_offer bip_reserve bip_take ops me = Inr (ins, outs, me') \<and>
    ins = outs @ bip_content me' \<and> bipbuf_used me' = int (length (bip_content me')) \<and>
    length (bip_content me') \<le> unat (bb_size me') \<and> (bipbuf_is_empty me' \<longleftrightarrow> bip_content me' = [])"
proof -
  from new_inv [OF assms] have "bip_inv me" "bip_content me = []" by auto
  then obtain ins outs me' where "queue_run bipbuf_offer bip_reserve bip_take ops me = Inr (ins, outs, me')"
      "bip_inv me'" "ins = outs @ bip_content me'"
    using bip.run_is_fifo [of me ops] by auto
  with content_used [of me'] content_empty [of me'] show ?thesis by blast
qed

definition demo_bip :: bipbuf where
  "demo_bip = \<lparr>bb_size = 0, a_start = 9, a_end = 9, b_end = 9, b_inuse = 9, bb_data = [9, 9, 9, 9, 9, 9, 9, 9]\<rparr>"

theorem bipbuf_is_fifo_witness:
  "\<exists>me'. queue_run bipbuf_offer bip_reserve bip_take
     [Offer [1, 2, 3, 4, 5, 6], Take 4, Reserve 3 [7, 8], Take 9] (bipbuf_init 8 demo_bip) =
       Inr ([1, 2, 3, 4, 5, 6, 7, 8], [1, 2, 3, 4, 5, 6], me') \<and> bip_content me' = [7, 8]"
proof -
  have new: "bipbuf_new 8 (Some demo_bip) = Some (bipbuf_init 8 demo_bip)" by (simp add: bipbuf_new_def)
  have run: "map_sum id (\<lambda>(i, out, _). (i, out)) (queue_run bipbuf_offer bip_reserve bip_take
     [Offer [1, 2, 3, 4, 5, 6], Take 4, Reserve 3 [7, 8], Take 9] (bipbuf_init 8 demo_bip)) =
       Inr ([1, 2, 3, 4, 5, 6, 7, 8], [1, 2, 3, 4, 5, 6])" by code_simp
  show ?thesis
    using bipbuf_is_fifo [OF new, of "[Offer [1, 2, 3, 4, 5, 6], Take 4, Reserve 3 [7, 8], Take 9]"] run
    by (auto simp: demo_bip_def)
qed

text \<open>
  C38. Space of a bip buffer: an offer is accepted exactly when it fits into \<open>bipbuf_unused\<close>
  bytes; after a successful request of \<open>n\<close> bytes and a push of \<open>k\<close> of them an offer of the other
  \<open>n - k\<close> bytes cannot fail, even if the push switches to the other region, as the logger relies
  on; an empty buffer accepts as much as its whole size.
\<close>

theorem bipbuf_space:
  assumes "bip_inv me"
  shows "(\<exists>me'. bipbuf_offer me xs = Inr (if int (length xs) \<le> bipbuf_unused me then int (length xs) else 0, me')) \<and>
    (bipbuf_request me (int n) \<noteq> None \<and> k \<le> n \<longrightarrow>
       (\<exists>me'. bipbuf_push me (int k) = (int k, me') \<and> bip_inv me' \<and> int (n - k) \<le> bipbuf_unused me')) \<and>
    (bip_content me = [] \<longrightarrow> bipbuf_unused me = int (unat (bb_size me)))"
proof (intro conjI impI)
  show "\<exists>me'. bipbuf_offer me xs = Inr (if int (length xs) \<le> bipbuf_unused me then int (length xs) else 0, me')"
    using offer_outcome [OF assms, of xs] by (auto simp: unused_room [OF assms] split: if_splits)
next
  assume r: "bipbuf_request me (int n) \<noteq> None \<and> k \<le> n"
  then have k: "k \<le> bip_room me" "n \<le> bip_room me" by (auto simp: request_end [OF assms] split: if_splits)
  obtain q me' where p: "bipbuf_push me (int k) = (q, me')" by fastforce
  from push_keeps [OF assms k(1) p] k(2) p
  show "\<exists>me'. bipbuf_push me (int k) = (int k, me') \<and> bip_inv me' \<and> int (n - k) \<le> bipbuf_unused me'"
    by (auto simp: unused_room)
next
  assume "bip_content me = []"
  then have "a_start me = a_end me" using content_empty [OF assms] by (simp add: bipbuf_is_empty_def)
  then show "bipbuf_unused me = int (unat (bb_size me))"
    using assms by (auto simp: unused_room bip_room_def bip_inv_def)
qed

theorem bipbuf_space_witness:
  "\<exists>me'. bipbuf_offer (bipbuf_init 8 demo_bip) [1, 2, 3] = Inr (3, me')"
proof -
  have inv: "bip_inv (bipbuf_init 8 demo_bip)" by (simp add: bip_inv_def bipbuf_init_def demo_bip_def)
  have "bipbuf_unused (bipbuf_init 8 demo_bip) = 8" by code_simp
  with bipbuf_space [OF inv, of "[1, 2, 3]" 0 0] show ?thesis by simp
qed

section \<open>The hash table\<close>

text \<open>
  C39. The hash table is a map from keys to items in every interleaving of insertions, deletions
  and rounds of the maintenance thread, which may start an expansion or leave one half done:
  \<open>assoc_find\<close> returns the item of the key or null, \<open>hash_items\<close> is the number of keys, and the
  next call returns too: an insertion of a new key, a deletion of a present one, a maintenance
  round; deleting an absent key fails the assertion at the end of \<open>assoc_delete\<close>.
\<close>

theorem assoc_is_map:
  assumes "assoc_init True n s = Some s0" "0 < n" "n \<le> 32" "hashpower s \<le> 32" "\<not> expanding s" "hash_items s = 0"
    and "assoc_runs hash s0 (\<lambda>_. None) t M"
  shows "(\<forall>k. assoc_find k (hash k) t = Some (Inr (case M k of None \<Rightarrow> 0 | Some x \<Rightarrow> x))) \<and>
    hash_items t = of_nat (card (dom M)) \<and>
    (\<forall>x i. mc_items t x = Some i \<and> x \<noteq> 0 \<and> (\<forall>k. M k \<noteq> Some x) \<and> M (it_key i) = None \<longrightarrow>
       (\<exists>t'. assoc_insert x (hash (it_key i)) t = Inr (1, t'))) \<and>
    (\<forall>k. if M k = None then assoc_delete k (hash k) t = Some (Inl AssertFail)
         else \<exists>t'. assoc_delete k (hash k) t = Some (Inr t')) \<and>
    (hashpower t < 32 \<longrightarrow> (\<forall>locks signalled ok. \<exists>t'. assoc_maintenance_thread hash locks signalled ok t = Some (Inr t')))"
proof -
  have h: "assoc_holds hash t M"
    by (rule assoc_runs_holds [OF assms(7) assoc_init_holds]) (use assms in auto)
  show ?thesis
  proof (intro conjI allI impI)
    show "assoc_find k (hash k) t = Some (Inr (case M k of None \<Rightarrow> 0 | Some x \<Rightarrow> x))" for k by (rule assoc_find_holds [OF h])
    show "hash_items t = of_nat (card (dom M))" using h by (simp add: assoc_holds_def)
    show "\<exists>t'. assoc_insert x (hash (it_key i)) t = Inr (1, t')"
      if "mc_items t x = Some i \<and> x \<noteq> 0 \<and> (\<forall>k. M k \<noteq> Some x) \<and> M (it_key i) = None" for x i
      using assoc_insert_holds [OF h, of x i] that by auto
    show "if M k = None then assoc_delete k (hash k) t = Some (Inl AssertFail)
        else \<exists>t'. assoc_delete k (hash k) t = Some (Inr t')" for k
      using assoc_delete_absent [OF h, of k] assoc_delete_holds [OF h, of k] by auto
    show "\<exists>t'. assoc_maintenance_thread hash locks signalled ok t = Some (Inr t')" if "hashpower t < 32" for locks signalled ok
      using maintenance_thread_holds [OF h that] by blast
  qed
qed

definition demo_item :: "bytes \<Rightarrow> item" where
  "demo_item k = \<lparr>it_next = 0, it_prev = 0, h_next = 0, it_time = 0, it_exptime = 0, it_nbytes = 2, it_refcount = 1,
     it_nsuffix = 0, it_flags = 0, slabs_clsid = 1, it_key = k, it_skey = 0, it_vptr = 0, it_vtag = 0, it_cas = 0, it_suffix = [], it_data = [13, 10]\<rparr>"

definition demo_assoc :: assoc where
  "demo_assoc = \<lparr>mc_items = [16 \<mapsto> demo_item [97], 32 \<mapsto> demo_item [98]], hashpower = 27, primary_hashtable = [], old_hashtable = [],
     hash_items = 0, expanding = False, started_expanding = False, expand_bucket = 0, hash_power_level = 0, hash_bytes = 0,
     hash_is_expanding = False\<rparr>"

definition demo_table :: assoc where
  "demo_table = demo_assoc\<lparr>hashpower := 1, primary_hashtable := [0, 0], hash_power_level := 1, hash_bytes := 16\<rparr>"

lemma demo_table: "assoc_init True 1 demo_assoc = Some demo_table"
proof -
  have "unat (hashsize 1) = 2" using hashsize_unat [of 1] by simp
  moreover have "hashsize 1 * 8 = 16" by (simp add: hashsize_def)
  ultimately show ?thesis by (simp add: assoc_init_def demo_assoc_def demo_table_def numeral_2_eq_2)
qed

theorem assoc_is_map_witness:
  "\<exists>t. assoc_insert 16 (murmur_spec [97]) demo_table = Inr (1, t) \<and>
     assoc_find [97] (murmur_spec [97]) t = Some (Inr 16) \<and> assoc_find [98] (murmur_spec [98]) t = Some (Inr 0)"
proof -
  have items: "mc_items demo_table 16 = Some (demo_item [97])" by (simp add: demo_table_def demo_assoc_def)
  have key: "it_key (demo_item [97]) = [97]" by (simp add: demo_item_def)
  have pre: "(0 :: nat) < 1" "(1 :: nat) \<le> 32" "hashpower demo_assoc \<le> 32" "\<not> expanding demo_assoc" "hash_items demo_assoc = 0"
    by (simp_all add: demo_assoc_def)
  note map = assoc_is_map [OF demo_table pre, of murmur_spec]
  have "\<exists>t. assoc_insert 16 (murmur_spec (it_key (demo_item [97]))) demo_table = Inr (1, t)"
    using map [OF runs_refl] items by auto
  then obtain t where t: "assoc_insert 16 (murmur_spec [97]) demo_table = Inr (1, t)" unfolding key by blast
  have "assoc_runs murmur_spec demo_table (\<lambda>_. None) t ((\<lambda>_. None)(it_key (demo_item [97]) \<mapsto> 16))"
    by (rule runs_insert [OF runs_refl items, where r = 1]) (use t key in simp_all)
  from map [OF this] t show ?thesis by (simp add: key)
qed



end
