(* ===== verification/Spec2Isabelle.thy ===== *)
theory Spec2Isabelle
  imports RT_Tree_Spec RT_KVS_Spec SO_Spec CL_Spec MC_Spec
begin

text \<open>
  \<^bold>\<open>openfam-radixtree in Isabelle/HOL.\<close> The program is a library of key-value stores that live in
  fabric-attached memory (FAM), shared by all processes of a machine, and the parts around them:
  a cluster of cache servers with its client library, and a DRAM cache made from memcached.
  This development models the program's own code as executable HOL functions, operation by
  operation, and proves what makes each part correct. It also records where the code does
  something else than it means to.

  \<^bold>\<open>The parts and how they interact.\<close>
  \<^item> \<open>src/src/radix_tree.cc\<close>: a radix tree of nodes in FAM, changed only by compare-and-swap. Cells
    hold a pointer and a version tag (\<open>src/include/radixtree/common.h\<close>).
  \<^item> \<open>src/src/split_ordered.cc\<close>: a hash table as one list in bit-reversed hash order.
  \<^item> \<open>src/src/kvs_radix_tree.cc\<close>, \<open>kvs_radix_tree_tiny.cc\<close>, \<open>kvs_split_ordered.cc\<close>: three stores
    behind the abstract class \<open>KeyValueStore\<close>, made by the factory \<open>src/src/kvs.cc\<close>. They
    allocate value buffers in the NVMM heap and put pointers to them into a tree or list.
  \<^item> \<open>src/src/cluster/\<close> and \<open>src/src/kvs_client/\<close>: configuration files, the placement of
    partitions on nodes and servers, and the client that sends requests to them.
  \<^item> \<open>src/extra/KVS-DRAM-Cache/\<close>: a memcached whose items remember the node and the version tag of
    their key in the store.

  \<^bold>\<open>Theories.\<close>
  \<^item> \<open>RT_Prelude\<close>: machine types, faults, the loop combinator \<open>run\<close> with its total-correctness
    rule, prefixes and lexicographic order of byte strings.
  \<^item> \<open>RT_Common\<close>: \<open>TagGptr\<close>, marks and tags in pointer words. \<open>RT_Heap\<close>: \<open>RadixTree::Node\<close>, the
    shared memory, atomic reads and compare-and-swap, and the NVMM heap as a record of
    operations (a parameter) with the laws \<open>nvmm_ok\<close> the code relies on; a bump allocator shows
    that they can hold.
  \<^item> \<open>RT_Tree\<close>: every operation of \<open>class RadixTree\<close> as a step function with the local variables
    of its loop, one step per access of shared memory that matters. \<open>RT_Scan\<close>: range scans.
  \<^item> \<open>RT_Tree_Inv\<close>: the invariant \<open>tree_inv\<close> and the contents of a tree. \<open>RT_Tree_Update\<close>: the
    three ways a tree changes in memory. \<open>RT_Tree_Get\<close>, \<open>RT_Tree_Put\<close>: lookups and updates
    against the contents, through the locale \<open>tree_walk\<close> for the four searching loops.
    \<open>RT_Tree_Order\<close>, \<open>RT_Tree_List\<close>, \<open>RT_Scan_Correct\<close>: the nodes in key order, \<open>list\<close>,
    \<open>structure\<close> and scans. \<open>RT_Tree_Spec\<close>: the theorems.
  \<^item> \<open>RT_KVS\<close>, \<open>RT_KVS_Tiny\<close>: the two stores over the tree. \<open>RT_KVS_Correct\<close>, \<open>RT_KVS_Scan\<close>,
    \<open>RT_KVS_Cached\<close>: the invariant that ties value buffers to cells, the operations against a
    map, scans, and the operations with cached pointers and version tags (locale
    \<open>versioned_cells\<close>). \<open>RT_KVS_Interface\<close>: the contract of \<open>KeyValueStore\<close> as the locales
    \<open>key_value_store\<close> and \<open>aborting_store\<close>, interpreted on all three stores. \<open>RT_Demo\<close>: a concrete
    tree and store. \<open>RT_KVS_Spec\<close>: the theorems.
  \<^item> \<open>SO_Keys\<close>, \<open>SO_List\<close>, \<open>SO_KVS\<close>, \<open>KVS_Factory\<close>: keys, list, store and factory; \<open>SO_Path\<close>,
    \<open>SO_Correct\<close>, \<open>SO_Ops\<close>: the list in memory, its invariant and its operations; \<open>SO_Spec\<close>.
  \<^item> \<open>CL_Config\<close>, \<open>CL_Cluster\<close>, \<open>CL_Client\<close>: configuration, managers, client; \<open>CL_Correct\<close>: the
    tables of the managers are inverse to each other; \<open>CL_Spec\<close>.
  \<^item> \<open>MC_Hash\<close>, \<open>MC_Bipbuffer\<close>: hash functions and byte buffer of the DRAM cache (locale
    \<open>byte_queue\<close>). \<open>MC_Assoc\<close>: its hash table with incremental expansion, \<open>MC_Assoc_Correct\<close>: the
    table as a map (\<open>assoc_holds\<close>) and its runs. \<open>MC_Slabs\<close>, \<open>MC_Items\<close>: the slab allocator, items,
    references and LRU lists. \<open>MC_Lists\<close>: doubly linked lists in memory and the LRU lists,
    \<open>MC_Slabs_Correct\<close>: pages, chunks and free lists, \<open>MC_Cache\<close>: the invariant \<open>cache_ok\<close> that ties
    table, lists, free chunks and reference counts together, \<open>MC_Cache_Ops\<close>: updates and moves
    under it. \<open>MC_Spec\<close>: the theorems.

  \<^bold>\<open>What is shown.\<close> For one process at a time, every operation of the tree and of the list is
  proved against the map it stands for, on every branch, with termination; the stores refine
  maps for every sequence of calls; scans deliver exactly the range in order; a cached value
  whose tag is reported current is the stored value, below \<open>2 ^ 64\<close> updates; table indices stay
  in bounds. Configuration files survive saving and loading, the location of a key serves its
  partition, and the client's outcomes are characterised. The hash functions equal their
  byte-string definitions at every alignment; the byte buffer is a queue. Where the code is
  wrong, a theorem says how: end keys with bytes from 128 on, keys that are prefixes of each
  other under one hash, partitions of large hashes, clients without a server left.

  \<^bold>\<open>Bounds and fuel.\<close> Loops are \<open>run\<close> or \<open>partial_function (option)\<close>, so that not returning is
  \<open>None\<close>, and the theorems state that a result is returned. \<open>recursive_list\<close> takes a depth:
  \<open>list_depth\<close> is 130, more than the 129 nodes a path can have with keys of at most 128 bytes.
  \<open>get_server\<close> picks at most 100 locations, as the code does. Lengths of byte strings are
  natural numbers; counters, tags, hashes, ids and buffer positions are words that wrap.

  \<^bold>\<open>Parameters.\<close> The NVMM heap and epoch manager, \<open>CityHash64\<close>, \<open>std::hash\<close>, \<open>std::rand\<close>, the
  YAML library (a parsed file is a record of optional entries) and libmemcached are arguments.

  \<^bold>\<open>Not modelled.\<close> Interleavings of processes are in the model (every step function works on
  shared memory and retries) but the theorems are about one process at a time. \<open>Print\<close> and
  metrics functions write to the console only. Of the DRAM cache, the moving of slab pages, the
  threads, the network daemon, logger and crawler are left out; so are tests, benchmarks and
  vendored libraries.
\<close>

end
